(* ===== verification/DPX_Prelude.thy ===== *)
theory DPX_Prelude
  imports Main "HOL-Library.Word"
begin

unbundle bit_operations_syntax

text \<open>
  The vocabulary every component theory shares: the machine integer types of the C and
  C++ sources, outcomes of operations that can fail, little-endian encodings (both the x86
  host and the BlueField DPU are little-endian), byte strings that are read and written at
  an offset, and a byte-addressed 64-bit memory.
\<close>

section \<open>Machine integers and outcomes\<close>

type_synonym u8 = "8 word"
type_synonym u16 = "16 word"
type_synonym u32 = "32 word"
type_synonym u64 = "64 word"

text \<open>
  How an operation can fail. \<open>Assert_fail\<close> is a failed \<^verbatim>\<open>assert\<close> (the checks the release
  build compiles out), \<open>Die\<close> is an exception nobody catches (the \<^verbatim>\<open>die\<close> macro of
  \<^verbatim>\<open>lib/util/fatal.hxx\<close>, a promise that is set twice), \<open>Unreachable\<close> is \<^verbatim>\<open>unreachable()\<close>, \<open>Out_of_bounds\<close> is an access
  outside an array or buffer (undefined behaviour in C++), \<open>Out_of_fuel\<close> is a recursion that
  went deeper than the bound it was given.
\<close>

datatype err = Assert_fail | Die | Unreachable | Out_of_bounds | Out_of_fuel

type_synonym 'a result = "err + 'a"

definition bnd :: "'a result \<Rightarrow> ('a \<Rightarrow> 'b result) \<Rightarrow> 'b result" where
  "bnd r f = (case r of Inl e \<Rightarrow> Inl e | Inr x \<Rightarrow> f x)"

definition check :: "bool \<Rightarrow> err \<Rightarrow> unit result" where
  "check b e = (if b then Inr () else Inl e)"

lemma bnd_Inr [simp]: "bnd (Inr x) f = f x"
  by (simp add: bnd_def)

lemma bnd_Inl [simp]: "bnd (Inl e) f = Inl e"
  by (simp add: bnd_def)

lemma bnd_eq_Inr_iff: "bnd r f = Inr y \<longleftrightarrow> (\<exists>x. r = Inr x \<and> f x = Inr y)"
  by (cases r) auto

lemma bnd_InrE [elim!]:
  assumes "bnd r f = Inr y"
  obtains x where "r = Inr x" "f x = Inr y"
  using assms by (auto simp: bnd_eq_Inr_iff)

lemma bnd_assoc: "bnd (bnd r f) g = bnd r (\<lambda>x. bnd (f x) g)"
  by (cases r) auto

lemma bnd_cong [fundef_cong]:
  "r = r' \<Longrightarrow> (\<And>x. r' = Inr x \<Longrightarrow> f x = f' x) \<Longrightarrow> bnd r f = bnd r' f'"
  by (cases r') auto

lemma check_True [simp]: "check True e = Inr ()"
  and check_False [simp]: "check False e = Inl e"
  and check_eq_Inr [simp]: "check b e = Inr u \<longleftrightarrow> b"
  by (auto simp: check_def)

lemma map_le_Some: "m \<subseteq>\<^sub>m m' \<Longrightarrow> m x = Some y \<Longrightarrow> m' x = Some y"
  unfolding map_le_def by (drule bspec [of _ _ x]) auto

section \<open>Collections of proof rules\<close>

named_theorems mem_simps \<open>reading and writing byte strings and memories\<close>
named_theorems op_defs \<open>one-line accessors of the modelled classes, safe to unfold\<close>

section \<open>Little-endian encodings\<close>

lemma unat_less: "unat (w :: 'a::len word) < 2 ^ LENGTH('a)"
  by (rule unsigned_less)

lemma unat_ucast_up:
  fixes w :: "'a::len word"
  assumes "LENGTH('a) \<le> LENGTH('b::len)"
  shows "unat (ucast w :: 'b word) = unat w"
proof -
  have "unat w < 2 ^ LENGTH('b)"
    using unat_less [of w] assms by (meson less_le_trans power_increasing one_le_numeral)
  then show ?thesis by (simp add: unsigned_ucast_eq take_bit_nat_eq_self)
qed

lemma ucast_ucast_u32 [simp]: "(ucast (ucast c :: u64) :: u32) = c"
  by (rule bit_word_eqI) (simp add: bit_ucast_iff)

lemma ucast_add_u32: "(ucast (x + y :: u64) :: u32) = ucast x + ucast y"
  by (intro word_unat_eq_iff [THEN iffD2]) (simp add: unat_word_ariths unsigned_ucast_eq take_bit_eq_mod mod_mod_cancel mod_add_eq)

lemma ucast_sub_u32: "(ucast (x - y :: u64) :: u32) = ucast x - ucast y"
  using ucast_add_u32 [of "x - y" y] by simp

primrec le_bytes :: "nat \<Rightarrow> nat \<Rightarrow> u8 list" where
  "le_bytes 0 v = []"
| "le_bytes (Suc n) v = of_nat v # le_bytes n (v div 256)"

primrec le_val :: "u8 list \<Rightarrow> nat" where
  "le_val [] = 0"
| "le_val (b # bs) = unat b + 256 * le_val bs"

lemma length_le_bytes [simp]: "length (le_bytes n v) = n"
  by (induction n arbitrary: v) auto

lemma le_val_le_bytes: "le_val (le_bytes n v) = v mod 256 ^ n"
proof (induction n arbitrary: v)
  case 0
  then show ?case by simp
next
  case (Suc n)
  have "unat (of_nat v :: u8) = v mod 256" by (simp add: unat_of_nat)
  then show ?case by (simp add: Suc mod_mult2_eq)
qed

lemma le_bytes_le_val: "le_bytes (length bs) (le_val bs) = bs"
proof (induction bs)
  case Nil
  then show ?case by simp
next
  case (Cons b bs)
  have "unat b < 256" using unat_less [of b] by simp
  then have "(unat b + 256 * le_val bs) div 256 = le_val bs" by simp
  moreover have "(of_nat (unat b + 256 * le_val bs) :: u8) = b"
    using \<open>unat b < 256\<close> unat_of_nat [where 'a = 8, of "unat b + 256 * le_val bs"]
    by (intro word_unat_eq_iff [THEN iffD2]) simp
  ultimately show ?case by (simp add: Cons)
qed

lemma le_val_bound: "le_val bs < 256 ^ length bs"
  using le_val_le_bytes [of "length bs" "le_val bs"] le_bytes_le_val [of bs]
  by (metis mod_less_divisor zero_less_power zero_less_numeral)

definition u16_bytes :: "u16 \<Rightarrow> u8 list" where "u16_bytes w = le_bytes 2 (unat w)"
definition u32_bytes :: "u32 \<Rightarrow> u8 list" where "u32_bytes w = le_bytes 4 (unat w)"
definition u64_bytes :: "u64 \<Rightarrow> u8 list" where "u64_bytes w = le_bytes 8 (unat w)"

definition bytes_u16 :: "u8 list \<Rightarrow> u16" where "bytes_u16 bs = of_nat (le_val bs)"
definition bytes_u32 :: "u8 list \<Rightarrow> u32" where "bytes_u32 bs = of_nat (le_val bs)"
definition bytes_u64 :: "u8 list \<Rightarrow> u64" where "bytes_u64 bs = of_nat (le_val bs)"

lemma length_word_bytes [simp]:
  "length (u16_bytes w) = 2" "length (u32_bytes x) = 4" "length (u64_bytes y) = 8"
  by (simp_all add: u16_bytes_def u32_bytes_def u64_bytes_def)

lemma word_bytes_roundtrip [simp]:
  "bytes_u16 (u16_bytes w) = w" "bytes_u32 (u32_bytes x) = x" "bytes_u64 (u64_bytes y) = y"
  using unat_less [of w] unat_less [of x] unat_less [of y]
  by (simp_all add: bytes_u16_def u16_bytes_def bytes_u32_def u32_bytes_def bytes_u64_def
      u64_bytes_def le_val_le_bytes)

lemma bytes_word_roundtrip:
  "length bs = 2 \<Longrightarrow> u16_bytes (bytes_u16 bs) = bs"
  "length bs = 4 \<Longrightarrow> u32_bytes (bytes_u32 bs) = bs"
  "length bs = 8 \<Longrightarrow> u64_bytes (bytes_u64 bs) = bs"
  using le_bytes_le_val [of bs] le_val_bound [of bs]
  by (simp_all add: bytes_u16_def u16_bytes_def bytes_u32_def u32_bytes_def bytes_u64_def
      u64_bytes_def unat_of_nat)

section \<open>Byte strings accessed at an offset\<close>

definition chunk :: "'a list \<Rightarrow> nat \<Rightarrow> nat \<Rightarrow> 'a list" where
  "chunk xs off n = take n (drop off xs)"

definition patch :: "'a list \<Rightarrow> nat \<Rightarrow> 'a list \<Rightarrow> 'a list" where
  "patch xs off ys = take off xs @ ys @ drop (off + length ys) xs"

lemma length_chunk [simp]: "length (chunk xs off n) = min n (length xs - off)"
  by (simp add: chunk_def)

lemma length_patch [simp]: "off + length ys \<le> length xs \<Longrightarrow> length (patch xs off ys) = length xs"
  by (simp add: patch_def)

lemma nth_patch:
  "off + length ys \<le> length xs \<Longrightarrow> i < length xs \<Longrightarrow>
   patch xs off ys ! i = (if off \<le> i \<and> i < off + length ys then ys ! (i - off) else xs ! i)"
  by (auto simp: patch_def nth_append min_def)

lemma nth_chunk [simp]: "i < n \<Longrightarrow> off + i < length xs \<Longrightarrow> chunk xs off n ! i = xs ! (off + i)"
  by (simp add: chunk_def)

lemma chunk_patch_same [mem_simps]:
  "off + length ys \<le> length xs \<Longrightarrow> n = length ys \<Longrightarrow> chunk (patch xs off ys) off n = ys"
  by (auto simp: list_eq_iff_nth_eq nth_patch)

lemma chunk_patch_before [mem_simps]:
  "off + length ys \<le> length xs \<Longrightarrow> a + n \<le> off \<Longrightarrow> chunk (patch xs off ys) a n = chunk xs a n"
  by (auto simp: list_eq_iff_nth_eq nth_patch)

lemma chunk_patch_after [mem_simps]:
  "off + length ys \<le> length xs \<Longrightarrow> off + length ys \<le> a \<Longrightarrow> chunk (patch xs off ys) a n = chunk xs a n"
  by (auto simp: list_eq_iff_nth_eq nth_patch)

lemma take_patch [mem_simps]:
  "off + length ys \<le> length xs \<Longrightarrow> n \<le> off \<Longrightarrow> take n (patch xs off ys) = take n xs"
  by (simp add: patch_def min_def)

lemma take_patch_upto [mem_simps]:
  "off + length ys \<le> length xs \<Longrightarrow> n = off + length ys \<Longrightarrow> take n (patch xs off ys) = take off xs @ ys"
  by (simp add: patch_def)

lemma drop_patch [mem_simps]:
  "off + length ys \<le> length xs \<Longrightarrow> off + length ys \<le> n \<Longrightarrow> drop n (patch xs off ys) = drop n xs"
  by (auto simp: list_eq_iff_nth_eq nth_patch)

lemma patch_patch_append [mem_simps]:
  "off + length ys + length zs \<le> length xs \<Longrightarrow>
   patch (patch xs off ys) (off + length ys) zs = patch xs off (ys @ zs)"
  by (auto simp: list_eq_iff_nth_eq nth_patch nth_append)

lemma chunk_append:
  "chunk xs a (m + n) = chunk xs a m @ chunk xs (a + m) n"
  by (simp add: chunk_def take_add add.commute)

lemma chunk_take: "off + n \<le> k \<Longrightarrow> chunk (take k xs) off n = chunk xs off n"
  by (simp add: chunk_def drop_take)

lemma chunk_prefix: "take k ys = take k xs \<Longrightarrow> off + n \<le> k \<Longrightarrow> chunk ys off n = chunk xs off n"
  by (metis chunk_take)

lemma chunk_append_left: "off + n \<le> length xs \<Longrightarrow> chunk (xs @ ys) off n = chunk xs off n"
  by (simp add: chunk_def)

lemma chunk_append_right: "length xs \<le> off \<Longrightarrow> chunk (xs @ ys) off n = chunk ys (off - length xs) n"
  by (simp add: chunk_def)

section \<open>Byte-addressed memory\<close>

type_synonym mem = "u64 \<Rightarrow> u8"

definition rd :: "mem \<Rightarrow> u64 \<Rightarrow> nat \<Rightarrow> u8 list" where
  "rd m a n = map (\<lambda>i. m (a + of_nat i)) [0..<n]"

definition wr :: "mem \<Rightarrow> u64 \<Rightarrow> u8 list \<Rightarrow> mem" where
  "wr m a bs = (\<lambda>x. if unat (x - a) < length bs then bs ! unat (x - a) else m x)"

text \<open>The \<open>n\<close> bytes from \<open>a\<close> do not wrap around the address space.\<close>

definition region_ok :: "u64 \<Rightarrow> nat \<Rightarrow> bool" where
  "region_ok a n \<longleftrightarrow> unat a + n \<le> 2 ^ 64"

definition disjoint :: "u64 \<Rightarrow> nat \<Rightarrow> u64 \<Rightarrow> nat \<Rightarrow> bool" where
  "disjoint a n b k \<longleftrightarrow> unat a + n \<le> unat b \<or> unat b + k \<le> unat a"

lemma length_rd [simp]: "length (rd m a n) = n"
  by (simp add: rd_def)

lemma nth_rd [simp]: "i < n \<Longrightarrow> rd m a n ! i = m (a + of_nat i)"
  by (simp add: rd_def)

lemma rd_0 [simp]: "rd m a 0 = []"
  by (simp add: rd_def)

lemma wr_Nil [simp]: "wr m a [] = m"
  by (simp add: wr_def)

lemma unat_of_nat_u64: "i < 2 ^ 64 \<Longrightarrow> unat (of_nat i :: u64) = i"
  by (simp add: unat_of_nat)

lemma unat_add_region: "region_ok a n \<Longrightarrow> i < n \<Longrightarrow> unat (a + of_nat i) = unat a + i"
  by (simp add: region_ok_def unat_word_ariths unat_of_nat)

lemma unat_sub_u64: "unat (x - a :: u64) = (if unat a \<le> unat x then unat x - unat a else 2 ^ 64 + unat x - unat a)"
proof (cases "unat a \<le> unat x")
  case True
  then show ?thesis by (simp add: unat_sub word_le_nat_alt)
next
  case False
  then have "unat (x - a) = unat x + 2 ^ LENGTH(64) - unat a"
    using unat_sub_if' [of x a] by simp
  with False show ?thesis by simp
qed

lemma wr_apply:
  "region_ok a (length bs) \<Longrightarrow>
   wr m a bs x = (if unat a \<le> unat x \<and> unat x < unat a + length bs then bs ! (unat x - unat a) else m x)"
  using unat_less [of x] by (auto simp: wr_def unat_sub_u64 region_ok_def)

lemma rd_wr_same [mem_simps]:
  "region_ok a (length bs) \<Longrightarrow> n = length bs \<Longrightarrow> rd (wr m a bs) a n = bs"
  by (auto simp: list_eq_iff_nth_eq wr_apply unat_add_region)

lemma rd_wr_disjoint [mem_simps]:
  "region_ok a (length bs) \<Longrightarrow> region_ok b n \<Longrightarrow> disjoint a (length bs) b n \<Longrightarrow>
   rd (wr m a bs) b n = rd m b n"
  by (auto simp: list_eq_iff_nth_eq wr_apply unat_add_region disjoint_def)

lemma region_ok_mono: "region_ok a n \<Longrightarrow> k \<le> n \<Longrightarrow> region_ok a k"
  by (simp add: region_ok_def)

lemma wr_wr_append [mem_simps]:
  assumes "region_ok a (length xs + length ys)"
  shows "wr (wr m a xs) (a + of_nat (length xs)) ys = wr m a (xs @ ys)"
proof (cases "ys = []")
  case True
  then show ?thesis by simp
next
  case False
  then have "0 < length ys" by simp
  then have u: "unat (a + of_nat (length xs)) = unat a + length xs"
    using assms by (intro unat_add_region [of a "length xs + length ys"]) auto
  have "region_ok (a + of_nat (length xs)) (length ys)"
    using assms u by (simp add: region_ok_def)
  then show ?thesis
    using assms u region_ok_mono [OF assms, of "length xs"]
    by (intro ext) (auto simp: wr_apply nth_append)
qed

lemma rd_add: "rd m a (i + j) = rd m a i @ rd m (a + of_nat i) j"
  by (auto simp: list_eq_iff_nth_eq nth_append add.assoc simp flip: of_nat_add)

lemma rd_Suc: "rd m a (Suc n) = m a # rd m (a + 1) n"
  using rd_add [of m a 1 n] by (simp add: rd_def)

lemma rd_4: "rd m a 4 = [m a, m (a + 1), m (a + 2), m (a + 3)]"
  and rd_8: "rd m a 8 = [m a, m (a + 1), m (a + 2), m (a + 3), m (a + 4), m (a + 5), m (a + 6), m (a + 7)]"
  by (simp_all add: rd_def upt_rec)

end
