(* ===== verification/Hash_Map.thy ===== *)
theory Hash_Map
  imports DPX_Prelude
begin

text \<open>
  The chained hash maps of the serializers: \<^verbatim>\<open>lib/doca/kernel/map.h\<close> (the DPA kernel's
  \<^verbatim>\<open>map_t\<close>) and \<^verbatim>\<open>lib/sd/native/map.hxx\<close> (the host's \<^verbatim>\<open>MapImpl\<close>, one or two directions).
  Entries are stored in insertion order; \<^verbatim>\<open>slots\<close> holds the newest entry of every bucket and
  \<^verbatim>\<open>next\<close> links it to the older ones. The locale \<open>first_wins_map\<close> is the contract both promise
  to their callers; both implementations are interpretations of it.
\<close>

section \<open>Arrays with checked access\<close>

definition arr_get :: "'a list \<Rightarrow> nat \<Rightarrow> 'a result" where
  "arr_get xs i = (if i < length xs then Inr (xs ! i) else Inl Out_of_bounds)"

definition arr_set :: "'a list \<Rightarrow> nat \<Rightarrow> 'a \<Rightarrow> 'a list result" where
  "arr_set xs i x = (if i < length xs then Inr (xs[i := x]) else Inl Out_of_bounds)"

lemma arr_get_in [simp]: "i < length xs \<Longrightarrow> arr_get xs i = Inr (xs ! i)"
  and arr_get_out [simp]: "length xs \<le> i \<Longrightarrow> arr_get xs i = Inl Out_of_bounds"
  and arr_set_in [simp]: "i < length xs \<Longrightarrow> arr_set xs i x = Inr (xs[i := x])"
  and arr_set_out [simp]: "length xs \<le> i \<Longrightarrow> arr_set xs i x = Inl Out_of_bounds"
  by (simp_all add: arr_get_def arr_set_def)

section \<open>The kernel map\<close>

definition prime :: u16 where [simp]: "prime = 23"
definition capacity :: nat where [simp]: "capacity = 64"
definition invalid_mark :: u16 where [simp]: "invalid_mark = - 1"
definition invalid_value_u64 :: u64 where [simp]: "invalid_value_u64 = - 1"

record map_t =
  mt_n :: u16
  slots_k :: "u16 list"
  next_k :: "u16 list"
  entries :: "(u64 \<times> u64) list"

definition h :: "u64 \<Rightarrow> u16 \<Rightarrow> u16" where
  "h x p = ucast (x mod ucast p)"

text \<open>\<^verbatim>\<open>d_memset(m, -1, sizeof(map_t))\<close> sets every field to all ones.\<close>

definition init_map :: map_t where
  "init_map = \<lparr>mt_n = 0, slots_k = replicate (unat prime) (- 1), next_k = replicate capacity (- 1),
               entries = replicate capacity (- 1, - 1)\<rparr>"

definition map_add' :: "map_t \<Rightarrow> u64 \<Rightarrow> u64 \<Rightarrow> map_t result" where
  "map_add' m k v =
    (let n = mt_n m; nk = h k prime in
     bnd (arr_get (slots_k m) (unat nk)) (\<lambda>old.
     bnd (arr_set (next_k m) (unat n) old) (\<lambda>next'.
     bnd (arr_set (slots_k m) (unat nk) n) (\<lambda>slots'.
     bnd (arr_set (entries m) (unat n) (k, v)) (\<lambda>entries'.
       Inr (m\<lparr>mt_n := n + 1, next_k := next', slots_k := slots', entries := entries'\<rparr>))))))"

text \<open>
  The loop \<^verbatim>\<open>while (p != invalid_mark) { if (s[p].k == k) ...; p = next[p]; }\<close> all operations
  share: the position of the first entry of the chain with that key, or the invalid mark.
  \<open>None\<close> is a loop that never ends.
\<close>

partial_function (option) chain_find :: "u16 list \<Rightarrow> u64 list \<Rightarrow> u64 \<Rightarrow> u16 \<Rightarrow> u16 result option" where
  "chain_find next ks k p =
    (if p = - 1 then Some (Inr p)
     else case arr_get ks (unat p) of
       Inl e \<Rightarrow> Some (Inl e)
     | Inr k' \<Rightarrow>
       if k' = k then Some (Inr p)
       else case arr_get next (unat p) of
         Inl e \<Rightarrow> Some (Inl e)
       | Inr q \<Rightarrow> chain_find next ks k q)"

definition map_find :: "map_t \<Rightarrow> u64 \<Rightarrow> u16 result option" where
  "map_find m k =
    (case arr_get (slots_k m) (unat (h k prime)) of
       Inl e \<Rightarrow> Some (Inl e)
     | Inr p \<Rightarrow> chain_find (next_k m) (map fst (entries m)) k p)"

definition map_lookup :: "map_t \<Rightarrow> u64 \<Rightarrow> u64 result option" where
  "map_lookup m k = map_option (\<lambda>r. bnd r (\<lambda>p.
     if p = invalid_mark then Inr invalid_value_u64
     else bnd (arr_get (entries m) (unat p)) (\<lambda>(k', v). Inr v))) (map_find m k)"

text \<open>The reference is the index of the entry whose value it points to.\<close>

definition map_lookup_ref :: "map_t \<Rightarrow> u64 \<Rightarrow> nat option result option" where
  "map_lookup_ref m k = map_option (\<lambda>r. bnd r (\<lambda>p.
     Inr (if p = invalid_mark then None else Some (unat p)))) (map_find m k)"

definition map_insert :: "map_t \<Rightarrow> u64 \<Rightarrow> u64 \<Rightarrow> (map_t \<times> bool) result option" where
  "map_insert m k v = map_option (\<lambda>r. bnd r (\<lambda>p.
     if p = invalid_mark then bnd (map_add' m k v) (\<lambda>m'. Inr (m', True))
     else Inr (m, False))) (map_find m k)"

section \<open>The native map\<close>

datatype MapMode = Normal | Bidirect

text \<open>
  The template parameters \<^verbatim>\<open>capacity\<close> and \<^verbatim>\<open>prime\<close> are the lengths of the arrays. In
  \<^verbatim>\<open>Normal\<close> mode the value-side arrays do not exist and stay empty.
\<close>

record MapImpl =
  mi_mode :: MapMode
  mi_n :: u16
  mi_slots_k :: "u16 list"
  mi_next_k :: "u16 list"
  mi_slots_v :: "u16 list"
  mi_next_v :: "u16 list"
  mi_s :: "(u64 \<times> u64) list"

definition h_native :: "u64 \<Rightarrow> nat \<Rightarrow> u16" where
  "h_native x p =
    of_nat ((unat (ucast x :: u16) + unat (ucast (drop_bit 16 x) :: u16)
           + unat (ucast (drop_bit 32 x) :: u16) + unat (ucast (drop_bit 48 x) :: u16)) mod p)"

definition mi_init :: "MapMode \<Rightarrow> nat \<Rightarrow> nat \<Rightarrow> MapImpl" where
  "mi_init mode cap pr =
    \<lparr>mi_mode = mode, mi_n = 0,
     mi_slots_k = replicate pr (- 1), mi_next_k = replicate cap (- 1),
     mi_slots_v = (if mode = Bidirect then replicate pr (- 1) else []),
     mi_next_v = (if mode = Bidirect then replicate cap (- 1) else []),
     mi_s = replicate cap (- 1, - 1)\<rparr>"

definition mi_add :: "MapImpl \<Rightarrow> u64 \<Rightarrow> u64 \<Rightarrow> MapImpl result" where
  "mi_add m k v =
    (let n = mi_n m; m = m\<lparr>mi_n := n + 1\<rparr> in
     bnd (check (unat n < length (mi_s m)) Assert_fail) (\<lambda>_.
     let nk = unat (h_native k (length (mi_slots_k m))) in
     bnd (arr_get (mi_slots_k m) nk) (\<lambda>old.
     bnd (arr_set (mi_slots_k m) nk n) (\<lambda>slots'.
     bnd (arr_set (mi_next_k m) (unat n) old) (\<lambda>next'.
     let m = m\<lparr>mi_slots_k := slots', mi_next_k := next'\<rparr> in
     bnd (if mi_mode m = Bidirect then
            let nv = unat (h_native v (length (mi_slots_v m))) in
            bnd (arr_get (mi_slots_v m) nv) (\<lambda>oldv.
            bnd (arr_set (mi_slots_v m) nv n) (\<lambda>slotsv'.
            bnd (arr_set (mi_next_v m) (unat n) oldv) (\<lambda>nextv'.
              Inr (m\<lparr>mi_slots_v := slotsv', mi_next_v := nextv'\<rparr>))))
          else Inr m) (\<lambda>m.
     bnd (arr_set (mi_s m) (unat n) (k, v)) (\<lambda>s'. Inr (m\<lparr>mi_s := s'\<rparr>))))))))"

definition mi_find_k :: "MapImpl \<Rightarrow> u64 \<Rightarrow> u16 result option" where
  "mi_find_k m k =
    (case arr_get (mi_slots_k m) (unat (h_native k (length (mi_slots_k m)))) of
       Inl e \<Rightarrow> Some (Inl e)
     | Inr p \<Rightarrow> chain_find (mi_next_k m) (map fst (mi_s m)) k p)"

definition mi_find_v :: "MapImpl \<Rightarrow> u64 \<Rightarrow> u16 result option" where
  "mi_find_v m v =
    (case arr_get (mi_slots_v m) (unat (h_native v (length (mi_slots_v m)))) of
       Inl e \<Rightarrow> Some (Inl e)
     | Inr p \<Rightarrow> chain_find (mi_next_v m) (map snd (mi_s m)) v p)"

definition raw_lookup_v :: "MapImpl \<Rightarrow> u64 \<Rightarrow> u64 result option" where
  "raw_lookup_v m k = map_option (\<lambda>r. bnd r (\<lambda>p.
     if p = - 1 then Inr (- 1)
     else bnd (arr_get (mi_s m) (unat p)) (\<lambda>(k', v). Inr v))) (mi_find_k m k)"

definition raw_lookup_k :: "MapImpl \<Rightarrow> u64 \<Rightarrow> u64 result option" where
  "raw_lookup_k m v = map_option (\<lambda>r. bnd r (\<lambda>p.
     if p = - 1 then Inr (- 1)
     else bnd (arr_get (mi_s m) (unat p)) (\<lambda>(k, v'). Inr k))) (mi_find_v m v)"

definition lookup_v :: "MapImpl \<Rightarrow> u64 \<Rightarrow> (u64 \<times> bool) result option" where
  "lookup_v m k = map_option (\<lambda>r. bnd r (\<lambda>v. Inr (v, v \<noteq> - 1))) (raw_lookup_v m k)"

definition lookup_k :: "MapImpl \<Rightarrow> u64 \<Rightarrow> (u64 \<times> bool) result option" where
  "lookup_k m v = map_option (\<lambda>r. bnd r (\<lambda>k. Inr (k, k \<noteq> - 1))) (raw_lookup_k m v)"

definition insert_kv :: "MapImpl \<Rightarrow> u64 \<Rightarrow> u64 \<Rightarrow> (MapImpl \<times> bool) result option" where
  "insert_kv m k v = map_option (\<lambda>r. bnd r (\<lambda>p.
     if p = - 1 then bnd (mi_add m k v) (\<lambda>m'. Inr (m', True)) else Inr (m, False))) (mi_find_k m k)"

definition insert_vk :: "MapImpl \<Rightarrow> u64 \<Rightarrow> u64 \<Rightarrow> (MapImpl \<times> bool) result option" where
  "insert_vk m v k = map_option (\<lambda>r. bnd r (\<lambda>p.
     if p = - 1 then bnd (mi_add m k v) (\<lambda>m'. Inr (m', True)) else Inr (m, False))) (mi_find_v m v)"

definition for_each :: "MapImpl \<Rightarrow> (u64 \<Rightarrow> u64 \<Rightarrow> 's \<Rightarrow> 's) \<Rightarrow> 's \<Rightarrow> 's" where
  "for_each m fn st = fold (\<lambda>(k, v). fn k v) (take (unat (mi_n m)) (mi_s m)) st"

section \<open>Chains\<close>

text \<open>\<open>chain next p is\<close>: following \<open>next\<close> from \<open>p\<close> visits exactly the positions \<open>is\<close> and stops.\<close>

fun chain :: "u16 list \<Rightarrow> u16 \<Rightarrow> nat list \<Rightarrow> bool" where
  "chain next p [] \<longleftrightarrow> p = - 1"
| "chain next p (i # is) \<longleftrightarrow> p \<noteq> - 1 \<and> unat p = i \<and> i < length next \<and> chain next (next ! i) is"

text \<open>
  Every bucket's chain lists the positions of its entries, newest first.
\<close>

definition chain_ok :: "(u64 \<Rightarrow> nat) \<Rightarrow> u16 list \<Rightarrow> u16 list \<Rightarrow> u64 list \<Rightarrow> nat \<Rightarrow> bool" where
  "chain_ok hash slots next ks n \<longleftrightarrow>
     n \<le> length next \<and> length ks = length next \<and> length next \<le> 65535
     \<and> (\<forall>k. hash k < length slots)
     \<and> (\<forall>b < length slots. chain next (slots ! b) (rev (filter (\<lambda>i. hash (ks ! i) = b) [0..<n])))"

lemma chain_find_chain:
  "chain next p is \<Longrightarrow> length ks = length next \<Longrightarrow>
   chain_find next ks k p =
     Some (Inr (case find (\<lambda>i. ks ! i = k) is of None \<Rightarrow> - 1 | Some i \<Rightarrow> of_nat i))"
proof (induction "is" arbitrary: p)
  case Nil
  then show ?case by (simp add: chain_find.simps)
next
  case (Cons i "is")
  then show ?case by (auto simp: chain_find.simps [of "next" ks k p])
qed

lemma chain_update: "n \<notin> set is \<Longrightarrow> chain (next[n := x]) p is = chain next p is"
  by (induction "is" arbitrary: p) auto

lemma unat_u16_less: "n < 65535 \<Longrightarrow> unat (of_nat n :: u16) = n \<and> (of_nat n :: u16) \<noteq> - 1"
proof -
  assume n: "n < 65535"
  then have u: "unat (of_nat n :: u16) = n" by (simp add: unat_of_nat)
  have "unat (- 1 :: u16) = 65535" by (simp add: unsigned_minus_1_eq_mask mask_eq_exp_minus_1)
  with u n show ?thesis by (metis less_irrefl)
qed

lemma chain_ok_add:
  assumes ok: "chain_ok hash slots next ks n" and n: "n < length next"
  shows "chain_ok hash (slots[hash k := of_nat n]) (next[n := slots ! hash k]) (ks[n := k]) (Suc n)"
proof -
  have len: "length ks = length next" and "n < 65535" using ok n by (auto simp: chain_ok_def)
  then have un: "unat (of_nat n :: u16) = n" "(of_nat n :: u16) \<noteq> - 1" using unat_u16_less by blast+
  have hk: "hash k < length slots" using ok by (simp add: chain_ok_def)
  have old: "filter (\<lambda>i. hash (ks[n := k] ! i) = b) [0..<n] = filter (\<lambda>i. hash (ks ! i) = b) [0..<n]" for b
    by (rule filter_cong) auto
  have ch: "chain next (slots ! b) (rev (filter (\<lambda>i. hash (ks ! i) = b) [0..<n]))" if "b < length slots" for b
    using ok that by (simp add: chain_ok_def)
  have "chain (next[n := slots ! hash k]) (slots[hash k := of_nat n] ! b)
      (rev (filter (\<lambda>i. hash (ks[n := k] ! i) = b) [0..<Suc n]))" if b: "b < length slots" for b
  proof (cases "b = hash k")
    case True
    then show ?thesis
      using ch [OF hk] n un hk len by (simp add: old chain_update)
  next
    case False
    then show ?thesis using ch [OF b] n len by (simp add: old chain_update)
  qed
  then show ?thesis using ok n by (auto simp: chain_ok_def)
qed


lemma find_filter: "(\<And>x. P x \<Longrightarrow> Q x) \<Longrightarrow> find P (filter Q xs) = find P xs"
  by (induction xs) auto

lemma chain_ok_find:
  assumes "chain_ok hash slots next ks n"
  shows "chain_find next ks k (slots ! hash k) =
    Some (Inr (case find (\<lambda>i. ks ! i = k) (rev [0..<n]) of None \<Rightarrow> - 1 | Some i \<Rightarrow> of_nat i))"
proof -
  have "chain next (slots ! hash k) (rev (filter (\<lambda>i. hash (ks ! i) = hash k) [0..<n]))"
    using assms by (simp add: chain_ok_def)
  moreover have "find (\<lambda>i. ks ! i = k) (rev (filter (\<lambda>i. hash (ks ! i) = hash k) [0..<n]))
      = find (\<lambda>i. ks ! i = k) (rev [0..<n])"
    unfolding rev_filter by (rule find_filter) simp
  moreover have "length ks = length next" using assms by (simp add: chain_ok_def)
  ultimately show ?thesis by (simp add: chain_find_chain)
qed

text \<open>What the stored entries mean: the newest entry of a key is its binding.\<close>

definition entries_map :: "(u64 \<times> u64) list \<Rightarrow> nat \<Rightarrow> (u64 \<rightharpoonup> u64)" where
  "entries_map es n = map_of (rev (take n es))"

lemma entries_map_find:
  "n \<le> length es \<Longrightarrow>
   entries_map es n k = map_option (\<lambda>i. snd (es ! i)) (find (\<lambda>i. fst (es ! i) = k) (rev [0..<n]))"
proof (induction n)
  case 0
  then show ?case by (simp add: entries_map_def)
next
  case (Suc n)
  then have "entries_map es (Suc n) = (entries_map es n)(fst (es ! n) \<mapsto> snd (es ! n))"
    by (simp add: entries_map_def take_Suc_conv_app_nth fun_upd_def)
  with Suc show ?case by auto
qed

lemma entries_map_add: "n < length es \<Longrightarrow> entries_map (es[n := (k, v)]) (Suc n) = (entries_map es n)(k \<mapsto> v)"
  by (simp add: entries_map_def take_Suc_conv_app_nth)

lemma find_upt_SomeD: "find P (rev [0..<n]) = Some i \<Longrightarrow> i < n \<and> P i"
  by (auto simp: find_Some_iff rev_nth)

section \<open>The contract of an insert-only map\<close>

primrec insert_all :: "('m \<Rightarrow> u64 \<Rightarrow> u64 \<Rightarrow> ('m \<times> bool) result option) \<Rightarrow> 'm \<Rightarrow> (u64 \<times> u64) list \<Rightarrow> 'm result option" where
  "insert_all ins m [] = Some (Inr m)"
| "insert_all ins m (kv # kvs) =
    (case ins m (fst kv) (snd kv) of
       None \<Rightarrow> None
     | Some (Inl e) \<Rightarrow> Some (Inl e)
     | Some (Inr (m', _)) \<Rightarrow> insert_all ins m' kvs)"

locale first_wins_map =
  fixes ins :: "'m \<Rightarrow> u64 \<Rightarrow> u64 \<Rightarrow> ('m \<times> bool) result option"
    and look :: "'m \<Rightarrow> u64 \<Rightarrow> u64 result option"
    and invar :: "'m \<Rightarrow> bool"
    and abs_map :: "'m \<Rightarrow> (u64 \<rightharpoonup> u64)"
    and used :: "'m \<Rightarrow> nat"
    and room :: "'m \<Rightarrow> nat"
  assumes look: "invar m \<Longrightarrow> look m k = Some (Inr (case abs_map m k of None \<Rightarrow> - 1 | Some v \<Rightarrow> v))"
    and ins_present: "invar m \<Longrightarrow> abs_map m k = Some w \<Longrightarrow> ins m k v = Some (Inr (m, False))"
    and ins_absent: "invar m \<Longrightarrow> abs_map m k = None \<Longrightarrow> used m < room m \<Longrightarrow>
      \<exists>m'. ins m k v = Some (Inr (m', True)) \<and> invar m' \<and> abs_map m' = (abs_map m)(k \<mapsto> v)
         \<and> used m' = Suc (used m) \<and> room m' = room m"
begin

lemma ins_returns:
  assumes "invar m" "used m < room m"
  obtains m' b where "ins m k v = Some (Inr (m', b))" "invar m'"
    "abs_map m' = [k \<mapsto> v] ++ abs_map m" "used m' \<le> Suc (used m)" "room m' = room m"
proof (cases "abs_map m k")
  case None
  then have "[k \<mapsto> v] ++ abs_map m = (abs_map m)(k \<mapsto> v)"
    by (auto simp: map_add_def fun_eq_iff split: option.splits)
  with ins_absent [OF assms(1) None assms(2), of v] that show ?thesis by auto
next
  case (Some w)
  then have "[k \<mapsto> v] ++ abs_map m = abs_map m"
    by (auto simp: map_add_def fun_eq_iff split: option.splits)
  then show ?thesis using that [of m False] ins_present [OF assms(1) Some, of v] assms(1) by simp
qed

lemma insert_all_returns:
  assumes "invar m" "used m + length kvs \<le> room m"
  shows "\<exists>m'. insert_all ins m kvs = Some (Inr m') \<and> invar m' \<and> abs_map m' = map_of kvs ++ abs_map m"
  using assms
proof (induction kvs arbitrary: m)
  case Nil
  then show ?case by simp
next
  case (Cons kv kvs)
  obtain k v where kv: "kv = (k, v)" by (cases kv)
  from Cons.prems obtain m' b where m': "ins m k v = Some (Inr (m', b))" "invar m'"
      "abs_map m' = [k \<mapsto> v] ++ abs_map m" "used m' \<le> Suc (used m)" "room m' = room m"
    using ins_returns [of m k v] by auto
  with Cons.prems have "used m' + length kvs \<le> room m'" by simp
  from Cons.IH [OF m'(2) this] obtain m2 where m2: "insert_all ins m' kvs = Some (Inr m2)" "invar m2"
      "abs_map m2 = map_of kvs ++ abs_map m'" by blast
  have "map_of (kv # kvs) = map_of kvs ++ [k \<mapsto> v]"
    by (auto simp: kv fun_eq_iff map_add_def split: option.splits)
  with m2 m'(3) have "abs_map m2 = map_of (kv # kvs) ++ abs_map m" by (simp only: map_add_assoc)
  with m' m2 kv show ?case by (simp del: map_of.simps)
qed

lemma insert_all_used:
  assumes "invar m" "used m + length kvs \<le> room m" "distinct (map fst kvs)"
    "fst ` set kvs \<inter> dom (abs_map m) = {}" "insert_all ins m kvs = Some (Inr m')"
  shows "used m' = used m + length kvs \<and> room m' = room m"
  using assms
proof (induction kvs arbitrary: m)
  case Nil
  then show ?case by simp
next
  case (Cons kv kvs)
  obtain k v where kv: "kv = (k, v)" by (cases kv)
  from Cons.prems kv have "abs_map m k = None" "used m < room m" by auto
  from ins_absent [OF Cons.prems(1) this, of v] obtain m1 where
    m1: "ins m k v = Some (Inr (m1, True))" "invar m1" "abs_map m1 = (abs_map m)(k \<mapsto> v)"
      "used m1 = Suc (used m)" "room m1 = room m" by blast
  with Cons.prems kv have "fst ` set kvs \<inter> dom (abs_map m1) = {}" by auto
  from Cons.IH [OF m1(2) _ _ this] Cons.prems m1 kv show ?case by simp
qed

lemma insert_all_lookup:
  assumes "invar m" "abs_map m = Map.empty" "used m + length kvs \<le> room m"
  obtains m' where "insert_all ins m kvs = Some (Inr m')"
    "\<And>k. look m' k = Some (Inr (case map_of kvs k of None \<Rightarrow> - 1 | Some v \<Rightarrow> v))"
  using insert_all_returns [OF assms(1,3)] assms(2) look that by fastforce

end

section \<open>Both maps keep the contract\<close>

lemma h_less: "unat (h x prime) < 23"
proof -
  have "unat (x mod 23) < 23" by (simp add: unat_mod)
  then show ?thesis
    by (simp add: h_def unsigned_ucast_eq order.strict_trans1 [OF take_bit_nat_less_eq_self])
qed

lemma h_native_less: "0 < p \<Longrightarrow> p \<le> 65535 \<Longrightarrow> unat (h_native x p) < p"
  by (simp add: h_native_def unat_of_nat order.strict_trans1 [OF mod_less_eq_dividend])

definition map_invar :: "map_t \<Rightarrow> bool" where
  "map_invar m \<longleftrightarrow> length (slots_k m) = 23 \<and> length (entries m) = 64
     \<and> chain_ok (\<lambda>k. unat (h k prime)) (slots_k m) (next_k m) (map fst (entries m)) (unat (mt_n m))"

definition map_abs :: "map_t \<Rightarrow> (u64 \<rightharpoonup> u64)" where
  "map_abs m = entries_map (entries m) (unat (mt_n m))"

lemma chain_find_entries:
  assumes ok: "chain_ok hash slots next (map fst es) n"
  shows "entries_map es n k = None \<Longrightarrow> chain_find next (map fst es) k (slots ! hash k) = Some (Inr (- 1))"
    and "entries_map es n k = Some v \<Longrightarrow>
      \<exists>i < n. chain_find next (map fst es) k (slots ! hash k) = Some (Inr (of_nat i))
        \<and> (of_nat i :: u16) \<noteq> - 1 \<and> unat (of_nat i :: u16) = i \<and> es ! i = (k, v)"
proof -
  have n: "n \<le> length es" "length es \<le> 65535" using ok by (auto simp: chain_ok_def)
  have "find (\<lambda>i. map fst es ! i = k) (rev [0..<n]) = find (\<lambda>i. fst (es ! i) = k) (rev [0..<n])"
    using n by (intro find_cong) auto
  then have find: "chain_find next (map fst es) k (slots ! hash k) =
      Some (Inr (case find (\<lambda>i. fst (es ! i) = k) (rev [0..<n]) of None \<Rightarrow> - 1 | Some i \<Rightarrow> of_nat i))"
    using chain_ok_find [OF ok, of k] by simp
  note abs = entries_map_find [OF n(1), of k]
  show "entries_map es n k = None \<Longrightarrow> chain_find next (map fst es) k (slots ! hash k) = Some (Inr (- 1))"
    using abs by (simp add: find)
  assume "entries_map es n k = Some v"
  then obtain i where i: "find (\<lambda>i. fst (es ! i) = k) (rev [0..<n]) = Some i" "snd (es ! i) = v"
    using abs by auto
  then have "i < n" "fst (es ! i) = k" by (auto dest: find_upt_SomeD)
  then show "\<exists>i < n. chain_find next (map fst es) k (slots ! hash k) = Some (Inr (of_nat i))
        \<and> (of_nat i :: u16) \<noteq> - 1 \<and> unat (of_nat i :: u16) = i \<and> es ! i = (k, v)"
    using i n unat_u16_less [of i] by (auto simp: find prod_eq_iff)
qed

lemma map_find_cases:
  assumes "map_invar m"
  shows "map_abs m k = None \<Longrightarrow> map_find m k = Some (Inr (- 1))"
    and "map_abs m k = Some v \<Longrightarrow>
      \<exists>i < unat (mt_n m). map_find m k = Some (Inr (of_nat i)) \<and> (of_nat i :: u16) \<noteq> - 1
        \<and> unat (of_nat i :: u16) = i \<and> entries m ! i = (k, v)"
  using assms h_less [of k]
    chain_find_entries [of "\<lambda>k. unat (h k prime)" "slots_k m" "next_k m" "entries m" "unat (mt_n m)" k]
  by (simp_all add: map_find_def map_invar_def map_abs_def)

lemma map_add_invar:
  assumes "map_invar m" "unat (mt_n m) < 64"
  obtains m' where "map_add' m k v = Inr m'" "map_invar m'" "map_abs m' = (map_abs m)(k \<mapsto> v)"
    "unat (mt_n m') = Suc (unat (mt_n m))"
proof -
  have ok: "chain_ok (\<lambda>k. unat (h k prime)) (slots_k m) (next_k m) (map fst (entries m)) (unat (mt_n m))"
    and len: "length (slots_k m) = 23" "length (entries m) = 64" "length (next_k m) = 64"
    using assms by (auto simp: map_invar_def chain_ok_def)
  have suc: "unat (mt_n m + 1) = Suc (unat (mt_n m))"
    using assms(2) by (simp add: unat_word_ariths)
  let ?m = "m\<lparr>mt_n := mt_n m + 1, next_k := (next_k m)[unat (mt_n m) := slots_k m ! unat (h k prime)],
     slots_k := (slots_k m)[unat (h k prime) := mt_n m], entries := (entries m)[unat (mt_n m) := (k, v)]\<rparr>"
  have "map_add' m k v = Inr ?m"
    using len assms(2) h_less [of k] by (simp add: map_add'_def Let_def)
  moreover have "map_invar ?m"
    using chain_ok_add [OF ok, of k] len assms(2) suc by (simp add: map_invar_def map_update)
  moreover have "map_abs ?m = (map_abs m)(k \<mapsto> v)"
    using entries_map_add [of "unat (mt_n m)" "entries m" k v] len assms(2) suc by (simp add: map_abs_def)
  ultimately show thesis using suc that by simp
qed

interpretation dpa_map: first_wins_map map_insert map_lookup map_invar map_abs
  "\<lambda>m. unat (mt_n m)" "\<lambda>m. 64"
proof unfold_locales
  fix m k v w
  assume m: "map_invar m"
  then have len: "length (entries m) = 64" "unat (mt_n m) \<le> 64"
    by (auto simp: map_invar_def chain_ok_def)
  show "map_lookup m k = Some (Inr (case map_abs m k of None \<Rightarrow> - 1 | Some v \<Rightarrow> v))"
  proof (cases "map_abs m k")
    case None
    with map_find_cases(1) [OF m] show ?thesis by (simp add: map_lookup_def)
  next
    case (Some w)
    with map_find_cases(2) [OF m Some] len show ?thesis by (auto simp: map_lookup_def)
  qed
  show "map_abs m k = Some w \<Longrightarrow> map_insert m k v = Some (Inr (m, False))"
    using map_find_cases(2) [OF m] by (fastforce simp: map_insert_def)
  assume "map_abs m k = None" and n: "unat (mt_n m) < 64"
  then have "map_find m k = Some (Inr (- 1))" by (intro map_find_cases(1) [OF m])
  moreover obtain m' where "map_add' m k v = Inr m'" "map_invar m'" "map_abs m' = (map_abs m)(k \<mapsto> v)"
      "unat (mt_n m') = Suc (unat (mt_n m))" by (rule map_add_invar [OF m n])
  ultimately show "\<exists>m'. map_insert m k v = Some (Inr (m', True)) \<and> map_invar m'
      \<and> map_abs m' = (map_abs m)(k \<mapsto> v) \<and> unat (mt_n m') = Suc (unat (mt_n m)) \<and> (64 :: nat) = 64"
    by (simp add: map_insert_def)
qed

definition mi_invar :: "MapImpl \<Rightarrow> bool" where
  "mi_invar m \<longleftrightarrow> length (mi_s m) \<le> 65534
     \<and> chain_ok (\<lambda>k. unat (h_native k (length (mi_slots_k m)))) (mi_slots_k m) (mi_next_k m)
          (map fst (mi_s m)) (unat (mi_n m))
     \<and> (mi_mode m = Bidirect \<longrightarrow>
          chain_ok (\<lambda>v. unat (h_native v (length (mi_slots_v m)))) (mi_slots_v m) (mi_next_v m)
            (map snd (mi_s m)) (unat (mi_n m)))"

definition mi_abs :: "MapImpl \<Rightarrow> (u64 \<rightharpoonup> u64)" where
  "mi_abs m = entries_map (mi_s m) (unat (mi_n m))"

lemma mi_find_k_cases:
  assumes "mi_invar m"
  shows "mi_abs m k = None \<Longrightarrow> mi_find_k m k = Some (Inr (- 1))"
    and "mi_abs m k = Some v \<Longrightarrow>
      \<exists>i < unat (mi_n m). mi_find_k m k = Some (Inr (of_nat i)) \<and> (of_nat i :: u16) \<noteq> - 1
        \<and> unat (of_nat i :: u16) = i \<and> mi_s m ! i = (k, v)"
proof -
  have ok: "chain_ok (\<lambda>k. unat (h_native k (length (mi_slots_k m)))) (mi_slots_k m) (mi_next_k m)
      (map fst (mi_s m)) (unat (mi_n m))" using assms by (simp add: mi_invar_def)
  then have "unat (h_native k (length (mi_slots_k m))) < length (mi_slots_k m)" by (simp add: chain_ok_def)
  then show "mi_abs m k = None \<Longrightarrow> mi_find_k m k = Some (Inr (- 1))"
    and "mi_abs m k = Some v \<Longrightarrow>
      \<exists>i < unat (mi_n m). mi_find_k m k = Some (Inr (of_nat i)) \<and> (of_nat i :: u16) \<noteq> - 1
        \<and> unat (of_nat i :: u16) = i \<and> mi_s m ! i = (k, v)"
    using chain_find_entries [OF ok, of k] by (simp_all add: mi_find_k_def mi_abs_def)
qed

lemma mi_add_invar:
  assumes m: "mi_invar m" and n: "unat (mi_n m) < length (mi_s m)"
  obtains m' where "mi_add m k v = Inr m'" "mi_invar m'" "mi_abs m' = (mi_abs m)(k \<mapsto> v)"
    "unat (mi_n m') = Suc (unat (mi_n m))" "length (mi_s m') = length (mi_s m)"
proof -
  let ?hk = "\<lambda>k. unat (h_native k (length (mi_slots_k m)))"
  let ?hv = "\<lambda>v. unat (h_native v (length (mi_slots_v m)))"
  have okk: "chain_ok ?hk (mi_slots_k m) (mi_next_k m) (map fst (mi_s m)) (unat (mi_n m))"
    and okv: "mi_mode m = Bidirect \<Longrightarrow> chain_ok ?hv (mi_slots_v m) (mi_next_v m) (map snd (mi_s m)) (unat (mi_n m))"
    and sz: "length (mi_s m) \<le> 65534"
    using m by (simp_all add: mi_invar_def)
  then have len: "length (mi_next_k m) = length (mi_s m)" "?hk k < length (mi_slots_k m)"
      "mi_mode m = Bidirect \<Longrightarrow> length (mi_next_v m) = length (mi_s m)"
      "mi_mode m = Bidirect \<Longrightarrow> ?hv v < length (mi_slots_v m)"
    by (auto simp: chain_ok_def)
  have suc: "unat (mi_n m + 1) = Suc (unat (mi_n m))"
    using n sz by (simp add: unat_word_ariths)
  define m1 where "m1 = m\<lparr>mi_n := mi_n m + 1, mi_slots_k := (mi_slots_k m)[?hk k := mi_n m],
     mi_next_k := (mi_next_k m)[unat (mi_n m) := mi_slots_k m ! ?hk k]\<rparr>"
  define m2 where "m2 = (if mi_mode m = Bidirect then
     m1\<lparr>mi_slots_v := (mi_slots_v m)[?hv v := mi_n m],
        mi_next_v := (mi_next_v m)[unat (mi_n m) := mi_slots_v m ! ?hv v]\<rparr> else m1)"
  define m3 where "m3 = m2\<lparr>mi_s := (mi_s m)[unat (mi_n m) := (k, v)]\<rparr>"
  have "mi_add m k v = Inr m3"
    using n len by (simp add: mi_add_def Let_def m3_def m2_def m1_def)
  moreover have "mi_invar m3"
    using chain_ok_add [OF okk, of k] chain_ok_add [OF okv, of v] len n sz suc
    by (simp add: mi_invar_def m3_def m2_def m1_def map_update)
  moreover have "mi_abs m3 = (mi_abs m)(k \<mapsto> v)"
    using entries_map_add [OF n, of k v] suc by (simp add: mi_abs_def m3_def m2_def m1_def)
  moreover have "unat (mi_n m3) = Suc (unat (mi_n m))" "length (mi_s m3) = length (mi_s m)"
    using suc by (simp_all add: m3_def m2_def m1_def)
  ultimately show thesis by (rule that)
qed

interpretation native_map: first_wins_map insert_kv raw_lookup_v mi_invar mi_abs
  "\<lambda>m. unat (mi_n m)" "\<lambda>m. length (mi_s m)"
proof unfold_locales
  fix m k v w
  assume m: "mi_invar m"
  then have len: "unat (mi_n m) \<le> length (mi_s m)" by (auto simp: mi_invar_def chain_ok_def)
  show "raw_lookup_v m k = Some (Inr (case mi_abs m k of None \<Rightarrow> - 1 | Some v \<Rightarrow> v))"
  proof (cases "mi_abs m k")
    case None
    with mi_find_k_cases(1) [OF m] show ?thesis by (simp add: raw_lookup_v_def)
  next
    case (Some w)
    with mi_find_k_cases(2) [OF m Some] len show ?thesis by (auto simp: raw_lookup_v_def)
  qed
  show "mi_abs m k = Some w \<Longrightarrow> insert_kv m k v = Some (Inr (m, False))"
    using mi_find_k_cases(2) [OF m] by (fastforce simp: insert_kv_def)
  assume "mi_abs m k = None" and n: "unat (mi_n m) < length (mi_s m)"
  then have "mi_find_k m k = Some (Inr (- 1))" by (intro mi_find_k_cases(1) [OF m])
  moreover obtain m' where "mi_add m k v = Inr m'" "mi_invar m'" "mi_abs m' = (mi_abs m)(k \<mapsto> v)"
      "unat (mi_n m') = Suc (unat (mi_n m))" "length (mi_s m') = length (mi_s m)"
    by (rule mi_add_invar [OF m n])
  ultimately show "\<exists>m'. insert_kv m k v = Some (Inr (m', True)) \<and> mi_invar m'
      \<and> mi_abs m' = (mi_abs m)(k \<mapsto> v) \<and> unat (mi_n m') = Suc (unat (mi_n m))
      \<and> length (mi_s m') = length (mi_s m)"
    by (simp add: insert_kv_def)
qed


lemma init_map_invar: "map_invar init_map" "map_abs init_map = Map.empty"
  using h_less by (simp_all add: map_invar_def map_abs_def init_map_def chain_ok_def entries_map_def)

lemma mi_init_invar:
  "0 < pr \<Longrightarrow> pr \<le> 65535 \<Longrightarrow> cap \<le> 65534 \<Longrightarrow> mi_invar (mi_init mode cap pr)"
  "mi_abs (mi_init mode cap pr) = Map.empty"
  using h_native_less by (simp_all add: mi_invar_def mi_abs_def mi_init_def chain_ok_def entries_map_def)

section \<open>Properties of the maps\<close>

text \<open>
  C37. A kernel map filled from empty with at most 64 insertions accepts them all, every
  operation returns, and looking a key up gives the value of its first insertion, or
  \<^verbatim>\<open>invalid_value_u64\<close> when it was never inserted.
\<close>

theorem map_insert_then_lookup:
  assumes "length kvs \<le> 64"
  shows "\<exists>m. insert_all map_insert init_map kvs = Some (Inr m) \<and>
    (\<forall>k. map_lookup m k = Some (Inr (case map_of kvs k of None \<Rightarrow> invalid_value_u64 | Some v \<Rightarrow> v)))"
proof -
  have "unat (mt_n init_map) = 0" by (simp add: init_map_def)
  then obtain m where "insert_all map_insert init_map kvs = Some (Inr m)"
    "\<And>k. map_lookup m k = Some (Inr (case map_of kvs k of None \<Rightarrow> - 1 | Some v \<Rightarrow> v))"
    using dpa_map.insert_all_lookup [OF init_map_invar, of kvs] assms by auto
  then show ?thesis by (auto split: option.splits)
qed

theorem map_insert_then_lookup_witness:
  "\<exists>m. insert_all map_insert init_map [(5, 1), (28, 2), (5, 3)] = Some (Inr m) \<and>
     map_lookup m 5 = Some (Inr 1) \<and> map_lookup m 28 = Some (Inr 2) \<and> map_lookup m 51 = Some (Inr (- 1))"
  using map_insert_then_lookup [of "[(5, 1), (28, 2), (5, 3)]"] by fastforce

text \<open>
  The kernel map does not check its capacity: once 64 distinct keys are in, inserting
  another one writes outside the arrays.
\<close>

theorem map_insert_overflow:
  assumes "length kvs = 64" "distinct (map fst kvs)" "k \<notin> fst ` set kvs"
  shows "\<exists>m. insert_all map_insert init_map kvs = Some (Inr m) \<and> map_insert m k v = Some (Inl Out_of_bounds)"
proof -
  have n0: "unat (mt_n init_map) = 0" by (simp add: init_map_def)
  then obtain m where m: "insert_all map_insert init_map kvs = Some (Inr m)" "map_invar m"
      "map_abs m = map_of kvs"
    using dpa_map.insert_all_returns [OF init_map_invar(1), of kvs] assms(1) by (auto simp: init_map_invar)
  have "unat (mt_n m) = 64"
    using dpa_map.insert_all_used [OF init_map_invar(1) _ assms(2) _ m(1)] n0 assms(1)
    by (simp add: init_map_invar)
  moreover have "length (next_k m) = 64" "length (slots_k m) = 23"
    using m(2) by (auto simp: map_invar_def chain_ok_def)
  ultimately have "map_add' m k v = Inl Out_of_bounds"
    using h_less [of k] by (simp add: map_add'_def Let_def)
  moreover have "map_find m k = Some (Inr (- 1))"
    using m assms(3) by (intro map_find_cases(1)) (auto simp: map_of_eq_None_iff)
  ultimately show ?thesis using m(1) by (auto simp: map_insert_def)
qed

theorem map_insert_overflow_witness:
  "\<exists>m. insert_all map_insert init_map (map (\<lambda>i. (of_nat i, 0)) [0..<64]) = Some (Inr m)
     \<and> map_insert m 64 1 = Some (Inl Out_of_bounds)"
proof -
  have u: "unat (of_nat i :: u64) = i" if "i < 64" for i using that by (intro unat_of_nat_u64) simp
  have "distinct (map fst (map (\<lambda>i. (of_nat i :: u64, 0 :: u64)) [0..<64]))"
    by (auto simp: distinct_map comp_def intro!: inj_onI) (metis u)
  moreover have "(64 :: u64) \<notin> fst ` set (map (\<lambda>i. (of_nat i :: u64, 0 :: u64)) [0..<64])"
  proof -
    have "(64 :: u64) \<noteq> of_nat i" if "i < 64" for i
      using u [OF that] that by (auto dest: arg_cong [where f = unat])
    then show ?thesis by auto
  qed
  ultimately show ?thesis using map_insert_overflow [of "map (\<lambda>i. (of_nat i, 0)) [0..<64]" 64 1] by simp
qed

text \<open>
  The native map, in either mode and with any capacity up to 65534 and any number of
  buckets that fits 16 bits, accepts as many insertions as its capacity; \<^verbatim>\<open>lookup_v\<close> then gives
  the value of the first insertion of a key, and its flag tells whether that value differs
  from the reserved all-ones value.
\<close>

theorem MapImpl_insert_then_lookup:
  assumes "0 < pr" "pr \<le> 65535" "cap \<le> 65534" "length kvs \<le> cap"
  shows "\<exists>m. insert_all insert_kv (mi_init mode cap pr) kvs = Some (Inr m) \<and>
    (\<forall>k. lookup_v m k = Some (Inr (case map_of kvs k of None \<Rightarrow> (- 1, False) | Some v \<Rightarrow> (v, v \<noteq> - 1))))"
proof -
  have "unat (mi_n (mi_init mode cap pr)) + length kvs \<le> length (mi_s (mi_init mode cap pr))"
    using assms(4) by (simp add: mi_init_def)
  from native_map.insert_all_lookup [OF mi_init_invar(1) mi_init_invar(2) this] assms
  obtain m where "insert_all insert_kv (mi_init mode cap pr) kvs = Some (Inr m)"
    "\<And>k. raw_lookup_v m k = Some (Inr (case map_of kvs k of None \<Rightarrow> - 1 | Some v \<Rightarrow> v))"
    by blast
  then show ?thesis by (auto simp: lookup_v_def split: option.splits)
qed

theorem MapImpl_insert_then_lookup_witness:
  "\<exists>m. insert_all insert_kv (mi_init Bidirect 4096 23) [(5, 1), (28, 2), (5, 3)] = Some (Inr m) \<and>
     lookup_v m 5 = Some (Inr (1, True)) \<and> lookup_v m 51 = Some (Inr (- 1, False))"
  using MapImpl_insert_then_lookup [of 23 4096 "[(5, 1), (28, 2), (5, 3)]" Bidirect] by fastforce

end
