(* ===== verification/Memory_Pool.thy ===== *)
theory Memory_Pool
  imports DPX_Prelude "HOL-Library.Multiset"
begin

text \<open>
  The memory layer: \<^verbatim>\<open>lib/util/upper_align.hxx\<close>, \<^verbatim>\<open>lib/util/literal.hxx\<close>, the region and
  buffer classes of \<^verbatim>\<open>lib/memory\<close> (\<^verbatim>\<open>MemoryRegion\<close>, \<^verbatim>\<open>LocalBuffer\<close>, \<^verbatim>\<open>naive::Buffers\<close>,
  \<^verbatim>\<open>SimpleAllocator\<close>, \<^verbatim>\<open>BufferPool\<close>) and \<^verbatim>\<open>lib/util/simple_object_pool.hxx\<close>. The locale
  \<open>exclusive_pool\<close> is what a user of a pool relies on: nothing is handed out twice and nothing
  is lost. Both pools are interpretations of it.
\<close>

section \<open>Alignment and literals\<close>

text \<open>The template works at any integer type; \<open>u64\<close> wraps, \<open>nat\<close> does not.\<close>

definition upper_align :: "'a \<Rightarrow> 'a \<Rightarrow> 'a::{plus, minus, times, divide, one}" where
  "upper_align x align = (x + align - 1) div align * align"

definition KB :: "u64 \<Rightarrow> u64" where "KB x = 1024 * x"
definition MB :: "u64 \<Rightarrow> u64" where "MB x = KB 1024 * x"
definition GB :: "u64 \<Rightarrow> u64" where "GB x = MB 1024 * x"
definition TB :: "u64 \<Rightarrow> u64" where "TB x = GB 1024 * x"
definition PB :: "u64 \<Rightarrow> u64" where "PB x = TB 1024 * x"

lemma upper_align_nat:
  fixes x a :: nat
  assumes "0 < a"
  shows "upper_align x a mod a = 0" "x \<le> upper_align x a" "upper_align x a < x + a"
proof -
  have "(x + a - 1) div a * a + (x + a - 1) mod a = x + a - 1" by (rule div_mult_mod_eq)
  moreover have "(x + a - 1) mod a < a" using assms by simp
  ultimately show "x \<le> upper_align x a" "upper_align x a < x + a"
    unfolding upper_align_def using assms by linarith+
  show "upper_align x a mod a = 0" by (simp add: upper_align_def)
qed

lemma upper_align_8_le:
  fixes x y :: nat
  assumes "x \<le> y" "y mod 8 = 0"
  shows "upper_align x 8 \<le> y"
proof -
  from assms(2) obtain k where k: "y = 8 * k" by (auto simp: mod_eq_0_iff_dvd)
  have "x + 8 - 1 \<le> 7 + 8 * k" using assms(1) k by simp
  then have "(x + 8 - 1) div 8 \<le> (7 + 8 * k) div 8" by (rule div_le_mono)
  also have "(7 + 8 * k) div 8 = k" using div_mult_self2 [of 8 7 k] by simp
  finally have "(x + 8 - 1) div 8 * 8 \<le> k * 8" by (rule mult_le_mono1)
  then show ?thesis unfolding upper_align_def k by (simp only: mult.commute)
qed

lemma upper_align_8_aligned:
  fixes x :: nat
  assumes "x mod 8 = 0"
  shows "upper_align x 8 = x"
  using upper_align_8_le [OF order_refl assms] upper_align_nat(2) [of 8 x] by linarith

lemma upper_align_add_8:
  fixes x k :: nat
  shows "upper_align (x + 8 * k) 8 = upper_align x 8 + 8 * k"
proof -
  have "x + 8 * k + 8 - 1 = (x + 8 - 1) + 8 * k" by linarith
  then have "(x + 8 * k + 8 - 1) div 8 = k + (x + 8 - 1) div 8"
    using div_mult_self2 [of 8 "x + 8 - 1" k] by linarith
  then show ?thesis unfolding upper_align_def by linarith
qed

lemma unat_upper_align:
  fixes x a :: u64
  assumes "0 < unat a" "unat x + unat a - 1 < 2 ^ 64"
  shows "unat (upper_align x a) = upper_align (unat x) (unat a)"
proof -
  have eq: "x + a - 1 = x + (a - 1)" by simp
  have "1 \<le> a" using assms(1) by (simp add: word_le_nat_alt)
  then have "unat (a - 1) = unat a - 1" by (simp add: unat_sub)
  then have "unat (x + a - 1) = unat x + unat a - 1"
    unfolding eq using assms by (simp add: unat_word_ariths)
  moreover have "(unat x + unat a - 1) div unat a * unat a < 2 ^ 64"
    using assms(2) by (metis div_times_less_eq_dividend le_less_trans)
  moreover from this have "(unat x + unat a - 1) div unat a < 2 ^ 64"
    using assms(2) by (metis div_le_dividend le_less_trans)
  ultimately show ?thesis by (simp add: upper_align_def unat_word_ariths unat_div)
qed

section \<open>Regions and buffers\<close>

record MemoryRegion =
  mr_base :: u64
  mr_len :: u64

definition is_overlap :: "u64 \<Rightarrow> u64 \<Rightarrow> u64 \<Rightarrow> u64 \<Rightarrow> bool" where
  "is_overlap a a_len b b_len \<longleftrightarrow> max a b \<le> min (a + a_len) (b + b_len)"

definition is_contain :: "u64 \<Rightarrow> u64 \<Rightarrow> u64 \<Rightarrow> u64 \<Rightarrow> bool" where
  "is_contain a a_len b b_len \<longleftrightarrow> a \<le> b \<and> b + b_len \<le> a + a_len"

definition mr_empty :: "MemoryRegion \<Rightarrow> bool" where
  "mr_empty r \<longleftrightarrow> mr_base r = 0 \<and> mr_len r = 0"

definition contain :: "MemoryRegion \<Rightarrow> MemoryRegion \<Rightarrow> bool" where
  "contain r other \<longleftrightarrow> \<not> mr_empty r \<and> \<not> mr_empty other
     \<and> is_contain (mr_base r) (mr_len r) (mr_base other) (mr_len other)"

definition within :: "MemoryRegion \<Rightarrow> MemoryRegion \<Rightarrow> bool" where
  "within r other \<longleftrightarrow> \<not> mr_empty r \<and> \<not> mr_empty other \<and> contain other r"

definition overlap :: "MemoryRegion \<Rightarrow> MemoryRegion \<Rightarrow> bool" where
  "overlap r other \<longleftrightarrow> \<not> mr_empty r \<and> \<not> mr_empty other
     \<and> is_overlap (mr_base r) (mr_len r) (mr_base other) (mr_len other)"

text \<open>\<^verbatim>\<open>LocalBuffer::reset\<close> zeroes the bytes of the region.\<close>

definition buf_reset :: "mem \<Rightarrow> MemoryRegion \<Rightarrow> mem" where
  "buf_reset m r = (if mr_empty r then m else wr m (mr_base r) (replicate (unat (mr_len r)) 0))"

text \<open>
  The pieces of \<^verbatim>\<open>naive::Buffers\<close>: \<^verbatim>\<open>for (p = data(); p < data() + size(); p += piece_len)\<close>
  over the bytes of one allocation (addresses as numbers; an allocation does not wrap).
\<close>

function buffer_pieces :: "nat \<Rightarrow> nat \<Rightarrow> nat \<Rightarrow> (nat \<times> nat) list" where
  "buffer_pieces p limit piece_len =
    (if p < limit \<and> 0 < piece_len then (p, piece_len) # buffer_pieces (p + piece_len) limit piece_len else [])"
  by pat_completeness auto
termination
  by (relation "measure (\<lambda>(p, limit, piece_len). limit - p)") auto

declare buffer_pieces.simps [simp del]

definition naive_Buffers :: "nat \<Rightarrow> nat \<Rightarrow> nat \<Rightarrow> (nat \<times> nat) list" where
  "naive_Buffers base n piece_len = buffer_pieces base (base + piece_len * n) piece_len"

section \<open>The bump allocator\<close>

record SimpleAllocator =
  sa_base :: u64
  sa_pos :: u64
  sa_lim :: u64

definition sa_new :: "MemoryRegion \<Rightarrow> SimpleAllocator" where
  "sa_new mr = \<lparr>sa_base = mr_base mr, sa_pos = 0, sa_lim = mr_len mr\<rparr>"

definition allocate :: "SimpleAllocator \<Rightarrow> u64 \<Rightarrow> (u64 \<times> SimpleAllocator) result" where
  "allocate a sz =
    bnd (check (0 < sz) Assert_fail) (\<lambda>_.
    bnd (check (sa_pos a < sa_lim a) Assert_fail) (\<lambda>_.
    let p = sa_pos a; pos' = upper_align (p + sz) 8 in
    bnd (check (pos' mod 8 = 0) Assert_fail) (\<lambda>_.
    bnd (check (p < pos') Assert_fail) (\<lambda>_.
    bnd (check (p + sz \<le> pos') Assert_fail) (\<lambda>_.
    bnd (check (p + sz \<le> sa_lim a) Assert_fail) (\<lambda>_.
      Inr (sa_base a + p, a\<lparr>sa_pos := pos'\<rparr>)))))))"

definition allocated :: "SimpleAllocator \<Rightarrow> u64 result" where
  "allocated a = bnd (check (sa_pos a mod 8 = 0) Assert_fail) (\<lambda>_. Inr (sa_pos a))"

section \<open>Pools\<close>

text \<open>
  \<^verbatim>\<open>BufferPool\<close>: the backing buffers, the free list and the memory whose bytes \<^verbatim>\<open>reset\<close>
  clears. With \<^verbatim>\<open>enable_mt\<close> the two operations run under the spin lock, one at a time
  (Spin_Lock shows that they are atomic).
\<close>

record BufferPool =
  bp_bs :: MemoryRegion
  bp_piece_size :: u64
  bp_q :: "MemoryRegion list"
  bp_mem :: mem
  bp_mt :: bool

definition bp_new :: "MemoryRegion \<Rightarrow> u64 \<Rightarrow> MemoryRegion list \<Rightarrow> mem \<Rightarrow> BufferPool" where
  "bp_new bs piece handles m =
    \<lparr>bp_bs = bs, bp_piece_size = piece, bp_q = handles, bp_mem = fold (\<lambda>b m. buf_reset m b) handles m,
     bp_mt = False\<rparr>"

definition enable_mt :: "BufferPool \<Rightarrow> BufferPool" where
  "enable_mt p = p\<lparr>bp_mt := True\<rparr>"

definition acquire_one :: "BufferPool \<Rightarrow> MemoryRegion option \<times> BufferPool" where
  "acquire_one p = (case bp_q p of [] \<Rightarrow> (None, p) | b # q \<Rightarrow> (Some b, p\<lparr>bp_q := q\<rparr>))"

definition bp_owns :: "MemoryRegion \<Rightarrow> u64 \<Rightarrow> MemoryRegion \<Rightarrow> bool" where
  "bp_owns bs piece b \<longleftrightarrow> mr_len b = piece \<and> mr_base bs \<le> mr_base b
     \<and> mr_base b + mr_len b \<le> mr_base bs + mr_len bs"

definition release_one :: "BufferPool \<Rightarrow> MemoryRegion \<Rightarrow> BufferPool result" where
  "release_one p b =
    bnd (check (bp_owns (bp_bs p) (bp_piece_size p) b) Assert_fail) (\<lambda>_.
      Inr (p\<lparr>bp_q := bp_q p @ [b], bp_mem := buf_reset (bp_mem p) b\<rparr>))"

text \<open>\<^verbatim>\<open>SimpleObjectPool\<close> with the debug build's set of objects that are out.\<close>

record 'o SimpleObjectPool =
  op_q :: "'o list"
  op_allocated :: "'o set"
  op_max_size :: nat

definition op_new :: "nat \<Rightarrow> 'o SimpleObjectPool" where
  "op_new max_size = \<lparr>op_q = [], op_allocated = {}, op_max_size = max_size\<rparr>"

definition op_size :: "'o SimpleObjectPool \<Rightarrow> nat" where "op_size p = length (op_q p)"

definition op_add :: "'o SimpleObjectPool \<Rightarrow> 'o \<Rightarrow> 'o SimpleObjectPool" where
  "op_add p obj = p\<lparr>op_q := op_q p @ [obj]\<rparr>"

definition op_acquire :: "'o SimpleObjectPool \<Rightarrow> 'o option \<times> 'o SimpleObjectPool" where
  "op_acquire p = (case op_q p of [] \<Rightarrow> (None, p)
     | obj # q \<Rightarrow> (Some obj, p\<lparr>op_q := q, op_allocated := insert obj (op_allocated p)\<rparr>))"

definition op_release :: "'o SimpleObjectPool \<Rightarrow> 'o \<Rightarrow> 'o SimpleObjectPool result" where
  "op_release p obj =
    bnd (check (obj \<in> op_allocated p) Assert_fail) (\<lambda>_.
      Inr (p\<lparr>op_allocated := op_allocated p - {obj}, op_q := op_q p @ [obj]\<rparr>))"


section \<open>Multisets of held objects\<close>

lemma mset_concat_update:
  assumes "i < length xss"
  shows "mset (concat (xss[i := ys])) + mset (xss ! i) = mset (concat xss) + mset ys"
  using assms
proof (induction xss arbitrary: i)
  case Nil
  then show ?case by simp
next
  case (Cons xs xss)
  then show ?case by (cases i) (auto simp: ac_simps)
qed

lemma mset_remove_nth: "i < length xs \<Longrightarrow> add_mset (xs ! i) (mset (take i xs @ drop (Suc i) xs)) = mset xs"
  by (metis add_mset_add_single id_take_nth_drop mset.simps(2) mset_append union_mset_add_mset_right)

section \<open>The contract of a pool\<close>

text \<open>
  A user of a pool acquires objects and releases objects it holds. \<open>pool_step\<close> is one such
  operation on the pool and the list of objects the user holds; an error stops the user.
\<close>

datatype pool_op = Acquire | Release nat

definition pool_step :: "('p \<Rightarrow> 'o option \<times> 'p) \<Rightarrow> ('p \<Rightarrow> 'o \<Rightarrow> 'p result) \<Rightarrow> 'p \<times> 'o list \<Rightarrow> pool_op \<Rightarrow> ('p \<times> 'o list) result" where
  "pool_step acq rel st x =
    (case x of
       Acquire \<Rightarrow> (case acq (fst st) of (None, p) \<Rightarrow> Inr (p, snd st) | (Some b, p) \<Rightarrow> Inr (p, snd st @ [b]))
     | Release i \<Rightarrow>
         if i < length (snd st)
         then bnd (rel (fst st) (snd st ! i)) (\<lambda>p. Inr (p, take i (snd st) @ drop (Suc i) (snd st)))
         else Inr st)"

primrec pool_run :: "('p \<Rightarrow> 'o option \<times> 'p) \<Rightarrow> ('p \<Rightarrow> 'o \<Rightarrow> 'p result) \<Rightarrow> 'p \<times> 'o list \<Rightarrow> pool_op list \<Rightarrow> ('p \<times> 'o list) result" where
  "pool_run acq rel st [] = Inr st"
| "pool_run acq rel st (x # xs) = bnd (pool_step acq rel st x) (\<lambda>st'. pool_run acq rel st' xs)"

locale exclusive_pool =
  fixes acq :: "'p \<Rightarrow> 'o option \<times> 'p"
    and rel :: "'p \<Rightarrow> 'o \<Rightarrow> 'p result"
    and free :: "'p \<Rightarrow> 'o list"
    and invar :: "'p \<Rightarrow> 'o list \<Rightarrow> bool"
  assumes acq_empty: "invar p out \<Longrightarrow> free p = [] \<Longrightarrow> acq p = (None, p)"
    and acq_some: "invar p out \<Longrightarrow> free p = b # q \<Longrightarrow>
      \<exists>p'. acq p = (Some b, p') \<and> free p' = q \<and> invar p' (out @ [b])"
    and rel_out: "invar p (us @ b # vs) \<Longrightarrow>
      \<exists>p'. rel p b = Inr p' \<and> free p' = free p @ [b] \<and> invar p' (us @ vs)"
begin

lemma step_keeps:
  assumes "invar p out"
  shows "\<exists>p' out'. pool_step acq rel (p, out) x = Inr (p', out') \<and> invar p' out'
    \<and> mset (free p') + mset out' = mset (free p) + mset out"
proof (cases x)
  case Acquire
  show ?thesis
  proof (cases "free p")
    case Nil
    with acq_empty [OF assms] assms Acquire show ?thesis by (simp add: pool_step_def)
  next
    case (Cons b q)
    with acq_some [OF assms Cons] Acquire show ?thesis by (auto simp: pool_step_def)
  qed
next
  case (Release i)
  show ?thesis
  proof (cases "i < length out")
    case True
    then have split: "out = take i out @ out ! i # drop (Suc i) out" by (rule id_take_nth_drop)
    with rel_out [of p "take i out" "out ! i" "drop (Suc i) out"] assms obtain p' where
      "rel p (out ! i) = Inr p'" "free p' = free p @ [out ! i]" "invar p' (take i out @ drop (Suc i) out)"
      by auto
    moreover from split have "mset out = mset (take i out) + {#out ! i#} + mset (drop (Suc i) out)"
      by (metis add_mset_add_single mset.simps(2) mset_append union_assoc add.commute)
    ultimately show ?thesis using True Release by (auto simp: pool_step_def)
  next
    case False
    with assms Release show ?thesis by (simp add: pool_step_def)
  qed
qed

lemma run_keeps:
  assumes "invar p out"
  shows "\<exists>p' out'. pool_run acq rel (p, out) xs = Inr (p', out') \<and> invar p' out'
    \<and> mset (free p') + mset out' = mset (free p) + mset out"
  using assms
proof (induction xs arbitrary: p out)
  case Nil
  then show ?case by simp
next
  case (Cons x xs)
  from step_keeps [OF Cons.prems, of x] obtain p1 out1 where
    1: "pool_step acq rel (p, out) x = Inr (p1, out1)" "invar p1 out1"
      "mset (free p1) + mset out1 = mset (free p) + mset out" by blast
  from Cons.IH [OF 1(2)] 1 show ?case by auto
qed

lemma run_exclusive:
  assumes "invar p []" "distinct (free p)"
  shows "\<exists>p' out. pool_run acq rel (p, []) xs = Inr (p', out)
    \<and> distinct (free p' @ out) \<and> set (free p' @ out) = set (free p)"
proof -
  from run_keeps [OF assms(1), of xs] obtain p' out where
    r: "pool_run acq rel (p, []) xs = Inr (p', out)" "mset (free p' @ out) = mset (free p)"
    by auto
  then show ?thesis using assms(2) mset_eq_setD [OF r(2)] mset_eq_imp_distinct_iff [OF r(2)] by auto
qed

end


definition bp_invar :: "BufferPool \<Rightarrow> MemoryRegion list \<Rightarrow> bool" where
  "bp_invar p out \<longleftrightarrow> (\<forall>b \<in> set (bp_q p @ out). bp_owns (bp_bs p) (bp_piece_size p) b)"

interpretation buffer_pool: exclusive_pool acquire_one release_one bp_q bp_invar
  by unfold_locales (auto simp: acquire_one_def release_one_def bp_invar_def check_def)

definition op_invar :: "'o SimpleObjectPool \<Rightarrow> 'o list \<Rightarrow> bool" where
  "op_invar p out \<longleftrightarrow> op_allocated p = set out \<and> distinct (op_q p @ out)"

interpretation object_pool: exclusive_pool op_acquire op_release op_q op_invar
  by unfold_locales (auto simp: op_acquire_def op_release_def op_invar_def check_def)

section \<open>Properties of the memory layer\<close>

text \<open>
  C39. Whatever sequence of acquisitions and releases the users of a \<^verbatim>\<open>BufferPool\<close> run, no
  release is refused, no buffer is ever held twice or held while it is free, and the free and
  held buffers together are always exactly the buffers the pool was built with.
\<close>

theorem BufferPool_exclusive:
  assumes "distinct handles"
    and "\<forall>b \<in> set handles. bp_owns bs piece b"
  shows "\<exists>p held. pool_run acquire_one release_one (bp_new bs piece handles m, []) xs = Inr (p, held)
    \<and> distinct (bp_q p @ held) \<and> set (bp_q p @ held) = set handles"
proof -
  have "bp_invar (bp_new bs piece handles m) []" "bp_q (bp_new bs piece handles m) = handles"
    using assms by (simp_all add: bp_invar_def bp_new_def)
  with buffer_pool.run_exclusive [of "bp_new bs piece handles m" xs] assms(1) show ?thesis by simp
qed

theorem BufferPool_exclusive_witness:
  "\<exists>p held. pool_run acquire_one release_one
      (bp_new \<lparr>mr_base = 64, mr_len = 32\<rparr> 16 [\<lparr>mr_base = 64, mr_len = 16\<rparr>, \<lparr>mr_base = 80, mr_len = 16\<rparr>] (\<lambda>_. 7), [])
      [Acquire, Acquire, Acquire, Release 0] = Inr (p, held) \<and> distinct (bp_q p @ held)"
  using BufferPool_exclusive [where handles = "[\<lparr>mr_base = 64, mr_len = 16\<rparr>, \<lparr>mr_base = 80, mr_len = 16\<rparr>]"
      and piece = 16 and bs = "\<lparr>mr_base = 64, mr_len = 32\<rparr>" and m = "\<lambda>_. 7"
      and xs = "[Acquire, Acquire, Acquire, Release 0]"]
  by (auto simp: bp_owns_def)

text \<open>
  The same for \<^verbatim>\<open>SimpleObjectPool\<close>, whose debug build checks every release against the
  set of objects that are out: the check never fails for a user that releases what it holds.
\<close>

theorem SimpleObjectPool_exclusive:
  assumes "distinct objs"
  shows "\<exists>p held. pool_run op_acquire op_release (fold (\<lambda>x p. op_add p x) objs (op_new n), []) xs = Inr (p, held)
    \<and> distinct (op_q p @ held) \<and> set (op_q p @ held) = set objs"
proof -
  have fold_add: "op_q (fold (\<lambda>x p. op_add p x) ys q) = op_q q @ ys
      \<and> op_allocated (fold (\<lambda>x p. op_add p x) ys q) = op_allocated q" for ys :: "'a list" and q
    by (induction ys arbitrary: q) (simp_all add: op_add_def)
  have "op_invar (fold (\<lambda>x p. op_add p x) objs (op_new n)) []"
    "op_q (fold (\<lambda>x p. op_add p x) objs (op_new n)) = objs"
    using assms by (simp_all add: fold_add op_invar_def op_new_def)
  with object_pool.run_exclusive [of _ xs] assms show ?thesis by metis
qed

theorem SimpleObjectPool_exclusive_witness:
  "\<exists>p held. pool_run op_acquire op_release (fold (\<lambda>x p. op_add p x) [1 :: nat, 2] (op_new 2), [])
      [Acquire, Acquire, Release 1, Acquire] = Inr (p, held) \<and> distinct (op_q p @ held)"
  using SimpleObjectPool_exclusive [of "[1 :: nat, 2]" 2 "[Acquire, Acquire, Release 1, Acquire]"] by auto

text \<open>
  A successful allocation returns an 8-aligned block inside the region that starts where the
  previous one ended, rounded up.
\<close>

lemma allocate_step:
  assumes "allocate a sz = Inr (p, a')" "unat (sa_base a) + unat (sa_lim a) < 2 ^ 64"
    "unat (sa_pos a) mod 8 = 0"
  shows "unat p = unat (sa_base a) + unat (sa_pos a)" "unat (sa_pos a) + unat sz \<le> unat (sa_lim a)"
    "unat (sa_pos a) + unat sz \<le> unat (sa_pos a')" "unat (sa_pos a') mod 8 = 0"
    "sa_base a' = sa_base a" "sa_lim a' = sa_lim a"
proof -
  from assms(1) have c: "0 < sz" "sa_pos a < sa_lim a" "sa_pos a < sa_pos a'" "sa_pos a + sz \<le> sa_pos a'"
      "sa_pos a + sz \<le> sa_lim a" "p = sa_base a + sa_pos a" "sa_pos a' mod 8 = 0"
      "sa_base a' = sa_base a" "sa_lim a' = sa_lim a" "sa_pos a' = upper_align (sa_pos a + sz) 8"
    by (auto simp: allocate_def Let_def)
  show "sa_base a' = sa_base a" "sa_lim a' = sa_lim a" by fact+
  show "unat p = unat (sa_base a) + unat (sa_pos a)"
    using c(2,6) assms(2) by (simp add: unat_word_ariths word_less_nat_alt)
  show "unat (sa_pos a') mod 8 = 0"
    using arg_cong [OF c(7), of unat] by (simp add: unat_mod)
  have nowrap: "unat (sa_pos a) + unat sz < 2 ^ 64"
  proof (rule ccontr)
    assume w: "\<not> ?thesis"
    then have q: "unat (sa_pos a + sz) < unat (sa_pos a)"
      using unat_less [of sz] unat_less [of "sa_pos a"] by (simp add: unat_word_ariths le_mod_geq)
    then have "unat (sa_pos a + sz) + unat (8 :: u64) - 1 < 2 ^ 64"
      using assms(3) unat_less [of "sa_pos a"] by simp presburger
    then have "unat (sa_pos a') = upper_align (unat (sa_pos a + sz)) 8"
      unfolding c(10) by (subst unat_upper_align) simp_all
    then have "unat (sa_pos a') \<le> unat (sa_pos a)"
      using upper_align_8_le [of "unat (sa_pos a + sz)"] q assms(3) by simp
    with c(3) show False by (simp add: word_less_nat_alt)
  qed
  then have "unat (sa_pos a + sz) = unat (sa_pos a) + unat sz" by (simp add: unat_word_ariths)
  with c(4,5) show "unat (sa_pos a) + unat sz \<le> unat (sa_lim a)" "unat (sa_pos a) + unat sz \<le> unat (sa_pos a')"
    by (simp_all add: word_le_nat_alt)
qed

primrec allocate_all :: "SimpleAllocator \<Rightarrow> u64 list \<Rightarrow> u64 list result" where
  "allocate_all a [] = Inr []"
| "allocate_all a (s # ss) = bnd (allocate a s) (\<lambda>(p, a'). bnd (allocate_all a' ss) (\<lambda>ps. Inr (p # ps)))"

lemma allocate_all_layout:
  assumes "allocate_all a ss = Inr ps" "unat (sa_base a) + unat (sa_lim a) < 2 ^ 64" "unat (sa_pos a) mod 8 = 0"
  shows "length ps = length ss
    \<and> (\<forall>i < length ss. unat (sa_base a) + unat (sa_pos a) \<le> unat (ps ! i)
         \<and> unat (ps ! i) + unat (ss ! i) \<le> unat (sa_base a) + unat (sa_lim a)
         \<and> unat (ps ! i) mod 8 = unat (sa_base a) mod 8)
    \<and> (\<forall>i j. i < j \<longrightarrow> j < length ss \<longrightarrow> unat (ps ! i) + unat (ss ! i) \<le> unat (ps ! j))"
  using assms
proof (induction ss arbitrary: a ps)
  case Nil
  then show ?case by simp
next
  case (Cons s ss)
  from Cons.prems(1) obtain p a' qs where
    1: "allocate a s = Inr (p, a')" and 2: "allocate_all a' ss = Inr qs" and ps: "ps = p # qs"
    by (auto simp: split_beta)
  note st = allocate_step [OF 1 Cons.prems(2,3)]
  have ih: "length qs = length ss
    \<and> (\<forall>i < length ss. unat (sa_base a) + unat (sa_pos a') \<le> unat (qs ! i)
         \<and> unat (qs ! i) + unat (ss ! i) \<le> unat (sa_base a) + unat (sa_lim a)
         \<and> unat (qs ! i) mod 8 = unat (sa_base a) mod 8)
    \<and> (\<forall>i j. i < j \<longrightarrow> j < length ss \<longrightarrow> unat (qs ! i) + unat (ss ! i) \<le> unat (qs ! j))"
    using Cons.IH [OF 2] st Cons.prems(2) by simp
  have pmod: "unat p mod 8 = unat (sa_base a) mod 8"
    using st(1) Cons.prems(3) by (metis add.right_neutral mod_add_right_eq)
  show ?case
    using ih st(1-3) pmod by (auto simp: ps nth_Cons' less_Suc_eq_0_disj)
qed

text \<open>
  C40. The blocks \<^verbatim>\<open>SimpleAllocator\<close> returns for any list of requests it accepts lie inside the
  region, keep the region's 8-byte alignment, and do not overlap: each ends before the later
  ones start, even for request sizes whose sum would wrap around.
\<close>

theorem SimpleAllocator_disjoint:
  assumes "allocate_all (sa_new mr) ss = Inr ps" "unat (mr_base mr) + unat (mr_len mr) < 2 ^ 64"
  shows "length ps = length ss
    \<and> (\<forall>i < length ss. unat (mr_base mr) \<le> unat (ps ! i)
         \<and> unat (ps ! i) + unat (ss ! i) \<le> unat (mr_base mr) + unat (mr_len mr)
         \<and> unat (ps ! i) mod 8 = unat (mr_base mr) mod 8)
    \<and> (\<forall>i j. i < j \<longrightarrow> j < length ss \<longrightarrow> unat (ps ! i) + unat (ss ! i) \<le> unat (ps ! j))"
  using allocate_all_layout [OF assms(1)] assms(2) by (simp add: sa_new_def)

theorem SimpleAllocator_disjoint_witness:
  "allocate_all (sa_new \<lparr>mr_base = 4096, mr_len = 64\<rparr>) [20, 3, 30] = Inr [4096, 4120, 4128]
    \<and> unat (4096 :: u64) + unat (20 :: u64) \<le> unat (4120 :: u64)"
proof -
  have a: "allocate_all (sa_new \<lparr>mr_base = 4096, mr_len = 64\<rparr>) [20, 3, 30] = Inr [4096, 4120, 4128]"
    by code_simp
  show ?thesis using a SimpleAllocator_disjoint [OF a] by (auto dest: spec [of _ 0] spec [of _ 1])
qed

lemma buffer_pieces_map:
  "0 < piece \<Longrightarrow> buffer_pieces p (p + piece * n) piece = map (\<lambda>i. (p + piece * i, piece)) [0..<n]"
proof (induction n arbitrary: p)
  case 0
  then show ?case by (simp add: buffer_pieces.simps [of p p])
next
  case (Suc n)
  have "map (\<lambda>i. (p + piece * i, piece)) [0..<Suc n] =
      (p, piece) # map (\<lambda>i. (p + piece + piece * i, piece)) [0..<n]"
    by (simp add: upt_conv_Cons map_Suc_upt [symmetric] algebra_simps del: upt_Suc)
  moreover have "buffer_pieces (p + piece) (p + piece * Suc n) piece = map (\<lambda>i. (p + piece + piece * i, piece)) [0..<n]"
    using Suc.IH [OF Suc.prems, of "p + piece"] by (simp add: add.assoc)
  ultimately show ?case using Suc.prems by (simp add: buffer_pieces.simps [of p] del: upt_Suc)
qed

text \<open>
  \<^verbatim>\<open>naive::Buffers\<close> cuts its allocation into exactly \<open>n\<close> pieces of \<open>piece_len\<close> bytes, the
  \<open>i\<close>-th at \<open>base + piece_len * i\<close>; with empty pieces there are none.
\<close>

theorem naive_Buffers_pieces:
  "naive_Buffers base n piece_len =
    (if piece_len = 0 then [] else map (\<lambda>i. (base + piece_len * i, piece_len)) [0..<n])"
  by (simp add: naive_Buffers_def buffer_pieces_map buffer_pieces.simps [of base base 0])

end
