(* ===== verification/Basic_Type.thy ===== *)
theory Basic_Type
  imports DPX_Prelude
begin

text \<open>
  The vocabulary of the serialization format: \<^verbatim>\<open>lib/sd/common/basic_type.h\<close> (the JVM's
  basic type codes, class ids and flags), \<^verbatim>\<open>lib/sd/native/basic_type.hxx\<close> (sizes, descriptor
  characters and names of the types, tests on types and flags; the DPA kernel's
  \<^verbatim>\<open>lib/sd/kernel/sd.c\<close> repeats the ones it uses) and the two records of
  \<^verbatim>\<open>lib/sd/common/class_info.h\<close>.

  \<^verbatim>\<open>basic_type_t\<close> is an 8-bit and \<^verbatim>\<open>class_id_t\<close> a 16-bit signed integer: the words are read
  with \<open>sint\<close> where the source compares them.
\<close>

section \<open>Constants\<close>

type_synonym class_id_t = u16
type_synonym flag_t = u16
type_synonym basic_type_t = u8

definition T_BOOLEAN :: basic_type_t where [simp]: "T_BOOLEAN = 4"
definition T_CHAR :: basic_type_t where [simp]: "T_CHAR = 5"
definition T_FLOAT :: basic_type_t where [simp]: "T_FLOAT = 6"
definition T_DOUBLE :: basic_type_t where [simp]: "T_DOUBLE = 7"
definition T_BYTE :: basic_type_t where [simp]: "T_BYTE = 8"
definition T_SHORT :: basic_type_t where [simp]: "T_SHORT = 9"
definition T_INT :: basic_type_t where [simp]: "T_INT = 10"
definition T_LONG :: basic_type_t where [simp]: "T_LONG = 11"
definition T_OBJECT :: basic_type_t where [simp]: "T_OBJECT = 12"
definition T_ARRAY :: basic_type_t where [simp]: "T_ARRAY = 13"
definition T_VOID :: basic_type_t where [simp]: "T_VOID = 14"
definition T_ILLEGAL :: basic_type_t where [simp]: "T_ILLEGAL = 20"

definition MIN_CLASS_ID :: nat where [simp]: "MIN_CLASS_ID = 20"
definition MAX_CLASS_ID :: nat where [simp]: "MAX_CLASS_ID = 32767"
definition UNREGISTERED_CLASS_ID :: class_id_t where [simp]: "UNREGISTERED_CLASS_ID = - 1"

definition CTRL_FLAG_MASK :: flag_t where [simp]: "CTRL_FLAG_MASK = 0x0F"
definition NULL_FLAG :: flag_t where [simp]: "NULL_FLAG = 0x1"
definition ENUM_FLAG :: flag_t where [simp]: "ENUM_FLAG = 0x2"
definition REDIRECT_FLAG :: flag_t where [simp]: "REDIRECT_FLAG = 0x3"
definition TYPE_FLAG_MASK :: flag_t where [simp]: "TYPE_FLAG_MASK = 0xF0"
definition OBJECT_FLAG :: flag_t where [simp]: "OBJECT_FLAG = 0x10"
definition ARRAY_FLAG :: flag_t where [simp]: "ARRAY_FLAG = 0x20"

text \<open>The layout constants of \<^verbatim>\<open>class_info.h\<close>: structure sizes as the C compiler lays them out.\<close>

definition MAX_SIGNATURE_LENGTH :: nat where [simp]: "MAX_SIGNATURE_LENGTH = 80"
definition OBJECT_DATA_OFFSET :: nat where [simp]: "OBJECT_DATA_OFFSET = 8"
definition sizeof_class_info :: nat where [simp]: "sizeof_class_info = 24"
definition sizeof_field_info :: nat where [simp]: "sizeof_field_info = 24"
definition sizeof_obj_with_handle :: nat where [simp]: "sizeof_obj_with_handle = 16"

section \<open>Types and flags\<close>

definition is_primitive_type :: "basic_type_t \<Rightarrow> bool" where
  "is_primitive_type t \<longleftrightarrow> sint T_BOOLEAN \<le> sint t \<and> sint t \<le> sint T_LONG"

definition is_reference_type :: "basic_type_t \<Rightarrow> bool" where
  "is_reference_type t \<longleftrightarrow> sint T_OBJECT \<le> sint t \<and> sint t \<le> sint T_ARRAY"

text \<open>
  \<^verbatim>\<open>type_size\<close> takes an unsigned 16-bit integer: the signed type code is sign-extended first.
\<close>

definition type_size :: "basic_type_t \<Rightarrow> u32 result" where
  "type_size b =
    (let t = (scast b :: u16) in
     if t = 4 \<or> t = 8 then Inr 1
     else if t = 5 \<or> t = 9 then Inr 2
     else if t = 10 \<or> t = 6 then Inr 4
     else if t = 11 \<or> t = 7 then Inr 8
     else if t = 12 \<or> t = 13 then Inr 4
     else if t = 14 \<or> t = 15 \<or> t = 16 \<or> t = 17 \<or> t = 18 \<or> t = 19 \<or> t = 20 then Inr 0
     else Inl Unreachable)"

definition char2type :: "char \<Rightarrow> basic_type_t result" where
  "char2type c =
    (if c = CHR ''B'' then Inr T_BYTE
     else if c = CHR ''C'' then Inr T_CHAR
     else if c = CHR ''D'' then Inr T_DOUBLE
     else if c = CHR ''F'' then Inr T_FLOAT
     else if c = CHR ''I'' then Inr T_INT
     else if c = CHR ''J'' then Inr T_LONG
     else if c = CHR ''S'' then Inr T_SHORT
     else if c = CHR ''Z'' then Inr T_BOOLEAN
     else if c = CHR ''V'' then Inr T_VOID
     else if c = CHR ''L'' then Inr T_OBJECT
     else if c = CHR ''['' then Inr T_ARRAY
     else Inl Unreachable)"

definition type2sig :: "basic_type_t \<Rightarrow> string result" where
  "type2sig t =
    (if t = T_BOOLEAN then Inr ''Z''
     else if t = T_CHAR then Inr ''C''
     else if t = T_FLOAT then Inr ''F''
     else if t = T_DOUBLE then Inr ''D''
     else if t = T_BYTE then Inr ''B''
     else if t = T_SHORT then Inr ''S''
     else if t = T_INT then Inr ''I''
     else if t = T_LONG then Inr ''J''
     else Inl Unreachable)"

definition type2str :: "basic_type_t \<Rightarrow> string result" where
  "type2str t =
    (if t = T_BOOLEAN then Inr ''Boolean''
     else if t = T_CHAR then Inr ''Char''
     else if t = T_FLOAT then Inr ''Float''
     else if t = T_DOUBLE then Inr ''Double''
     else if t = T_BYTE then Inr ''Byte''
     else if t = T_SHORT then Inr ''Short''
     else if t = T_INT then Inr ''Int''
     else if t = T_LONG then Inr ''Long''
     else if t = T_OBJECT then Inr ''Object''
     else if t = T_ARRAY then Inr ''Array''
     else if t \<in> {14, 15, 16, 17, 18, 19, 20} then Inr ''unsupported''
     else Inl Unreachable)"

definition is_null_f :: "flag_t \<Rightarrow> bool" where
  "is_null_f f \<longleftrightarrow> f AND CTRL_FLAG_MASK = NULL_FLAG"
definition is_object_f :: "flag_t \<Rightarrow> bool" where
  "is_object_f f \<longleftrightarrow> f AND TYPE_FLAG_MASK = OBJECT_FLAG"
definition is_array_f :: "flag_t \<Rightarrow> bool" where
  "is_array_f f \<longleftrightarrow> f AND TYPE_FLAG_MASK = ARRAY_FLAG"
definition is_enum_f :: "flag_t \<Rightarrow> bool" where
  "is_enum_f f \<longleftrightarrow> is_object_f f \<and> f AND CTRL_FLAG_MASK = ENUM_FLAG"
definition is_redirect_f :: "flag_t \<Rightarrow> bool" where
  "is_redirect_f f \<longleftrightarrow> f AND CTRL_FLAG_MASK = REDIRECT_FLAG"

section \<open>Class descriptions\<close>

record obj_with_handle_t =
  oh_object :: u64
  oh_handle :: u64

record field_info_t =
  fi_id :: class_id_t
  fi_offset :: u16
  fi_type :: basic_type_t
  fi_flag :: u16
  fi_j_field_id :: u64

text \<open>
  A \<^verbatim>\<open>class_info_t\<close> with what follows it in its block of the resolver's buffer: the flexible
  array of fields, for an enum the array of its instances at \<^verbatim>\<open>enum_ref_arr_off\<close>, and the
  NUL-terminated signature at \<^verbatim>\<open>sig_off\<close>.
\<close>

record class_info_t =
  ci_klass :: u64
  ci_id :: class_id_t
  ci_enum_ref_arr_off :: u16
  ci_klass_cptr :: u32
  ci_obj_size :: u16
  ci_header_size :: u8
  ci_n_non_static_field :: u8
  ci_n_static_field :: u8
  ci_dim :: u8
  ci_sig_off :: u16
  ci_fields :: "field_info_t list"
  ci_enums :: "obj_with_handle_t list"
  ci_sig :: string

definition is_enum :: "class_info_t \<Rightarrow> bool" where "is_enum i \<longleftrightarrow> ci_enum_ref_arr_off i \<noteq> 0"
definition is_array :: "class_info_t \<Rightarrow> bool" where "is_array i \<longleftrightarrow> 1 \<le> ci_dim i"
definition is_object :: "class_info_t \<Rightarrow> bool" where "is_object i \<longleftrightarrow> ci_dim i = 0"

definition object_size :: "class_info_t \<Rightarrow> u32" where "object_size i = ucast (ci_obj_size i)"
definition object_header_size :: "class_info_t \<Rightarrow> u32" where "object_header_size i = ucast (ci_header_size i)"
definition object_body_size :: "class_info_t \<Rightarrow> u32" where
  "object_body_size i = ucast (ci_obj_size i) - ucast (ci_header_size i)"
definition array_header_size :: "class_info_t \<Rightarrow> u32" where "array_header_size i = ucast (ci_header_size i)"

definition get_field :: "class_info_t \<Rightarrow> nat \<Rightarrow> field_info_t result" where
  "get_field i idx = (if idx < length (ci_fields i) then Inr (ci_fields i ! idx) else Inl Out_of_bounds)"

definition array_body_size :: "class_info_t \<Rightarrow> u32 \<Rightarrow> u32 result" where
  "array_body_size i len = bnd (get_field i 0) (\<lambda>f. bnd (type_size (fi_type f)) (\<lambda>s. Inr (len * s)))"

definition array_size :: "class_info_t \<Rightarrow> u32 \<Rightarrow> u32 result" where
  "array_size i len = bnd (array_body_size i len) (\<lambda>s. Inr (ucast (ci_header_size i) + s))"

definition get_enum :: "class_info_t \<Rightarrow> u32 \<Rightarrow> obj_with_handle_t result" where
  "get_enum i ordinal =
    (if unat ordinal < length (ci_enums i) then Inr (ci_enums i ! unat ordinal) else Inl Out_of_bounds)"

definition mirror_size :: "class_info_t \<Rightarrow> nat" where
  "mirror_size i = sizeof_class_info + unat (ci_n_non_static_field i) * sizeof_field_info
     + (if is_enum i then unat (ci_n_static_field i) * 8 else 0)"

definition ci_size :: "class_info_t \<Rightarrow> nat" where
  "ci_size i = mirror_size i + MAX_SIGNATURE_LENGTH"

section \<open>Facts about types and flags\<close>

lemma prim_or_ref_cases:
  "is_primitive_type t \<Longrightarrow> t \<in> {4, 5, 6, 7, 8, 9, 10, 11}"
  "is_reference_type t \<Longrightarrow> t \<in> {12, 13}"
proof -
  show "t \<in> {4, 5, 6, 7, 8, 9, 10, 11}" if "is_primitive_type t"
  proof -
    from that have "4 \<le> sint t" "sint t \<le> 11" by (simp_all add: is_primitive_type_def)
    then consider "sint t = 4" | "sint t = 5" | "sint t = 6" | "sint t = 7"
      | "sint t = 8" | "sint t = 9" | "sint t = 10" | "sint t = 11" by linarith
    then show ?thesis by cases (simp_all add: word_eq_iff_signed [where 'a = int])
  qed
  show "t \<in> {12, 13}" if "is_reference_type t"
  proof -
    from that have "12 \<le> sint t" "sint t \<le> 13" by (simp_all add: is_reference_type_def)
    then consider "sint t = 12" | "sint t = 13" by linarith
    then show ?thesis by cases (simp_all add: word_eq_iff_signed [where 'a = int])
  qed
qed

lemma is_primitive_type_iff: "is_primitive_type t \<longleftrightarrow> t \<in> {4, 5, 6, 7, 8, 9, 10, 11}"
  using prim_or_ref_cases(1) by (auto simp: is_primitive_type_def)

lemma is_reference_type_iff: "is_reference_type t \<longleftrightarrow> t \<in> {12, 13}"
  using prim_or_ref_cases(2) by (auto simp: is_reference_type_def)

lemma prim_not_ref: "is_primitive_type t \<Longrightarrow> \<not> is_reference_type t"
  by (auto simp: is_primitive_type_iff is_reference_type_iff)

lemma type_size_prim:
  assumes "is_primitive_type t"
  obtains s where "type_size t = Inr s" "unat s \<in> {1, 2, 4, 8}"
  using assms that by (auto simp: is_primitive_type_iff type_size_def Let_def)

lemma flag_tests [simp]:
  "is_null_f 1" "\<not> is_null_f 0x10" "\<not> is_null_f 0x12" "\<not> is_null_f 0x20"
  "\<not> is_redirect_f 0x10" "\<not> is_redirect_f 0x12" "\<not> is_redirect_f 0x20"
  "is_object_f 0x10" "is_enum_f 0x12" "is_array_f 0x20"
  by (simp_all add: is_null_f_def is_redirect_f_def is_object_f_def is_enum_f_def is_array_f_def)

end
