(* ===== verification/Jvm_Layout.thy ===== *)
theory Jvm_Layout
  imports Basic_Type
begin

text \<open>
  What the serializer knows of the HotSpot JVM it runs in: \<^verbatim>\<open>lib/sd/common/args.h\<close> and
  \<^verbatim>\<open>lib/sd/native/jvm_args.hxx\<close> (compressed pointers) and \<^verbatim>\<open>lib/sd/native/fake.hxx\<close> (mirrors
  of the JVM's own structures: packed field infos, layout helpers, klasses, objects). The Java
  heap is the byte memory of the prelude; the metaspace is a map from addresses to klasses.
\<close>

section \<open>Compressed pointers\<close>

definition MODE_RAW32 :: u32 where [simp]: "MODE_RAW32 = 1"
definition MODE_ZERO_BASED :: u32 where [simp]: "MODE_ZERO_BASED = 2"
definition MODE_NON_ZERO_BASED :: u32 where [simp]: "MODE_NON_ZERO_BASED = 3"
definition MODE_RAW64 :: u32 where [simp]: "MODE_RAW64 = 4"

record jvm_args_t =
  h_heap_base :: u64
  h_heap_size :: u64
  h_compressed_class_space_base :: u64
  h_compressed_class_space_size :: u64
  heap_mmap_h :: u32
  heap_compress_ptr_mode :: u32
  metaspace_compress_ptr_mode :: u32
  heap_compress_ptr_shift :: u32
  metaspace_compress_ptr_shift :: u32

definition parse_cptr :: "u32 \<Rightarrow> u64 \<Rightarrow> u32 \<Rightarrow> u32 \<Rightarrow> u64 result" where
  "parse_cptr cptr base mode shift =
    (let ptr = (ucast cptr :: u64) in
     if mode = MODE_RAW32 then Inr ptr
     else if mode = MODE_ZERO_BASED then Inr (push_bit (unat shift) ptr)
     else if mode = MODE_NON_ZERO_BASED then Inr (base + push_bit (unat shift) ptr)
     else Inl Unreachable)"

definition compress_ptr :: "u64 \<Rightarrow> u64 \<Rightarrow> u32 \<Rightarrow> u32 \<Rightarrow> u32 result" where
  "compress_ptr ptr base mode shift =
    (if mode = MODE_RAW32 then Inr (ucast ptr)
     else if mode = MODE_ZERO_BASED then Inr (ucast (drop_bit (unat shift) ptr))
     else if mode = MODE_NON_ZERO_BASED then Inr (ucast (drop_bit (unat shift) ptr - base))
     else Inl Unreachable)"

text \<open>The argument is narrowed from 64 bits to the 32 bits \<^verbatim>\<open>parse_cptr\<close> takes.\<close>

definition parse_heap_cptr :: "jvm_args_t \<Rightarrow> u64 \<Rightarrow> u64 result" where
  "parse_heap_cptr a cptr =
    parse_cptr (ucast cptr) (h_heap_base a) (heap_compress_ptr_mode a) (heap_compress_ptr_shift a)"

definition parse_metaspace_cptr :: "jvm_args_t \<Rightarrow> u64 \<Rightarrow> u64 result" where
  "parse_metaspace_cptr a cptr =
    parse_cptr (ucast cptr) (h_compressed_class_space_base a) (metaspace_compress_ptr_mode a)
      (metaspace_compress_ptr_shift a)"

definition compress_heap_ptr :: "jvm_args_t \<Rightarrow> u64 \<Rightarrow> u32 result" where
  "compress_heap_ptr a ptr =
    compress_ptr ptr (h_heap_base a) (heap_compress_ptr_mode a) (heap_compress_ptr_shift a)"

definition compress_metaspace_ptr :: "jvm_args_t \<Rightarrow> u64 \<Rightarrow> u32 result" where
  "compress_metaspace_ptr a ptr =
    compress_ptr ptr (h_compressed_class_space_base a) (metaspace_compress_ptr_mode a)
      (metaspace_compress_ptr_shift a)"

section \<open>Field infos and layout helpers\<close>

record FakeFieldInfo =
  access_flags :: u16
  name_index_offset :: u16
  signature_index_offset :: u16
  initval_index_offset :: u16
  low_packed_offset :: u16
  high_packed_offset :: u16

definition ff_is_static :: "FakeFieldInfo \<Rightarrow> bool" where
  "ff_is_static f \<longleftrightarrow> access_flags f AND 0x0008 \<noteq> 0"
definition ff_is_internal :: "FakeFieldInfo \<Rightarrow> bool" where
  "ff_is_internal f \<longleftrightarrow> access_flags f AND 0x0400 \<noteq> 0"
definition field_has_generic_signature :: "FakeFieldInfo \<Rightarrow> bool" where
  "field_has_generic_signature f \<longleftrightarrow> access_flags f AND 0x0800 \<noteq> 0"

text \<open>The constant pool as its array of symbols; index 0 is unused.\<close>

definition symbol_at :: "string list \<Rightarrow> u16 \<Rightarrow> string result" where
  "symbol_at cp i = (if unat i < length cp then Inr (cp ! unat i) else Inl Out_of_bounds)"

definition ff_signature :: "FakeFieldInfo \<Rightarrow> string list \<Rightarrow> string result" where
  "ff_signature f cp = symbol_at cp (signature_index_offset f)"

definition ff_name :: "FakeFieldInfo \<Rightarrow> string list \<Rightarrow> string result" where
  "ff_name f cp = symbol_at cp (name_index_offset f)"

definition ff_type :: "FakeFieldInfo \<Rightarrow> string list \<Rightarrow> basic_type_t result" where
  "ff_type f cp = bnd (ff_signature f cp) (\<lambda>sig.
     case sig of [] \<Rightarrow> Inl Out_of_bounds | c # _ \<Rightarrow> char2type c)"

text \<open>
  The offset packed into two halves above a two-bit tag. The arithmetic is that of a signed
  32-bit integer, so the right shift is arithmetic.
\<close>

definition ff_offset :: "FakeFieldInfo \<Rightarrow> u32 result" where
  "ff_offset f =
    bnd (check (low_packed_offset f AND 3 = 1) Assert_fail) (\<lambda>_.
      Inr (signed_drop_bit 2 (push_bit 16 (ucast (high_packed_offset f)) OR ucast (low_packed_offset f))))"

text \<open>\<^verbatim>\<open>MSB:[tag, hsz, ebt, log2(esz)]:LSB\<close> for arrays, the instance size for instances.\<close>

definition lh_is_instance :: "u32 \<Rightarrow> bool" where "lh_is_instance lh \<longleftrightarrow> 0 < sint lh"
definition lh_is_array :: "u32 \<Rightarrow> bool" where "lh_is_array lh \<longleftrightarrow> sint lh < 0"
definition lh_is_type_array :: "u32 \<Rightarrow> bool" where "lh_is_type_array lh \<longleftrightarrow> 0xC0000000 \<le> lh"
definition lh_object_size :: "u32 \<Rightarrow> u32" where "lh_object_size lh = lh AND 0xFFFFFFFE"
definition lh_array_header_size :: "u32 \<Rightarrow> u32" where
  "lh_array_header_size lh = signed_drop_bit 16 lh AND 0xFF"
definition lh_element_type :: "u32 \<Rightarrow> basic_type_t" where
  "lh_element_type lh = ucast (signed_drop_bit 8 lh AND 0xFF)"
definition lh_element_size :: "u32 \<Rightarrow> u64" where
  "lh_element_size lh = scast (push_bit (unat (lh AND 0x3F)) (1 :: u32))"

section \<open>Klasses\<close>

text \<open>
  \<^verbatim>\<open>FakeKlass\<close> with the members of its subclasses: the C++ code casts a klass to the subclass
  its layout helper announces. Pointers to klasses are addresses in the metaspace, 0 is null.
\<close>

record FakeKlass =
  k_lh :: u32
  k_symbol :: string
  k_super :: u64
  k_constant_pool :: "string list"
  k_java_fields_count :: u16
  k_field_info_length :: u32
  k_infos :: "FakeFieldInfo list"
  k_dimension :: u32
  k_lower_dimension :: u64
  k_element_klass :: u64

type_synonym metaspace = "u64 \<Rightarrow> FakeKlass option"

definition klass_at :: "metaspace \<Rightarrow> u64 \<Rightarrow> FakeKlass result" where
  "klass_at ms p = (case ms p of None \<Rightarrow> Inl Out_of_bounds | Some k \<Rightarrow> Inr k)"

definition klass_is_enum :: "metaspace \<Rightarrow> FakeKlass \<Rightarrow> bool result" where
  "klass_is_enum ms k =
    (if k_super k = 0 then Inr False
     else bnd (klass_at ms (k_super k)) (\<lambda>s. Inr (k_symbol s = ''java/lang/Enum'')))"

text \<open>
  \<^verbatim>\<open>fields_count\<close>: the array holds six 16-bit words per field, then one word per generic
  signature. The loop shrinks the limit by one for every field that has one.
\<close>

function fields_count_loop :: "FakeFieldInfo list \<Rightarrow> nat \<Rightarrow> nat \<Rightarrow> nat \<Rightarrow> (nat \<times> nat) result" where
  "fields_count_loop infos i limit n_static =
    (if i * 6 < limit then
       if i < length infos then
         fields_count_loop infos (Suc i)
           (if field_has_generic_signature (infos ! i) then limit - 1 else limit)
           (if ff_is_static (infos ! i) then Suc n_static else n_static)
       else Inl Out_of_bounds
     else Inr (limit, n_static))"
  by pat_completeness auto
termination
  by (relation "measure (\<lambda>(infos, i, limit, n). length infos - i)") auto

declare fields_count_loop.simps [simp del]

definition fields_count :: "FakeKlass \<Rightarrow> (u8 \<times> u8) result" where
  "fields_count k =
    bnd (check (lh_is_instance (k_lh k)) Assert_fail) (\<lambda>_.
    bnd (fields_count_loop (k_infos k) 0 (unat (k_field_info_length k)) 0) (\<lambda>(limit, n_static).
      Inr (of_nat (limit div 6), of_nat n_static)))"

definition klass_field :: "FakeKlass \<Rightarrow> nat \<Rightarrow> FakeFieldInfo result" where
  "klass_field k index =
    bnd (check (lh_is_instance (k_lh k)) Assert_fail) (\<lambda>_.
      if index < length (k_infos k) then Inr (k_infos k ! index) else Inl Out_of_bounds)"

section \<open>Objects\<close>

text \<open>
  A \<^verbatim>\<open>FakeObject\<close> is its address in the heap; \<^verbatim>\<open>raw(off)\<close> is \<open>off\<close> bytes after it, the klass
  pointer follows the 8-byte mark word.
\<close>

definition raw :: "u64 \<Rightarrow> u32 \<Rightarrow> u64" where
  "raw obj off = obj + ucast off"

definition parse_u32_at :: "mem \<Rightarrow> u64 \<Rightarrow> u32 \<Rightarrow> u32" where
  "parse_u32_at m obj off = bytes_u32 (rd m (raw obj off) 4)"

definition parse_u64_at :: "mem \<Rightarrow> u64 \<Rightarrow> u32 \<Rightarrow> u64" where
  "parse_u64_at m obj off = bytes_u64 (rd m (raw obj off) 8)"

definition place_u32_at :: "mem \<Rightarrow> u64 \<Rightarrow> u32 \<Rightarrow> u32 \<Rightarrow> mem" where
  "place_u32_at m obj off v = wr m (raw obj off) (u32_bytes v)"

definition reference_at :: "jvm_args_t \<Rightarrow> mem \<Rightarrow> u64 \<Rightarrow> u32 \<Rightarrow> u64 result" where
  "reference_at a m obj off = parse_heap_cptr a (ucast (parse_u32_at m obj off))"

definition klass_pointer :: "jvm_args_t \<Rightarrow> mem \<Rightarrow> u64 \<Rightarrow> u64 result" where
  "klass_pointer a m obj = parse_metaspace_cptr a (ucast (parse_u32_at m obj 8))"

definition enum_ordinal :: "mem \<Rightarrow> u64 \<Rightarrow> u32" where
  "enum_ordinal m obj = parse_u32_at m obj 12"

definition array_length :: "mem \<Rightarrow> u64 \<Rightarrow> u32 \<Rightarrow> u32" where
  "array_length m obj base = parse_u32_at m obj (base - 4)"

definition array_elem_ref :: "jvm_args_t \<Rightarrow> mem \<Rightarrow> u64 \<Rightarrow> u32 \<Rightarrow> u32 \<Rightarrow> u64 result" where
  "array_elem_ref a m obj base i = reference_at a m obj (base + i * 4)"

definition from_jobject :: "mem \<Rightarrow> u64 \<Rightarrow> u64" where
  "from_jobject m h = bytes_u64 (rd m h 8)"

definition from_clazz :: "jvm_args_t \<Rightarrow> mem \<Rightarrow> metaspace \<Rightarrow> u64 \<Rightarrow> u64 result" where
  "from_clazz a m ms j_class =
    (let class_object = from_jobject m j_class in
     bnd (klass_pointer a m class_object) (\<lambda>kp.
     bnd (klass_at ms kp) (\<lambda>class_klass.
     bnd (klass_field class_klass (unat (k_java_fields_count class_klass))) (\<lambda>f.
     bnd (ff_offset f) (\<lambda>off.
       Inr (parse_u64_at m class_object off))))))"

section \<open>Properties of compressed pointers and of the JVM mirrors\<close>

lemma drop_push_word:
  fixes q :: u64 and c :: u32
  assumes "unat q mod 2 ^ s = 0" "unat q + unat c * 2 ^ s < 2 ^ 64"
  shows "drop_bit s (q + push_bit s (ucast c)) = drop_bit s q + ucast c"
proof -
  have c: "unat (ucast c :: u64) = unat c" by (simp add: unat_ucast_up)
  have cs: "unat c * 2 ^ s < 2 ^ 64" using assms(2) by linarith
  have p: "unat (push_bit s (ucast c :: u64)) = unat c * 2 ^ s"
    unfolding unsigned_push_bit_eq c using cs by (simp add: push_bit_eq_mult take_bit_nat_eq_self)
  have "unat (q + push_bit s (ucast c)) = unat q + unat c * 2 ^ s"
    using assms(2) by (simp add: unat_word_ariths p)
  then have "unat (drop_bit s (q + push_bit s (ucast c))) = unat q div 2 ^ s + unat c"
    unfolding unat_drop_bit_eq by (simp add: drop_bit_eq_div)
  moreover have "unat q div 2 ^ s + unat c < 2 ^ 64"
  proof -
    have "unat c \<le> unat c * 2 ^ s" "unat q div 2 ^ s \<le> unat q" by simp_all
    then show ?thesis using assms(2) by linarith
  qed
  then have "unat (drop_bit s q + ucast c) = unat q div 2 ^ s + unat c"
    unfolding unat_word_ariths unat_drop_bit_eq c by (simp add: drop_bit_eq_div)
  ultimately show ?thesis by (simp add: word_unat_eq_iff)
qed

text \<open>
  A compressed pointer that is decompressed and compressed again is unchanged, in the modes
  \<^verbatim>\<open>RAW32\<close> and \<^verbatim>\<open>ZERO_BASED\<close> (the one mode \<^verbatim>\<open>Options::from_java\<close> accepts) for every 32-bit value
  whose address fits into 64 bits.
\<close>

theorem cptr_roundtrip:
  assumes "mode = MODE_RAW32 \<or> mode = MODE_ZERO_BASED" "unat c * 2 ^ unat shift < 2 ^ 64"
  shows "bnd (parse_cptr c base mode shift) (\<lambda>p. compress_ptr p base mode shift) = Inr c"
  using assms drop_push_word [of 0 "unat shift" c] by (auto simp: parse_cptr_def compress_ptr_def Let_def)

theorem cptr_roundtrip_witness:
  "bnd (parse_cptr 0xC0000123 0 MODE_ZERO_BASED 3) (\<lambda>p. compress_ptr p 0 MODE_ZERO_BASED 3) = Inr 0xC0000123"
  using cptr_roundtrip [where mode = MODE_ZERO_BASED and c = "0xC0000123" and shift = 3 and base = 0] by simp

text \<open>
  In the mode \<^verbatim>\<open>NON_ZERO_BASED\<close> compression does not undo decompression: it subtracts the
  base after the shift instead of before it, and so returns the compressed pointer off by
  \<open>(base >> shift) - base\<close> in 32-bit arithmetic.
\<close>

theorem cptr_non_zero_based_off:
  assumes "unat base mod 2 ^ unat shift = 0" "unat base + unat c * 2 ^ unat shift < 2 ^ 64"
  shows "bnd (parse_cptr c base MODE_NON_ZERO_BASED shift) (\<lambda>p. compress_ptr p base MODE_NON_ZERO_BASED shift)
    = Inr (c + (ucast (drop_bit (unat shift) base) - ucast base))"
  using drop_push_word [OF assms] by (simp add: parse_cptr_def compress_ptr_def Let_def ucast_sub_u32 ucast_add_u32 algebra_simps)

theorem cptr_non_zero_based_off_witness:
  "bnd (parse_cptr 1 0x7F0000000 MODE_NON_ZERO_BASED 3) (\<lambda>p. compress_ptr p 0x7F0000000 MODE_NON_ZERO_BASED 3)
    = Inr 0x0E000001"
proof -
  have "drop_bit 3 (0x7F0000000 :: u64) = 0xFE000000" by code_simp
  then show ?thesis using cptr_non_zero_based_off [of "0x7F0000000" 3 1] by simp
qed

lemma fields_count_loop_correct:
  assumes "i \<le> length infos"
  shows "fields_count_loop infos i
      (6 * length infos + length (filter field_has_generic_signature (drop i infos))) ns
    = Inr (6 * length infos, ns + length (filter ff_is_static (drop i infos)))"
  using assms
proof (induction "length infos - i" arbitrary: i ns)
  case 0
  then show ?case by (simp add: fields_count_loop.simps)
next
  case (Suc n)
  then have "i < length infos" by simp
  then have d: "drop i infos = infos ! i # drop (Suc i) infos" by (simp add: Cons_nth_drop_Suc)
  have "n = length infos - Suc i" "Suc i \<le> length infos" using Suc by simp_all
  note IH = Suc.hyps(1) [OF this]
  show ?case
    using \<open>i < length infos\<close> IH by (subst fields_count_loop.simps) (simp add: d)
qed

text \<open>
  \<^verbatim>\<open>FakeInstanceKlass::fields_count\<close> on a well-formed field array (six words per field and
  one more for each generic signature) ends without reading past the fields and counts all
  fields and the static ones; the counts are 8-bit.
\<close>

theorem fields_count_correct:
  assumes "lh_is_instance (k_lh k)"
    and "unat (k_field_info_length k) =
      6 * length (k_infos k) + length (filter field_has_generic_signature (k_infos k))"
  shows "fields_count k = Inr (of_nat (length (k_infos k)), of_nat (length (filter ff_is_static (k_infos k))))"
  using assms fields_count_loop_correct [of 0 "k_infos k" 0] by (simp add: fields_count_def)

definition example_klass :: FakeKlass where
  "example_klass = \<lparr>k_lh = 24, k_symbol = ''A'', k_super = 0,
    k_constant_pool = ['''', ''x'', ''I'', ''c'', ''LB;'', ''S''],
    k_java_fields_count = 3, k_field_info_length = 19,
    k_infos = [\<lparr>access_flags = 0, name_index_offset = 1, signature_index_offset = 2, initval_index_offset = 0,
                 low_packed_offset = 65, high_packed_offset = 0\<rparr>,
               \<lparr>access_flags = 0x0800, name_index_offset = 3, signature_index_offset = 4, initval_index_offset = 0,
                 low_packed_offset = 49, high_packed_offset = 0\<rparr>,
               \<lparr>access_flags = 8, name_index_offset = 5, signature_index_offset = 2, initval_index_offset = 0,
                 low_packed_offset = 401, high_packed_offset = 0\<rparr>],
    k_dimension = 0, k_lower_dimension = 0, k_element_klass = 0\<rparr>"

theorem fields_count_correct_witness:
  "fields_count example_klass = Inr (3, 1)"
  using fields_count_correct [of example_klass]
  by (simp add: example_klass_def lh_is_instance_def field_has_generic_signature_def ff_is_static_def)

end
