(* ===== verification/Class_Resolver.thy ===== *)
theory Class_Resolver
  imports Jvm_Layout Memory_Pool
begin

text \<open>
  Class registration: \<^verbatim>\<open>lib/sd/native/class_resolver.hxx\<close>, \<^verbatim>\<open>class_resolver.cxx\<close> and
  \<^verbatim>\<open>class_walker.cxx\<close>. The resolver keeps the class descriptions of all registered classes in
  blocks of one buffer, found by class id, by klass address and by signature. A reference field
  whose class is not registered yet waits in \<^verbatim>\<open>unresolved\<close> and is patched when it is.

  A \<^verbatim>\<open>ClassInfo\<close> is the address of its block (0 is the dummy); \<open>r_store\<close> holds the blocks. The
  JNI functions the walker calls are arguments.
\<close>

section \<open>State\<close>

record ClassResolver =
  r_alloc :: SimpleAllocator
  r_store :: "u64 \<rightharpoonup> class_info_t"
  info_by_id :: "u64 list"
  info_by_klass :: "u64 list"
  sig2id :: "string \<rightharpoonup> class_id_t"
  unresolved :: "string \<rightharpoonup> (u64 \<times> nat) list"

text \<open>The JVM as class registration sees it; classes are designated by their klass address.\<close>

record jvm =
  j_args :: jvm_args_t
  j_mem :: mem
  j_metaspace :: metaspace
  GetFieldID :: "u64 \<Rightarrow> string \<Rightarrow> string \<Rightarrow> u64"
  GetStaticFieldID :: "u64 \<Rightarrow> string \<Rightarrow> string \<Rightarrow> u64"
  GetStaticObjectField :: "u64 \<Rightarrow> u64 \<Rightarrow> u64"
  NewGlobalRef :: "u64 \<Rightarrow> u64"

definition resolver_new :: "MemoryRegion \<Rightarrow> ClassResolver" where
  "resolver_new infos = \<lparr>r_alloc = sa_new infos, r_store = Map.empty, info_by_id = [], info_by_klass = [],
    sig2id = Map.empty, unresolved = Map.empty\<rparr>"

definition info_at :: "ClassResolver \<Rightarrow> u64 \<Rightarrow> class_info_t result" where
  "info_at r p = (case r_store r p of None \<Rightarrow> Inl Out_of_bounds | Some i \<Rightarrow> Inr i)"

definition klass_of :: "ClassResolver \<Rightarrow> u64 \<Rightarrow> u64" where
  "klass_of r p = (case r_store r p of None \<Rightarrow> 0 | Some i \<Rightarrow> ci_klass i)"

section \<open>Lookup\<close>

definition id2index :: "class_id_t \<Rightarrow> nat result" where
  "id2index cid = bnd (check (int MIN_CLASS_ID \<le> sint cid) Assert_fail) (\<lambda>_. Inr (nat (sint cid) - MIN_CLASS_ID))"

definition index2id :: "nat \<Rightarrow> class_id_t result" where
  "index2id i = bnd (check (i + MIN_CLASS_ID \<le> MAX_CLASS_ID) Assert_fail) (\<lambda>_. Inr (of_nat (i + MIN_CLASS_ID)))"

definition get_class_info_id :: "ClassResolver \<Rightarrow> class_id_t \<Rightarrow> u64 result" where
  "get_class_info_id r cid = bnd (id2index cid) (\<lambda>idx.
     Inr (if idx < length (info_by_id r) then info_by_id r ! idx else 0))"

definition get_class_info_sig :: "ClassResolver \<Rightarrow> string \<Rightarrow> u64 result" where
  "get_class_info_sig r sig =
    (case sig2id r sig of
       None \<Rightarrow> Inr 0
     | Some cid \<Rightarrow> bnd (id2index cid) (\<lambda>idx.
         if idx < length (info_by_id r) then Inr (info_by_id r ! idx) else Inl Out_of_bounds))"

text \<open>\<^verbatim>\<open>std::ranges::lower_bound\<close> on a sorted range: the first position that is not less.\<close>

definition lower_bound :: "('a \<Rightarrow> u64) \<Rightarrow> 'a list \<Rightarrow> u64 \<Rightarrow> nat" where
  "lower_bound key xs k = length (takeWhile (\<lambda>x. key x < k) xs)"

definition get_class_info :: "ClassResolver \<Rightarrow> u64 \<Rightarrow> u64" where
  "get_class_info r klass =
    (let it = lower_bound (klass_of r) (info_by_klass r) klass in
     if it < length (info_by_klass r)
     then (if klass_of r (info_by_klass r ! it) = klass then info_by_klass r ! it else 0)
     else 0)"

definition get_class_info_cptr :: "jvm_args_t \<Rightarrow> ClassResolver \<Rightarrow> u32 \<Rightarrow> u64 result" where
  "get_class_info_cptr a r klass_cptr =
    bnd (parse_metaspace_cptr a (ucast klass_cptr)) (\<lambda>k. Inr (get_class_info r k))"

section \<open>Building descriptions\<close>

text \<open>\<^verbatim>\<open>memset(info->fields, -1, ...)\<close>\<close>

definition unset_field :: field_info_t where
  "unset_field = \<lparr>fi_id = - 1, fi_offset = - 1, fi_type = - 1, fi_flag = - 1, fi_j_field_id = - 1\<rparr>"

definition alloc_info :: "ClassResolver \<Rightarrow> nat \<Rightarrow> class_info_t \<Rightarrow> (u64 \<times> ClassResolver) result" where
  "alloc_info r needed_size i = bnd (allocate (r_alloc r) (of_nat needed_size)) (\<lambda>(p, a').
     Inr (p, r\<lparr>r_alloc := a', r_store := (r_store r)(p \<mapsto> i)\<rparr>))"

definition from_instance_klass :: "jvm \<Rightarrow> ClassResolver \<Rightarrow> u64 \<Rightarrow> bool \<Rightarrow> (u64 \<times> ClassResolver) result" where
  "from_instance_klass J r klass isenum =
    bnd (klass_at (j_metaspace J) klass) (\<lambda>k.
    bnd (fields_count k) (\<lambda>(n_field, n_static).
    let n_non_static = n_field - n_static;
        needed = sizeof_class_info + unat n_non_static * sizeof_field_info in
    bnd (if isenum then check (1 < n_static \<and> n_non_static = 0) Assert_fail else Inr ()) (\<lambda>_.
    let enum_off = (if isenum then of_nat needed else 0 :: u16);
        needed = (if isenum then needed + (unat n_static - 1) * sizeof_obj_with_handle else needed);
        sig_off = (of_nat needed :: u16);
        sig = k_symbol k in
    bnd (compress_metaspace_ptr (j_args J) klass) (\<lambda>cptr.
    bnd (check (length sig + 2 < MAX_SIGNATURE_LENGTH) Assert_fail) (\<lambda>_.
      alloc_info r (needed + MAX_SIGNATURE_LENGTH)
        \<lparr>ci_klass = klass, ci_id = UNREGISTERED_CLASS_ID, ci_enum_ref_arr_off = enum_off,
         ci_klass_cptr = cptr, ci_obj_size = ucast (lh_object_size (k_lh k)), ci_header_size = - 1,
         ci_n_non_static_field = n_non_static, ci_n_static_field = n_static, ci_dim = 0, ci_sig_off = sig_off,
         ci_fields = replicate (unat n_non_static) unset_field,
         ci_enums = (if isenum then replicate (unat n_static - 1) \<lparr>oh_object = 0, oh_handle = 0\<rparr> else []),
         ci_sig = ''L'' @ sig @ '';''\<rparr>)))))"

definition from_array_klass :: "jvm \<Rightarrow> ClassResolver \<Rightarrow> u64 \<Rightarrow> (u64 \<times> ClassResolver) result" where
  "from_array_klass J r klass =
    bnd (klass_at (j_metaspace J) klass) (\<lambda>k.
    bnd (compress_metaspace_ptr (j_args J) klass) (\<lambda>cptr.
    bnd (check (length (k_symbol k) < MAX_SIGNATURE_LENGTH) Assert_fail) (\<lambda>_.
      alloc_info r (sizeof_class_info + sizeof_field_info + MAX_SIGNATURE_LENGTH)
        \<lparr>ci_klass = klass, ci_id = UNREGISTERED_CLASS_ID, ci_enum_ref_arr_off = 0,
         ci_klass_cptr = cptr, ci_obj_size = ucast (lh_array_header_size (k_lh k)),
         ci_header_size = ucast (lh_array_header_size (k_lh k)),
         ci_n_non_static_field = 1, ci_n_static_field = 0, ci_dim = ucast (k_dimension k),
         ci_sig_off = of_nat (sizeof_class_info + sizeof_field_info),
         ci_fields = [\<lparr>fi_id = - 1, fi_offset = 0, fi_type = T_ILLEGAL, fi_flag = 0, fi_j_field_id = 0\<rparr>],
         ci_enums = [], ci_sig = k_symbol k\<rparr>)))"

section \<open>Registering and walking\<close>

definition upd_info :: "ClassResolver \<Rightarrow> u64 \<Rightarrow> (class_info_t \<Rightarrow> class_info_t) \<Rightarrow> ClassResolver" where
  "upd_info r p f = r\<lparr>r_store := (r_store r)(p := map_option f (r_store r p))\<rparr>"

definition upd_field :: "ClassResolver \<Rightarrow> u64 \<Rightarrow> nat \<Rightarrow> (field_info_t \<Rightarrow> field_info_t) \<Rightarrow> ClassResolver" where
  "upd_field r p i f = upd_info r p (\<lambda>c. c\<lparr>ci_fields := (ci_fields c)[i := f (ci_fields c ! i)]\<rparr>)"

text \<open>
  \<^verbatim>\<open>register_class_info\<close>: the block gets the next id and joins the three indices; then the
  fields that wait for its signature are patched. \<^verbatim>\<open>emplace\<close> keeps an existing signature.
\<close>

definition add_to_index :: "ClassResolver \<Rightarrow> u64 \<Rightarrow> class_info_t \<Rightarrow> class_id_t \<Rightarrow> ClassResolver" where
  "add_to_index r p i cid =
    (let pos = lower_bound (klass_of r) (info_by_klass r) (ci_klass i) in
     (upd_info r p (\<lambda>c. c\<lparr>ci_id := cid\<rparr>))
       \<lparr>info_by_id := info_by_id r @ [p],
        info_by_klass := take pos (info_by_klass r) @ p # drop pos (info_by_klass r),
        sig2id := (case sig2id r (ci_sig i) of None \<Rightarrow> (sig2id r)(ci_sig i \<mapsto> cid) | Some _ \<Rightarrow> sig2id r)\<rparr>)"

definition resolve_waiting :: "ClassResolver \<Rightarrow> string \<Rightarrow> class_id_t \<Rightarrow> ClassResolver" where
  "resolve_waiting r sig cid =
    (case unresolved r sig of
       None \<Rightarrow> r
     | Some fs \<Rightarrow>
        let r = fold (\<lambda>(q, n) r. upd_field r q n (\<lambda>f. f\<lparr>fi_id := cid\<rparr>)) fs r in
        r\<lparr>unresolved := (unresolved r)(sig := None)\<rparr>)"

definition register_class_info :: "ClassResolver \<Rightarrow> u64 \<Rightarrow> ClassResolver result" where
  "register_class_info r p =
    bnd (info_at r p) (\<lambda>i.
    bnd (index2id (length (info_by_id r))) (\<lambda>cid.
      Inr (resolve_waiting (add_to_index r p i cid) (ci_sig i) cid)))"

text \<open>
  The loop of \<^verbatim>\<open>walk_enum_klass\<close> over the static fields but the last, from index \<open>i\<close>.
\<close>

primrec walk_enum_fields :: "jvm \<Rightarrow> u64 \<Rightarrow> FakeKlass \<Rightarrow> u64 \<Rightarrow> nat list \<Rightarrow> ClassResolver \<Rightarrow> ClassResolver result" where
  "walk_enum_fields J klass k p [] r = Inr r"
| "walk_enum_fields J klass k p (i # is) r =
    bnd (info_at r p) (\<lambda>info.
    bnd (klass_field k i) (\<lambda>f.
    bnd (ff_name f (k_constant_pool k)) (\<lambda>name.
    let fid = GetStaticFieldID J klass name (ci_sig info);
        handle = GetStaticObjectField J klass fid;
        enum_instance = from_jobject (j_mem J) handle;
        global = NewGlobalRef J handle in
    bnd (check (enum_instance \<noteq> 0) Assert_fail) (\<lambda>_.
    let ordinal = enum_ordinal (j_mem J) enum_instance in
    bnd (check (i = unat ordinal) Assert_fail) (\<lambda>_.
    bnd (check (unat ordinal < length (ci_enums info)) Out_of_bounds) (\<lambda>_.
      walk_enum_fields J klass k p is
        (upd_info r p (\<lambda>c. c\<lparr>ci_enums := (ci_enums c)[unat ordinal := \<lparr>oh_object = enum_instance, oh_handle = global\<rparr>]\<rparr>))))))))"

definition walk_enum_klass :: "jvm \<Rightarrow> ClassResolver \<Rightarrow> u64 \<Rightarrow> (class_id_t \<times> ClassResolver) result" where
  "walk_enum_klass J r klass =
    (let q = get_class_info r klass in
     if q \<noteq> 0 then bnd (info_at r q) (\<lambda>i. Inr (ci_id i, r))
     else
       bnd (klass_at (j_metaspace J) klass) (\<lambda>k.
       bnd (from_instance_klass J r klass True) (\<lambda>(p, r).
       let r = upd_info r p (\<lambda>c. c\<lparr>ci_header_size := 12, ci_obj_size := 16\<rparr>) in
       bnd (info_at r p) (\<lambda>info.
       bnd (check (ci_n_non_static_field info = 0 \<and> 1 < ci_n_static_field info) Assert_fail) (\<lambda>_.
       bnd (walk_enum_fields J klass k p [0..<unat (ci_n_static_field info) - 1] r) (\<lambda>r.
       bnd (register_class_info r p) (\<lambda>r.
       bnd (info_at r p) (\<lambda>i. Inr (ci_id i, r)))))))))"

text \<open>
  The first loop of \<^verbatim>\<open>walk_instance_klass\<close>: the indices and offsets of the fields that are
  neither internal nor static, and the smallest offset, the header size.
\<close>

primrec collect_fields :: "FakeKlass \<Rightarrow> nat list \<Rightarrow> (nat \<times> u32) list \<Rightarrow> u8 \<Rightarrow> ((nat \<times> u32) list \<times> u8) result" where
  "collect_fields k [] idx hs = Inr (idx, hs)"
| "collect_fields k (i # is) idx hs =
    bnd (klass_field k i) (\<lambda>f.
      if ff_is_internal f \<or> ff_is_static f then collect_fields k is idx hs
      else bnd (ff_offset f) (\<lambda>off.
        collect_fields k is (idx @ [(i, off)]) (if off < ucast hs then ucast off else hs)))"

text \<open>One round of the second loop: resolve field \<open>i\<close> of the description at \<open>p\<close>.\<close>

definition resolve_field :: "jvm \<Rightarrow> u64 \<Rightarrow> FakeKlass \<Rightarrow> u64 \<Rightarrow> u8 \<Rightarrow> (nat \<times> u32) list \<Rightarrow> nat \<Rightarrow> ClassResolver \<Rightarrow> ClassResolver result" where
  "resolve_field J klass k p hs idx i r =
    (if i < length idx then
      bnd (klass_field k (fst (idx ! i))) (\<lambda>jf.
      bnd (ff_offset jf) (\<lambda>off.
      bnd (ff_type jf (k_constant_pool k)) (\<lambda>t.
      let r = upd_field r p i (\<lambda>f. f\<lparr>fi_offset := ucast (off - ucast hs), fi_type := t, fi_flag := access_flags jf\<rparr>) in
      if is_reference_type t then
        bnd (ff_signature jf (k_constant_pool k)) (\<lambda>sig.
        bnd (ff_name jf (k_constant_pool k)) (\<lambda>name.
        let r = upd_field r p i (\<lambda>f. f\<lparr>fi_j_field_id := GetFieldID J klass name sig\<rparr>) in
        bnd (get_class_info_sig r sig) (\<lambda>q.
        if q = 0 then
          let r = upd_field r p i (\<lambda>f. f\<lparr>fi_id := UNREGISTERED_CLASS_ID\<rparr>) in
          Inr (r\<lparr>unresolved := (unresolved r)(sig \<mapsto>
                 (case unresolved r sig of None \<Rightarrow> [(p, i)] | Some fs \<Rightarrow> fs @ [(p, i)]))\<rparr>)
        else bnd (info_at r q) (\<lambda>c. Inr (upd_field r p i (\<lambda>f. f\<lparr>fi_id := ci_id c\<rparr>))))))
      else if is_primitive_type t then
        bnd (ff_name jf (k_constant_pool k)) (\<lambda>name.
        bnd (type2sig t) (\<lambda>sig. Inr (upd_field r p i (\<lambda>f. f\<lparr>fi_j_field_id := GetFieldID J klass name sig\<rparr>))))
      else Inl Unreachable)))
     else Inl Out_of_bounds)"

primrec resolve_fields :: "jvm \<Rightarrow> u64 \<Rightarrow> FakeKlass \<Rightarrow> u64 \<Rightarrow> u8 \<Rightarrow> (nat \<times> u32) list \<Rightarrow> nat list \<Rightarrow> ClassResolver \<Rightarrow> ClassResolver result" where
  "resolve_fields J klass k p hs idx [] r = Inr r"
| "resolve_fields J klass k p hs idx (i # is) r =
    bnd (resolve_field J klass k p hs idx i r) (resolve_fields J klass k p hs idx is)"

definition walk_instance_klass :: "jvm \<Rightarrow> ClassResolver \<Rightarrow> u64 \<Rightarrow> (class_id_t \<times> ClassResolver) result" where
  "walk_instance_klass J r klass =
    (let q = get_class_info r klass in
     if q \<noteq> 0 then bnd (info_at r q) (\<lambda>i. Inr (ci_id i, r))
     else
       bnd (klass_at (j_metaspace J) klass) (\<lambda>k.
       bnd (from_instance_klass J r klass False) (\<lambda>(p, r).
       bnd (info_at r p) (\<lambda>info.
       bnd (collect_fields k [0..<unat (ci_n_non_static_field info) + unat (ci_n_static_field info)] []
              (ci_header_size info)) (\<lambda>(idx, hs).
       let r = upd_info r p (\<lambda>c. c\<lparr>ci_header_size := hs\<rparr>);
           idx = sort_key snd idx in
       bnd (resolve_fields J klass k p hs idx [0..<unat (ci_n_non_static_field info)] r) (\<lambda>r.
       bnd (register_class_info r p) (\<lambda>r.
       bnd (info_at r p) (\<lambda>i. Inr (ci_id i, r)))))))))"

text \<open>The recursion over the dimensions of an array class, with a bound on their number.\<close>

primrec walk_array_klass :: "nat \<Rightarrow> jvm \<Rightarrow> ClassResolver \<Rightarrow> u64 \<Rightarrow> (class_id_t \<times> ClassResolver) result" where
  "walk_array_klass 0 J r klass = Inl Out_of_fuel"
| "walk_array_klass (Suc n) J r klass =
    (let q = get_class_info r klass in
     if q \<noteq> 0 then bnd (info_at r q) (\<lambda>i. Inr (ci_id i, r))
     else
       bnd (klass_at (j_metaspace J) klass) (\<lambda>k.
       bnd (from_array_klass J r klass) (\<lambda>(p, r).
       bnd (if k_dimension k = 1 then
              let t = lh_element_type (k_lh k);
                  r = upd_field r p 0 (\<lambda>f. f\<lparr>fi_type := t\<rparr>) in
              if t = T_OBJECT then
                bnd (klass_at (j_metaspace J) (k_element_klass k)) (\<lambda>ek.
                bnd (klass_is_enum (j_metaspace J) ek) (\<lambda>en.
                bnd (if en then walk_enum_klass J r (k_element_klass k)
                     else walk_instance_klass J r (k_element_klass k)) (\<lambda>(cid, r).
                  Inr (upd_field r p 0 (\<lambda>f. f\<lparr>fi_id := cid\<rparr>)))))
              else Inr r
            else
              let r = upd_field r p 0 (\<lambda>f. f\<lparr>fi_type := T_ARRAY\<rparr>) in
              bnd (walk_array_klass n J r (k_lower_dimension k)) (\<lambda>(cid, r).
                Inr (upd_field r p 0 (\<lambda>f. f\<lparr>fi_id := cid\<rparr>)))) (\<lambda>r.
       bnd (register_class_info r p) (\<lambda>r.
       bnd (info_at r p) (\<lambda>i. Inr (ci_id i, r)))))))"

text \<open>An array class has at most 255 dimensions, so that depth of recursion is enough.\<close>

definition register_class :: "jvm \<Rightarrow> ClassResolver \<Rightarrow> u64 \<Rightarrow> (class_id_t \<times> ClassResolver) result" where
  "register_class J r j_class =
    bnd (from_clazz (j_args J) (j_mem J) (j_metaspace J) j_class) (\<lambda>klass.
    let q = get_class_info r klass in
    if q \<noteq> 0 then bnd (info_at r q) (\<lambda>i. Inr (ci_id i, r))
    else
      bnd (klass_at (j_metaspace J) klass) (\<lambda>k.
      if lh_is_instance (k_lh k) then
        bnd (klass_is_enum (j_metaspace J) k) (\<lambda>en.
          if en then walk_enum_klass J r klass else walk_instance_klass J r klass)
      else if lh_is_array (k_lh k) then walk_array_klass 256 J r klass
      else Inl Unreachable))"

primrec register_classes :: "jvm \<Rightarrow> ClassResolver \<Rightarrow> u64 list \<Rightarrow> ClassResolver result" where
  "register_classes J r [] = Inr r"
| "register_classes J r (c # cs) = bnd (register_class J r c) (\<lambda>(cid, r). register_classes J r cs)"

section \<open>The invariant of the resolver\<close>

text \<open>What the indices are built on: klass, id, signature and number of fields of every block.\<close>

definition keys :: "ClassResolver \<Rightarrow> u64 \<rightharpoonup> u64 \<times> class_id_t \<times> string \<times> nat" where
  "keys r p = map_option (\<lambda>i. (ci_klass i, ci_id i, ci_sig i, length (ci_fields i))) (r_store r p)"

definition index_ok :: "ClassResolver \<Rightarrow> bool" where
  "index_ok r \<longleftrightarrow>
     distinct (info_by_id r) \<and> length (info_by_id r) + MIN_CLASS_ID \<le> Suc MAX_CLASS_ID
   \<and> mset (info_by_klass r) = mset (info_by_id r)
   \<and> sorted_wrt (<) (map (klass_of r) (info_by_klass r))
   \<and> (\<forall>n < length (info_by_id r). \<exists>k s l. keys r (info_by_id r ! n) = Some (k, of_nat (n + MIN_CLASS_ID), s, l)
        \<and> sig2id r s \<noteq> None)"

definition sigs_ok :: "ClassResolver \<Rightarrow> bool" where
  "sigs_ok r \<longleftrightarrow>
     (\<forall>s c. sig2id r s = Some c \<longrightarrow> (\<exists>n < length (info_by_id r). \<exists>k l.
        c = of_nat (n + MIN_CLASS_ID) \<and> keys r (info_by_id r ! n) = Some (k, c, s, l)))
   \<and> (\<forall>s fs. unresolved r s = Some fs \<longrightarrow> sig2id r s = None
        \<and> (\<forall>x \<in> set fs. \<exists>k c s' l. keys r (fst x) = Some (k, c, s', l) \<and> snd x < l))"

definition alloc_ok :: "ClassResolver \<Rightarrow> bool" where
  "alloc_ok r \<longleftrightarrow>
     unat (sa_base (r_alloc r)) + unat (sa_lim (r_alloc r)) < 2 ^ 64 \<and> unat (sa_pos (r_alloc r)) mod 8 = 0
   \<and> sa_base (r_alloc r) \<noteq> 0
   \<and> (\<forall>p \<in> dom (r_store r). p \<noteq> 0 \<and> unat p < unat (sa_base (r_alloc r)) + unat (sa_pos (r_alloc r)))"

definition resolver_inv :: "ClassResolver \<Rightarrow> bool" where
  "resolver_inv r \<longleftrightarrow> index_ok r \<and> sigs_ok r \<and> alloc_ok r"

lemma resolver_new_inv:
  "mr_base infos \<noteq> 0 \<Longrightarrow> unat (mr_base infos) + unat (mr_len infos) < 2 ^ 64 \<Longrightarrow> resolver_inv (resolver_new infos)"
  by (simp add: resolver_inv_def index_ok_def sigs_ok_def alloc_ok_def resolver_new_def sa_new_def)

lemma index_ok_set: "index_ok r \<Longrightarrow> set (info_by_klass r) = set (info_by_id r)"
  by (metis index_ok_def mset_eq_setD)

lemma registered_info:
  assumes "index_ok r" "p \<in> set (info_by_id r)"
  obtains n i where "n < length (info_by_id r)" "info_by_id r ! n = p" "r_store r p = Some i"
    "ci_id i = of_nat (n + MIN_CLASS_ID)" "klass_of r p = ci_klass i"
  using assms by (fastforce simp: index_ok_def in_set_conv_nth klass_of_def keys_def)

lemma sint_class_id:
  assumes "n + MIN_CLASS_ID \<le> MAX_CLASS_ID"
  shows "sint (of_nat (n + MIN_CLASS_ID) :: class_id_t) = int (n + MIN_CLASS_ID)"
proof -
  have "sint (of_nat (n + MIN_CLASS_ID) :: class_id_t) = signed_take_bit 15 (int (n + MIN_CLASS_ID))"
    unfolding signed_of_nat by simp
  also have "\<dots> = int (n + MIN_CLASS_ID)"
    using assms by (intro signed_take_bit_int_eq_self) simp_all
  finally show ?thesis .
qed

lemma id2index_of_nat:
  "n + MIN_CLASS_ID \<le> MAX_CLASS_ID \<Longrightarrow> id2index (of_nat (n + MIN_CLASS_ID)) = Inr n"
  using sint_class_id [of n] by (simp add: id2index_def)

section \<open>Lookup by klass\<close>

lemma lower_bound_sorted:
  assumes "sorted_wrt (<) (map key xs)" "x \<in> set xs" "key x = k"
  shows "lower_bound key xs k < length xs \<and> xs ! lower_bound key xs k = x"
  using assms
proof (induction xs)
  case Nil
  then show ?case by simp
next
  case (Cons y ys)
  show ?case
  proof (cases "x = y")
    case True
    then show ?thesis using Cons.prems by (simp add: lower_bound_def)
  next
    case False
    then have "x \<in> set ys" "key y < key x" using Cons.prems by auto
    with Cons show ?thesis by (simp add: lower_bound_def)
  qed
qed

lemma get_class_info_iff:
  assumes "index_ok r" "alloc_ok r" "p \<noteq> 0"
  shows "get_class_info r k = p \<longleftrightarrow> p \<in> set (info_by_id r) \<and> klass_of r p = k"
proof
  assume "get_class_info r k = p"
  then show "p \<in> set (info_by_id r) \<and> klass_of r p = k"
    using assms(3) index_ok_set [OF assms(1)] nth_mem
    by (fastforce simp: get_class_info_def Let_def split: if_splits)
next
  assume "p \<in> set (info_by_id r) \<and> klass_of r p = k"
  moreover have "sorted_wrt (<) (map (klass_of r) (info_by_klass r))" using assms(1) by (simp add: index_ok_def)
  ultimately show "get_class_info r k = p"
    using lower_bound_sorted index_ok_set [OF assms(1)]
    by (fastforce simp: get_class_info_def Let_def)
qed

lemma registered_nonzero: "index_ok r \<Longrightarrow> alloc_ok r \<Longrightarrow> p \<in> set (info_by_id r) \<Longrightarrow> p \<noteq> 0"
  using registered_info [of r p] by (metis alloc_ok_def domI)

lemma get_class_info_None:
  assumes "index_ok r" "alloc_ok r"
  shows "get_class_info r k = 0 \<longleftrightarrow> (\<forall>p \<in> set (info_by_id r). klass_of r p \<noteq> k)"
proof
  assume "get_class_info r k = 0"
  then show "\<forall>p \<in> set (info_by_id r). klass_of r p \<noteq> k"
    using get_class_info_iff [OF assms] registered_nonzero [OF assms] by metis
next
  assume "\<forall>p \<in> set (info_by_id r). klass_of r p \<noteq> k"
  then show "get_class_info r k = 0"
    using get_class_info_iff [OF assms, of "get_class_info r k" k] by blast
qed

section \<open>What each operation keeps\<close>

text \<open>An update of one block that keeps what the indices are built on.\<close>

definition keeps_keys :: "(class_info_t \<Rightarrow> class_info_t) \<Rightarrow> bool" where
  "keeps_keys f \<longleftrightarrow> (\<forall>c. ci_klass (f c) = ci_klass c \<and> ci_id (f c) = ci_id c \<and> ci_sig (f c) = ci_sig c
     \<and> length (ci_fields (f c)) = length (ci_fields c))"

lemma upd_info_simps [simp]:
  "info_by_id (upd_info r p f) = info_by_id r" "info_by_klass (upd_info r p f) = info_by_klass r"
  "sig2id (upd_info r p f) = sig2id r" "unresolved (upd_info r p f) = unresolved r"
  "r_alloc (upd_info r p f) = r_alloc r" "dom (r_store (upd_info r p f)) = dom (r_store r)"
  "r_store (upd_info r p f) q = (if q = p then map_option f (r_store r p) else r_store r q)"
  by (auto simp: upd_info_def)

lemma klass_of_keys: "klass_of r p = (case keys r p of None \<Rightarrow> 0 | Some (k, _) \<Rightarrow> k)"
  by (auto simp: klass_of_def keys_def split: option.splits)

lemma keys_upd_info: "keeps_keys f \<Longrightarrow> keys (upd_info r p f) = keys r"
  by (intro ext) (auto simp: keys_def keeps_keys_def option.map_comp comp_def)

text \<open>The invariant depends on the blocks through their keys only.\<close>

lemma resolver_inv_cong:
  assumes "keys r' = keys r" "info_by_id r' = info_by_id r" "info_by_klass r' = info_by_klass r"
    "sig2id r' = sig2id r" "unresolved r' = unresolved r" "r_alloc r' = r_alloc r"
  shows "resolver_inv r' = resolver_inv r"
proof -
  have "klass_of r' = klass_of r" using assms(1) by (intro ext) (simp add: klass_of_keys)
  moreover have "dom (r_store r') = dom (r_store r)"
    using arg_cong [OF assms(1), of dom] by (auto simp: keys_def dom_def)
  ultimately show ?thesis
    using assms by (simp add: resolver_inv_def index_ok_def sigs_ok_def alloc_ok_def)
qed

lemma upd_info_inv: "keeps_keys f \<Longrightarrow> resolver_inv (upd_info r p f) = resolver_inv r"
  by (intro resolver_inv_cong) (simp_all add: keys_upd_info)

lemma keeps_keys_field: "keeps_keys (\<lambda>c. c\<lparr>ci_fields := (ci_fields c)[i := f (ci_fields c ! i)]\<rparr>)"
  by (simp add: keeps_keys_def)

lemma upd_field_keys [simp]:
  "keys (upd_field r p i f) = keys r" "info_by_id (upd_field r p i f) = info_by_id r"
  "info_by_klass (upd_field r p i f) = info_by_klass r" "sig2id (upd_field r p i f) = sig2id r"
  "unresolved (upd_field r p i f) = unresolved r" "r_alloc (upd_field r p i f) = r_alloc r"
  by (simp_all add: upd_field_def keys_upd_info keeps_keys_field)

lemma upd_field_inv [simp]: "resolver_inv (upd_field r p i f) = resolver_inv r"
  by (rule resolver_inv_cong) simp_all

lemma fold_upd_field_keys [simp]:
  defines "patch_all \<equiv> \<lambda>fs g r. fold (\<lambda>(q, n) r. upd_field r q n g) fs r"
  shows "keys (patch_all fs g r) = keys r" "info_by_id (patch_all fs g r) = info_by_id r"
    "info_by_klass (patch_all fs g r) = info_by_klass r" "sig2id (patch_all fs g r) = sig2id r"
    "unresolved (patch_all fs g r) = unresolved r" "r_alloc (patch_all fs g r) = r_alloc r"
  unfolding patch_all_def by (induction fs arbitrary: r) (auto simp: split_beta)

lemma index_ok_registered:
  assumes "index_ok r" "n < length (info_by_id r)"
  obtains k s l where "keys r (info_by_id r ! n) = Some (k, of_nat (n + MIN_CLASS_ID), s, l)" "sig2id r s \<noteq> None"
  using assms unfolding index_ok_def by blast

lemma index_ok_mono:
  assumes "index_ok r" "keys r \<subseteq>\<^sub>m keys r'" "info_by_id r' = info_by_id r" "info_by_klass r' = info_by_klass r"
    "sig2id r' = sig2id r"
  shows "index_ok r'"
proof -
  have m: "keys r q = Some x \<Longrightarrow> keys r' q = Some x" for q x
    by (rule map_le_Some [OF assms(2)])
  have ks: "\<exists>k s l. keys r' (info_by_id r ! n) = Some (k, of_nat (n + MIN_CLASS_ID), s, l) \<and> sig2id r s \<noteq> None"
    if n: "n < length (info_by_id r)" for n
  proof -
    obtain k s l where "keys r (info_by_id r ! n) = Some (k, of_nat (n + MIN_CLASS_ID), s, l)" "sig2id r s \<noteq> None"
      by (rule index_ok_registered [OF assms(1) n])
    then show ?thesis using m by blast
  qed
  have "keys r' q = keys r q" if q: "q \<in> set (info_by_id r)" for q
  proof -
    from q obtain n where "n < length (info_by_id r)" "q = info_by_id r ! n" by (auto simp: in_set_conv_nth)
    then obtain x where "keys r q = Some x" using index_ok_registered [OF assms(1)] by metis
    then show ?thesis using m by simp
  qed
  then have "map (klass_of r') (info_by_klass r) = map (klass_of r) (info_by_klass r)"
    using index_ok_set [OF assms(1)] by (simp add: klass_of_keys)
  then have "sorted_wrt (<) (map (klass_of r') (info_by_klass r))"
    using assms(1) by (simp only: index_ok_def)
  moreover have "distinct (info_by_id r)" "length (info_by_id r) + MIN_CLASS_ID \<le> Suc MAX_CLASS_ID"
    "mset (info_by_klass r) = mset (info_by_id r)" using assms(1) unfolding index_ok_def by blast+
  ultimately show ?thesis unfolding index_ok_def assms(3-5) using ks by blast
qed

lemma sigs_ok_mono:
  assumes "sigs_ok r" "keys r \<subseteq>\<^sub>m keys r'" "info_by_id r' = info_by_id r" "sig2id r' = sig2id r" "unresolved r' = unresolved r"
  shows "sigs_ok r'"
proof -
  have m: "keys r q = Some x \<Longrightarrow> keys r' q = Some x" for q x
    by (rule map_le_Some [OF assms(2)])
  show ?thesis
    unfolding sigs_ok_def assms(3-5)
  proof (intro conjI allI impI ballI)
    fix s c
    assume "sig2id r s = Some c"
    then obtain n k l where "n < length (info_by_id r)" "c = of_nat (n + MIN_CLASS_ID)"
      "keys r (info_by_id r ! n) = Some (k, c, s, l)"
      using assms(1) unfolding sigs_ok_def by blast
    then show "\<exists>n < length (info_by_id r). \<exists>k l. c = of_nat (n + MIN_CLASS_ID) \<and> keys r' (info_by_id r ! n) = Some (k, c, s, l)"
      using m by blast
  next
    fix s fs
    assume u: "unresolved r s = Some fs"
    then show "sig2id r s = None" using assms(1) unfolding sigs_ok_def by blast
    fix x
    assume "x \<in> set fs"
    then obtain k c s' l where "keys r (fst x) = Some (k, c, s', l)" "snd x < l"
      using assms(1) u unfolding sigs_ok_def by blast
    then show "\<exists>k c s' l. keys r' (fst x) = Some (k, c, s', l) \<and> snd x < l" using m by blast
  qed
qed

lemma alloc_info_ok:
  assumes "alloc_info r n i = Inr (p, r')" "resolver_inv r"
  shows "r_store r p = None" "p \<notin> set (info_by_id r)" "r_store r' = (r_store r)(p \<mapsto> i)" "resolver_inv r'"
    "info_by_id r' = info_by_id r" "unresolved r' = unresolved r" "sig2id r' = sig2id r"
    "\<forall>q \<in> set (info_by_id r). klass_of r' q = klass_of r q"
proof -
  from assms(1) obtain a' where a: "allocate (r_alloc r) (of_nat n) = Inr (p, a')"
    and r': "r' = r\<lparr>r_alloc := a', r_store := (r_store r)(p \<mapsto> i)\<rparr>"
    by (auto simp: alloc_info_def)
  have ok: "index_ok r" "sigs_ok r" "alloc_ok r" using assms(2) by (simp_all add: resolver_inv_def)
  note st = allocate_step [OF a]
  have pos: "0 < (of_nat n :: u64)" using a by (auto simp: allocate_def)
  have up: "unat p = unat (sa_base (r_alloc r)) + unat (sa_pos (r_alloc r))"
    using st(1) ok(3) by (simp add: alloc_ok_def)
  show fresh: "r_store r p = None"
  proof (rule ccontr)
    assume "r_store r p \<noteq> None"
    then have "p \<in> dom (r_store r)" by blast
    with ok(3) have "unat p < unat (sa_base (r_alloc r)) + unat (sa_pos (r_alloc r))"
      unfolding alloc_ok_def by blast
    with up show False by simp
  qed
  show np: "p \<notin> set (info_by_id r)" using registered_info [OF ok(1), of p] fresh by (metis option.distinct(1))
  show "r_store r' = (r_store r)(p \<mapsto> i)" "info_by_id r' = info_by_id r"
    "unresolved r' = unresolved r" "sig2id r' = sig2id r" by (simp_all add: r')
  have keys: "keys r \<subseteq>\<^sub>m keys r'" using fresh by (auto simp: r' keys_def map_le_def)
  show "\<forall>q \<in> set (info_by_id r). klass_of r' q = klass_of r q"
    using np by (auto simp: r' klass_of_def)
  have "p \<noteq> 0" using up ok(3) by (auto simp: alloc_ok_def unat_eq_0)
  have "index_ok r'" by (rule index_ok_mono [OF ok(1) keys]) (simp_all add: r')
  moreover have "sigs_ok r'" by (rule sigs_ok_mono [OF ok(2) keys]) (simp_all add: r')
  moreover have "alloc_ok r'"
  proof -
    have "q \<noteq> 0 \<and> unat q < unat (sa_base (r_alloc r)) + unat (sa_pos (r_alloc r))"
      if "q \<in> dom (r_store r)" for q
      using ok(3) that unfolding alloc_ok_def by blast
    moreover have "unat (sa_pos (r_alloc r)) < unat (sa_pos a')"
      using st(3) pos ok(3) by (simp add: alloc_ok_def word_less_nat_alt)
    ultimately have "\<forall>q \<in> insert p (dom (r_store r)). q \<noteq> 0 \<and> unat q < unat (sa_base (r_alloc r)) + unat (sa_pos a')"
      using \<open>p \<noteq> 0\<close> up by fastforce
    then show ?thesis using ok(3) st by (simp add: alloc_ok_def r')
  qed
  ultimately show "resolver_inv r'" by (simp add: resolver_inv_def)
qed

lemma sorted_insert_lower_bound:
  assumes "sorted_wrt (<) (map key xs)" "\<forall>x \<in> set xs. key x \<noteq> key y"
  shows "sorted_wrt (<) (map key (take (lower_bound key xs (key y)) xs @ y # drop (lower_bound key xs (key y)) xs))"
  using assms
proof (induction xs)
  case Nil
  then show ?case by (simp add: lower_bound_def)
next
  case (Cons x xs)
  show ?case
  proof (cases "key x < key y")
    case True
    then have lb: "lower_bound key (x # xs) (key y) = Suc (lower_bound key xs (key y))" by (simp add: lower_bound_def)
    have "set (take n xs) \<union> set (drop n xs) \<subseteq> set xs" for n
      by (auto dest: in_set_takeD in_set_dropD)
    then show ?thesis using Cons True by (auto simp: lb)
  next
    case False
    then have "key y < key x" using Cons.prems(2) by (metis antisym_conv3 list.set_intros(1))
    then show ?thesis using Cons.prems(1) False by (auto simp: lower_bound_def)
  qed
qed

lemma resolve_waiting_keys:
  "keys (resolve_waiting r sig cid) = keys r" "info_by_id (resolve_waiting r sig cid) = info_by_id r"
  "info_by_klass (resolve_waiting r sig cid) = info_by_klass r" "sig2id (resolve_waiting r sig cid) = sig2id r"
  "unresolved (resolve_waiting r sig cid) = (unresolved r)(sig := None)"
  "r_alloc (resolve_waiting r sig cid) = r_alloc r"
proof -
  have "keys (x\<lparr>unresolved := u\<rparr>) = keys x" for x u by (intro ext) (simp add: keys_def)
  then show "keys (resolve_waiting r sig cid) = keys r"
    by (simp add: resolve_waiting_def Let_def split: option.split)
qed (auto simp: resolve_waiting_def Let_def split: option.split)

text \<open>
  The resolver after a registration, written out: the block gets the next id, joins both indices
  and its signature, and nothing waits for that signature any more.
\<close>

lemma register_class_info_unfold:
  assumes "register_class_info r p = Inr r'" "r_store r p = Some i"
  defines "cid \<equiv> of_nat (length (info_by_id r) + MIN_CLASS_ID) :: class_id_t"
  defines "pos \<equiv> lower_bound (klass_of r) (info_by_klass r) (ci_klass i)"
  shows "length (info_by_id r) + MIN_CLASS_ID \<le> MAX_CLASS_ID"
    "keys r' = (keys r)(p \<mapsto> (ci_klass i, cid, ci_sig i, length (ci_fields i)))"
    "info_by_id r' = info_by_id r @ [p]"
    "info_by_klass r' = take pos (info_by_klass r) @ p # drop pos (info_by_klass r)"
    "sig2id r' = (case sig2id r (ci_sig i) of None \<Rightarrow> (sig2id r)(ci_sig i \<mapsto> cid) | Some _ \<Rightarrow> sig2id r)"
    "unresolved r' = (unresolved r)(ci_sig i := None)" "r_alloc r' = r_alloc r"
proof -
  have len: "length (info_by_id r) + MIN_CLASS_ID \<le> MAX_CLASS_ID"
    and r': "r' = resolve_waiting (add_to_index r p i cid) (ci_sig i) cid"
    using assms(1,2) by (auto simp: register_class_info_def info_at_def index2id_def cid_def)
  show "length (info_by_id r) + MIN_CLASS_ID \<le> MAX_CLASS_ID" by (rule len)
  show "keys r' = (keys r)(p \<mapsto> (ci_klass i, cid, ci_sig i, length (ci_fields i)))"
    using assms(2) unfolding r' resolve_waiting_keys by (auto simp: add_to_index_def Let_def keys_def)
  show "info_by_id r' = info_by_id r @ [p]"
    "info_by_klass r' = take pos (info_by_klass r) @ p # drop pos (info_by_klass r)"
    "sig2id r' = (case sig2id r (ci_sig i) of None \<Rightarrow> (sig2id r)(ci_sig i \<mapsto> cid) | Some _ \<Rightarrow> sig2id r)"
    "unresolved r' = (unresolved r)(ci_sig i := None)" "r_alloc r' = r_alloc r"
    unfolding r' resolve_waiting_keys by (simp_all add: add_to_index_def Let_def pos_def)
qed

lemma register_class_info_inv:
  assumes inv: "resolver_inv r" and st: "r_store r p = Some i" and np: "p \<notin> set (info_by_id r)"
    and fresh: "\<forall>q \<in> set (info_by_id r). klass_of r q \<noteq> ci_klass i"
    and reg: "register_class_info r p = Inr r'"
  shows "resolver_inv r'" "klass_of r' = klass_of r"
proof -
  note u = register_class_info_unfold [OF reg st]
  have ok: "index_ok r" "sigs_ok r" "alloc_ok r" using inv by (simp_all add: resolver_inv_def)
  have kp: "keys r p = Some (ci_klass i, ci_id i, ci_sig i, length (ci_fields i))" using st by (simp add: keys_def)
  have klp: "klass_of r p = ci_klass i" using st by (simp add: klass_of_def)
  show kl: "klass_of r' = klass_of r" using kp by (intro ext) (simp add: klass_of_keys u(2))
  have sig: "sig2id r s = Some c \<Longrightarrow> sig2id r' s = Some c" for s c
    by (auto simp: u(5) split: option.split)
  have at: "info_by_id r' ! n = (if n < length (info_by_id r) then info_by_id r ! n else p)"
    if "n < length (info_by_id r')" for n using that by (auto simp: u(3) nth_append)
  have kn: "keys r' (info_by_id r ! n) = keys r (info_by_id r ! n)" if "n < length (info_by_id r)" for n
    using np that nth_mem by (fastforce simp: u(2))
  have "\<exists>k s l. keys r' (info_by_id r' ! n) = Some (k, of_nat (n + MIN_CLASS_ID), s, l) \<and> sig2id r' s \<noteq> None"
    if n: "n < length (info_by_id r')" for n
  proof (cases "n < length (info_by_id r)")
    case True
    obtain k s l where "keys r (info_by_id r ! n) = Some (k, of_nat (n + MIN_CLASS_ID), s, l)" "sig2id r s \<noteq> None"
      by (rule index_ok_registered [OF ok(1) True])
    then show ?thesis using True kn at [OF n] sig by auto
  next
    case False
    then have n': "n = length (info_by_id r)" using n by (simp add: u(3))
    have "sig2id r' (ci_sig i) \<noteq> None" by (auto simp: u(5) split: option.split)
    then show ?thesis using at [OF n] by (auto simp: n' u(2))
  qed
  moreover have "mset (info_by_klass r') = mset (info_by_id r')"
  proof -
    have "mset (take n xs @ p # drop n xs) = mset xs + {#p#}" for n and xs :: "u64 list"
      by (metis add_mset_add_single append_take_drop_id mset.simps(2) mset_append union_mset_add_mset_right)
    then show ?thesis using ok(1) by (simp add: u(3,4) index_ok_def)
  qed
  moreover have "sorted_wrt (<) (map (klass_of r') (info_by_klass r'))"
    unfolding kl u(4) klp [symmetric]
    by (rule sorted_insert_lower_bound) (use ok(1) fresh klp index_ok_set [OF ok(1)] in \<open>auto simp: index_ok_def\<close>)
  ultimately have "index_ok r'"
    using ok(1) np u(1) unfolding index_ok_def by (simp add: u(3))
  moreover have "sigs_ok r'"
    unfolding sigs_ok_def
  proof (intro conjI allI impI ballI)
    fix s c
    assume a: "sig2id r' s = Some c"
    show "\<exists>n < length (info_by_id r'). \<exists>k l. c = of_nat (n + MIN_CLASS_ID) \<and> keys r' (info_by_id r' ! n) = Some (k, c, s, l)"
    proof (cases "sig2id r s")
      case None
      then have "s = ci_sig i" "c = of_nat (length (info_by_id r) + MIN_CLASS_ID)"
        using a by (auto simp: u(5) split: option.splits if_splits)
      then show ?thesis by (intro exI [of _ "length (info_by_id r)"]) (simp add: u(2,3))
    next
      case (Some c')
      then have "sig2id r s = Some c" using a sig by fastforce
      then obtain n k l where n: "n < length (info_by_id r)" "c = of_nat (n + MIN_CLASS_ID)"
        "keys r (info_by_id r ! n) = Some (k, c, s, l)"
        using ok(2) unfolding sigs_ok_def by blast
      moreover have "info_by_id r' ! n = info_by_id r ! n" "n < length (info_by_id r')" using n(1) by (simp_all add: u(3) nth_append)
      ultimately show ?thesis using kn by metis
    qed
  next
    fix s fs
    assume a: "unresolved r' s = Some fs"
    then have s: "s \<noteq> ci_sig i" and un: "unresolved r s = Some fs" by (auto simp: u(6) split: if_splits)
    then have "sig2id r s = None" using ok(2) unfolding sigs_ok_def by blast
    then show "sig2id r' s = None" using s by (auto simp: u(5) split: option.split)
    fix x
    assume "x \<in> set fs"
    then obtain k c s' l where "keys r (fst x) = Some (k, c, s', l)" "snd x < l"
      using ok(2) un unfolding sigs_ok_def by blast
    then show "\<exists>k c s' l. keys r' (fst x) = Some (k, c, s', l) \<and> snd x < l"
      using kp by (cases "fst x = p") (auto simp: u(2))
  qed
  moreover have "alloc_ok r'"
  proof -
    have "dom (keys x) = dom (r_store x)" for x by (auto simp: keys_def dom_def)
    then have "dom (r_store r') = dom (r_store r)" using kp by (metis u(2) dom_fun_upd insert_absorb domI option.distinct(1))
    then show ?thesis using ok(3) by (simp add: alloc_ok_def u(7))
  qed
  ultimately show "resolver_inv r'" by (simp add: resolver_inv_def)
qed

section \<open>Walking a class\<close>

text \<open>
  \<open>extends r N r'\<close>: \<open>r'\<close> is a consistent resolver in which everything of \<open>r\<close> is still there and
  whose additional registrations are new blocks of klasses that satisfy \<open>N\<close>. \<open>building\<close> is the
  situation while the block \<open>p\<close> is filled in, before it is registered.
\<close>

definition extends :: "ClassResolver \<Rightarrow> (u64 \<Rightarrow> bool) \<Rightarrow> ClassResolver \<Rightarrow> bool" where
  "extends r N r' \<longleftrightarrow> resolver_inv r' \<and> keys r \<subseteq>\<^sub>m keys r'
     \<and> (\<exists>ps. info_by_id r' = info_by_id r @ ps \<and> (\<forall>q \<in> set ps. r_store r q = None \<and> N (klass_of r' q)))"

definition building :: "ClassResolver \<Rightarrow> (u64 \<Rightarrow> bool) \<Rightarrow> u64 \<Rightarrow> u64 \<Rightarrow> nat \<Rightarrow> ClassResolver \<Rightarrow> bool" where
  "building r N p k L r1 \<longleftrightarrow> extends r N r1 \<and> r_store r p = None \<and> p \<notin> set (info_by_id r1)
     \<and> (\<exists>c s. keys r1 p = Some (k, c, s, L))"

definition registered :: "ClassResolver \<Rightarrow> u64 \<Rightarrow> class_id_t \<Rightarrow> bool" where
  "registered r k cid \<longleftrightarrow> (\<exists>i. get_class_info r k \<noteq> 0 \<and> r_store r (get_class_info r k) = Some i \<and> ci_id i = cid)"

lemma keys_None: "keys r q = None \<longleftrightarrow> r_store r q = None"
  by (simp add: keys_def)

lemma klass_of_map_le: "keys r \<subseteq>\<^sub>m keys r' \<Longrightarrow> r_store r q \<noteq> None \<Longrightarrow> klass_of r' q = klass_of r q"
  using map_le_Some [of "keys r" "keys r'" q] by (auto simp: klass_of_keys keys_def)

lemma registered_stored: "index_ok r \<Longrightarrow> q \<in> set (info_by_id r) \<Longrightarrow> r_store r q \<noteq> None"
  by (metis option.distinct(1) registered_info)

lemma extends_refl: "resolver_inv r \<Longrightarrow> extends r N r"
  by (simp add: extends_def)

lemma extends_mono: "extends r N r' \<Longrightarrow> (\<And>k. N k \<Longrightarrow> N' k) \<Longrightarrow> extends r N' r'"
  by (auto simp: extends_def)

lemma extends_trans:
  assumes "extends r N r1" "extends r1 N r2"
  shows "extends r N r2"
proof -
  from assms obtain ps qs where
    1: "info_by_id r1 = info_by_id r @ ps" "\<forall>q \<in> set ps. r_store r q = None \<and> N (klass_of r1 q)" "keys r \<subseteq>\<^sub>m keys r1"
    and 2: "info_by_id r2 = info_by_id r1 @ qs" "\<forall>q \<in> set qs. r_store r1 q = None \<and> N (klass_of r2 q)" "keys r1 \<subseteq>\<^sub>m keys r2"
    and inv: "resolver_inv r1" "resolver_inv r2"
    unfolding extends_def by blast
  have "r_store r1 q \<noteq> None" if "q \<in> set ps" for q
    using that 1(1) inv(1) by (intro registered_stored) (auto simp: resolver_inv_def)
  then have "\<forall>q \<in> set ps. N (klass_of r2 q)" using klass_of_map_le [OF 2(3)] 1(2) by auto
  moreover have "r_store r q = None" if "r_store r1 q = None" for q
    using that 1(3) by (metis keys_None map_le_Some not_None_eq)
  ultimately show ?thesis
    using 1 2 inv map_le_trans [OF 1(3) 2(3)] unfolding extends_def
    by (intro conjI exI [of _ "ps @ qs"]) auto
qed

lemma building_cong:
  assumes "building r N p k L r1" "resolver_inv r2" "keys r2 = keys r1" "info_by_id r2 = info_by_id r1"
  shows "building r N p k L r2"
proof -
  have "klass_of r2 = klass_of r1" by (intro ext) (simp add: klass_of_keys assms(3))
  then show ?thesis using assms unfolding building_def extends_def by simp
qed

lemma building_inv: "building r N p k L r1 \<Longrightarrow> resolver_inv r1"
  by (simp add: building_def extends_def)

lemma building_upd_info [intro]: "building r N p k L r1 \<Longrightarrow> keeps_keys f \<Longrightarrow> building r N p k L (upd_info r1 q f)"
  by (rule building_cong) (simp_all add: keys_upd_info upd_info_inv building_inv)

lemma building_upd_field [intro]: "building r N p k L r1 \<Longrightarrow> building r N p k L (upd_field r1 q i f)"
  by (rule building_cong) (simp_all add: building_inv)

lemma building_extends:
  assumes "building r N p k L r1" "extends r1 N r2"
  shows "building r N p k L r2"
proof -
  from assms(2) obtain ps where "info_by_id r2 = info_by_id r1 @ ps" "\<forall>q \<in> set ps. r_store r1 q = None"
    and le: "keys r1 \<subseteq>\<^sub>m keys r2" unfolding extends_def by blast
  moreover from assms(1) obtain c s where k: "keys r1 p = Some (k, c, s, L)" "p \<notin> set (info_by_id r1)" "r_store r p = None"
    unfolding building_def by blast
  ultimately have "p \<notin> set (info_by_id r2)" by (auto simp: keys_def)
  then show ?thesis
    using extends_trans [OF _ assms(2)] assms(1) k map_le_Some [OF le k(1)] unfolding building_def by blast
qed

lemma building_alloc:
  assumes "alloc_info r n i = Inr (p, r1)" "resolver_inv r"
  shows "building r N p (ci_klass i) (length (ci_fields i)) r1"
proof -
  note a = alloc_info_ok [OF assms]
  have "keys r \<subseteq>\<^sub>m keys r1" using a(1,3) by (auto simp: keys_def map_le_def)
  moreover have "keys r1 p = Some (ci_klass i, ci_id i, ci_sig i, length (ci_fields i))" using a(3) by (simp add: keys_def)
  ultimately show ?thesis using a unfolding building_def extends_def by simp
qed

lemma building_register:
  assumes b: "building r N p k L r1" and fresh: "get_class_info r k = 0" and nN: "\<not> N k" and inv: "resolver_inv r"
    and reg: "register_class_info r1 p = Inr r2" and i: "info_at r2 p = Inr i"
  shows "extends r (\<lambda>x. N x \<or> x = k) r2 \<and> registered r2 k (ci_id i)"
proof -
  from b obtain ps c s where
    ps: "info_by_id r1 = info_by_id r @ ps" "\<forall>q \<in> set ps. r_store r q = None \<and> N (klass_of r1 q)"
    and le: "keys r \<subseteq>\<^sub>m keys r1" and inv1: "resolver_inv r1" and p: "r_store r p = None" "p \<notin> set (info_by_id r1)"
    and kp: "keys r1 p = Some (k, c, s, L)"
    unfolding building_def extends_def by blast
  from kp obtain j where j: "r_store r1 p = Some j" "ci_klass j = k" "length (ci_fields j) = L"
    by (auto simp: keys_def)
  have ok: "index_ok r" "alloc_ok r" using inv by (simp_all add: resolver_inv_def)
  have old: "klass_of r1 q = klass_of r q" if "q \<in> set (info_by_id r)" for q
    using klass_of_map_le [OF le] registered_stored [OF ok(1) that] by blast
  have "klass_of r1 q \<noteq> ci_klass j" if "q \<in> set (info_by_id r1)" for q
    using that ps nN old get_class_info_None [OF ok, of k] fresh j(2) by auto
  then have R: "resolver_inv r2" "klass_of r2 = klass_of r1"
    using register_class_info_inv [OF inv1 j(1) p(2) _ reg] by blast+
  note u = register_class_info_unfold [OF reg j(1)]
  have "keys r p = None" using p(1) by (simp add: keys_None)
  then have "keys r \<subseteq>\<^sub>m keys r2"
    using le by (auto simp: u(2) map_le_def)
  moreover have "klass_of r2 p = k" using j by (simp add: R(2) klass_of_def)
  ultimately have "extends r (\<lambda>x. N x \<or> x = k) r2"
    using R ps p(1) by (auto simp: extends_def u(3))
  moreover have "registered r2 k (ci_id i)"
  proof -
    have ok2: "index_ok r2" "alloc_ok r2" using R(1) by (simp_all add: resolver_inv_def)
    have in2: "p \<in> set (info_by_id r2)" by (simp add: u(3))
    then have "p \<noteq> 0" by (rule registered_nonzero [OF ok2])
    then have "get_class_info r2 k = p" using get_class_info_iff [OF ok2] in2 \<open>klass_of r2 p = k\<close> by blast
    then show ?thesis using \<open>p \<noteq> 0\<close> i by (auto simp: registered_def info_at_def split: option.splits)
  qed
  ultimately show ?thesis by blast
qed

text \<open>The loops of the walker keep the block under construction.\<close>

lemma building_resolve_field:
  assumes b: "building r N p k L r1" and i: "i < L" and st: "resolve_field J klass kk p hs idx i r1 = Inr r2"
  shows "building r N p k L r2"
proof -
  have waiting: "building r N p k L (r3\<lparr>unresolved := w(sig \<mapsto>
      (case w sig of None \<Rightarrow> [(p, i)] | Some fs \<Rightarrow> fs @ [(p, i)]))\<rparr>)" (is "building _ _ _ _ _ ?r4")
    if b3: "building r N p k L r3" and none: "sig2id r3 sig = None" and w: "w = unresolved r3" for r3 sig w
  proof -
    have inv: "resolver_inv r3" by (rule building_inv [OF b3])
    then have ok: "index_ok r3" "sigs_ok r3" "alloc_ok r3" by (simp_all add: resolver_inv_def)
    have k4: "keys ?r4 = keys r3" by (intro ext) (simp add: keys_def)
    from b3 obtain c s where kp: "keys r3 p = Some (k, c, s, L)" unfolding building_def by blast
    have "index_ok ?r4" by (rule index_ok_mono [OF ok(1)]) (simp_all add: k4)
    moreover have "alloc_ok ?r4" using ok(3) by (simp add: alloc_ok_def)
    moreover have "sigs_ok ?r4"
      unfolding sigs_ok_def k4
    proof (intro conjI allI impI ballI)
      show "\<exists>n < length (info_by_id ?r4). \<exists>k l. c = of_nat (n + MIN_CLASS_ID) \<and> keys r3 (info_by_id ?r4 ! n) = Some (k, c, s, l)"
        if "sig2id ?r4 s = Some c" for s c
        using ok(2) that unfolding sigs_ok_def by simp
      fix s fs
      assume u: "unresolved ?r4 s = Some fs"
      show "sig2id ?r4 s = None"
        using ok(2) u w none unfolding sigs_ok_def by (cases "s = sig") auto
      fix x
      assume x: "x \<in> set fs"
      show "\<exists>k c s' l. keys r3 (fst x) = Some (k, c, s', l) \<and> snd x < l"
      proof (cases "x = (p, i)")
        case True
        then show ?thesis using kp i by simp
      next
        case False
        then obtain gs where "unresolved r3 s = Some gs" "x \<in> set gs"
          using u x w by (auto split: if_splits option.splits)
        then show ?thesis using ok(2) unfolding sigs_ok_def by blast
      qed
    qed
    ultimately have "resolver_inv ?r4" by (simp add: resolver_inv_def)
    then show ?thesis using b3 k4 by (rule_tac building_cong) simp_all
  qed
  have none: "sig2id r3 sig = None" if "get_class_info_sig r3 sig = Inr 0" "building r N p k L r3" for r3 sig
  proof (rule ccontr)
    assume "sig2id r3 sig \<noteq> None"
    then obtain c where c: "sig2id r3 sig = Some c" by blast
    have ok: "index_ok r3" "sigs_ok r3" "alloc_ok r3" using building_inv [OF that(2)] by (simp_all add: resolver_inv_def)
    from that(1) c obtain n where "n < length (info_by_id r3)" "info_by_id r3 ! n = 0"
      by (auto simp: get_class_info_sig_def split: if_splits)
    then show False using registered_nonzero [OF ok(1,3)] nth_mem by metis
  qed
  show ?thesis
    using st b unfolding resolve_field_def
    by (auto simp: Let_def split: if_splits intro!: building_upd_field waiting dest!: none)
qed

lemma building_resolve_fields:
  assumes "building r N p k L r1" "\<forall>i \<in> set is. i < L" "resolve_fields J klass kk p hs idx is r1 = Inr r2"
  shows "building r N p k L r2"
  using assms by (induction "is" arbitrary: r1) (auto intro: building_resolve_field)

lemma building_walk_enum_fields:
  assumes "building r N p k L r1" "walk_enum_fields J klass kk p is r1 = Inr r2"
  shows "building r N p k L r2"
  using assms
proof (induction "is" arbitrary: r1)
  case Nil
  then show ?case by simp
next
  case (Cons i "is")
  have keep: "keeps_keys (\<lambda>c. c\<lparr>ci_enums := f c\<rparr>)" for f by (simp add: keeps_keys_def)
  show ?case using Cons.prems(2)
    by (auto simp: Let_def intro: Cons.IH [OF building_upd_info [OF Cons.prems(1) keep]])
qed

lemma registered_walk:
  assumes "resolver_inv r" "get_class_info r k \<noteq> 0" "bnd (info_at r (get_class_info r k)) (\<lambda>i. Inr (ci_id i, r)) = Inr (cid, r')"
  shows "extends r N r' \<and> registered r' k cid"
  using assms extends_refl [OF assms(1)] by (auto simp: registered_def info_at_def split: option.splits)

lemma from_instance_klass_building:
  assumes "from_instance_klass J r klass e = Inr (p, r1)" "resolver_inv r"
  obtains info where "building r N p klass (unat (ci_n_non_static_field info)) r1" "r_store r1 p = Some info"
  using assms(1) that building_alloc [OF _ assms(2), of _ _ p r1 N] alloc_info_ok(3) [OF _ assms(2)]
  by (fastforce simp: from_instance_klass_def Let_def split_beta)

lemma walk_enum_klass_ok:
  assumes w: "walk_enum_klass J r klass = Inr (cid, r')" and inv: "resolver_inv r"
  shows "extends r (\<lambda>x. x = klass) r' \<and> registered r' klass cid"
proof (cases "get_class_info r klass = 0")
  case False
  then show ?thesis using w registered_walk [OF inv False] by (simp add: walk_enum_klass_def Let_def)
next
  case True
  with w obtain kk p r1 js r3 r4 i where
    1: "from_instance_klass J r klass True = Inr (p, r1)" and
    3: "walk_enum_fields J klass kk p js
        (upd_info r1 p (\<lambda>c. c\<lparr>ci_header_size := 12, ci_obj_size := 16\<rparr>)) = Inr r3" and
    4: "register_class_info r3 p = Inr r4" "info_at r4 p = Inr i" and r': "r' = r4" "cid = ci_id i"
    by (fastforce simp: walk_enum_klass_def Let_def split_beta)
  obtain L where "building r (\<lambda>_. False) p klass L r1"
    using from_instance_klass_building [OF 1 inv, of "\<lambda>_. False"] by metis
  then have "building r (\<lambda>_. False) p klass L (upd_info r1 p (\<lambda>c. c\<lparr>ci_header_size := 12, ci_obj_size := 16\<rparr>))"
    by (rule building_upd_info) (simp add: keeps_keys_def)
  then have "building r (\<lambda>_. False) p klass L r3" by (rule building_walk_enum_fields [OF _ 3])
  from building_register [OF this True _ inv 4] show ?thesis by (simp add: r')
qed

lemma walk_instance_klass_ok:
  assumes w: "walk_instance_klass J r klass = Inr (cid, r')" and inv: "resolver_inv r"
  shows "extends r (\<lambda>x. x = klass) r' \<and> registered r' klass cid"
proof (cases "get_class_info r klass = 0")
  case False
  then show ?thesis using w registered_walk [OF inv False] by (simp add: walk_instance_klass_def Let_def)
next
  case True
  with w obtain kk p r1 info idx hs r3 r4 i where
    1: "from_instance_klass J r klass False = Inr (p, r1)" "info_at r1 p = Inr info" and
    3: "resolve_fields J klass kk p hs idx [0..<unat (ci_n_non_static_field info)]
        (upd_info r1 p (\<lambda>c. c\<lparr>ci_header_size := hs\<rparr>)) = Inr r3" and
    4: "register_class_info r3 p = Inr r4" "info_at r4 p = Inr i" and r': "r' = r4" "cid = ci_id i"
    by (auto simp: walk_instance_klass_def Let_def split_beta)
  obtain info' where "building r (\<lambda>_. False) p klass (unat (ci_n_non_static_field info')) r1" "r_store r1 p = Some info'"
    by (rule from_instance_klass_building [OF 1(1) inv, of "\<lambda>_. False"])
  then have "building r (\<lambda>_. False) p klass (unat (ci_n_non_static_field info)) (upd_info r1 p (\<lambda>c. c\<lparr>ci_header_size := hs\<rparr>))"
    using 1(2) by (intro building_upd_info) (simp_all add: keeps_keys_def info_at_def)
  then have "building r (\<lambda>_. False) p klass (unat (ci_n_non_static_field info)) r3"
    by (rule building_resolve_fields [OF _ _ 3]) simp
  from building_register [OF this True _ inv 4] show ?thesis by (simp add: r')
qed

text \<open>
  What HotSpot guarantees of array klasses: the lower dimension of an array of two or more
  dimensions is an array klass of fewer dimensions, and the element klass of a one-dimensional
  object array is an instance klass.
\<close>

definition metaspace_ok :: "metaspace \<Rightarrow> bool" where
  "metaspace_ok ms \<longleftrightarrow> (\<forall>k kk. ms k = Some kk \<longrightarrow> \<not> lh_is_instance (k_lh kk) \<longrightarrow>
     (if k_dimension kk = 1
      then lh_element_type (k_lh kk) = T_OBJECT \<longrightarrow> (\<exists>e. ms (k_element_klass kk) = Some e \<and> lh_is_instance (k_lh e))
      else \<exists>l. ms (k_lower_dimension kk) = Some l \<and> \<not> lh_is_instance (k_lh l) \<and> k_dimension l < k_dimension kk))"

definition below :: "metaspace \<Rightarrow> u32 \<Rightarrow> u64 \<Rightarrow> bool" where
  "below ms d k \<longleftrightarrow> (\<exists>kk. ms k = Some kk \<and> (lh_is_instance (k_lh kk) \<or> k_dimension kk < d))"

lemma walk_array_klass_ok:
  assumes "walk_array_klass n J r klass = Inr (cid, r')" "resolver_inv r" "metaspace_ok (j_metaspace J)"
    "j_metaspace J klass = Some kk" "\<not> lh_is_instance (k_lh kk)"
  shows "extends r (\<lambda>x. below (j_metaspace J) (k_dimension kk) x \<or> x = klass) r' \<and> registered r' klass cid"
  using assms
proof (induction n arbitrary: r klass cid r' kk)
  case 0
  then show ?case by simp
next
  case (Suc n)
  let ?ms = "j_metaspace J"
  let ?N = "below ?ms (k_dimension kk)"
  note inv = Suc.prems(2) and ms = Suc.prems(3) and kk = Suc.prems(4,5)
  show ?case
  proof (cases "get_class_info r klass = 0")
    case False
    then show ?thesis using Suc.prems(1) registered_walk [OF inv False] by (simp add: Let_def)
  next
    case True
    with Suc.prems(1) kk obtain p r1 r3 r4 i where
      1: "from_array_klass J r klass = Inr (p, r1)" and
      3: "(if k_dimension kk = 1 then
              let t = lh_element_type (k_lh kk); r = upd_field r1 p 0 (\<lambda>f. f\<lparr>fi_type := t\<rparr>) in
              if t = T_OBJECT then
                bnd (klass_at ?ms (k_element_klass kk)) (\<lambda>ek.
                bnd (klass_is_enum ?ms ek) (\<lambda>en.
                bnd (if en then walk_enum_klass J r (k_element_klass kk)
                     else walk_instance_klass J r (k_element_klass kk)) (\<lambda>(cid, r).
                  Inr (upd_field r p 0 (\<lambda>f. f\<lparr>fi_id := cid\<rparr>)))))
              else Inr r
            else
              let r = upd_field r1 p 0 (\<lambda>f. f\<lparr>fi_type := T_ARRAY\<rparr>) in
              bnd (walk_array_klass n J r (k_lower_dimension kk)) (\<lambda>(cid, r).
                Inr (upd_field r p 0 (\<lambda>f. f\<lparr>fi_id := cid\<rparr>)))) = Inr r3" and
      4: "register_class_info r3 p = Inr r4" "info_at r4 p = Inr i" and r': "r' = r4" "cid = ci_id i"
      by (auto simp: Let_def split_beta klass_at_def)
    have b1: "building r ?N p klass 1 (upd_field r1 p 0 f)" for f
      using 1 building_alloc [OF _ inv, of _ _ p r1 ?N]
      by (intro building_upd_field) (fastforce simp: from_array_klass_def)
    have "building r ?N p klass 1 r3"
    proof (cases "k_dimension kk = 1")
      case dim1: True
      show ?thesis
      proof (cases "lh_element_type (k_lh kk) = T_OBJECT")
        case True
        from ms kk dim1 True obtain e where e: "?ms (k_element_klass kk) = Some e" "lh_is_instance (k_lh e)"
          unfolding metaspace_ok_def by fastforce
        then have N: "?N (k_element_klass kk)" by (auto simp: below_def)
        from 3 dim1 True obtain en c r5 where
          r5: "(if en then walk_enum_klass J (upd_field r1 p 0 (\<lambda>f. f\<lparr>fi_type := 12\<rparr>)) (k_element_klass kk)
             else walk_instance_klass J (upd_field r1 p 0 (\<lambda>f. f\<lparr>fi_type := 12\<rparr>)) (k_element_klass kk)) = Inr (c, r5)"
          and r3: "r3 = upd_field r5 p 0 (\<lambda>f. f\<lparr>fi_id := c\<rparr>)"
          by (auto simp: Let_def split_beta)
        have "extends (upd_field r1 p 0 (\<lambda>f. f\<lparr>fi_type := 12\<rparr>)) (\<lambda>x. x = k_element_klass kk) r5"
          using r5 walk_enum_klass_ok [OF _ building_inv [OF b1]] walk_instance_klass_ok [OF _ building_inv [OF b1]]
          by (cases en) auto
        then have "extends (upd_field r1 p 0 (\<lambda>f. f\<lparr>fi_type := 12\<rparr>)) ?N r5"
          by (rule extends_mono) (simp add: N)
        then show ?thesis unfolding r3 using building_extends [OF b1] by blast
      next
        case False
        then show ?thesis using 3 dim1 b1 by (auto simp: Let_def)
      qed
    next
      case False
      with ms kk obtain l where l: "?ms (k_lower_dimension kk) = Some l" "\<not> lh_is_instance (k_lh l)" "k_dimension l < k_dimension kk"
        unfolding metaspace_ok_def by fastforce
      from 3 False obtain c r5 where
        r5: "walk_array_klass n J (upd_field r1 p 0 (\<lambda>f. f\<lparr>fi_type := T_ARRAY\<rparr>)) (k_lower_dimension kk) = Inr (c, r5)"
        and r3: "r3 = upd_field r5 p 0 (\<lambda>f. f\<lparr>fi_id := c\<rparr>)"
        by (auto simp: Let_def split_beta)
      have "extends (upd_field r1 p 0 (\<lambda>f. f\<lparr>fi_type := T_ARRAY\<rparr>)) ?N r5"
        using Suc.IH [OF r5 building_inv [OF b1] ms l(1,2)] l
        by (auto elim!: extends_mono simp: below_def)
      then show ?thesis unfolding r3 using building_extends [OF b1] by blast
    qed
    from building_register [OF this True _ inv 4] kk show ?thesis by (simp add: r' below_def)
  qed
qed

lemma register_class_ok:
  assumes "register_class J r j_class = Inr (cid, r')" "resolver_inv r" "metaspace_ok (j_metaspace J)"
  shows "\<exists>klass N. from_clazz (j_args J) (j_mem J) (j_metaspace J) j_class = Inr klass
    \<and> extends r N r' \<and> registered r' klass cid"
proof -
  from assms(1) obtain klass where k: "from_clazz (j_args J) (j_mem J) (j_metaspace J) j_class = Inr klass"
    by (auto simp: register_class_def)
  have "\<exists>N. extends r N r' \<and> registered r' klass cid"
  proof (cases "get_class_info r klass = 0")
    case False
    then show ?thesis using assms(1) k registered_walk [OF assms(2) False] by (auto simp: register_class_def Let_def)
  next
    case True
    with assms(1) k obtain kk where kk: "j_metaspace J klass = Some kk"
      and w: "(if lh_is_instance (k_lh kk) then
        bnd (klass_is_enum (j_metaspace J) kk) (\<lambda>en. if en then walk_enum_klass J r klass else walk_instance_klass J r klass)
      else if lh_is_array (k_lh kk) then walk_array_klass 256 J r klass else Inl Unreachable) = Inr (cid, r')"
      by (auto simp: register_class_def Let_def klass_at_def split: option.splits)
    show ?thesis
    proof (cases "lh_is_instance (k_lh kk)")
      case True
      then show ?thesis
        using w walk_enum_klass_ok [of J r klass cid r', OF _ assms(2)]
          walk_instance_klass_ok [of J r klass cid r', OF _ assms(2)]
        by (auto split: if_splits)
    next
      case False
      then show ?thesis using w walk_array_klass_ok [OF _ assms(2,3) kk False] by (auto split: if_splits)
    qed
  qed
  then show ?thesis using k by blast
qed

lemma extends_registered:
  assumes "resolver_inv r" "extends r N r'" "registered r k cid"
  shows "registered r' k cid"
proof -
  from assms(1) have ok: "index_ok r" "alloc_ok r" by (simp_all add: resolver_inv_def)
  from assms(2) have ok': "index_ok r'" "alloc_ok r'" and le: "keys r \<subseteq>\<^sub>m keys r'"
    by (simp_all add: extends_def resolver_inv_def)
  obtain i where p: "get_class_info r k \<noteq> 0" and i: "r_store r (get_class_info r k) = Some i" "ci_id i = cid"
    using assms(3) unfolding registered_def by blast
  let ?p = "get_class_info r k"
  have m: "?p \<in> set (info_by_id r)" "klass_of r ?p = k" using get_class_info_iff [OF ok p] by blast+
  then have "?p \<in> set (info_by_id r')" using assms(2) by (auto simp: extends_def)
  moreover have "klass_of r' ?p = k" using klass_of_map_le [OF le] i(1) m(2) by simp
  ultimately have "get_class_info r' k = ?p" using get_class_info_iff [OF ok' p] by blast
  moreover obtain i' where "r_store r' ?p = Some i'" "ci_id i' = cid"
    using map_le_Some [OF le, of ?p] i by (auto simp: keys_def)
  ultimately show ?thesis using p by (auto simp: registered_def)
qed

lemma registered_again:
  assumes "registered r klass cid" "from_clazz (j_args J) (j_mem J) (j_metaspace J) j_class = Inr klass"
  shows "register_class J r j_class = Inr (cid, r)"
  using assms by (auto simp: registered_def register_class_def info_at_def Let_def)

section \<open>The contract of a class table\<close>

text \<open>
  What the serializer and the deserializer rely on: a klass finds the description of that class,
  and the id the serializer writes finds the same description when it is read back.
\<close>

locale class_table =
  fixes invar :: "'r \<Rightarrow> bool"
    and by_klass :: "'r \<Rightarrow> u64 \<Rightarrow> class_info_t option"
    and by_id :: "'r \<Rightarrow> class_id_t \<Rightarrow> class_info_t option"
  assumes klass_law: "invar r \<Longrightarrow> by_klass r k = Some i \<Longrightarrow> ci_klass i = k"
    and id_law: "invar r \<Longrightarrow> by_klass r k = Some i \<Longrightarrow> by_id r (ci_id i) = Some i"
    and id_back: "invar r \<Longrightarrow> by_id r c = Some i \<Longrightarrow> ci_id i = c \<and> by_klass r (ci_klass i) = Some i"
begin

lemma ids_unique:
  assumes "invar r" "by_klass r k = Some i" "by_klass r k' = Some i'" "ci_id i = ci_id i'"
  shows "k = k' \<and> i = i'"
proof -
  have "by_id r (ci_id i) = Some i" "by_id r (ci_id i) = Some i'" using assms id_law by metis+
  then have "i = i'" by simp
  then show ?thesis using klass_law [OF assms(1)] assms(2,3) by metis
qed

end

definition info_by_klass_addr :: "ClassResolver \<Rightarrow> u64 \<Rightarrow> class_info_t option" where
  "info_by_klass_addr r k = (let p = get_class_info r k in if p = 0 then None else r_store r p)"

definition info_by_class_id :: "ClassResolver \<Rightarrow> class_id_t \<Rightarrow> class_info_t option" where
  "info_by_class_id r c = (case get_class_info_id r c of Inl _ \<Rightarrow> None | Inr p \<Rightarrow> if p = 0 then None else r_store r p)"

lemma get_class_info_id_registered:
  assumes "resolver_inv r" "p \<in> set (info_by_id r)" "r_store r p = Some i"
  shows "get_class_info_id r (ci_id i) = Inr p"
proof -
  have ok: "index_ok r" using assms(1) by (simp add: resolver_inv_def)
  obtain n j where n: "n < length (info_by_id r)" "info_by_id r ! n = p" and
    j: "r_store r p = Some j" "ci_id j = of_nat (n + MIN_CLASS_ID)"
    by (rule registered_info [OF ok assms(2)])
  with assms(3) have ci: "ci_id i = of_nat (n + MIN_CLASS_ID)" by simp
  have "n + MIN_CLASS_ID \<le> MAX_CLASS_ID" using n(1) ok by (simp add: index_ok_def)
  then show ?thesis unfolding get_class_info_id_def ci using n id2index_of_nat by simp
qed

interpretation resolver: class_table resolver_inv info_by_klass_addr info_by_class_id
proof
  fix r k i
  assume inv: "resolver_inv r" and l: "info_by_klass_addr r k = Some i"
  then have ok: "index_ok r" "alloc_ok r" by (simp_all add: resolver_inv_def)
  from l have p: "get_class_info r k \<noteq> 0" "r_store r (get_class_info r k) = Some i"
    by (auto simp: info_by_klass_addr_def Let_def split: if_splits)
  then have m: "get_class_info r k \<in> set (info_by_id r)" "klass_of r (get_class_info r k) = k"
    using get_class_info_iff [OF ok p(1)] by blast+
  show "ci_klass i = k" using m(2) p(2) by (simp add: klass_of_def)
  show "info_by_class_id r (ci_id i) = Some i"
    using get_class_info_id_registered [OF inv m(1) p(2)] p by (simp add: info_by_class_id_def)
next
  fix r c i
  assume inv: "resolver_inv r" and l: "info_by_class_id r c = Some i"
  then have ok: "index_ok r" "alloc_ok r" by (simp_all add: resolver_inv_def)
  from l obtain p where p: "get_class_info_id r c = Inr p" "p \<noteq> 0" "r_store r p = Some i"
    by (auto simp: info_by_class_id_def split: sum.splits if_splits)
  then obtain n where n: "id2index c = Inr n" "n < length (info_by_id r)" "p = info_by_id r ! n"
    by (auto simp: get_class_info_id_def split: if_splits)
  have nle: "n + MIN_CLASS_ID \<le> MAX_CLASS_ID" using n(2) ok(1) by (simp add: index_ok_def)
  obtain k s l where "keys r (info_by_id r ! n) = Some (k, of_nat (n + MIN_CLASS_ID), s, l)"
    by (rule index_ok_registered [OF ok(1) n(2)])
  then have ci: "ci_id i = of_nat (n + MIN_CLASS_ID)" using p(3) n(3) by (simp add: keys_def)
  have "int n = sint c - int MIN_CLASS_ID" using n(1) by (auto simp: id2index_def)
  then have "sint c = sint (ci_id i)" using sint_class_id [OF nle] by (simp add: ci)
  then have "ci_id i = c" by (simp add: word_eq_iff_signed [where 'a = int])
  moreover have "get_class_info r (ci_klass i) = p"
    using get_class_info_iff [OF ok p(2)] n p(3) by (simp add: klass_of_def)
  ultimately show "ci_id i = c \<and> info_by_klass_addr r (ci_klass i) = Some i"
    using p by (simp add: info_by_klass_addr_def Let_def)
qed

section \<open>Properties of class registration\<close>

text \<open>
  C36. Registering a class keeps the resolver consistent, returns an id under which the class of
  the \<^verbatim>\<open>jclass\<close> is found, keeps every class that was registered before under its old id, and
  registering the same class again changes nothing and returns the same id. (\<open>metaspace_ok\<close> is
  HotSpot's structure of array klasses.)
\<close>

theorem register_class_correct:
  assumes "resolver_inv r" "metaspace_ok (j_metaspace J)" "register_class J r j_class = Inr (cid, r')"
  shows "resolver_inv r' \<and> (\<exists>klass. from_clazz (j_args J) (j_mem J) (j_metaspace J) j_class = Inr klass \<and> registered r' klass cid)
    \<and> (\<forall>k c. registered r k c \<longrightarrow> registered r' k c) \<and> register_class J r' j_class = Inr (cid, r')"
proof -
  from register_class_ok [OF assms(3,1,2)] obtain klass N where
    k: "from_clazz (j_args J) (j_mem J) (j_metaspace J) j_class = Inr klass" and e: "extends r N r'" and r: "registered r' klass cid"
    by blast
  moreover have "resolver_inv r'" using e by (simp add: extends_def)
  ultimately show ?thesis using extends_registered [OF assms(1) e] registered_again [OF r k] by blast
qed

text \<open>A JVM with one class of three fields, of which the second waits for class \<^verbatim>\<open>B\<close>.\<close>

definition example_jvm :: jvm where
  "example_jvm =
    \<lparr>j_args = \<lparr>h_heap_base = 0, h_heap_size = 0x10000, h_compressed_class_space_base = 0,
       h_compressed_class_space_size = 0, heap_mmap_h = 0, heap_compress_ptr_mode = MODE_ZERO_BASED,
       metaspace_compress_ptr_mode = MODE_ZERO_BASED, heap_compress_ptr_shift = 3, metaspace_compress_ptr_shift = 3\<rparr>,
     j_mem = (\<lambda>a. if a = 0x101 then 0x02 else if a = 0x209 then 0x01 else if a = 0x261 then 0x10 else 0),
     j_metaspace = (\<lambda>a. if a = 0x1000 then Some example_klass
       else if a = 0x800 then Some (example_klass\<lparr>k_java_fields_count := 0, k_infos :=
         [\<lparr>access_flags = 0x0400, name_index_offset = 1, signature_index_offset = 2, initval_index_offset = 0,
           low_packed_offset = 385, high_packed_offset = 0\<rparr>]\<rparr>)
       else None),
     GetFieldID = (\<lambda>k n s. k), GetStaticFieldID = (\<lambda>k n s. k), GetStaticObjectField = (\<lambda>k f. f), NewGlobalRef = (\<lambda>h. h)\<rparr>"

definition example_resolver :: ClassResolver where
  "example_resolver = resolver_new \<lparr>mr_base = 0x4000, mr_len = 0x4000\<rparr>"

lemma example_resolver_inv: "resolver_inv example_resolver"
  unfolding example_resolver_def by (rule resolver_new_inv) simp_all

lemma example_metaspace_ok: "metaspace_ok (j_metaspace example_jvm)"
  by (auto simp: metaspace_ok_def example_jvm_def example_klass_def lh_is_instance_def)

lemma example_from_clazz:
  "from_clazz (j_args example_jvm) (j_mem example_jvm) (j_metaspace example_jvm) 0x100 = Inr 0x1000"
  by (simp add: from_clazz_def example_jvm_def from_jobject_def rd_8 rd_4 bytes_u64_def bytes_u32_def
      klass_pointer_def parse_u32_at_def parse_u64_at_def raw_def parse_metaspace_cptr_def parse_cptr_def
      klass_at_def klass_field_def ff_offset_def lh_is_instance_def example_klass_def)

lemma example_register: "\<exists>r'. register_class example_jvm example_resolver 0x100 = Inr (20, r')"
proof -
  have "map_sum id fst (walk_instance_klass example_jvm example_resolver 0x1000) = Inr 20" by code_simp
  then obtain r' where r': "walk_instance_klass example_jvm example_resolver 0x1000 = Inr (20, r')"
    by (cases "walk_instance_klass example_jvm example_resolver 0x1000") auto
  have "get_class_info example_resolver 0x1000 = 0"
    by (simp add: example_resolver_def resolver_new_def get_class_info_def)
  moreover have "j_metaspace example_jvm 0x1000 = Some example_klass" by (simp add: example_jvm_def)
  moreover have "lh_is_instance (k_lh example_klass)" "k_super example_klass = 0"
    by (simp_all add: example_klass_def lh_is_instance_def)
  ultimately show ?thesis
    using r' by (simp add: register_class_def example_from_clazz klass_at_def klass_is_enum_def)
qed

theorem register_class_correct_witness:
  "\<exists>r'. register_class example_jvm example_resolver 0x100 = Inr (20, r') \<and> resolver_inv r'
    \<and> register_class example_jvm r' 0x100 = Inr (20, r')"
  using example_register register_class_correct [OF example_resolver_inv example_metaspace_ok] by blast

text \<open>Patching the waiting fields sets exactly their ids.\<close>

lemma patch_fields_id:
  assumes "(q, n) \<in> set fs" "r_store r q = Some i" "n < length (ci_fields i)"
  shows "\<exists>j. r_store (fold (\<lambda>(q, n) r. upd_field r q n (\<lambda>f. f\<lparr>fi_id := cid\<rparr>)) fs r) q = Some j
    \<and> n < length (ci_fields j) \<and> fi_id (ci_fields j ! n) = cid"
proof -
  let ?patch = "\<lambda>fs r. fold (\<lambda>(q, n) r. upd_field r q n (\<lambda>f. f\<lparr>fi_id := cid\<rparr>)) fs r"
  let ?ok = "\<lambda>r. \<exists>j. r_store r q = Some j \<and> n < length (ci_fields j) \<and> fi_id (ci_fields j ! n) = cid"
  have set_id: "fi_id (xs[y := (xs ! y)\<lparr>fi_id := c\<rparr>] ! m) = (if m = y \<and> y < length xs then c else fi_id (xs ! m))"
    for xs :: "field_info_t list" and y c m
    by (cases "y < length xs") (auto simp: nth_list_update list_update_beyond)
  have step: "\<exists>j. r_store (upd_field r x y g) q = Some j \<and> n < length (ci_fields j)"
    if "\<exists>j. r_store r q = Some j \<and> n < length (ci_fields j)" for r x y g
    using that by (auto simp: upd_field_def)
  have keep: "?ok (?patch gs r)" if "?ok r" for gs r
    using that
  proof (induction gs arbitrary: r)
    case Nil
    then show ?case by simp
  next
    case (Cons g gs)
    then have "?ok (upd_field r (fst g) (snd g) (\<lambda>f. f\<lparr>fi_id := cid\<rparr>))"
      using set_id by (cases g) (auto simp: upd_field_def)
    then show ?case using Cons.IH by (cases g) simp
  qed
  have "?ok (?patch fs r)" if "\<exists>j. r_store r q = Some j \<and> n < length (ci_fields j)" "(q, n) \<in> set fs" for r
    using that
  proof (induction fs arbitrary: r)
    case Nil
    then show ?case by simp
  next
    case (Cons g gs)
    show ?case
    proof (cases "g = (q, n)")
      case True
      then have "?ok (upd_field r (fst g) (snd g) (\<lambda>f. f\<lparr>fi_id := cid\<rparr>))"
        using Cons.prems(1) by (auto simp: upd_field_def)
      then show ?thesis using keep True by simp
    next
      case False
      then show ?thesis using Cons.IH [OF step [OF Cons.prems(1)]] Cons.prems(2) by (cases g) auto
    qed
  qed
  then show ?thesis using assms by blast
qed

text \<open>
  Forward references are resolved: when a class is registered, every field that was met
  earlier with that class's signature gets its id, and nothing waits for the signature any more.
\<close>

theorem register_class_info_resolves:
  assumes "resolver_inv r" "r_store r p = Some i" "unresolved r (ci_sig i) = Some fs" "(q, n) \<in> set fs"
    and "register_class_info r p = Inr r'"
  shows "unresolved r' (ci_sig i) = None \<and> (\<exists>j. r_store r' q = Some j
    \<and> fi_id (ci_fields j ! n) = of_nat (length (info_by_id r) + MIN_CLASS_ID))"
proof -
  let ?cid = "of_nat (length (info_by_id r) + MIN_CLASS_ID) :: class_id_t"
  let ?r1 = "add_to_index r p i ?cid"
  from assms(5,2) have r': "r' = resolve_waiting ?r1 (ci_sig i) ?cid"
    by (auto simp: register_class_info_def info_at_def index2id_def)
  from assms(1,3,4) have "\<exists>k c s l. keys r q = Some (k, c, s, l) \<and> n < l"
    unfolding resolver_inv_def sigs_ok_def by fastforce
  then obtain j where "r_store ?r1 q = Some j" "n < length (ci_fields j)"
    by (cases "q = p") (auto simp: keys_def add_to_index_def Let_def)
  from patch_fields_id [OF assms(4) this, of ?cid] show ?thesis
    using assms(3) resolve_waiting_keys(5) [of ?r1 "ci_sig i" ?cid]
    unfolding r' by (auto simp: resolve_waiting_def add_to_index_def Let_def)
qed

text \<open>A resolver in which the second field of the registered class \<^verbatim>\<open>A\<close> waits for \<^verbatim>\<open>B\<close>, whose block is built.\<close>

definition waiting_info :: class_info_t where
  "waiting_info = \<lparr>ci_klass = 0x1000, ci_id = 20, ci_enum_ref_arr_off = 0, ci_klass_cptr = 0x200, ci_obj_size = 24,
     ci_header_size = 12, ci_n_non_static_field = 2, ci_n_static_field = 0, ci_dim = 0, ci_sig_off = 72,
     ci_fields = [unset_field\<lparr>fi_type := T_OBJECT\<rparr>, unset_field\<lparr>fi_type := T_INT\<rparr>], ci_enums = [], ci_sig = ''LA;''\<rparr>"

definition waiting_resolver :: ClassResolver where
  "waiting_resolver = \<lparr>r_alloc = \<lparr>sa_base = 0x4000, sa_pos = 0x400, sa_lim = 0x4000\<rparr>,
     r_store = [0x4000 \<mapsto> waiting_info, 0x4100 \<mapsto> waiting_info\<lparr>ci_klass := 0x800, ci_id := - 1, ci_sig := ''LB;''\<rparr>],
     info_by_id = [0x4000], info_by_klass = [0x4000], sig2id = [''LA;'' \<mapsto> 20], unresolved = [''LB;'' \<mapsto> [(0x4000, 0)]]\<rparr>"

lemma waiting_resolver_inv: "resolver_inv waiting_resolver"
proof -
  have k: "keys waiting_resolver 0x4000 = Some (0x1000, 20, ''LA;'', 2)"
    by (simp add: keys_def waiting_resolver_def waiting_info_def)
  have "index_ok waiting_resolver"
    using k by (simp add: index_ok_def) (simp add: waiting_resolver_def)
  moreover have "sigs_ok waiting_resolver"
    using k by (simp add: sigs_ok_def) (simp add: waiting_resolver_def)
  moreover have "alloc_ok waiting_resolver" by (auto simp: alloc_ok_def waiting_resolver_def)
  ultimately show ?thesis by (simp add: resolver_inv_def)
qed

theorem register_class_info_resolves_witness:
  "\<exists>r' j. register_class_info waiting_resolver 0x4100 = Inr r' \<and> unresolved r' ''LB;'' = None
    \<and> r_store r' 0x4000 = Some j \<and> fi_id (ci_fields j ! 0) = 21"
proof -
  let ?i = "waiting_info\<lparr>ci_klass := 0x800, ci_id := - 1, ci_sig := ''LB;''\<rparr>"
  have i: "r_store waiting_resolver 0x4100 = Some ?i" "unresolved waiting_resolver (ci_sig ?i) = Some [(0x4000, 0)]"
    by (simp_all add: waiting_resolver_def)
  obtain r' where r': "register_class_info waiting_resolver 0x4100 = Inr r'"
    by (simp add: register_class_info_def info_at_def i index2id_def) (simp add: waiting_resolver_def)
  from register_class_info_resolves [OF waiting_resolver_inv i _ r', where q = "0x4000" and n = 0]
  show ?thesis using r' by (auto simp: waiting_resolver_def)
qed

text \<open>
  In a consistent resolver the three ways of finding a class agree: looking a class up by its
  klass gives a description of that klass, its id leads back to the same description, and two
  klasses never share an id.
\<close>

theorem class_lookup_agrees:
  assumes "resolver_inv r" "info_by_klass_addr r k = Some i"
  shows "ci_klass i = k \<and> info_by_class_id r (ci_id i) = Some i
    \<and> (\<forall>k' i'. info_by_klass_addr r k' = Some i' \<longrightarrow> ci_id i' = ci_id i \<longrightarrow> k' = k)"
  using resolver.klass_law [OF assms] resolver.id_law [OF assms] resolver.ids_unique [OF assms(1) _ assms(2)]
  by blast

theorem class_lookup_agrees_witness:
  "info_by_class_id waiting_resolver 20 = Some waiting_info"
proof -
  have "info_by_klass_addr waiting_resolver 0x1000 = Some waiting_info"
    by (simp add: info_by_klass_addr_def get_class_info_def lower_bound_def klass_of_def waiting_resolver_def waiting_info_def)
  from class_lookup_agrees [OF waiting_resolver_inv this] show ?thesis by (simp add: waiting_info_def)
qed

end
