(* ===== verification/RW_Buffer.thy ===== *)
theory RW_Buffer
  imports DPX_Prelude Memory_Pool
begin

text \<open>
  \<^verbatim>\<open>lib/sd/native/rw_buffer.hxx\<close>: a borrowed buffer with a cursor, through which the serialized
  form is written and read. The buffer is its bytes and the cursor a number: the buffer is far
  smaller than the address space, so offsets do not wrap. An access outside the buffer, which
  the source does not check, is \<open>Out_of_bounds\<close>.
\<close>

record RWBuffer =
  rw_b :: "u8 list"
  rw_off :: nat

definition rw_new :: "u8 list \<Rightarrow> RWBuffer" where
  "rw_new b = \<lparr>rw_b = b, rw_off = 0\<rparr>"

definition put_at :: "RWBuffer \<Rightarrow> u8 list \<Rightarrow> nat \<Rightarrow> RWBuffer result" where
  "put_at w bs offset =
    (if offset + length bs \<le> length (rw_b w) then Inr (w\<lparr>rw_b := patch (rw_b w) offset bs\<rparr>) else Inl Out_of_bounds)"

definition put :: "RWBuffer \<Rightarrow> u8 list \<Rightarrow> RWBuffer result" where
  "put w bs = bnd (put_at w bs (rw_off w)) (\<lambda>w. Inr (w\<lparr>rw_off := rw_off w + length bs\<rparr>))"

definition get_at :: "RWBuffer \<Rightarrow> nat \<Rightarrow> nat \<Rightarrow> u8 list result" where
  "get_at w n offset =
    (if offset + n \<le> length (rw_b w) then Inr (chunk (rw_b w) offset n) else Inl Out_of_bounds)"

definition peek :: "RWBuffer \<Rightarrow> nat \<Rightarrow> nat \<Rightarrow> u8 list result" where
  "peek w n offset = get_at w n (rw_off w + offset)"

definition rget :: "RWBuffer \<Rightarrow> nat \<Rightarrow> (u8 list \<times> RWBuffer) result" where
  "rget w n = bnd (get_at w n (rw_off w)) (\<lambda>bs. Inr (bs, w\<lparr>rw_off := rw_off w + n\<rparr>))"

definition limit :: "RWBuffer \<Rightarrow> nat" where "limit w = length (rw_b w)"

definition skip :: "RWBuffer \<Rightarrow> nat \<Rightarrow> RWBuffer" where
  "skip w n = w\<lparr>rw_off := rw_off w + n\<rparr>"

definition fill_next_align_8 :: "RWBuffer \<Rightarrow> RWBuffer result" where
  "fill_next_align_8 w =
    (let len = upper_align (rw_off w) 8 - rw_off w in
     if len = 0 then Inr w else put w (replicate len 0))"

definition skip_next_align_8 :: "RWBuffer \<Rightarrow> RWBuffer" where
  "skip_next_align_8 w = w\<lparr>rw_off := upper_align (rw_off w) 8\<rparr>"

section \<open>What has been written\<close>

text \<open>
  \<open>holds w n u\<close>: the buffer has room for \<open>n\<close> bytes and \<open>u\<close> is what precedes the cursor. Writing
  at the cursor appends to \<open>u\<close>, writing at an offset patches \<open>u\<close>.
\<close>

definition holds :: "RWBuffer \<Rightarrow> nat \<Rightarrow> u8 list \<Rightarrow> bool" where
  "holds w n u \<longleftrightarrow> limit w = n \<and> rw_off w = length u \<and> take (length u) (rw_b w) = u \<and> length u \<le> n"

definition pad8 :: "u8 list \<Rightarrow> u8 list" where
  "pad8 u = u @ replicate (upper_align (length u) 8 - length u) 0"

lemma length_pad8 [simp]: "length (pad8 u) = upper_align (length u) 8"
  using upper_align_nat(2) [of 8 "length u"] by (simp add: pad8_def)

lemma pad8_aligned: "length u mod 8 = 0 \<Longrightarrow> pad8 u = u"
  by (simp add: pad8_def upper_align_8_aligned)

lemma take_pad8: "take (length u) (pad8 u) = u"
  by (simp add: pad8_def)

lemma holds_off: "holds w n u \<Longrightarrow> rw_off w = length u"
  by (simp add: holds_def)

lemma holds_put:
  assumes "holds w n u" "length u + length bs \<le> n"
  shows "\<exists>w'. put w bs = Inr w' \<and> holds w' n (u @ bs)"
proof -
  have "take (length u + length bs) (patch (rw_b w) (length u) bs) = u @ bs"
    using assms by (simp add: holds_def limit_def take_patch_upto)
  then show ?thesis using assms by (auto simp: holds_def limit_def put_def put_at_def)
qed

lemma holds_put_at:
  assumes "holds w n u" "off + length bs \<le> length u"
  shows "\<exists>w'. put_at w bs off = Inr w' \<and> holds w' n (patch u off bs)"
proof -
  have le: "off + length bs \<le> length (rw_b w)" "length u \<le> length (rw_b w)" "take (length u) (rw_b w) = u"
    using assms by (simp_all add: holds_def limit_def)
  have "take (length u) (patch (rw_b w) off bs) = patch u off bs"
  proof (rule nth_equalityI)
    show "length (take (length u) (patch (rw_b w) off bs)) = length (patch u off bs)" using assms le by simp
    fix i
    assume "i < length (take (length u) (patch (rw_b w) off bs))"
    then have "i < length u" by simp
    moreover from this have "rw_b w ! i = u ! i" using le(3) by (metis nth_take)
    ultimately show "take (length u) (patch (rw_b w) off bs) ! i = patch u off bs ! i"
      using assms(2) le by (simp add: nth_patch)
  qed
  then show ?thesis using assms le by (auto simp: put_at_def holds_def limit_def)
qed

lemma holds_get_at:
  assumes "holds w n u" "off + k \<le> length u"
  shows "get_at w k off = Inr (chunk u off k)"
proof -
  have u: "take (length u) (rw_b w) = u" "length u \<le> length (rw_b w)" using assms(1) by (simp_all add: holds_def limit_def)
  have "chunk (rw_b w) off k = chunk u off k"
    using chunk_take [OF assms(2), of "rw_b w"] u(1) by simp
  then show ?thesis using assms(2) u(2) by (simp add: get_at_def)
qed

lemma holds_fill:
  assumes "holds w n u" "length (pad8 u) \<le> n"
  shows "\<exists>w'. fill_next_align_8 w = Inr w' \<and> holds w' n (pad8 u)"
proof (cases "upper_align (length u) 8 - length u = 0")
  case True
  then show ?thesis using assms by (auto simp: fill_next_align_8_def holds_off pad8_def)
next
  case False
  then show ?thesis
    using holds_put [OF assms(1), of "replicate (upper_align (length u) 8 - length u) 0"] assms(2)
    by (simp add: fill_next_align_8_def holds_off [OF assms(1)] pad8_def)
qed

end
