(* ===== verification/Serial_Format.thy ===== *)
theory Serial_Format
  imports Class_Resolver RW_Buffer
begin

text \<open>
  The serialized form as a specification, independent of heaps, buffers and devices: the trees an
  acyclic Java value unfolds to, the bytes of a tree (the layout described in
  \<^verbatim>\<open>lib/sd/native/object_walker.cxx\<close>), and what it means that an address of a Java heap holds a
  tree. The native serializer and the DPA kernel are both proved to produce these bytes, and the
  deserializer to rebuild the tree from them.
\<close>

section \<open>Values\<close>

datatype jtree =
    JNull
  | JEnum class_info_t u32
  | JObj class_info_t "u8 list" "jtree list"
  | JPrims class_info_t u32 "u8 list"
  | JRefs class_info_t "jtree list"

text \<open>An object carries its body and its members in field order, an array its elements.\<close>

fun depth :: "jtree \<Rightarrow> nat" where
  "depth (JObj ci body ts) = Suc (foldr max (map depth ts) 0)"
| "depth (JRefs ci ts) = Suc (foldr max (map depth ts) 0)"
| "depth _ = 1"

lemma depth_member: "t \<in> set ts \<Longrightarrow> depth t \<le> foldr max (map depth ts) 0"
  by (induction ts) auto

lemma depth_pos [simp]: "depth t \<noteq> 0"
  by (cases t) auto

definition ref_fields :: "class_info_t \<Rightarrow> field_info_t list" where
  "ref_fields ci = filter (\<lambda>f. is_reference_type (fi_type f)) (ci_fields ci)"

definition field_size :: "field_info_t \<Rightarrow> nat" where
  "field_size f = (case type_size (fi_type f) of Inl _ \<Rightarrow> 0 | Inr s \<Rightarrow> unat s)"

text \<open>
  A usable class description: as many fields as announced, each primitive or a reference, in
  order of their offsets without overlap, inside the body.
\<close>

definition ci_wf :: "class_info_t \<Rightarrow> bool" where
  "ci_wf ci \<longleftrightarrow> length (ci_fields ci) = unat (ci_n_non_static_field ci)
     \<and> (\<forall>f \<in> set (ci_fields ci). is_primitive_type (fi_type f) \<or> is_reference_type (fi_type f))
     \<and> sorted_wrt (\<lambda>f g. unat (fi_offset f) + field_size f \<le> unat (fi_offset g)) (ci_fields ci)
     \<and> (\<forall>f \<in> set (ci_fields ci). unat (fi_offset f) + field_size f \<le> unat (object_body_size ci))"

section \<open>Bytes\<close>

text \<open>
  \<open>ser cv eid t u\<close> are the bytes in the buffer after writing \<open>t\<close> behind \<open>u\<close>: padding to 8 bytes,
  id and flag, then the body. A member follows its object; its offset replaces the reference in
  the object's body. A null carries the expected class id. \<open>cv\<close> is the encoding of primitive
  arrays.
\<close>

fun ser :: "(class_info_t \<Rightarrow> u8 list \<Rightarrow> u8 list) \<Rightarrow> class_id_t \<Rightarrow> jtree \<Rightarrow> u8 list \<Rightarrow> u8 list"
and ser_fields :: "(class_info_t \<Rightarrow> u8 list \<Rightarrow> u8 list) \<Rightarrow> nat \<Rightarrow> field_info_t list \<Rightarrow> jtree list \<Rightarrow> u8 list \<Rightarrow> u8 list"
and ser_elems :: "(class_info_t \<Rightarrow> u8 list \<Rightarrow> u8 list) \<Rightarrow> class_id_t \<Rightarrow> jtree list \<Rightarrow> u8 list \<Rightarrow> u8 list" where
  "ser cv eid JNull u = pad8 u @ u16_bytes eid @ u16_bytes NULL_FLAG"
| "ser cv eid (JEnum ci n) u = pad8 u @ u16_bytes (ci_id ci) @ u16_bytes (ENUM_FLAG OR OBJECT_FLAG) @ u32_bytes n"
| "ser cv eid (JObj ci body ts) u =
    ser_fields cv (length (pad8 u) + 8) (ref_fields ci) ts
      (pad8 u @ u16_bytes (ci_id ci) @ u16_bytes OBJECT_FLAG @ replicate 4 0 @ body)"
| "ser cv eid (JPrims ci n elems) u =
    pad8 u @ u16_bytes (ci_id ci) @ u16_bytes ARRAY_FLAG @ u32_bytes n @ cv ci elems"
| "ser cv eid (JRefs ci ts) u =
    ser_elems cv (fi_id (ci_fields ci ! 0)) ts
      (pad8 u @ u16_bytes (ci_id ci) @ u16_bytes ARRAY_FLAG @ u32_bytes (of_nat (length ts)))"
| "ser_fields cv base (f # fs) (t # ts) u =
    ser_fields cv base fs ts
      (patch (ser cv (fi_id f) t u) (base + unat (fi_offset f)) (u32_bytes (of_nat (length (pad8 u)))))"
| "ser_fields cv base _ _ u = u"
| "ser_elems cv eid (t # ts) u = ser_elems cv eid ts (ser cv eid t u)"
| "ser_elems cv eid [] u = u"

definition serialized :: "(class_info_t \<Rightarrow> u8 list \<Rightarrow> u8 list) \<Rightarrow> jtree \<Rightarrow> u8 list" where
  "serialized cv t =
    (let body = ser cv UNREGISTERED_CLASS_ID t (replicate 8 0) in
     patch body 0 (u64_bytes (of_nat (length body))))"

section \<open>Trees in a heap\<close>

definition class_at :: "jvm_args_t \<Rightarrow> mem \<Rightarrow> ClassResolver \<Rightarrow> u64 \<Rightarrow> class_info_t option" where
  "class_at a m r obj = (case klass_pointer a m obj of Inl _ \<Rightarrow> None | Inr k \<Rightarrow> info_by_klass_addr r k)"

text \<open>
  \<open>repr a m r obj eid t\<close>: the heap \<open>m\<close> holds the tree \<open>t\<close> at \<open>obj\<close>, where a reference of class
  \<open>eid\<close> is expected; all its classes are registered in \<open>r\<close>. (The length of a Java array is a
  non-negative 32-bit integer.)
\<close>

fun repr :: "jvm_args_t \<Rightarrow> mem \<Rightarrow> ClassResolver \<Rightarrow> u64 \<Rightarrow> class_id_t \<Rightarrow> jtree \<Rightarrow> bool"
and repr_fields :: "jvm_args_t \<Rightarrow> mem \<Rightarrow> ClassResolver \<Rightarrow> u8 list \<Rightarrow> field_info_t list \<Rightarrow> jtree list \<Rightarrow> bool"
and repr_elems :: "jvm_args_t \<Rightarrow> mem \<Rightarrow> ClassResolver \<Rightarrow> u64 \<Rightarrow> u32 \<Rightarrow> class_id_t \<Rightarrow> nat \<Rightarrow> jtree list \<Rightarrow> bool" where
  "repr a m r obj eid JNull \<longleftrightarrow> obj = 0 \<and> eid \<noteq> UNREGISTERED_CLASS_ID"
| "repr a m r obj eid (JEnum ci n) \<longleftrightarrow> obj \<noteq> 0 \<and> class_at a m r obj = Some ci \<and> is_enum ci \<and> n = enum_ordinal m obj"
| "repr a m r obj eid (JObj ci body ts) \<longleftrightarrow> obj \<noteq> 0 \<and> class_at a m r obj = Some ci \<and> \<not> is_enum ci \<and> is_object ci
     \<and> ci_wf ci \<and> body = rd m (raw obj (object_header_size ci)) (unat (object_body_size ci))
     \<and> repr_fields a m r body (ref_fields ci) ts"
| "repr a m r obj eid (JPrims ci n elems) \<longleftrightarrow> obj \<noteq> 0 \<and> class_at a m r obj = Some ci \<and> \<not> is_enum ci \<and> is_array ci
     \<and> ci_fields ci \<noteq> [] \<and> is_primitive_type (fi_type (ci_fields ci ! 0)) \<and> ci_dim ci = 1
     \<and> n = array_length m obj (array_header_size ci) \<and> unat n < 2 ^ 31
     \<and> (\<exists>s. array_body_size ci n = Inr s \<and> elems = rd m (raw obj (array_header_size ci)) (unat s))"
| "repr a m r obj eid (JRefs ci ts) \<longleftrightarrow> obj \<noteq> 0 \<and> class_at a m r obj = Some ci \<and> \<not> is_enum ci \<and> is_array ci
     \<and> ci_fields ci \<noteq> [] \<and> is_reference_type (fi_type (ci_fields ci ! 0))
     \<and> length ts = unat (array_length m obj (array_header_size ci))
     \<and> repr_elems a m r obj (array_header_size ci) (fi_id (ci_fields ci ! 0)) 0 ts"
| "repr_fields a m r body (f # fs) (t # ts) \<longleftrightarrow>
     (case parse_heap_cptr a (ucast (bytes_u32 (chunk body (unat (fi_offset f)) 4))) of
        Inl _ \<Rightarrow> False | Inr p \<Rightarrow> repr a m r p (fi_id f) t)
     \<and> repr_fields a m r body fs ts"
| "repr_fields a m r body [] [] \<longleftrightarrow> True"
| "repr_fields a m r body _ _ \<longleftrightarrow> False"
| "repr_elems a m r obj hs eid i (t # ts) \<longleftrightarrow>
     (case array_elem_ref a m obj hs (of_nat i) of Inl _ \<Rightarrow> False | Inr p \<Rightarrow> repr a m r p eid t)
     \<and> repr_elems a m r obj hs eid (Suc i) ts"
| "repr_elems a m r obj hs eid i [] \<longleftrightarrow> True"

section \<open>Writing only appends and patches\<close>

lemma patch_length_ge: "length xs \<le> length (patch xs off ys)"
  by (simp add: patch_def)

lemma take_patch_below: "n \<le> off \<Longrightarrow> n \<le> length xs \<Longrightarrow> take n (patch xs off ys) = take n xs"
  by (simp add: patch_def)

lemma pad8_ge: "length u \<le> length (pad8 u)"
  by (simp add: pad8_def)

lemma take_pad8_le: "k \<le> length u \<Longrightarrow> take k (pad8 u) = take k u"
  by (simp add: pad8_def)

lemma ser_length:
  "length (pad8 u) \<le> length (ser cv eid t u)"
  "length u \<le> length (ser_fields cv base fs ts u)"
  "length u \<le> length (ser_elems cv eid ts u)"
proof (induction cv eid t u and cv base fs ts u and cv eid ts u rule: ser_ser_fields_ser_elems.induct)
  case (6 cv base f fs t ts u)
  have "length u \<le> length (ser cv (fi_id f) t u)" using 6(1) pad8_ge le_trans by blast
  then show ?case using 6(2) patch_length_ge le_trans by (metis ser_fields.simps(1))
next
  case (8 cv eid t ts u)
  have "length u \<le> length (ser cv eid t u)" using 8(1) pad8_ge le_trans by blast
  then show ?case using 8(2) by simp
qed auto

lemma ser_length_ge: "length u \<le> length (ser cv eid t u)"
  using ser_length(1) pad8_ge le_trans by blast

lemma ser_prefix:
  "k \<le> length u \<Longrightarrow> take k (ser cv eid t u) = take k u"
  "k \<le> length u \<Longrightarrow> k \<le> base \<Longrightarrow> take k (ser_fields cv base fs ts u) = take k u"
  "k \<le> length u \<Longrightarrow> take k (ser_elems cv eid ts u) = take k u"
proof (induction cv eid t u and cv base fs ts u and cv eid ts u rule: ser_ser_fields_ser_elems.induct)
  case (3 cv eid ci body ts u)
  have "k \<le> length (pad8 u)" using 3(2) pad8_ge le_trans by blast
  then show ?case using 3 by (simp add: take_pad8_le)
next
  case (5 cv eid ci ts u)
  have "k \<le> length (pad8 u)" using 5(2) pad8_ge le_trans by blast
  then show ?case using 5 by (simp add: take_pad8_le)
next
  case (6 cv base f fs t ts u)
  have "k \<le> length (ser cv (fi_id f) t u)" using 6(3) ser_length_ge le_trans by blast
  moreover from this have "k \<le> length (patch (ser cv (fi_id f) t u) (base + unat (fi_offset f)) x)" for x
    using patch_length_ge le_trans by blast
  ultimately show ?case using 6 by (simp add: take_patch_below)
next
  case (8 cv eid t ts u)
  have "k \<le> length (ser cv eid t u)" using 8(3) ser_length_ge le_trans by blast
  then show ?case using 8 by simp
next
  case (1 cv eid u)
  have "k \<le> length (pad8 u)" using 1 pad8_ge le_trans by blast
  then show ?case using 1 by (simp add: take_pad8_le)
next
  case (2 cv eid ci n u)
  have "k \<le> length (pad8 u)" using 2 pad8_ge le_trans by blast
  then show ?case using 2 by (simp add: take_pad8_le)
next
  case (4 cv eid ci n elems u)
  have "k \<le> length (pad8 u)" using 4 pad8_ge le_trans by blast
  then show ?case using 4 by (simp add: take_pad8_le)
qed auto

lemma ser_chunk: "off + n \<le> length u \<Longrightarrow> chunk (ser cv eid t u) off n = chunk u off n"
  by (rule chunk_prefix [OF ser_prefix(1) [OF order_refl]])

lemma ref_field_size: "is_reference_type (fi_type f) \<Longrightarrow> field_size f = 4"
  by (auto simp: field_size_def is_reference_type_iff type_size_def Let_def)

lemma ci_wf_refs:
  assumes "ci_wf ci"
  shows "sorted_wrt (\<lambda>f g. unat (fi_offset f) + 4 \<le> unat (fi_offset g)) (ref_fields ci)"
    "\<forall>f \<in> set (ref_fields ci). unat (fi_offset f) + 4 \<le> unat (object_body_size ci)"
proof -
  have "sorted_wrt (\<lambda>f g. unat (fi_offset f) + field_size f \<le> unat (fi_offset g)) (ref_fields ci)"
    using assms by (auto simp: ci_wf_def ref_fields_def intro: sorted_wrt_filter)
  then show "sorted_wrt (\<lambda>f g. unat (fi_offset f) + 4 \<le> unat (fi_offset g)) (ref_fields ci)"
    by (rule sorted_wrt_mono_rel [rotated]) (auto simp: ref_fields_def ref_field_size)
  show "\<forall>f \<in> set (ref_fields ci). unat (fi_offset f) + 4 \<le> unat (object_body_size ci)"
    using assms by (auto simp: ci_wf_def ref_fields_def dest: bspec simp flip: ref_field_size)
qed

text \<open>The bytes behind a prefix depend on the length of the prefix only.\<close>

definition agree :: "nat \<Rightarrow> 'a list \<Rightarrow> 'a list \<Rightarrow> bool" where
  "agree k u v \<longleftrightarrow> length u = length v \<and> drop k u = drop k v"

lemma agree_drop: "agree k u v \<Longrightarrow> k \<le> a \<or> length u \<le> a \<Longrightarrow> drop a u = drop a v"
  by (auto simp: agree_def) (metis drop_drop le_add_diff_inverse2)

lemma agree_append: "agree k u v \<Longrightarrow> agree k (u @ x) (v @ x)"
  by (simp add: agree_def)

lemma agree_pad8: "agree k u v \<Longrightarrow> agree k (pad8 u) (pad8 v)"
  by (simp add: pad8_def agree_append) (simp add: agree_def)

lemma agree_patch:
  assumes "agree k u v"
  shows "agree k (patch u off x) (patch v off x)"
proof -
  have l: "length u = length v" using assms by (simp add: agree_def)
  let ?a = "k - min off (length u) - length x + (off + length x)"
  have "k \<le> ?a \<or> length u \<le> ?a" by (auto simp: min_def)
  then have "drop ?a u = drop ?a v" by (rule agree_drop [OF assms])
  moreover have "drop k (take off u) = drop k (take off v)" using assms by (simp add: drop_take agree_def)
  ultimately show ?thesis using l by (simp add: agree_def patch_def min.commute)
qed

lemma ser_agree:
  "agree k u v \<Longrightarrow> agree k (ser cv eid t u) (ser cv eid t v)"
  "agree k u v \<Longrightarrow> agree k (ser_fields cv base fs ts u) (ser_fields cv base fs ts v)"
  "agree k u v \<Longrightarrow> agree k (ser_elems cv eid ts u) (ser_elems cv eid ts v)"
proof (induction cv eid t u and cv base fs ts u and cv eid ts u arbitrary: v and v and v rule: ser_ser_fields_ser_elems.induct)
  case (3 cv eid ci body ts u)
  have "length (pad8 u) = length (pad8 v)" using agree_pad8 [OF 3(2)] by (simp add: agree_def)
  then show ?case using 3(1) [OF agree_append [OF agree_pad8 [OF 3(2)]]] by simp
next
  case (6 cv base f fs t ts u)
  have "length (pad8 u) = length (pad8 v)" using agree_pad8 [OF 6(3)] by (simp add: agree_def)
  then show ?case using 6(2) [OF agree_patch [OF 6(1) [OF 6(3)]]] by simp
qed (auto intro: agree_append agree_pad8)

lemma ser_drop: "length u = length v \<Longrightarrow> drop (length u) (ser cv eid t u) = drop (length u) (ser cv eid t v)"
  using ser_agree(1) [of "length u" u v cv eid t] by (simp add: agree_def)

end
