(* ===== verification/Object_Walker.thy ===== *)
theory Object_Walker
  imports Serial_Format
begin

text \<open>
  The native serializer: \<^verbatim>\<open>lib/sd/native/object_walker.cxx\<close> and \<^verbatim>\<open>Context::serialize\<close> of
  \<^verbatim>\<open>lib/sd/native/sd.cxx\<close>. The recursion of \<^verbatim>\<open>walk\<close> through the object graph is bounded by a
  number of nested calls (the stack); the theorems say how many are enough. The helpers take the
  recursive call as an argument.
\<close>

section \<open>The walker\<close>

text \<open>\<open>w_to_utf8\<close> stands for \<^verbatim>\<open>simdutf::convert_utf16le_to_utf8\<close>.\<close>

record wenv =
  w_args :: jvm_args_t
  w_heap :: mem
  w_resolver :: ClassResolver
  w_enable_utf16_to_utf8 :: bool
  w_to_utf8 :: "u8 list \<Rightarrow> u8 list"

type_synonym walk_fn = "u64 \<Rightarrow> class_id_t \<Rightarrow> RWBuffer \<Rightarrow> (u32 \<times> RWBuffer) result"

primrec walk_fields :: "walk_fn \<Rightarrow> wenv \<Rightarrow> class_info_t \<Rightarrow> nat \<Rightarrow> nat list \<Rightarrow> RWBuffer \<Rightarrow> RWBuffer result" where
  "walk_fields wk E info obj_base [] b = Inr b"
| "walk_fields wk E info obj_base (i # is) b =
    bnd (get_field info i) (\<lambda>f.
    if is_primitive_type (fi_type f) then walk_fields wk E info obj_base is b
    else
      bnd (check (is_reference_type (fi_type f)) Assert_fail) (\<lambda>_.
      let f_offset = obj_base + unat (fi_offset f) in
      bnd (get_at b 4 f_offset) (\<lambda>cptr.
      bnd (parse_heap_cptr (w_args E) (ucast (bytes_u32 cptr))) (\<lambda>member.
      bnd (wk member (fi_id f) b) (\<lambda>(member_offset, b).
      bnd (put_at b (u32_bytes member_offset) f_offset) (\<lambda>b.
        walk_fields wk E info obj_base is b))))))"

definition do_walk_object :: "walk_fn \<Rightarrow> wenv \<Rightarrow> u64 \<Rightarrow> class_info_t \<Rightarrow> RWBuffer \<Rightarrow> RWBuffer result" where
  "do_walk_object wk E obj info b =
    bnd (check (rw_off b mod 8 = 0) Assert_fail) (\<lambda>_.
    bnd (put b (u16_bytes (ci_id info))) (\<lambda>b.
    bnd (put b (u16_bytes OBJECT_FLAG)) (\<lambda>b.
    bnd (fill_next_align_8 b) (\<lambda>b.
    let obj_base = rw_off b in
    bnd (put b (rd (w_heap E) (raw obj (object_header_size info)) (unat (object_body_size info)))) (\<lambda>b.
      walk_fields wk E info obj_base [0..<unat (ci_n_non_static_field info)] b)))))"

primrec walk_elems :: "walk_fn \<Rightarrow> wenv \<Rightarrow> u64 \<Rightarrow> class_info_t \<Rightarrow> class_id_t \<Rightarrow> nat list \<Rightarrow> RWBuffer \<Rightarrow> RWBuffer result" where
  "walk_elems wk E obj info elem_id [] b = Inr b"
| "walk_elems wk E obj info elem_id (i # is) b =
    bnd (array_elem_ref (w_args E) (w_heap E) obj (array_header_size info) (of_nat i)) (\<lambda>elem_obj.
    bnd (wk elem_obj elem_id b) (\<lambda>(elem_off, b). walk_elems wk E obj info elem_id is b))"

definition cvt_utf16_to_utf8 :: "wenv \<Rightarrow> u64 \<Rightarrow> class_info_t \<Rightarrow> u32 \<Rightarrow> RWBuffer \<Rightarrow> RWBuffer result" where
  "cvt_utf16_to_utf8 E obj info len b =
    bnd (array_body_size info len) (\<lambda>origin_byte_size.
    bnd (put b (u32_bytes origin_byte_size)) (\<lambda>b.
    let u8_data = w_to_utf8 E (rd (w_heap E) (raw obj (array_header_size info)) (2 * unat len));
        actual_byte_size = (of_nat (length u8_data) :: u32) in
    bnd (put_at b u8_data (rw_off b + 4)) (\<lambda>b.
    bnd (put b (u32_bytes actual_byte_size)) (\<lambda>b.
      Inr (skip b (unat actual_byte_size))))))"

definition do_walk_array :: "walk_fn \<Rightarrow> wenv \<Rightarrow> u64 \<Rightarrow> class_info_t \<Rightarrow> RWBuffer \<Rightarrow> RWBuffer result" where
  "do_walk_array wk E obj info b =
    (let len = array_length (w_heap E) obj (array_header_size info) in
    bnd (check (rw_off b mod 8 = 0) Assert_fail) (\<lambda>_.
    bnd (put b (u16_bytes (ci_id info))) (\<lambda>b.
    bnd (put b (u16_bytes ARRAY_FLAG)) (\<lambda>b.
    bnd (put b (u32_bytes len)) (\<lambda>b.
    bnd (fill_next_align_8 b) (\<lambda>b.
    bnd (get_field info 0) (\<lambda>elem.
    if is_reference_type (fi_type elem) then walk_elems wk E obj info (fi_id elem) [0..<unat len] b
    else if is_primitive_type (fi_type elem) then
      bnd (check (ci_dim info = 1) Assert_fail) (\<lambda>_.
      if fi_type elem = T_CHAR \<and> w_enable_utf16_to_utf8 E then cvt_utf16_to_utf8 E obj info len b
      else bnd (array_body_size info len) (\<lambda>n.
        put b (rd (w_heap E) (raw obj (array_header_size info)) (unat n))))
    else Inl Unreachable)))))))"

primrec walk :: "nat \<Rightarrow> wenv \<Rightarrow> walk_fn" where
  "walk 0 E obj expected_id b = Inl Out_of_fuel"
| "walk (Suc n) E obj expected_id b =
    bnd (fill_next_align_8 b) (\<lambda>b.
    let base = rw_off b in
    if obj = 0 then
      bnd (check (expected_id \<noteq> UNREGISTERED_CLASS_ID) Assert_fail) (\<lambda>_.
      bnd (put b (u16_bytes expected_id)) (\<lambda>b.
      bnd (put b (u16_bytes NULL_FLAG)) (\<lambda>b.
        Inr (of_nat base, b))))
    else
      bnd (klass_pointer (w_args E) (w_heap E) obj) (\<lambda>klass.
      let q = get_class_info (w_resolver E) klass in
      bnd (check (q \<noteq> 0) Assert_fail) (\<lambda>_.
      bnd (info_at (w_resolver E) q) (\<lambda>info.
      bnd (if is_enum info then
             bnd (put b (u16_bytes (ci_id info))) (\<lambda>b.
             bnd (put b (u16_bytes (ENUM_FLAG OR OBJECT_FLAG))) (\<lambda>b.
             bnd (put b (u32_bytes (enum_ordinal (w_heap E) obj))) (\<lambda>b.
             bnd (check (rw_off b mod 8 = 0) Assert_fail) (\<lambda>_. Inr b))))
           else if is_object info then do_walk_object (walk n E) E obj info b
           else if is_array info then do_walk_array (walk n E) E obj info b
           else Inl Unreachable) (\<lambda>b.
        Inr (of_nat base, b))))))"

text \<open>\<^verbatim>\<open>ObjectWalker::walk\<close>, the entry: the total length and the buffer.\<close>

definition ObjectWalker_walk :: "nat \<Rightarrow> wenv \<Rightarrow> u64 \<Rightarrow> u8 list \<Rightarrow> (nat \<times> u8 list) result" where
  "ObjectWalker_walk n E obj out =
    bnd (walk n E obj UNREGISTERED_CLASS_ID (skip (rw_new out) OBJECT_DATA_OFFSET)) (\<lambda>(_, b).
    let total_length = rw_off b in
    bnd (put_at b (u64_bytes (of_nat total_length)) 0) (\<lambda>b.
      Inr (total_length, rw_b b)))"

text \<open>\<^verbatim>\<open>Context::serialize\<close>: the contents of the byte array it returns.\<close>

definition Context_serialize :: "nat \<Rightarrow> wenv \<Rightarrow> u64 \<Rightarrow> u8 list \<Rightarrow> u8 list result" where
  "Context_serialize n E obj out_buffer =
    bnd (ObjectWalker_walk n E obj out_buffer) (\<lambda>(total_length, out_buffer).
      Inr (take total_length out_buffer))"

section \<open>The walker writes the specified bytes\<close>

text \<open>The encoding of primitive arrays the options select.\<close>

definition prims_encoding :: "wenv \<Rightarrow> class_info_t \<Rightarrow> u8 list \<Rightarrow> u8 list" where
  "prims_encoding E ci elems =
    (if fi_type (ci_fields ci ! 0) = T_CHAR \<and> w_enable_utf16_to_utf8 E
     then u32_bytes (of_nat (length elems)) @ u32_bytes (of_nat (length (w_to_utf8 E elems))) @ w_to_utf8 E elems
     else elems)"

abbreviation represents :: "wenv \<Rightarrow> u64 \<Rightarrow> class_id_t \<Rightarrow> jtree \<Rightarrow> bool" where
  "represents E \<equiv> repr (w_args E) (w_heap E) (w_resolver E)"

text \<open>What the loops need of the recursive call, for trees of depth at most \<open>n\<close>.\<close>

definition walks_up_to :: "nat \<Rightarrow> wenv \<Rightarrow> walk_fn \<Rightarrow> bool" where
  "walks_up_to n E wk \<longleftrightarrow> (\<forall>t obj eid b N u. depth t \<le> n \<longrightarrow> represents E obj eid t \<longrightarrow> holds b N u \<longrightarrow> N < 2 ^ 32 \<longrightarrow>
     length (ser (prims_encoding E) eid t u) \<le> N \<longrightarrow>
     (\<exists>b'. wk obj eid b = Inr (of_nat (length (pad8 u)), b') \<and> holds b' N (ser (prims_encoding E) eid t u)))"

lemma walks_up_toD:
  assumes "walks_up_to n E wk" "depth t \<le> n" "represents E obj eid t" "holds b N u" "N < 2 ^ 32"
    "length (ser (prims_encoding E) eid t u) \<le> N"
  obtains b' where "wk obj eid b = Inr (of_nat (length (pad8 u)), b')" "holds b' N (ser (prims_encoding E) eid t u)"
  using assms unfolding walks_up_to_def by blast

lemma walk_fields_ok:
  assumes wk: "walks_up_to n E wk"
    and js: "\<forall>i \<in> set js. i < length (ci_fields ci)
      \<and> (is_primitive_type (fi_type (ci_fields ci ! i)) \<or> is_reference_type (fi_type (ci_fields ci ! i)))"
  defines "refs \<equiv> \<lambda>js. filter (\<lambda>f. is_reference_type (fi_type f)) (map ((!) (ci_fields ci)) js)"
  assumes "repr_fields (w_args E) (w_heap E) (w_resolver E) body (refs js) ts" "\<forall>t \<in> set ts. depth t \<le> n"
    and "sorted_wrt (\<lambda>f g. unat (fi_offset f) + 4 \<le> unat (fi_offset g)) (refs js)"
    and "\<forall>f \<in> set (refs js). base + unat (fi_offset f) + 4 \<le> length u
      \<and> chunk u (base + unat (fi_offset f)) 4 = chunk body (unat (fi_offset f)) 4"
    and "holds b N u" "length (ser_fields (prims_encoding E) base (refs js) ts u) \<le> N"
    and N32: "N < 2 ^ 32"
  shows "\<exists>b'. walk_fields wk E ci base js b = Inr b' \<and> holds b' N (ser_fields (prims_encoding E) base (refs js) ts u)"
  using assms(2,4-9)
proof (induction js arbitrary: ts u b)
  case Nil
  then show ?case by (cases ts) (simp_all add: refs_def)
next
  case (Cons i js)
  let ?f = "ci_fields ci ! i" and ?cv = "prims_encoding E"
  let ?o = "unat (fi_offset ?f)"
  have i: "i < length (ci_fields ci)" using Cons.prems(1) by simp
  show ?case
  proof (cases "is_primitive_type (fi_type ?f)")
    case True
    then have r: "refs (i # js) = refs js" using prim_not_ref by (auto simp: refs_def)
    have "\<exists>b'. walk_fields wk E ci base js b = Inr b' \<and> holds b' N (ser_fields ?cv base (refs js) ts u)"
      using Cons.prems by (intro Cons.IH) (simp_all add: r)
    then show ?thesis using True i by (simp add: r get_field_def)
  next
    case False
    then have ref: "is_reference_type (fi_type ?f)" using Cons.prems(1) by auto
    then have r: "refs (i # js) = ?f # refs js" by (simp add: refs_def)
    from Cons.prems(2) r obtain t ts' where ts: "ts = t # ts'" by (cases ts) auto
    from Cons.prems(2) obtain m where
      m: "parse_heap_cptr (w_args E) (ucast (bytes_u32 (chunk body ?o 4))) = Inr m" "represents E m (fi_id ?f) t"
      and rest: "repr_fields (w_args E) (w_heap E) (w_resolver E) body (refs js) ts'"
      by (auto simp: r ts split: sum.splits)
    have at: "base + ?o + 4 \<le> length u" "chunk u (base + ?o) 4 = chunk body ?o 4" using Cons.prems(5) by (simp_all add: r)
    let ?v = "ser ?cv (fi_id ?f) t u"
    let ?w = "patch ?v (base + ?o) (u32_bytes (of_nat (length (pad8 u))))"
    have lv: "length u \<le> length ?v" by (rule ser_length_ge)
    have lw: "length ?w = length ?v" using at(1) lv by simp
    have "length ?w \<le> length (ser_fields ?cv base (refs js) ts' ?w)" by (rule ser_length(2))
    then have N: "length ?v \<le> N" using Cons.prems(7) lw by (simp add: r ts)
    obtain b1 where b1: "wk m (fi_id ?f) b = Inr (of_nat (length (pad8 u)), b1)" "holds b1 N ?v"
      by (rule walks_up_toD [OF wk _ m(2) Cons.prems(6) N32 N]) (use Cons.prems(3) ts in auto)
    obtain b2 where b2: "put_at b1 (u32_bytes (of_nat (length (pad8 u)))) (base + ?o) = Inr b2" "holds b2 N ?w"
      using holds_put_at [OF b1(2), of "base + ?o" "u32_bytes (of_nat (length (pad8 u)))"] at(1) lv by auto
    have sorted: "\<forall>g \<in> set (refs js). ?o + 4 \<le> unat (fi_offset g)" using Cons.prems(4) by (simp add: r)
    have keep: "\<forall>g \<in> set (refs js). base + unat (fi_offset g) + 4 \<le> length ?w
      \<and> chunk ?w (base + unat (fi_offset g)) 4 = chunk body (unat (fi_offset g)) 4"
    proof
      fix g
      assume g: "g \<in> set (refs js)"
      then have gb: "base + unat (fi_offset g) + 4 \<le> length u" "chunk u (base + unat (fi_offset g)) 4 = chunk body (unat (fi_offset g)) 4"
        using Cons.prems(5) by (simp_all add: r)
      have "chunk ?w (base + unat (fi_offset g)) 4 = chunk ?v (base + unat (fi_offset g)) 4"
        using sorted g at(1) lv by (intro chunk_patch_after) auto
      then show "base + unat (fi_offset g) + 4 \<le> length ?w
        \<and> chunk ?w (base + unat (fi_offset g)) 4 = chunk body (unat (fi_offset g)) 4"
        using gb lv lw ser_chunk by simp
    qed
    have "\<exists>b'. walk_fields wk E ci base js b2 = Inr b' \<and> holds b' N (ser_fields ?cv base (refs js) ts' ?w)"
    proof (rule Cons.IH [OF _ rest _ _ keep b2(2)])
      show "sorted_wrt (\<lambda>f g. unat (fi_offset f) + 4 \<le> unat (fi_offset g)) (refs js)" using Cons.prems(4) by (simp add: r)
      show "length (ser_fields ?cv base (refs js) ts' ?w) \<le> N" using Cons.prems(7) by (simp add: r ts)
    qed (use Cons.prems(1,3) ts in auto)
    moreover have "get_at b 4 (base + ?o) = Inr (chunk body ?o 4)"
      using holds_get_at [OF Cons.prems(6) at(1)] at(2) by simp
    ultimately show ?thesis
      using False i ref m(1) b1(1) b2(1) by (simp add: get_field_def r ts)
  qed
qed

lemma walk_elems_ok:
  assumes wk: "walks_up_to n E wk"
    and "repr_elems (w_args E) (w_heap E) (w_resolver E) obj (array_header_size ci) eid i ts" "\<forall>t \<in> set ts. depth t \<le> n"
    and "holds b N u" "length (ser_elems (prims_encoding E) eid ts u) \<le> N"
    and N32: "N < 2 ^ 32"
  shows "\<exists>b'. walk_elems wk E obj ci eid [i..<i + length ts] b = Inr b' \<and> holds b' N (ser_elems (prims_encoding E) eid ts u)"
  using assms(2-5)
proof (induction ts arbitrary: i u b)
  case Nil
  then show ?case by simp
next
  case (Cons t ts)
  let ?v = "ser (prims_encoding E) eid t u"
  from Cons.prems(1) obtain m where
    m: "array_elem_ref (w_args E) (w_heap E) obj (array_header_size ci) (of_nat i) = Inr m" "represents E m eid t"
    and rest: "repr_elems (w_args E) (w_heap E) (w_resolver E) obj (array_header_size ci) eid (Suc i) ts"
    by (auto split: sum.splits)
  have "length ?v \<le> N"
    using Cons.prems(4) ser_length(3) [where u = ?v and cv = "prims_encoding E" and eid = eid and ts = ts] by simp
  then obtain b1 where b1: "wk m eid b = Inr (of_nat (length (pad8 u)), b1)" "holds b1 N ?v"
    by (rule walks_up_toD [OF wk _ m(2) Cons.prems(3) N32, rotated]) (use Cons.prems(2) in auto)
  have "\<exists>b'. walk_elems wk E obj ci eid [Suc i..<Suc i + length ts] b1 = Inr b' \<and> holds b' N (ser_elems (prims_encoding E) eid ts ?v)"
    using Cons.prems(2,4) by (intro Cons.IH [OF rest _ b1(2)]) simp_all
  moreover have "[i..<i + length (t # ts)] = i # [Suc i..<Suc i + length ts]" by (simp add: upt_conv_Cons del: upt_Suc)
  ultimately show ?case using m(1) b1(1) by simp
qed

lemma pad8_header: "length u mod 8 = 0 \<Longrightarrow> length h = 4 \<Longrightarrow> pad8 (u @ h) = u @ h @ replicate 4 0"
proof -
  assume u: "length u mod 8 = 0" and h: "length h = 4"
  then obtain k where k: "length u = 8 * k" by (auto simp: mod_eq_0_iff_dvd)
  have "upper_align (4 + 8 * k) 8 = upper_align 4 8 + 8 * k" by (rule upper_align_add_8)
  also have "upper_align 4 8 = (8 :: nat)" by (simp add: upper_align_def)
  finally show ?thesis using k h by (simp add: pad8_def add.commute)
qed

lemma upper_align_8_mod [simp]: "upper_align n 8 mod 8 = 0" for n :: nat
  by (rule upper_align_nat(1)) simp

lemma do_walk_object_ok:
  assumes wk: "walks_up_to n E wk" and rep: "represents E obj eid (JObj ci body ts)"
    and d: "\<forall>t \<in> set ts. depth t \<le> n" and b: "holds b N (pad8 u)"
    and N32: "N < 2 ^ 32" and len: "length (ser (prims_encoding E) eid (JObj ci body ts) u) \<le> N"
  shows "\<exists>b'. do_walk_object wk E obj ci b = Inr b' \<and> holds b' N (ser (prims_encoding E) eid (JObj ci body ts) u)"
proof -
  let ?cv = "prims_encoding E"
  let ?h = "u16_bytes (ci_id ci) @ u16_bytes OBJECT_FLAG"
  let ?base = "length (pad8 u) + 8"
  let ?v = "pad8 u @ u16_bytes (ci_id ci) @ u16_bytes OBJECT_FLAG @ replicate 4 0 @ body"
  have wf: "ci_wf ci" and body: "body = rd (w_heap E) (raw obj (object_header_size ci)) (unat (object_body_size ci))"
    and mem: "repr_fields (w_args E) (w_heap E) (w_resolver E) body (ref_fields ci) ts"
    using rep by auto
  have "length ?v \<le> length (ser_fields ?cv ?base (ref_fields ci) ts ?v)" by (rule ser_length(2))
  then have vN: "length ?v \<le> N" using len by simp
  obtain b1 where b1: "put b (u16_bytes (ci_id ci)) = Inr b1" "holds b1 N (pad8 u @ u16_bytes (ci_id ci))"
    using holds_put [OF b, of "u16_bytes (ci_id ci)"] vN by auto
  obtain b2 where b2: "put b1 (u16_bytes OBJECT_FLAG) = Inr b2" "holds b2 N (pad8 u @ ?h)"
    using holds_put [OF b1(2), of "u16_bytes OBJECT_FLAG"] vN by auto
  have p: "pad8 (pad8 u @ ?h) = pad8 u @ ?h @ replicate 4 0" by (rule pad8_header) simp_all
  obtain b3 where b3: "fill_next_align_8 b2 = Inr b3" "holds b3 N (pad8 u @ ?h @ replicate 4 0)"
    using holds_fill [OF b2(2)] vN unfolding p by auto
  obtain b4 where b4: "put b3 body = Inr b4" "holds b4 N ?v"
    using holds_put [OF b3(2), of body] vN by auto
  have bodylen: "length body = unat (object_body_size ci)" by (simp add: body)
  have refs: "filter (\<lambda>f. is_reference_type (fi_type f)) (map ((!) (ci_fields ci)) [0..<unat (ci_n_non_static_field ci)]) = ref_fields ci"
  proof -
    have "unat (ci_n_non_static_field ci) = length (ci_fields ci)" using wf by (simp add: ci_wf_def)
    then show ?thesis by (simp add: ref_fields_def map_nth)
  qed
  have "\<exists>b'. walk_fields wk E ci ?base [0..<unat (ci_n_non_static_field ci)] b4 = Inr b'
      \<and> holds b' N (ser_fields ?cv ?base (ref_fields ci) ts ?v)"
    unfolding refs [symmetric]
  proof (rule walk_fields_ok [OF wk, where body = body])
    show "\<forall>i \<in> set [0..<unat (ci_n_non_static_field ci)]. i < length (ci_fields ci)
        \<and> (is_primitive_type (fi_type (ci_fields ci ! i)) \<or> is_reference_type (fi_type (ci_fields ci ! i)))"
      using wf by (auto simp: ci_wf_def)
    show "sorted_wrt (\<lambda>f g. unat (fi_offset f) + 4 \<le> unat (fi_offset g))
        (filter (\<lambda>f. is_reference_type (fi_type f)) (map ((!) (ci_fields ci)) [0..<unat (ci_n_non_static_field ci)]))"
      unfolding refs by (rule ci_wf_refs(1) [OF wf])
    show "\<forall>f \<in> set (filter (\<lambda>f. is_reference_type (fi_type f)) (map ((!) (ci_fields ci)) [0..<unat (ci_n_non_static_field ci)])).
        ?base + unat (fi_offset f) + 4 \<le> length ?v \<and> chunk ?v (?base + unat (fi_offset f)) 4 = chunk body (unat (fi_offset f)) 4"
      unfolding refs
    proof
      fix f
      assume "f \<in> set (ref_fields ci)"
      then have "unat (fi_offset f) + 4 \<le> length body" using ci_wf_refs(2) [OF wf] bodylen by simp
      moreover have "?v = (pad8 u @ ?h @ replicate 4 0) @ body" by simp
      ultimately show "?base + unat (fi_offset f) + 4 \<le> length ?v
          \<and> chunk ?v (?base + unat (fi_offset f)) 4 = chunk body (unat (fi_offset f)) 4"
        by (simp add: chunk_append_right)
    qed
  qed (use mem d b4(2) N32 len in \<open>simp_all add: refs\<close>)
  then show ?thesis
    using b1(1) b2(1) b3(1) b4(1) holds_off [OF b] holds_off [OF b3(2)]
    by (simp add: do_walk_object_def body upper_align_nat(1))
qed

lemma holds_skip_patched:
  assumes "holds b N u" "length u + 4 + length d \<le> N" "put_at b d (rw_off b + 4) = Inr b1" "put b1 x = Inr b2" "length x = 4"
  shows "holds (skip b2 (length d)) N (u @ x @ d)"
proof -
  have u: "rw_off b = length u" "take (length u) (rw_b b) = u" "length (rw_b b) = N" using assms(1) by (simp_all add: holds_def limit_def)
  have b2: "b2 = \<lparr>rw_b = patch (patch (rw_b b) (length u + 4) d) (length u) x, rw_off = length u + 4\<rparr>"
    using assms u by (auto simp: put_at_def put_def split: if_splits)
  have "take (length u + 4 + length d) (patch (patch (rw_b b) (length u + 4) d) (length u) x) = u @ x @ d"
  proof (rule nth_equalityI)
    fix i
    assume "i < length (take (length u + 4 + length d) (patch (patch (rw_b b) (length u + 4) d) (length u) x))"
    then have i: "i < length u + 4 + length d" by simp
    then have "rw_b b ! i = u ! i" if "i < length u" using u(2) that by (metis nth_take)
    then show "take (length u + 4 + length d) (patch (patch (rw_b b) (length u + 4) d) (length u) x) ! i = (u @ x @ d) ! i"
      using i assms(2,5) u by (auto simp: nth_patch nth_append)
  qed (use assms u in simp)
  then show ?thesis using assms(2,5) u by (simp add: holds_def limit_def skip_def b2 ac_simps)
qed

lemma char_array_body_size:
  assumes "ci_fields ci \<noteq> []" "fi_type (ci_fields ci ! 0) = T_CHAR" "array_body_size ci n = Inr s" "unat n < 2 ^ 31"
  shows "unat s = 2 * unat n"
proof -
  have "s = n * 2" using assms by (auto simp: array_body_size_def get_field_def type_size_def Let_def)
  then show ?thesis using assms(4) by (simp add: unat_word_ariths)
qed

lemma cvt_utf16_to_utf8_ok:
  assumes "represents E obj eid (JPrims ci n elems)" "fi_type (ci_fields ci ! 0) = T_CHAR" "w_enable_utf16_to_utf8 E"
    and b: "holds b N u" and N: "N < 2 ^ 32" and len: "length (u @ prims_encoding E ci elems) \<le> N"
  shows "\<exists>b'. cvt_utf16_to_utf8 E obj ci n b = Inr b' \<and> holds b' N (u @ prims_encoding E ci elems)"
proof -
  from assms(1) obtain s where s: "array_body_size ci n = Inr s" "elems = rd (w_heap E) (raw obj (array_header_size ci)) (unat s)"
    and ne: "ci_fields ci \<noteq> []" "unat n < 2 ^ 31" by auto
  have sn: "unat s = 2 * unat n" by (rule char_array_body_size [OF ne(1) assms(2) s(1) ne(2)])
  let ?d = "w_to_utf8 E elems"
  have enc: "prims_encoding E ci elems = u32_bytes s @ u32_bytes (of_nat (length ?d)) @ ?d"
    using assms(2,3) s(2) by (simp add: prims_encoding_def)
  obtain b1 where b1: "put b (u32_bytes s) = Inr b1" "holds b1 N (u @ u32_bytes s)"
    using holds_put [OF b, of "u32_bytes s"] len enc by auto
  have l: "length (u @ u32_bytes s) + 4 + length ?d \<le> N" using len by (simp add: enc)
  then obtain b2 where b2: "put_at b1 ?d (rw_off b1 + 4) = Inr b2"
    using b1(2) by (auto simp: put_at_def holds_def limit_def)
  obtain b3 where b3: "put b2 (u32_bytes (of_nat (length ?d))) = Inr b3"
    using b1(2) b2 l by (auto simp: put_at_def put_def holds_def limit_def split: if_splits)
  have "holds (skip b3 (length ?d)) N ((u @ u32_bytes s) @ u32_bytes (of_nat (length ?d)) @ ?d)"
    by (rule holds_skip_patched [OF b1(2) l b2 b3]) simp
  moreover have "unat (of_nat (length ?d) :: u32) = length ?d" using l N by (simp add: unat_of_nat)
  moreover have "rd (w_heap E) (raw obj (array_header_size ci)) (2 * unat n) = elems" using s(2) sn by simp
  ultimately show ?thesis
    unfolding enc using s(1) b1(1) b2 b3 by (simp add: cvt_utf16_to_utf8_def Let_def)
qed

lemma walk_array_header:
  assumes b: "holds b N (pad8 u)" and len: "length (pad8 u) + 8 \<le> N"
  shows "\<exists>b1 b2 b3. put b (u16_bytes x) = Inr b1 \<and> put b1 (u16_bytes ARRAY_FLAG) = Inr b2 \<and> put b2 (u32_bytes n) = Inr b3
    \<and> fill_next_align_8 b3 = Inr b3 \<and> holds b3 N (pad8 u @ u16_bytes x @ u16_bytes ARRAY_FLAG @ u32_bytes n)"
proof -
  obtain b1 where b1: "put b (u16_bytes x) = Inr b1" "holds b1 N (pad8 u @ u16_bytes x)"
    using holds_put [OF b, of "u16_bytes x"] len by auto
  obtain b2 where b2: "put b1 (u16_bytes ARRAY_FLAG) = Inr b2" "holds b2 N (pad8 u @ u16_bytes x @ u16_bytes ARRAY_FLAG)"
    using holds_put [OF b1(2), of "u16_bytes ARRAY_FLAG"] len by auto
  obtain b3 where b3: "put b2 (u32_bytes n) = Inr b3" "holds b3 N (pad8 u @ u16_bytes x @ u16_bytes ARRAY_FLAG @ u32_bytes n)"
    using holds_put [OF b2(2), of "u32_bytes n"] len by auto
  have "(upper_align (length u) 8 + 8) mod 8 = 0" by (simp del: dvd_imp_mod_0 mod_0_imp_dvd)
  then have "upper_align (upper_align (length u) 8 + 8) 8 = upper_align (length u) 8 + 8" by (rule upper_align_8_aligned)
  then have "fill_next_align_8 b3 = Inr b3"
    using holds_off [OF b3(2)] by (simp add: fill_next_align_8_def)
  then show ?thesis using b1(1) b2(1) b3 by blast
qed

lemma do_walk_refs_ok:
  assumes wk: "walks_up_to n E wk" and rep: "represents E obj eid (JRefs ci ts)"
    and d: "\<forall>t \<in> set ts. depth t \<le> n" and b: "holds b N (pad8 u)"
    and N32: "N < 2 ^ 32" and len: "length (ser (prims_encoding E) eid (JRefs ci ts) u) \<le> N"
  shows "\<exists>b'. do_walk_array wk E obj ci b = Inr b' \<and> holds b' N (ser (prims_encoding E) eid (JRefs ci ts) u)"
proof -
  let ?n = "array_length (w_heap E) obj (array_header_size ci)"
  let ?v = "pad8 u @ u16_bytes (ci_id ci) @ u16_bytes ARRAY_FLAG @ u32_bytes ?n"
  have n: "of_nat (length ts) = ?n" using rep by simp
  have f: "get_field ci 0 = Inr (ci_fields ci ! 0)" "is_reference_type (fi_type (ci_fields ci ! 0))"
    using rep by (auto simp: get_field_def)
  have "length ?v \<le> length (ser_elems (prims_encoding E) (fi_id (ci_fields ci ! 0)) ts ?v)" by (rule ser_length(3))
  then have "length (pad8 u) + 8 \<le> N" using len by (simp add: n)
  from walk_array_header [OF b this, of "ci_id ci" ?n] obtain b1 b2 b3 where
    h: "put b (u16_bytes (ci_id ci)) = Inr b1" "put b1 (u16_bytes ARRAY_FLAG) = Inr b2" "put b2 (u32_bytes ?n) = Inr b3"
      "fill_next_align_8 b3 = Inr b3" and b3: "holds b3 N ?v" by blast
  have "\<exists>b'. walk_elems wk E obj ci (fi_id (ci_fields ci ! 0)) [0..<0 + length ts] b3 = Inr b'
      \<and> holds b' N (ser_elems (prims_encoding E) (fi_id (ci_fields ci ! 0)) ts ?v)"
    using rep d len n by (intro walk_elems_ok [OF wk _ _ b3 _ N32]) auto
  moreover have "unat ?n = length ts" using rep by simp
  ultimately show ?thesis
    using h f holds_off [OF b] by (simp add: do_walk_array_def Let_def n del: repr.simps)
qed

lemma do_walk_prims_ok:
  assumes rep: "represents E obj eid (JPrims ci n elems)" and b: "holds b N (pad8 u)"
    and N32: "N < 2 ^ 32" and len: "length (ser (prims_encoding E) eid (JPrims ci n elems) u) \<le> N"
  shows "\<exists>b'. do_walk_array wk E obj ci b = Inr b' \<and> holds b' N (ser (prims_encoding E) eid (JPrims ci n elems) u)"
proof -
  let ?v = "pad8 u @ u16_bytes (ci_id ci) @ u16_bytes ARRAY_FLAG @ u32_bytes n"
  have n: "array_length (w_heap E) obj (array_header_size ci) = n" using rep by simp
  have f: "get_field ci 0 = Inr (ci_fields ci ! 0)" "is_primitive_type (fi_type (ci_fields ci ! 0))" "ci_dim ci = 1"
    using rep by (auto simp: get_field_def)
  obtain s where s: "array_body_size ci n = Inr s" "elems = rd (w_heap E) (raw obj (array_header_size ci)) (unat s)"
    using rep by auto
  have "length (pad8 u) + 8 \<le> N" using len by simp
  from walk_array_header [OF b this, of "ci_id ci" n] obtain b1 b2 b3 where
    h: "put b (u16_bytes (ci_id ci)) = Inr b1" "put b1 (u16_bytes ARRAY_FLAG) = Inr b2" "put b2 (u32_bytes n) = Inr b3"
      "fill_next_align_8 b3 = Inr b3" and b3: "holds b3 N ?v" by blast
  have lv: "length (?v @ prims_encoding E ci elems) \<le> N" using len by simp
  have "\<exists>b'. (if fi_type (ci_fields ci ! 0) = T_CHAR \<and> w_enable_utf16_to_utf8 E then cvt_utf16_to_utf8 E obj ci n b3
      else put b3 elems) = Inr b' \<and> holds b' N (?v @ prims_encoding E ci elems)"
  proof (cases "fi_type (ci_fields ci ! 0) = T_CHAR \<and> w_enable_utf16_to_utf8 E")
    case True
    then show ?thesis using cvt_utf16_to_utf8_ok [OF rep _ _ b3 N32 lv] by (simp del: repr.simps)
  next
    case False
    then have "prims_encoding E ci elems = elems" by (auto simp: prims_encoding_def)
    then show ?thesis using False holds_put [OF b3, of elems] lv by auto
  qed
  then show ?thesis
    using h f s n holds_off [OF b] prim_not_ref [OF f(2)]
    by (cases "fi_type (ci_fields ci ! 0) = T_CHAR \<and> w_enable_utf16_to_utf8 E")
       (auto simp: do_walk_array_def Let_def simp del: repr.simps)
qed

lemma class_at_lookup:
  assumes "class_at a m r obj = Some ci"
  obtains k where "klass_pointer a m obj = Inr k" "get_class_info r k \<noteq> 0" "info_at r (get_class_info r k) = Inr ci"
  using assms that by (auto simp: class_at_def info_by_klass_addr_def info_at_def Let_def split: sum.splits if_splits)

lemma walk_refines_ser: "walks_up_to n E (walk n E)"
proof (induction n)
  case 0
  then show ?case by (simp add: walks_up_to_def)
next
  case (Suc n)
  show ?case
    unfolding walks_up_to_def
  proof (intro allI impI)
    fix t obj eid b N and u :: "u8 list"
    let ?cv = "prims_encoding E"
    assume d: "depth t \<le> Suc n" and rep: "represents E obj eid t" and b: "holds b N u" and N32: "N < 2 ^ 32"
      and len: "length (ser ?cv eid t u) \<le> N"
    have "length (pad8 u) \<le> N" using ser_length(1) len le_trans by blast
    then obtain b1 where b1: "fill_next_align_8 b = Inr b1" "holds b1 N (pad8 u)" using holds_fill [OF b] by blast
    note off = holds_off [OF b1(2)]
    show "\<exists>b'. walk (Suc n) E obj eid b = Inr (of_nat (length (pad8 u)), b') \<and> holds b' N (ser ?cv eid t u)"
    proof (cases t)
      case JNull
      obtain b2 where b2: "put b1 (u16_bytes eid) = Inr b2" "holds b2 N (pad8 u @ u16_bytes eid)"
        using holds_put [OF b1(2), of "u16_bytes eid"] len JNull by auto
      obtain b3 where b3: "put b2 (u16_bytes NULL_FLAG) = Inr b3" "holds b3 N (pad8 u @ u16_bytes eid @ u16_bytes NULL_FLAG)"
        using holds_put [OF b2(2), of "u16_bytes NULL_FLAG"] len JNull by auto
      show ?thesis using rep b1 b2 b3 off by (simp add: JNull)
    next
      case (JEnum ci x)
      obtain k where k: "klass_pointer (w_args E) (w_heap E) obj = Inr k" "get_class_info (w_resolver E) k \<noteq> 0"
        "info_at (w_resolver E) (get_class_info (w_resolver E) k) = Inr ci"
        by (rule class_at_lookup) (use rep JEnum in auto)
      obtain b2 where b2: "put b1 (u16_bytes (ci_id ci)) = Inr b2" "holds b2 N (pad8 u @ u16_bytes (ci_id ci))"
        using holds_put [OF b1(2), of "u16_bytes (ci_id ci)"] len JEnum by auto
      obtain b3 where b3: "put b2 (u16_bytes 0x12) = Inr b3" "holds b3 N (pad8 u @ u16_bytes (ci_id ci) @ u16_bytes 0x12)"
        using holds_put [OF b2(2), of "u16_bytes 0x12"] len JEnum by auto
      obtain b4 where b4: "put b3 (u32_bytes x) = Inr b4" "holds b4 N (pad8 u @ u16_bytes (ci_id ci) @ u16_bytes 0x12 @ u32_bytes x)"
        using holds_put [OF b3(2), of "u32_bytes x"] len JEnum by auto
      have "rw_off b4 mod 8 = 0" using holds_off [OF b4(2)] by (simp del: dvd_imp_mod_0 mod_0_imp_dvd)
      then show ?thesis using rep b1 b2 b3 b4 off k by (simp add: JEnum)
    next
      case (JObj ci body ts)
      obtain k where k: "klass_pointer (w_args E) (w_heap E) obj = Inr k" "get_class_info (w_resolver E) k \<noteq> 0"
        "info_at (w_resolver E) (get_class_info (w_resolver E) k) = Inr ci"
        by (rule class_at_lookup) (use rep JObj in auto)
      have ds: "\<forall>t \<in> set ts. depth t \<le> n" using d JObj depth_member [of _ ts] by fastforce
      obtain b2 where "do_walk_object (walk n E) E obj ci b1 = Inr b2" "holds b2 N (ser ?cv eid t u)"
        using do_walk_object_ok [OF Suc.IH rep [unfolded JObj] ds b1(2) N32 len [unfolded JObj]] JObj by blast
      then show ?thesis using rep b1 off k by (simp add: JObj)
    next
      case (JPrims ci x elems)
      obtain k where k: "klass_pointer (w_args E) (w_heap E) obj = Inr k" "get_class_info (w_resolver E) k \<noteq> 0"
        "info_at (w_resolver E) (get_class_info (w_resolver E) k) = Inr ci"
        by (rule class_at_lookup) (use rep JPrims in auto)
      obtain b2 where "do_walk_array (walk n E) E obj ci b1 = Inr b2" "holds b2 N (ser ?cv eid t u)"
        using do_walk_prims_ok [OF rep [unfolded JPrims] b1(2) N32 len [unfolded JPrims]] JPrims by blast
      then show ?thesis using rep b1 off k by (simp add: JPrims is_array_def is_object_def)
    next
      case (JRefs ci ts)
      obtain k where k: "klass_pointer (w_args E) (w_heap E) obj = Inr k" "get_class_info (w_resolver E) k \<noteq> 0"
        "info_at (w_resolver E) (get_class_info (w_resolver E) k) = Inr ci"
        by (rule class_at_lookup) (use rep JRefs in auto)
      have ds: "\<forall>t \<in> set ts. depth t \<le> n" using d JRefs depth_member [of _ ts] by fastforce
      obtain b2 where "do_walk_array (walk n E) E obj ci b1 = Inr b2" "holds b2 N (ser ?cv eid t u)"
        using do_walk_refs_ok [OF Suc.IH rep [unfolded JRefs] ds b1(2) N32 len [unfolded JRefs]] JRefs by blast
      then show ?thesis using rep b1 off k by (auto simp: JRefs is_array_def is_object_def)
    qed
  qed
qed

section \<open>Properties of the native serializer\<close>

lemma Context_serialize_ok:
  assumes "represents E obj UNREGISTERED_CLASS_ID t" "depth t \<le> n"
    and "length (serialized (prims_encoding E) t) \<le> length out" "length out < 2 ^ 32"
  shows "Context_serialize n E obj out = Inr (serialized (prims_encoding E) t)"
proof -
  let ?cv = "prims_encoding E"
  let ?s = "\<lambda>u. ser ?cv UNREGISTERED_CLASS_ID t u"
  have hd: "length u = 8 \<Longrightarrow> 8 \<le> length (?s u)" for u using ser_length_ge by metis
  have ls: "length (serialized ?cv t) = length (?s (replicate 8 0))"
    using hd by (simp add: serialized_def Let_def)
  have same: "drop 8 (?s u) = drop 8 (?s v)" if "length u = 8" "length v = 8" for u v
    using that ser_drop [of u v] by simp
  define u where "u = take 8 out"
  have o: "8 \<le> length out" using assms(3) ls hd [of "replicate 8 0"] by simp
  then have lu: "length u = 8" by (simp add: u_def)
  have "length (?s u) - 8 = length (?s (replicate 8 0)) - 8" using same [OF lu] by (metis length_drop length_replicate)
  then have lsu: "length (?s u) = length (?s (replicate 8 0))" using hd [OF lu] hd [of "replicate 8 0"] by simp
  have h: "holds (skip (rw_new out) OBJECT_DATA_OFFSET) (length out) u"
    using o by (simp add: holds_def skip_def rw_new_def limit_def u_def)
  obtain b where b: "walk n E obj UNREGISTERED_CLASS_ID (skip (rw_new out) OBJECT_DATA_OFFSET) = Inr (of_nat (length (pad8 u)), b)"
    "holds b (length out) (?s u)"
    by (rule walks_up_toD [OF walk_refines_ser assms(2,1) h assms(4)]) (use assms(3) ls lsu in simp)
  let ?len = "u64_bytes (of_nat (length (?s u)))"
  obtain b' where b': "put_at b ?len 0 = Inr b'" "holds b' (length out) (patch (?s u) 0 ?len)"
    using holds_put_at [OF b(2), of 0 ?len] hd [OF lu] by auto
  have "patch (?s u) 0 ?len = serialized ?cv t"
    using same [OF lu, of "replicate 8 0"] lsu by (simp add: serialized_def patch_def Let_def)
  moreover have "rw_off b = length (?s u)" "take (length (?s u)) (rw_b b') = patch (?s u) 0 ?len"
    using b(2) b'(2) hd [OF lu] by (simp_all add: holds_def)
  ultimately show ?thesis
    using b(1) b'(1) by (simp add: Context_serialize_def ObjectWalker_walk_def Let_def)
qed

text \<open>
  C1. The native serializer is correct and total on acyclic values: if the heap holds the tree
  \<open>t\<close> at \<open>obj\<close>, all classes are registered, the call stack has room for the depth of \<open>t\<close> and the
  output buffer (below 4 GB) for its bytes, then \<^verbatim>\<open>Context::serialize\<close> returns exactly the
  specified bytes of \<open>t\<close>, the first eight of which hold the total length.
\<close>

theorem serialize_correct:
  assumes "represents E obj UNREGISTERED_CLASS_ID t" "depth t \<le> n"
    and "length (serialized (prims_encoding E) t) \<le> length out" "length out < 2 ^ 32"
  shows "Context_serialize n E obj out = Inr (serialized (prims_encoding E) t)"
  by (rule Context_serialize_ok [OF assms])

text \<open>
  An example used below: an object of class \<^verbatim>\<open>A\<close> with a reference to a byte array of three
  elements and an integer.
\<close>

definition info_A :: class_info_t where
  "info_A = \<lparr>ci_klass = 0x1000, ci_id = 20, ci_enum_ref_arr_off = 0, ci_klass_cptr = 0x200, ci_obj_size = 20,
     ci_header_size = 12, ci_n_non_static_field = 2, ci_n_static_field = 0, ci_dim = 0, ci_sig_off = 72,
     ci_fields = [\<lparr>fi_id = 21, fi_offset = 0, fi_type = T_ARRAY, fi_flag = 0, fi_j_field_id = 1\<rparr>,
                  \<lparr>fi_id = - 1, fi_offset = 4, fi_type = T_INT, fi_flag = 0, fi_j_field_id = 2\<rparr>],
     ci_enums = [], ci_sig = ''LA;''\<rparr>"

definition info_bytes :: class_info_t where
  "info_bytes = \<lparr>ci_klass = 0x2000, ci_id = 21, ci_enum_ref_arr_off = 0, ci_klass_cptr = 0x400, ci_obj_size = 16,
     ci_header_size = 16, ci_n_non_static_field = 1, ci_n_static_field = 0, ci_dim = 1, ci_sig_off = 48,
     ci_fields = [\<lparr>fi_id = - 1, fi_offset = 0, fi_type = T_BYTE, fi_flag = 0, fi_j_field_id = 0\<rparr>],
     ci_enums = [], ci_sig = ''[B''\<rparr>"

definition resolver_AB :: ClassResolver where
  "resolver_AB = \<lparr>r_alloc = \<lparr>sa_base = 0x4000, sa_pos = 0x400, sa_lim = 0x4000\<rparr>,
     r_store = [0x4000 \<mapsto> info_A, 0x4100 \<mapsto> info_bytes], info_by_id = [0x4000, 0x4100], info_by_klass = [0x4000, 0x4100],
     sig2id = [''LA;'' \<mapsto> 20, ''[B'' \<mapsto> 21], unresolved = Map.empty\<rparr>"

definition heap_AB :: mem where
  "heap_AB a = (if a = 0x109 then 0x02 else if a = 0x10c then 0x40 else if a = 0x110 then 7
     else if a = 0x209 then 0x04 else if a = 0x20c then 3
     else if a = 0x210 then 1 else if a = 0x211 then 2 else if a = 0x212 then 3 else 0)"

definition env_AB :: wenv where
  "env_AB = \<lparr>w_args = j_args example_jvm, w_heap = heap_AB, w_resolver = resolver_AB,
     w_enable_utf16_to_utf8 = False, w_to_utf8 = id\<rparr>"

definition tree_AB :: jtree where
  "tree_AB = JObj info_A [0x40, 0, 0, 0, 7, 0, 0, 0] [JPrims info_bytes 3 [1, 2, 3]]"

lemma lookup_AB:
  "info_by_klass_addr resolver_AB 0x1000 = Some info_A" "info_by_klass_addr resolver_AB 0x2000 = Some info_bytes"
  by (simp_all add: info_by_klass_addr_def get_class_info_def lower_bound_def klass_of_def resolver_AB_def
      info_A_def info_bytes_def Let_def)

lemma class_AB:
  "class_at (w_args env_AB) heap_AB resolver_AB 0x100 = Some info_A"
  "class_at (w_args env_AB) heap_AB resolver_AB 0x200 = Some info_bytes"
  using lookup_AB
  by (simp_all add: class_at_def klass_pointer_def parse_metaspace_cptr_def parse_cptr_def parse_u32_at_def raw_def
      rd_4 heap_AB_def bytes_u32_def env_AB_def example_jvm_def)

lemma info_A_wf: "ci_wf info_A"
  by (simp add: ci_wf_def info_A_def field_size_def type_size_def is_primitive_type_def is_reference_type_def
      object_body_size_def)

lemma represents_AB: "represents env_AB 0x100 UNREGISTERED_CLASS_ID tree_AB"
proof -
  have refs: "ref_fields info_A = [\<lparr>fi_id = 21, fi_offset = 0, fi_type = T_ARRAY, fi_flag = 0, fi_j_field_id = 1\<rparr>]"
    by (simp add: ref_fields_def info_A_def is_reference_type_def)
  have 1: "repr (w_args env_AB) heap_AB resolver_AB 0x200 21 (JPrims info_bytes 3 [1, 2, 3])"
  proof -
    have "array_body_size info_bytes 3 = Inr 3"
      by (simp add: array_body_size_def get_field_def info_bytes_def type_size_def Let_def)
    moreover have "rd heap_AB 0x210 3 = [1, 2, 3]" by (simp add: rd_def upt_rec heap_AB_def)
    ultimately show ?thesis
      using class_AB(2) by (simp add: is_enum_def is_array_def info_bytes_def is_primitive_type_def array_length_def
          parse_u32_at_def raw_def rd_4 heap_AB_def bytes_u32_def array_header_size_def)
  qed
  have 2: "parse_heap_cptr (w_args env_AB) 0x40 = Inr 0x200"
    by (simp add: parse_heap_cptr_def parse_cptr_def env_AB_def example_jvm_def)
  have 3: "rd heap_AB 0x10C 8 = [0x40, 0, 0, 0, 7, 0, 0, 0]" by (simp add: rd_8 heap_AB_def)
  have 4: "unat (object_body_size info_A) = 8" "raw 0x100 (object_header_size info_A) = 0x10C"
    by (simp_all add: object_body_size_def object_header_size_def info_A_def raw_def)
  have 5: "w_heap env_AB = heap_AB" "w_resolver env_AB = resolver_AB" by (simp_all add: env_AB_def)
  have 6: "is_object info_A" "\<not> is_enum info_A" by (simp_all add: is_object_def is_enum_def info_A_def)
  show ?thesis
    using class_AB(1) info_A_wf 1 2 3 4 6 by (simp add: tree_AB_def 5 refs chunk_def bytes_u32_def del: repr.simps(4))
qed

theorem serialize_correct_witness:
  "Context_serialize 2 env_AB 0x100 (replicate 64 0) = Inr
    [35, 0, 0, 0, 0, 0, 0, 0,  20, 0, 0x10, 0, 0, 0, 0, 0,  24, 0, 0, 0, 7, 0, 0, 0,  21, 0, 0x20, 0, 3, 0, 0, 0, 1, 2, 3]"
proof -
  have s: "serialized (prims_encoding env_AB) tree_AB =
    [35, 0, 0, 0, 0, 0, 0, 0,  20, 0, 0x10, 0, 0, 0, 0, 0,  24, 0, 0, 0, 7, 0, 0, 0,  21, 0, 0x20, 0, 3, 0, 0, 0, 1, 2, 3]"
    by code_simp
  have "depth tree_AB \<le> 2" by (simp add: tree_AB_def)
  from serialize_correct [OF represents_AB this, of "replicate 64 0"] show ?thesis by (simp add: s)
qed

section \<open>Cyclic object graphs\<close>

text \<open>\<open>frame b b'\<close>: the cursor has not moved back and what was before it is unchanged.\<close>

definition frame :: "RWBuffer \<Rightarrow> RWBuffer \<Rightarrow> bool" where
  "frame b b' \<longleftrightarrow> rw_off b \<le> rw_off b' \<and> length (rw_b b') = length (rw_b b)
     \<and> take (rw_off b) (rw_b b') = take (rw_off b) (rw_b b)"

lemma frame_refl [simp]: "frame b b"
  by (simp add: frame_def)

lemma frame_trans:
  assumes "frame a b" "frame b c"
  shows "frame a c"
proof -
  have "take (rw_off b) (rw_b c) = take (rw_off b) (rw_b b)" "rw_off a \<le> rw_off b" using assms by (simp_all add: frame_def)
  from arg_cong [OF this(1), of "take (rw_off a)"] this(2)
  have "take (rw_off a) (rw_b c) = take (rw_off a) (rw_b b)" by (simp add: min_absorb1)
  then show ?thesis using assms by (simp add: frame_def)
qed

lemma frame_put_at: "put_at b bs off = Inr b' \<Longrightarrow> rw_off a \<le> off \<Longrightarrow> frame a b \<Longrightarrow> frame a b'"
  by (auto simp: put_at_def frame_def take_patch split: if_splits)

lemma frame_put: "put b bs = Inr b' \<Longrightarrow> frame b b'"
  by (auto simp: put_def put_at_def frame_def take_patch split: if_splits)

lemma frame_fill: "fill_next_align_8 b = Inr b' \<Longrightarrow> frame b b'"
  by (auto simp: fill_next_align_8_def Let_def frame_put split: if_splits)

definition frames :: "walk_fn \<Rightarrow> bool" where
  "frames wk \<longleftrightarrow> (\<forall>obj eid b x b'. wk obj eid b = Inr (x, b') \<longrightarrow> frame b b')"

lemma framesD: "frames wk \<Longrightarrow> wk obj eid b = Inr (x, b') \<Longrightarrow> frame b b'"
  by (auto simp: frames_def)

lemma frame_walk_fields:
  assumes "frames wk" "walk_fields wk E info base js b = Inr b'" "rw_off a \<le> base" "frame a b"
  shows "frame a b'"
  using assms(2,4)
proof (induction js arbitrary: b)
  case Nil
  then show ?case by simp
next
  case (Cons i js)
  from Cons.prems(1) obtain f where f: "get_field info i = Inr f" by (auto split: if_splits)
  show ?case
  proof (cases "is_primitive_type (fi_type f)")
    case True
    then show ?thesis using Cons f by auto
  next
    case False
    with Cons.prems(1) f obtain m x b1 b2 where
      1: "wk m (fi_id f) b = Inr (x, b1)" "put_at b1 (u32_bytes x) (base + unat (fi_offset f)) = Inr b2"
        "walk_fields wk E info base js b2 = Inr b'"
      by (auto simp: Let_def)
    have "frame a b1" by (rule frame_trans [OF Cons.prems(2) framesD [OF assms(1) 1(1)]])
    then have "frame a b2" using frame_put_at [OF 1(2)] assms(3) by simp
    then show ?thesis by (rule Cons.IH [OF 1(3)])
  qed
qed

lemma frame_do_walk_object:
  assumes "frames wk" "do_walk_object wk E obj info b = Inr b'"
  shows "frame b b'"
proof -
  from assms(2) obtain b1 b2 b3 b4 bs where
    1: "put b (u16_bytes (ci_id info)) = Inr b1" "put b1 (u16_bytes OBJECT_FLAG) = Inr b2" "fill_next_align_8 b2 = Inr b3"
      "put b3 bs = Inr b4" and 2: "walk_fields wk E info (rw_off b3) [0..<unat (ci_n_non_static_field info)] b4 = Inr b'"
    by (auto simp: do_walk_object_def Let_def)
  have "frame b b3" using 1 frame_put frame_fill frame_trans by meson
  moreover have "frame b3 b'" by (rule frame_walk_fields [OF assms(1) 2 order_refl frame_put [OF 1(4)]])
  ultimately show ?thesis by (rule frame_trans)
qed

lemma frame_walk_elems:
  assumes "frames wk" "walk_elems wk E obj info eid js b = Inr b'"
  shows "frame b b'"
  using assms(2)
proof (induction js arbitrary: b)
  case Nil
  then show ?case by simp
next
  case (Cons i js)
  from Cons.prems obtain m x b1 where "wk m eid b = Inr (x, b1)" "walk_elems wk E obj info eid js b1 = Inr b'" by auto
  then show ?case using framesD [OF assms(1)] Cons.IH frame_trans by blast
qed

lemma frame_cvt: "cvt_utf16_to_utf8 E obj info len b = Inr b' \<Longrightarrow> frame b b'"
proof -
  assume "cvt_utf16_to_utf8 E obj info len b = Inr b'"
  then obtain x y d b1 b2 b3 n where
    1: "put b x = Inr b1" "put_at b1 d (rw_off b1 + 4) = Inr b2" "put b2 y = Inr b3" "b' = skip b3 n"
    by (auto simp: cvt_utf16_to_utf8_def Let_def)
  have "frame b1 b2" by (rule frame_put_at [OF 1(2)]) simp_all
  then have "frame b b3" using 1 frame_put frame_trans by meson
  then show ?thesis by (auto simp: 1(4) frame_def skip_def)
qed

lemma frame_do_walk_array:
  assumes "frames wk" "do_walk_array wk E obj info b = Inr b'"
  shows "frame b b'"
proof -
  from assms(2) obtain x y z b1 b2 b3 b4 where
    1: "put b x = Inr b1" "put b1 y = Inr b2" "put b2 z = Inr b3" "fill_next_align_8 b3 = Inr b4"
    and 2: "frame b4 b'"
    by (auto simp: do_walk_array_def Let_def frame_put frame_cvt frame_walk_elems [OF assms(1)] split: if_splits)
  have "frame b b4" using 1 frame_put frame_fill frame_trans by meson
  then show ?thesis using 2 by (rule frame_trans)
qed

lemma frames_walk: "frames (walk n E)"
proof (induction n)
  case 0
  then show ?case by (simp add: frames_def)
next
  case (Suc n)
  show ?case
    unfolding frames_def
  proof (intro allI impI)
    fix obj eid b x b'
    assume w: "walk (Suc n) E obj eid b = Inr (x, b')"
    then obtain b1 where b1: "fill_next_align_8 b = Inr b1" by auto
    have "frame b1 b'"
    proof (cases "obj = 0")
      case True
      with w b1 obtain y z b2 where "put b1 y = Inr b2" "put b2 z = Inr b'" by (auto simp: Let_def)
      then show ?thesis using frame_put frame_trans by meson
    next
      case False
      with w b1 obtain info where i: "(if is_enum info then
             bnd (put b1 (u16_bytes (ci_id info))) (\<lambda>b.
             bnd (put b (u16_bytes (ENUM_FLAG OR OBJECT_FLAG))) (\<lambda>b.
             bnd (put b (u32_bytes (enum_ordinal (w_heap E) obj))) (\<lambda>b.
             bnd (check (rw_off b mod 8 = 0) Assert_fail) (\<lambda>_. Inr b))))
           else if is_object info then do_walk_object (walk n E) E obj info b1
           else if is_array info then do_walk_array (walk n E) E obj info b1
           else Inl Unreachable) = Inr b'"
        by (auto simp: Let_def)
      show ?thesis
      proof (cases "is_enum info")
        case True
        with i obtain x y b2 b3 z where "put b1 x = Inr b2" "put b2 y = Inr b3" "put b3 z = Inr b'" by auto
        then show ?thesis using frame_put frame_trans by meson
      next
        case False
        then show ?thesis
          using i frame_do_walk_object [OF Suc.IH] frame_do_walk_array [OF Suc.IH] by (auto split: if_splits)
      qed
    qed
    then show "frame b b'" using frame_fill [OF b1] frame_trans by blast
  qed
qed

text \<open>
  An address on a cycle: it holds an object of a usable class one of whose references leads to
  such an address again.
\<close>

definition cyclic_set :: "wenv \<Rightarrow> u64 set \<Rightarrow> bool" where
  "cyclic_set E S \<longleftrightarrow> (\<forall>obj \<in> S. obj \<noteq> 0 \<and> (\<exists>ci. class_at (w_args E) (w_heap E) (w_resolver E) obj = Some ci
     \<and> \<not> is_enum ci \<and> is_object ci \<and> ci_wf ci
     \<and> (\<exists>f \<in> set (ref_fields ci). \<exists>p \<in> S. parse_heap_cptr (w_args E) (ucast (bytes_u32
          (chunk (rd (w_heap E) (raw obj (object_header_size ci)) (unat (object_body_size ci))) (unat (fi_offset f)) 4))) = Inr p)))"

text \<open>The field loop reaches the cycle: the reference is still in the body when its turn comes.\<close>

lemma walk_fields_cycle:
  assumes wk: "frames wk" "\<And>eid b x b'. wk p eid b \<noteq> Inr (x, b')"
    and wf: "\<forall>i \<in> set js. i < length (ci_fields ci)"
      "sorted_wrt (\<lambda>f g. unat (fi_offset f) + 4 \<le> unat (fi_offset g)) (filter (\<lambda>f. is_reference_type (fi_type f)) (map ((!) (ci_fields ci)) js))"
    and f: "f \<in> set (filter (\<lambda>f. is_reference_type (fi_type f)) (map ((!) (ci_fields ci)) js))"
    and at: "base + unat (fi_offset f) + 4 \<le> rw_off b"
      "chunk (rw_b b) (base + unat (fi_offset f)) 4 = cp" "parse_heap_cptr (w_args E) (ucast (bytes_u32 cp)) = Inr p"
  shows "walk_fields wk E ci base js b \<noteq> Inr b'"
  using wf f at(1,2)
proof (induction js arbitrary: b)
  case Nil
  then show ?case by simp
next
  case (Cons i js)
  let ?g = "ci_fields ci ! i"
  have i: "get_field ci i = Inr ?g" using Cons.prems(1) by (simp add: get_field_def)
  show ?case
  proof (cases "is_reference_type (fi_type ?g)")
    case False
    then have "walk_fields wk E ci base js b \<noteq> Inr b'" using Cons.prems by (intro Cons.IH) auto
    then show ?thesis using False i by (auto simp: Let_def)
  next
    case ref: True
    then have np: "\<not> is_primitive_type (fi_type ?g)" using prim_not_ref by blast
    show ?thesis
    proof
      assume "walk_fields wk E ci base (i # js) b = Inr b'"
      with i ref np obtain cq m x b1 b2 where
        1: "get_at b 4 (base + unat (fi_offset ?g)) = Inr cq" "parse_heap_cptr (w_args E) (ucast (bytes_u32 cq)) = Inr m"
          "wk m (fi_id ?g) b = Inr (x, b1)" "put_at b1 (u32_bytes x) (base + unat (fi_offset ?g)) = Inr b2"
          "walk_fields wk E ci base js b2 = Inr b'"
        by (auto simp: Let_def)
      show False
      proof (cases "f = ?g")
        case True
        then have "cq = cp" using 1(1) Cons.prems(5) by (auto simp: get_at_def split: if_splits)
        then show False using 1(2,3) at(3) wk(2) by auto
      next
        case False
        then have fin: "f \<in> set (filter (\<lambda>f. is_reference_type (fi_type f)) (map ((!) (ci_fields ci)) js))"
          and lt: "unat (fi_offset ?g) + 4 \<le> unat (fi_offset f)"
          using Cons.prems(2,3) ref by auto
        have fr: "frame b b1" by (rule framesD [OF wk(1) 1(3)])
        have "take (rw_off b) (rw_b b1) = take (rw_off b) (rw_b b)" using fr by (simp add: frame_def)
        then have "chunk (rw_b b1) (base + unat (fi_offset f)) 4 = cp"
          using chunk_prefix [OF _ Cons.prems(4)] Cons.prems(5) by blast
        moreover have b2: "rw_b b2 = patch (rw_b b1) (base + unat (fi_offset ?g)) (u32_bytes x)" "rw_off b2 = rw_off b1"
          "base + unat (fi_offset ?g) + 4 \<le> length (rw_b b1)"
          using 1(4) by (auto simp: put_at_def split: if_splits)
        ultimately have "chunk (rw_b b2) (base + unat (fi_offset f)) 4 = cp"
          using lt by (simp add: chunk_patch_after)
        moreover have "base + unat (fi_offset f) + 4 \<le> rw_off b2" using Cons.prems(4) fr b2(2) by (simp add: frame_def)
        ultimately have "walk_fields wk E ci base js b2 \<noteq> Inr b'"
          using Cons.prems(1,2) fin ref by (intro Cons.IH) simp_all
        then show False using 1(5) by blast
      qed
    qed
  qed
qed

lemma do_walk_object_cycle:
  assumes wk: "frames wk" "\<And>q eid b x b'. q \<in> S \<Longrightarrow> wk q eid b \<noteq> Inr (x, b')"
    and wf: "ci_wf ci" and f: "f \<in> set (ref_fields ci)" and p: "p \<in> S"
    and cp: "parse_heap_cptr (w_args E) (ucast (bytes_u32 (chunk
      (rd (w_heap E) (raw obj (object_header_size ci)) (unat (object_body_size ci))) (unat (fi_offset f)) 4))) = Inr p"
  shows "do_walk_object wk E obj ci b \<noteq> Inr b'"
proof
  assume "do_walk_object wk E obj ci b = Inr b'"
  then obtain b3 b4 where b4: "put b3 (rd (w_heap E) (raw obj (object_header_size ci)) (unat (object_body_size ci))) = Inr b4"
    and w: "walk_fields wk E ci (rw_off b3) [0..<unat (ci_n_non_static_field ci)] b4 = Inr b'"
    by (auto simp: do_walk_object_def Let_def)
  let ?body = "rd (w_heap E) (raw obj (object_header_size ci)) (unat (object_body_size ci))"
  have n: "unat (ci_n_non_static_field ci) = length (ci_fields ci)" using wf by (simp add: ci_wf_def)
  then have refs: "filter (\<lambda>f. is_reference_type (fi_type f)) (map ((!) (ci_fields ci)) [0..<unat (ci_n_non_static_field ci)]) = ref_fields ci"
    by (simp add: ref_fields_def map_nth)
  have off: "unat (fi_offset f) + 4 \<le> length ?body" using ci_wf_refs(2) [OF wf] f by simp
  have b4': "rw_b b4 = patch (rw_b b3) (rw_off b3) ?body" "rw_off b4 = rw_off b3 + length ?body" "rw_off b3 + length ?body \<le> length (rw_b b3)"
    using b4 by (auto simp: put_def put_at_def split: if_splits)
  have "chunk (rw_b b4) (rw_off b3 + unat (fi_offset f)) 4 = chunk ?body (unat (fi_offset f)) 4"
  proof -
    have "take (rw_off b3 + length ?body) (rw_b b4) = take (rw_off b3) (rw_b b3) @ ?body"
      using b4'(3) unfolding b4'(1) by (intro take_patch_upto) simp_all
    then have "chunk (rw_b b4) (rw_off b3 + unat (fi_offset f)) 4 = chunk (take (rw_off b3) (rw_b b3) @ ?body) (rw_off b3 + unat (fi_offset f)) 4"
      using chunk_take [of "rw_off b3 + unat (fi_offset f)" 4 "rw_off b3 + length ?body" "rw_b b4"] off by simp
    then show ?thesis using b4'(3) by (simp add: chunk_append_right)
  qed
  then have "walk_fields wk E ci (rw_off b3) [0..<unat (ci_n_non_static_field ci)] b4 \<noteq> Inr b'"
    using walk_fields_cycle [OF wk(1) wk(2) [OF p], of "[0..<unat (ci_n_non_static_field ci)]" ci f "rw_off b3" b4 _ E, unfolded refs]
      f cp off b4'(2) n ci_wf_refs(1) [OF wf] by auto
  then show False using w by blast
qed

lemma walk_cycle:
  assumes "cyclic_set E S" "obj \<in> S"
  shows "walk n E obj eid b \<noteq> Inr (x, b')"
  using assms(2)
proof (induction n arbitrary: obj eid b x b')
  case 0
  then show ?case by simp
next
  case (Suc n)
  from assms(1) Suc.prems obtain ci f p where o: "obj \<noteq> 0"
    and ci: "class_at (w_args E) (w_heap E) (w_resolver E) obj = Some ci" "\<not> is_enum ci" "is_object ci" "ci_wf ci"
    and f: "f \<in> set (ref_fields ci)" "p \<in> S" "parse_heap_cptr (w_args E) (ucast (bytes_u32
          (chunk (rd (w_heap E) (raw obj (object_header_size ci)) (unat (object_body_size ci))) (unat (fi_offset f)) 4))) = Inr p"
    unfolding cyclic_set_def by blast
  obtain k where k: "klass_pointer (w_args E) (w_heap E) obj = Inr k" "get_class_info (w_resolver E) k \<noteq> 0"
    "info_at (w_resolver E) (get_class_info (w_resolver E) k) = Inr ci"
    by (rule class_at_lookup [OF ci(1)])
  have "do_walk_object (walk n E) E obj ci b1 \<noteq> Inr b2" for b1 b2
    by (rule do_walk_object_cycle [OF frames_walk Suc.IH ci(4) f])
  then show ?case using o k ci(2,3) by (auto simp: Let_def)
qed

text \<open>
  C2. A cyclic object graph is never serialized: the code that would write a redirect for a
  visited object is disabled, so from an object on a cycle, or any number of nested calls, the
  serializer ends with an error (the stack or the buffer is exhausted), never with a result.
\<close>

theorem serialize_cyclic:
  assumes "cyclic_set E S" "obj \<in> S"
  shows "\<exists>e. Context_serialize n E obj out = Inl e"
proof -
  have "walk n E obj UNREGISTERED_CLASS_ID b \<noteq> Inr (x, b')" for b x b' by (rule walk_cycle [OF assms])
  then show ?thesis
    by (cases "walk n E obj UNREGISTERED_CLASS_ID (skip (rw_new out) OBJECT_DATA_OFFSET)")
       (auto simp: Context_serialize_def ObjectWalker_walk_def)
qed

theorem serialize_cyclic_witness:
  "\<exists>e. Context_serialize 1000 (env_AB\<lparr>w_heap := (\<lambda>a. if a = 0x10c then 0x20 else heap_AB a)\<rparr>) 0x100 (replicate 65536 0) = Inl e"
proof -
  let ?m = "\<lambda>a. if a = 0x10c then 0x20 else heap_AB a" and ?E = "env_AB\<lparr>w_heap := (\<lambda>a. if a = 0x10c then 0x20 else heap_AB a)\<rparr>"
  have "class_at (w_args env_AB) ?m resolver_AB 0x100 = Some info_A"
    using lookup_AB
    by (simp add: class_at_def klass_pointer_def parse_metaspace_cptr_def parse_cptr_def parse_u32_at_def raw_def
        rd_4 heap_AB_def bytes_u32_def env_AB_def example_jvm_def)
  moreover have "rd ?m (raw 0x100 (object_header_size info_A)) (unat (object_body_size info_A)) = [0x20, 0, 0, 0, 7, 0, 0, 0]"
    by (simp add: object_body_size_def object_header_size_def info_A_def raw_def rd_8 heap_AB_def)
  moreover have "parse_heap_cptr (w_args env_AB) 0x20 = Inr 0x100"
    by (simp add: parse_heap_cptr_def parse_cptr_def env_AB_def example_jvm_def)
  moreover have "ref_fields info_A = [\<lparr>fi_id = 21, fi_offset = 0, fi_type = T_ARRAY, fi_flag = 0, fi_j_field_id = 1\<rparr>]"
    by (simp add: ref_fields_def info_A_def is_reference_type_def)
  moreover have "is_object info_A" "\<not> is_enum info_A" by (simp_all add: is_object_def is_enum_def info_A_def)
  ultimately have "cyclic_set ?E {0x100}"
    using info_A_wf by (simp add: cyclic_set_def env_AB_def chunk_def bytes_u32_def)
  then show ?thesis by (rule serialize_cyclic) simp
qed

text \<open>
  An object of a class without instance fields cannot be serialized: its header size keeps the
  initial value 255, so the size of its body wraps around to almost 4 GB and copying it leaves
  the buffer.
\<close>

theorem serialize_no_fields:
  assumes "class_at (w_args E) (w_heap E) (w_resolver E) obj = Some ci" "obj \<noteq> 0" "\<not> is_enum ci" "is_object ci"
    and "ci_header_size ci = 255" "ci_obj_size ci < 255" "length out < 2 ^ 31"
  shows "\<exists>e. Context_serialize n E obj out = Inl e"
proof -
  obtain k where k: "klass_pointer (w_args E) (w_heap E) obj = Inr k" "get_class_info (w_resolver E) k \<noteq> 0"
    "info_at (w_resolver E) (get_class_info (w_resolver E) k) = Inr ci"
    by (rule class_at_lookup [OF assms(1)])
  have "unat (ci_obj_size ci) < 255" using assms(6) by (simp add: word_less_nat_alt)
  then have "2 ^ 31 \<le> unat (object_body_size ci)"
    using assms(5) by (simp add: object_body_size_def unat_sub_if' unat_ucast_up)
  then have no: "put b (rd m x (unat (object_body_size ci))) \<noteq> Inr b'" if "length (rw_b b) < 2 ^ 31" for b b' m x
    using that by (auto simp: put_def put_at_def split: if_splits)
  have len: "length (rw_b b') = length (rw_b b)" if "put b bs = Inr b' \<or> fill_next_align_8 b = Inr b'" for b b' bs
    using that frame_put frame_fill by (auto simp: frame_def)
  have "do_walk_object wk E obj ci b \<noteq> Inr b'" if "length (rw_b b) < 2 ^ 31" for wk b b'
    using that no len by (fastforce simp: do_walk_object_def Let_def)
  then have "walk n E obj eid b \<noteq> Inr (x, b')" if "length (rw_b b) < 2 ^ 31" for eid b x b'
    using that len k assms(2-4) by (cases n) (fastforce simp: Let_def)+
  moreover have "length (rw_b (skip (rw_new out) OBJECT_DATA_OFFSET)) < 2 ^ 31"
    using assms(7) by (simp add: skip_def rw_new_def)
  ultimately show ?thesis
    by (cases "walk n E obj UNREGISTERED_CLASS_ID (skip (rw_new out) OBJECT_DATA_OFFSET)")
       (auto simp: Context_serialize_def ObjectWalker_walk_def)
qed

theorem serialize_no_fields_witness:
  "\<exists>e. Context_serialize 5 (env_AB\<lparr>w_resolver := resolver_AB\<lparr>r_store :=
      [0x4000 \<mapsto> info_A\<lparr>ci_header_size := 255, ci_obj_size := 16, ci_n_non_static_field := 0, ci_fields := []\<rparr>]\<rparr>\<rparr>)
    0x100 (replicate 1024 0) = Inl e"
proof -
  let ?i = "info_A\<lparr>ci_header_size := 255, ci_obj_size := 16, ci_n_non_static_field := 0, ci_fields := []\<rparr>"
  let ?r = "resolver_AB\<lparr>r_store := [0x4000 \<mapsto> ?i]\<rparr>"
  have "class_at (w_args env_AB) heap_AB ?r 0x100 = Some ?i"
    by (simp add: class_at_def klass_pointer_def parse_metaspace_cptr_def parse_cptr_def parse_u32_at_def raw_def
        rd_4 heap_AB_def bytes_u32_def env_AB_def example_jvm_def info_by_klass_addr_def get_class_info_def
        lower_bound_def klass_of_def resolver_AB_def info_A_def Let_def)
  then show ?thesis
    by (intro serialize_no_fields [where ci = ?i]) (simp_all add: env_AB_def is_enum_def is_object_def info_A_def)
qed

end
