(* ===== verification/Object_Reviver.thy ===== *)
theory Object_Reviver
  imports Object_Walker
begin

text \<open>
  The deserializer: \<^verbatim>\<open>lib/sd/native/object_reviver.cxx\<close>, the array constructors of
  \<^verbatim>\<open>lib/sd/native/jenv_util.cxx\<close> and \<^verbatim>\<open>Context::deserialize\<close> of \<^verbatim>\<open>lib/sd/native/sd.cxx\<close>. It reads
  the bytes once, in order, and rebuilds the objects through JNI.

  The JVM is not part of the repository: its JNI functions are a record \<open>jni\<close> of functions on an
  unknown state, an argument of every definition. What the deserializer relies on is the
  hypothesis \<open>jni_laws\<close>, the documented behaviour of those functions in terms of the handles and
  objects a state holds.
\<close>

section \<open>The JNI functions used\<close>

text \<open>
  Handles and field ids are 64-bit, 0 is null; a class is designated by its klass address.
  \<open>SetPrimField\<close> stands for the eight \<^verbatim>\<open>Set<Type>Field\<close> functions, \<open>NewPrimArray\<close> for the eight
  \<^verbatim>\<open>New<Type>Array\<close> functions; \<open>poke\<close> is the direct write into an array's memory at a byte offset.
\<close>

record 'j jni =
  AllocObject :: "'j \<Rightarrow> u64 \<Rightarrow> u64 \<times> 'j"
  SetPrimField :: "'j \<Rightarrow> basic_type_t \<Rightarrow> u64 \<Rightarrow> u64 \<Rightarrow> u8 list \<Rightarrow> 'j"
  SetObjectField :: "'j \<Rightarrow> u64 \<Rightarrow> u64 \<Rightarrow> u64 \<Rightarrow> 'j"
  DeleteLocalRef :: "'j \<Rightarrow> u64 \<Rightarrow> 'j"
  NewPrimArray :: "'j \<Rightarrow> basic_type_t \<Rightarrow> u32 \<Rightarrow> u64 \<times> 'j"
  NewObjectArray :: "'j \<Rightarrow> u64 \<Rightarrow> u32 \<Rightarrow> u64 \<times> 'j"
  GetArrayLength :: "'j \<Rightarrow> u64 \<Rightarrow> u32"
  SetByteArrayRegion :: "'j \<Rightarrow> u64 \<Rightarrow> u32 \<Rightarrow> u32 \<Rightarrow> u8 list \<Rightarrow> 'j"
  SetObjectArrayElement :: "'j \<Rightarrow> u64 \<Rightarrow> u32 \<Rightarrow> u64 \<Rightarrow> 'j"
  ExceptionCheck :: "'j \<Rightarrow> bool"
  poke :: "'j \<Rightarrow> u64 \<Rightarrow> u32 \<Rightarrow> u8 list \<Rightarrow> 'j"

section \<open>The reviver\<close>

text \<open>\<open>v_to_utf16\<close> stands for \<^verbatim>\<open>simdutf::convert_utf8_to_utf16le\<close>.\<close>

record 'j venv =
  v_jni :: "'j jni"
  v_resolver :: ClassResolver
  v_enable_utf16_to_utf8 :: bool
  v_to_utf16 :: "u8 list \<Rightarrow> u8 list"

record 'j reviver =
  rv_b :: RWBuffer
  rv_j :: 'j
  rv_root :: u64

text \<open>A parsed value is its handle; the object address the code also passes around is unused.\<close>

type_synonym 'j parse_fn = "class_id_t \<Rightarrow> 'j reviver \<Rightarrow> (u64 \<times> 'j reviver) result"

definition new_array :: "'j jni \<Rightarrow> 'j \<Rightarrow> basic_type_t \<Rightarrow> u32 \<Rightarrow> (u64 \<times> 'j) result" where
  "new_array J j t len =
    (if t \<in> {T_BOOLEAN, T_CHAR, T_FLOAT, T_DOUBLE, T_BYTE, T_SHORT, T_INT, T_LONG}
     then Inr (NewPrimArray J j t len) else Inl Unreachable)"

definition new_array_obj :: "'j jni \<Rightarrow> 'j \<Rightarrow> u64 \<Rightarrow> u32 \<Rightarrow> u64 \<times> 'j" where
  "new_array_obj J j elem_klass len = NewObjectArray J j elem_klass len"

definition set_root :: "'j reviver \<Rightarrow> u64 \<Rightarrow> 'j reviver" where
  "set_root st handle = (if rv_root st = 0 then st\<lparr>rv_root := handle\<rparr> else st)"

definition parse_field :: "'j parse_fn \<Rightarrow> 'j venv \<Rightarrow> nat \<Rightarrow> u64 \<Rightarrow> field_info_t \<Rightarrow> 'j reviver \<Rightarrow> 'j reviver result" where
  "parse_field pf E field_base handle f st =
    (if is_primitive_type (fi_type f) then
       bnd (type_size (fi_type f)) (\<lambda>n.
       bnd (get_at (rv_b st) (unat n) (field_base + unat (fi_offset f))) (\<lambda>v.
         Inr (st\<lparr>rv_j := SetPrimField (v_jni E) (rv_j st) (fi_type f) handle (fi_j_field_id f) v\<rparr>)))
     else if is_reference_type (fi_type f) then
       bnd (pf (fi_id f) st) (\<lambda>(member, st).
         Inr (st\<lparr>rv_j := DeleteLocalRef (v_jni E)
                (SetObjectField (v_jni E) (rv_j st) handle (fi_j_field_id f) member) member\<rparr>))
     else Inr st)"

primrec parse_fields :: "'j parse_fn \<Rightarrow> 'j venv \<Rightarrow> class_info_t \<Rightarrow> nat \<Rightarrow> u64 \<Rightarrow> nat list \<Rightarrow> 'j reviver \<Rightarrow> 'j reviver result" where
  "parse_fields pf E info field_base handle [] st = Inr st"
| "parse_fields pf E info field_base handle (i # is) st =
    bnd (get_field info i) (\<lambda>f.
    bnd (parse_field pf E field_base handle f st) (parse_fields pf E info field_base handle is))"

definition do_parse_object :: "'j parse_fn \<Rightarrow> 'j venv \<Rightarrow> class_info_t \<Rightarrow> 'j reviver \<Rightarrow> (u64 \<times> 'j reviver) result" where
  "do_parse_object pf E info st =
    (let b = skip_next_align_8 (rv_b st);
         (handle, j) = AllocObject (v_jni E) (rv_j st) (ci_klass info) in
     bnd (check (handle \<noteq> 0) Die) (\<lambda>_.
     let field_base = rw_off b;
         st = set_root (st\<lparr>rv_b := skip b (unat (object_body_size info)), rv_j := j\<rparr>) handle in
     bnd (parse_fields pf E info field_base handle [0..<unat (ci_n_non_static_field info)] st) (\<lambda>st.
     bnd (check (\<not> ExceptionCheck (v_jni E) (rv_j st)) Die) (\<lambda>_.
       Inr (handle, st)))))"

definition cvt_utf8_to_utf16 :: "'j venv \<Rightarrow> u64 \<Rightarrow> class_info_t \<Rightarrow> u32 \<Rightarrow> 'j reviver \<Rightarrow> 'j reviver result" where
  "cvt_utf8_to_utf16 E handle info len st =
    bnd (rget (rv_b st) 4) (\<lambda>(origin, b).
    bnd (rget b 4) (\<lambda>(actual, b).
    let actual_byte_size = unat (bytes_u32 actual) in
    bnd (get_at b actual_byte_size (rw_off b)) (\<lambda>u8_data.
    let u16_data = v_to_utf16 E u8_data in
    bnd (check ((of_nat (length u16_data div 2) :: u32) = len) Assert_fail) (\<lambda>_.
      Inr (st\<lparr>rv_b := skip b actual_byte_size,
              rv_j := poke (v_jni E) (rv_j st) handle (array_header_size info) u16_data\<rparr>)))))"

primrec parse_elems :: "'j parse_fn \<Rightarrow> 'j venv \<Rightarrow> class_id_t \<Rightarrow> u64 \<Rightarrow> nat list \<Rightarrow> 'j reviver \<Rightarrow> 'j reviver result" where
  "parse_elems pf E elem_id handle [] st = Inr st"
| "parse_elems pf E elem_id handle (i # is) st =
    bnd (pf elem_id st) (\<lambda>(member, st).
      parse_elems pf E elem_id handle is
        (st\<lparr>rv_j := DeleteLocalRef (v_jni E)
             (SetObjectArrayElement (v_jni E) (rv_j st) handle (of_nat i) member) member\<rparr>))"

definition do_parse_array :: "'j parse_fn \<Rightarrow> 'j venv \<Rightarrow> class_info_t \<Rightarrow> 'j reviver \<Rightarrow> (u64 \<times> 'j reviver) result" where
  "do_parse_array pf E info st =
    bnd (rget (rv_b st) 4) (\<lambda>(lenb, b).
    let len = bytes_u32 lenb; b = skip_next_align_8 b in
    bnd (get_field info 0) (\<lambda>elem.
    bnd (if is_primitive_type (fi_type elem) then new_array (v_jni E) (rv_j st) (fi_type elem) len
         else bnd (get_class_info_id (v_resolver E) (fi_id elem)) (\<lambda>q.
              bnd (info_at (v_resolver E) q) (\<lambda>elem_info.
                Inr (new_array_obj (v_jni E) (rv_j st) (ci_klass elem_info) len)))) (\<lambda>(handle, j).
    bnd (check (handle \<noteq> 0) Die) (\<lambda>_.
    let st = set_root (st\<lparr>rv_b := b, rv_j := j\<rparr>) handle in
    bnd (if is_primitive_type (fi_type elem) then
           bnd (check (ci_dim info = 1) Assert_fail) (\<lambda>_.
           if fi_type elem = T_CHAR \<and> v_enable_utf16_to_utf8 E then cvt_utf8_to_utf16 E handle info len st
           else
             bnd (check (len = GetArrayLength (v_jni E) (rv_j st) handle) Die) (\<lambda>_.
             bnd (get_at (rv_b st) (unat len) (rw_off (rv_b st))) (\<lambda>data.
             bnd (array_body_size info len) (\<lambda>n.
               Inr (st\<lparr>rv_j := SetByteArrayRegion (v_jni E) (rv_j st) handle 0 len data,
                       rv_b := skip (rv_b st) (unat n)\<rparr>)))))
         else if is_reference_type (fi_type elem) then parse_elems pf E (fi_id elem) handle [0..<unat len] st
         else Inl Unreachable) (\<lambda>st.
    bnd (check (\<not> ExceptionCheck (v_jni E) (rv_j st)) Die) (\<lambda>_.
      Inr (handle, st)))))))"

primrec parse :: "nat \<Rightarrow> 'j venv \<Rightarrow> 'j parse_fn" where
  "parse 0 E expected_id st = Inl Out_of_fuel"
| "parse (Suc n) E expected_id st =
    (let b = skip_next_align_8 (rv_b st) in
    bnd (rget b 2) (\<lambda>(idb, b).
    bnd (rget b 2) (\<lambda>(flagb, b).
    let cid = bytes_u16 idb; flag = bytes_u16 flagb; st = st\<lparr>rv_b := b\<rparr> in
    if is_null_f flag then Inr (0, st)
    else if is_redirect_f flag then Inl Die
    else
      bnd (get_class_info_id (v_resolver E) cid) (\<lambda>q.
      bnd (check (q \<noteq> 0) Assert_fail) (\<lambda>_.
      bnd (info_at (v_resolver E) q) (\<lambda>info.
      if is_enum info then
        bnd (check (is_enum_f flag) Assert_fail) (\<lambda>_.
        bnd (rget b 4) (\<lambda>(ordb, b).
        bnd (get_enum info (bytes_u32 ordb)) (\<lambda>oh.
          Inr (oh_handle oh, st\<lparr>rv_b := b\<rparr>))))
      else if is_object info then
        bnd (check (is_object_f flag) Assert_fail) (\<lambda>_. do_parse_object (parse n E) E info st)
      else if is_array info then
        bnd (check (is_array_f flag) Assert_fail) (\<lambda>_. do_parse_array (parse n E) E info st)
      else Inl Unreachable))))))"

text \<open>\<^verbatim>\<open>ObjectReviver::revive\<close>: the root handle and the state of the JVM.\<close>

definition revive :: "nat \<Rightarrow> 'j venv \<Rightarrow> u64 \<Rightarrow> u8 list \<Rightarrow> 'j \<Rightarrow> (u64 \<times> 'j) result" where
  "revive n E klass input j =
    (let q = get_class_info (v_resolver E) klass in
    bnd (check (q \<noteq> 0) Assert_fail) (\<lambda>_.
    bnd (info_at (v_resolver E) q) (\<lambda>info.
    bnd (parse n E (ci_id info)
           \<lparr>rv_b = skip (rw_new input) OBJECT_DATA_OFFSET, rv_j = j, rv_root = 0\<rparr>) (\<lambda>(_, st).
      Inr (rv_root st, rv_j st)))))"

text \<open>\<^verbatim>\<open>Context::deserialize\<close>, given the bytes of the input array.\<close>

definition Context_deserialize :: "nat \<Rightarrow> 'j venv \<Rightarrow> jvm_args_t \<Rightarrow> mem \<Rightarrow> metaspace \<Rightarrow> u64 \<Rightarrow> u8 list \<Rightarrow> 'j \<Rightarrow> (u64 \<times> 'j) result" where
  "Context_deserialize n E a m ms j_cls input j =
    bnd (from_clazz a m ms j_cls) (\<lambda>klass. revive n E klass input j)"

section \<open>What the JVM promises\<close>

text \<open>
  The observable part of a JVM state: which object a handle refers to, the contents of the
  objects, how many more objects can be allocated, and whether an exception is pending. The
  fields of an object and the elements of an array that have not been set are not observed.
\<close>

datatype jcell =
    CObj u64 "u64 \<rightharpoonup> u8 list" "u64 \<rightharpoonup> u64"
  | CPrim basic_type_t nat "u8 list"
  | CRefs u64 "u64 list"

record jview =
  jv_handles :: "u64 \<rightharpoonup> u64"
  jv_objs :: "u64 \<rightharpoonup> jcell"
  jv_room :: nat
  jv_exception :: bool

definition fresh :: "jview \<Rightarrow> u64 \<Rightarrow> u64 \<Rightarrow> bool" where
  "fresh v h ob \<longleftrightarrow> h \<noteq> 0 \<and> ob \<noteq> 0 \<and> jv_handles v h = None \<and> jv_objs v ob = None"

definition add_obj :: "jview \<Rightarrow> u64 \<Rightarrow> u64 \<Rightarrow> jcell \<Rightarrow> jview" where
  "add_obj v h ob c = v\<lparr>jv_handles := (jv_handles v)(h \<mapsto> ob), jv_objs := (jv_objs v)(ob \<mapsto> c), jv_room := jv_room v - 1\<rparr>"

definition set_obj :: "jview \<Rightarrow> u64 \<Rightarrow> jcell \<Rightarrow> jview" where
  "set_obj v ob c = v\<lparr>jv_objs := (jv_objs v)(ob \<mapsto> c)\<rparr>"

text \<open>The object a reference argument denotes: null or what the handle refers to.\<close>

definition deref :: "jview \<Rightarrow> u64 \<Rightarrow> u64 option" where
  "deref v h = (if h = 0 then Some 0 else jv_handles v h)"

definition jni_laws :: "'j jni \<Rightarrow> ('j \<Rightarrow> jview) \<Rightarrow> bool" where
  "jni_laws J \<alpha> \<longleftrightarrow>
    (\<forall>s k h s'. jv_room (\<alpha> s) \<noteq> 0 \<longrightarrow> AllocObject J s k = (h, s') \<longrightarrow>
       (\<exists>ob. fresh (\<alpha> s) h ob \<and> \<alpha> s' = add_obj (\<alpha> s) h ob (CObj k Map.empty Map.empty)))
  \<and> (\<forall>s t n h s'. jv_room (\<alpha> s) \<noteq> 0 \<longrightarrow> NewPrimArray J s t n = (h, s') \<longrightarrow>
       (\<exists>ob bs. fresh (\<alpha> s) h ob \<and> \<alpha> s' = add_obj (\<alpha> s) h ob (CPrim t (unat n) bs)))
  \<and> (\<forall>s k n h s'. jv_room (\<alpha> s) \<noteq> 0 \<longrightarrow> NewObjectArray J s k n = (h, s') \<longrightarrow>
       (\<exists>ob. fresh (\<alpha> s) h ob \<and> \<alpha> s' = add_obj (\<alpha> s) h ob (CRefs k (replicate (unat n) 0))))
  \<and> (\<forall>s t h f bs ob k P R. jv_handles (\<alpha> s) h = Some ob \<longrightarrow> jv_objs (\<alpha> s) ob = Some (CObj k P R) \<longrightarrow>
       \<alpha> (SetPrimField J s t h f bs) = set_obj (\<alpha> s) ob (CObj k (P(f \<mapsto> bs)) R))
  \<and> (\<forall>s h f m mo ob k P R. jv_handles (\<alpha> s) h = Some ob \<longrightarrow> jv_objs (\<alpha> s) ob = Some (CObj k P R) \<longrightarrow> deref (\<alpha> s) m = Some mo \<longrightarrow>
       \<alpha> (SetObjectField J s h f m) = set_obj (\<alpha> s) ob (CObj k P (R(f \<mapsto> mo))))
  \<and> (\<forall>s h i m mo ob k xs. jv_handles (\<alpha> s) h = Some ob \<longrightarrow> jv_objs (\<alpha> s) ob = Some (CRefs k xs) \<longrightarrow> deref (\<alpha> s) m = Some mo \<longrightarrow>
       unat i < length xs \<longrightarrow> \<alpha> (SetObjectArrayElement J s h i m) = set_obj (\<alpha> s) ob (CRefs k (xs[unat i := mo])))
  \<and> (\<forall>s h ob n cs bs len. jv_handles (\<alpha> s) h = Some ob \<longrightarrow> jv_objs (\<alpha> s) ob = Some (CPrim T_BYTE n cs) \<longrightarrow> unat len = n \<longrightarrow> length bs = n \<longrightarrow>
       \<alpha> (SetByteArrayRegion J s h 0 len bs) = set_obj (\<alpha> s) ob (CPrim T_BYTE n bs))
  \<and> (\<forall>s h ob t n bs. jv_handles (\<alpha> s) h = Some ob \<longrightarrow> jv_objs (\<alpha> s) ob = Some (CPrim t (unat n) bs) \<longrightarrow> GetArrayLength J s h = n)
  \<and> (\<forall>s h. \<alpha> (DeleteLocalRef J s h) = (\<alpha> s)\<lparr>jv_handles := (jv_handles (\<alpha> s))(h := None)\<rparr>)
  \<and> (\<forall>s. ExceptionCheck J s = jv_exception (\<alpha> s))"

end
