(* ===== verification/Round_Trip.thy ===== *)
theory Round_Trip
  imports Object_Reviver
begin

text \<open>
  The deserializer undoes the serializer: the relation between objects of the JVM and the trees
  of the serialized form, and the proof that reading the bytes of a tree builds fresh objects
  that represent it.
\<close>

section \<open>Bytes of a prefix\<close>

text \<open>The lists agree from \<open>a\<close> up to \<open>b\<close>.\<close>

definition same_on :: "'a list \<Rightarrow> 'a list \<Rightarrow> nat \<Rightarrow> nat \<Rightarrow> bool" where
  "same_on d v a b \<longleftrightarrow> b \<le> length d \<and> b \<le> length v \<and> (\<forall>i. a \<le> i \<and> i < b \<longrightarrow> d ! i = v ! i)"

lemma same_on_chunk: "same_on d v a b \<Longrightarrow> a \<le> off \<Longrightarrow> off + n \<le> b \<Longrightarrow> chunk d off n = chunk v off n"
  by (auto simp: same_on_def list_eq_iff_nth_eq)

lemma same_on_sub: "same_on d v a b \<Longrightarrow> a \<le> a' \<Longrightarrow> b' \<le> b \<Longrightarrow> same_on d v a' b'"
  by (auto simp: same_on_def)

lemma same_on_eq:
  "same_on d v a b \<Longrightarrow> b \<le> length v' \<Longrightarrow> (\<And>i. a \<le> i \<Longrightarrow> i < b \<Longrightarrow> v ! i = v' ! i) \<Longrightarrow> same_on d v' a b"
  by (auto simp: same_on_def)

lemma get_at_same:
  "same_on (rw_b b) v lo hi \<Longrightarrow> lo \<le> off \<Longrightarrow> off + n \<le> hi \<Longrightarrow> get_at b n off = Inr (chunk v off n)"
  using same_on_chunk [of "rw_b b" v lo hi off n] by (auto simp: get_at_def same_on_def)

lemma nth_take_eq: "take k ys = take k xs \<Longrightarrow> i < k \<Longrightarrow> ys ! i = xs ! i"
  by (metis nth_take)

lemma ser_nth: "i < length u \<Longrightarrow> ser cv eid t u ! i = u ! i"
  by (rule nth_take_eq [OF ser_prefix(1) [OF order_refl]])

lemma ser_elems_nth: "i < length u \<Longrightarrow> ser_elems cv eid ts u ! i = u ! i"
  by (rule nth_take_eq [OF ser_prefix(3) [OF order_refl]])

lemma ser_fields_nth:
  "i < length u \<Longrightarrow> \<forall>f \<in> set fs. base + unat (fi_offset f) + 4 \<le> length u
     \<and> (i < base + unat (fi_offset f) \<or> base + unat (fi_offset f) + 4 \<le> i) \<Longrightarrow>
   ser_fields cv base fs ts u ! i = u ! i"
proof (induction fs arbitrary: ts u)
  case Nil
  then show ?case by (cases ts) simp_all
next
  case (Cons f fs)
  show ?case
  proof (cases ts)
    case Nil
    then show ?thesis by simp
  next
    case (Cons t ts')
    let ?v = "ser cv (fi_id f) t u"
    have l: "length u \<le> length ?v" by (rule ser_length_ge)
    let ?p = "patch ?v (base + unat (fi_offset f)) (u32_bytes (of_nat (length (pad8 u))))"
    have lp: "length ?p = length ?v" using Cons.prems l by simp
    have "?p ! i = ?v ! i" using Cons.prems l by (auto simp: nth_patch)
    moreover have "ser_fields cv base fs ts' ?p ! i = ?p ! i" using Cons.prems l lp by (intro Cons.IH) auto
    ultimately show ?thesis using Cons.prems(1) Cons by (simp add: ser_nth)
  qed
qed

section \<open>Objects that represent a tree\<close>

text \<open>
  \<open>rv r D m ob t\<close>: in the heap \<open>m\<close> of a JVM, the object \<open>ob\<close> represents the tree \<open>t\<close>, and neither
  it nor an object below it is in \<open>D\<close>. Every primitive field holds its bytes of the tree's body,
  every reference field and array element an object that represents the member.
\<close>

fun rv :: "ClassResolver \<Rightarrow> u64 set \<Rightarrow> (u64 \<rightharpoonup> jcell) \<Rightarrow> u64 \<Rightarrow> jtree \<Rightarrow> bool"
and rv_fields :: "ClassResolver \<Rightarrow> u64 set \<Rightarrow> (u64 \<rightharpoonup> jcell) \<Rightarrow> (u64 \<rightharpoonup> u64) \<Rightarrow> field_info_t list \<Rightarrow> jtree list \<Rightarrow> bool"
and rv_elems :: "ClassResolver \<Rightarrow> u64 set \<Rightarrow> (u64 \<rightharpoonup> jcell) \<Rightarrow> u64 list \<Rightarrow> jtree list \<Rightarrow> bool" where
  "rv r D m ob JNull \<longleftrightarrow> ob = 0"
| "rv r D m ob (JEnum ci n) \<longleftrightarrow> False"
| "rv r D m ob (JObj ci body ts) \<longleftrightarrow> ob \<noteq> 0 \<and> ob \<notin> D \<and> (case m ob of Some (CObj k P R) \<Rightarrow> k = ci_klass ci
     \<and> (\<forall>f \<in> set (ci_fields ci). is_primitive_type (fi_type f) \<longrightarrow>
          P (fi_j_field_id f) = Some (chunk body (unat (fi_offset f)) (field_size f)))
     \<and> rv_fields r D m R (ref_fields ci) ts | _ \<Rightarrow> False)"
| "rv r D m ob (JPrims ci n elems) \<longleftrightarrow> ob \<noteq> 0 \<and> ob \<notin> D \<and> m ob = Some (CPrim (fi_type (ci_fields ci ! 0)) (unat n) elems)"
| "rv r D m ob (JRefs ci ts) \<longleftrightarrow> ob \<noteq> 0 \<and> ob \<notin> D \<and> (case m ob of Some (CRefs k xs) \<Rightarrow>
     map_option ci_klass (info_by_class_id r (fi_id (ci_fields ci ! 0))) = Some k \<and> rv_elems r D m xs ts | _ \<Rightarrow> False)"
| "rv_fields r D m R (f # fs) (t # ts) \<longleftrightarrow>
     (case R (fi_j_field_id f) of Some p \<Rightarrow> rv r D m p t | None \<Rightarrow> False) \<and> rv_fields r D m R fs ts"
| "rv_fields r D m R [] [] \<longleftrightarrow> True"
| "rv_fields r D m R _ _ \<longleftrightarrow> False"
| "rv_elems r D m (p # ps) (t # ts) \<longleftrightarrow> rv r D m p t \<and> rv_elems r D m ps ts"
| "rv_elems r D m [] [] \<longleftrightarrow> True"
| "rv_elems r D m _ _ \<longleftrightarrow> False"

text \<open>What a representation depends on: the objects outside \<open>D\<close>.\<close>

lemma rv_frame:
  "rv r D m ob t \<Longrightarrow> D' \<subseteq> D \<Longrightarrow> \<forall>x \<in> dom m - D. m' x = m x \<Longrightarrow> rv r D' m' ob t"
  "rv_fields r D m R fs ts \<Longrightarrow> D' \<subseteq> D \<Longrightarrow> \<forall>x \<in> dom m - D. m' x = m x \<Longrightarrow> rv_fields r D' m' R fs ts"
  "rv_elems r D m ps ts \<Longrightarrow> D' \<subseteq> D \<Longrightarrow> \<forall>x \<in> dom m - D. m' x = m x \<Longrightarrow> rv_elems r D' m' ps ts"
proof (induction r D m ob t and r D m R fs ts and r D m ps ts rule: rv_rv_fields_rv_elems.induct)
  case (3 r D m ob ci body ts)
  then obtain P R where c: "m ob = Some (CObj (ci_klass ci) P R)" by (auto split: option.splits jcell.splits)
  moreover from this 3 have "m' ob = m ob" by (metis DiffI domI rv.simps(3))
  ultimately show ?case using 3 by (auto split: option.splits jcell.splits)
next
  case (4 r D m ob ci n elems)
  then have "m' ob = m ob" by (metis DiffI domI rv.simps(4))
  then show ?case using 4 by auto
next
  case (5 r D m ob ci ts)
  then obtain k xs where c: "m ob = Some (CRefs k xs)" by (auto split: option.splits jcell.splits)
  moreover from this 5 have "m' ob = m ob" by (metis DiffI domI rv.simps(5))
  ultimately show ?case using 5 by (auto split: option.splits jcell.splits)
qed (auto split: option.splits)

text \<open>The number of objects of a tree.\<close>

fun nodes :: "jtree \<Rightarrow> nat" where
  "nodes (JObj ci body ts) = Suc (sum_list (map nodes ts))"
| "nodes (JRefs ci ts) = Suc (sum_list (map nodes ts))"
| "nodes JNull = 0"
| "nodes _ = 1"

text \<open>
  The trees the deserializer can rebuild: of registered usable classes whose fields have distinct
  JNI ids, without enum constants and with byte arrays as the only primitive arrays.
\<close>

fun revivable :: "ClassResolver \<Rightarrow> jtree \<Rightarrow> bool" where
  "revivable r JNull \<longleftrightarrow> True"
| "revivable r (JEnum ci n) \<longleftrightarrow> False"
| "revivable r (JObj ci body ts) \<longleftrightarrow> info_by_class_id r (ci_id ci) = Some ci \<and> \<not> is_enum ci \<and> is_object ci \<and> ci_wf ci
     \<and> length body = unat (object_body_size ci) \<and> distinct (map fi_j_field_id (ci_fields ci))
     \<and> length ts = length (ref_fields ci) \<and> (\<forall>t \<in> set ts. revivable r t)"
| "revivable r (JPrims ci n elems) \<longleftrightarrow> info_by_class_id r (ci_id ci) = Some ci \<and> \<not> is_enum ci \<and> is_array ci \<and> ci_dim ci = 1
     \<and> ci_fields ci \<noteq> [] \<and> fi_type (ci_fields ci ! 0) = T_BYTE \<and> length elems = unat n"
| "revivable r (JRefs ci ts) \<longleftrightarrow> info_by_class_id r (ci_id ci) = Some ci \<and> \<not> is_enum ci \<and> is_array ci
     \<and> ci_fields ci \<noteq> [] \<and> is_reference_type (fi_type (ci_fields ci ! 0)) \<and> length ts < 2 ^ 32
     \<and> info_by_class_id r (fi_id (ci_fields ci ! 0)) \<noteq> None \<and> (\<forall>t \<in> set ts. revivable r t)"

section \<open>Parsing builds a representation\<close>

text \<open>
  \<open>built\<close> describes a call of \<open>parse\<close> on a tree: the cursor is behind the bytes of the tree, the
  objects that existed are unchanged, the only new handle is the returned one, and the object it
  refers to represents the tree with new objects only. The first object becomes the root.
\<close>

definition built :: "('j \<Rightarrow> jview) \<Rightarrow> ClassResolver \<Rightarrow> jtree \<Rightarrow> 'j reviver \<Rightarrow> nat \<Rightarrow> u64 \<times> 'j reviver \<Rightarrow> bool" where
  "built \<alpha> r t st off x \<longleftrightarrow> (let (h, st') = x; v = \<alpha> (rv_j st); v' = \<alpha> (rv_j st') in
     rv_b st' = (rv_b st)\<lparr>rw_off := off\<rparr> \<and> rv_root st' = (if rv_root st = 0 then h else rv_root st)
     \<and> (\<forall>p \<in> dom (jv_objs v). jv_objs v' p = jv_objs v p) \<and> jv_exception v' = jv_exception v
     \<and> jv_room v' + nodes t = jv_room v \<and> jv_handles v h = None
     \<and> (\<exists>ob. jv_handles v' = (jv_handles v)(h := if h = 0 then None else Some ob) \<and> (h = 0 \<longleftrightarrow> ob = 0)
          \<and> rv r (dom (jv_objs v)) (jv_objs v') ob t))"

text \<open>Where a call of \<open>parse\<close> may start.\<close>

definition ready :: "('j \<Rightarrow> jview) \<Rightarrow> 'j reviver \<Rightarrow> nat \<Rightarrow> bool" where
  "ready \<alpha> st n \<longleftrightarrow> jv_handles (\<alpha> (rv_j st)) 0 = None \<and> \<not> jv_exception (\<alpha> (rv_j st)) \<and> n \<le> jv_room (\<alpha> (rv_j st))"

definition parses_up_to :: "nat \<Rightarrow> ('j \<Rightarrow> jview) \<Rightarrow> ClassResolver \<Rightarrow> (class_info_t \<Rightarrow> u8 list \<Rightarrow> u8 list) \<Rightarrow> 'j parse_fn \<Rightarrow> bool" where
  "parses_up_to n \<alpha> r cv pf \<longleftrightarrow> (\<forall>t eid u st. depth t \<le> n \<longrightarrow> revivable r t \<longrightarrow> ready \<alpha> st (nodes t) \<longrightarrow>
     rw_off (rv_b st) = length u \<longrightarrow> same_on (rw_b (rv_b st)) (ser cv eid t u) (length u) (length (ser cv eid t u)) \<longrightarrow>
     (\<exists>x. pf eid st = Inr x \<and> built \<alpha> r t st (length (ser cv eid t u)) x))"

lemma parses_up_toD:
  assumes "parses_up_to n \<alpha> r cv pf" "depth t \<le> n" "revivable r t" "ready \<alpha> st (nodes t)" "rw_off (rv_b st) = length u"
    "same_on (rw_b (rv_b st)) (ser cv eid t u) (length u) (length (ser cv eid t u))"
  obtains x where "pf eid st = Inr x" "built \<alpha> r t st (length (ser cv eid t u)) x"
  using assms unfolding parses_up_to_def by blast

text \<open>The laws of JNI one by one.\<close>

lemma jni_lawsD:
  assumes "jni_laws J \<alpha>"
  shows "jv_room (\<alpha> s) \<noteq> 0 \<Longrightarrow> AllocObject J s k = (h, s') \<Longrightarrow>
       \<exists>ob. fresh (\<alpha> s) h ob \<and> \<alpha> s' = add_obj (\<alpha> s) h ob (CObj k Map.empty Map.empty)"
    and "jv_room (\<alpha> s) \<noteq> 0 \<Longrightarrow> NewPrimArray J s t n = (h, s') \<Longrightarrow>
       \<exists>ob bs. fresh (\<alpha> s) h ob \<and> \<alpha> s' = add_obj (\<alpha> s) h ob (CPrim t (unat n) bs)"
    and "jv_room (\<alpha> s) \<noteq> 0 \<Longrightarrow> NewObjectArray J s k n = (h, s') \<Longrightarrow>
       \<exists>ob. fresh (\<alpha> s) h ob \<and> \<alpha> s' = add_obj (\<alpha> s) h ob (CRefs k (replicate (unat n) 0))"
    and "jv_handles (\<alpha> s) h = Some ob \<Longrightarrow> jv_objs (\<alpha> s) ob = Some (CObj k P R) \<Longrightarrow>
       \<alpha> (SetPrimField J s t h f bs) = set_obj (\<alpha> s) ob (CObj k (P(f \<mapsto> bs)) R)"
    and "jv_handles (\<alpha> s) h = Some ob \<Longrightarrow> jv_objs (\<alpha> s) ob = Some (CObj k P R) \<Longrightarrow> deref (\<alpha> s) m = Some mo \<Longrightarrow>
       \<alpha> (SetObjectField J s h f m) = set_obj (\<alpha> s) ob (CObj k P (R(f \<mapsto> mo)))"
    and "jv_handles (\<alpha> s) h = Some ob \<Longrightarrow> jv_objs (\<alpha> s) ob = Some (CRefs k xs) \<Longrightarrow> deref (\<alpha> s) m = Some mo \<Longrightarrow>
       unat i < length xs \<Longrightarrow> \<alpha> (SetObjectArrayElement J s h i m) = set_obj (\<alpha> s) ob (CRefs k (xs[unat i := mo]))"
    and "jv_handles (\<alpha> s) h = Some ob \<Longrightarrow> jv_objs (\<alpha> s) ob = Some (CPrim T_BYTE n' cs) \<Longrightarrow> unat len = n' \<Longrightarrow> length bs = n' \<Longrightarrow>
       \<alpha> (SetByteArrayRegion J s h 0 len bs) = set_obj (\<alpha> s) ob (CPrim T_BYTE n' bs)"
    and "jv_handles (\<alpha> s) h = Some ob \<Longrightarrow> jv_objs (\<alpha> s) ob = Some (CPrim t (unat n) bs) \<Longrightarrow> GetArrayLength J s h = n"
    and "\<alpha> (DeleteLocalRef J s h) = (\<alpha> s)\<lparr>jv_handles := (jv_handles (\<alpha> s))(h := None)\<rparr>"
    and "ExceptionCheck J s = jv_exception (\<alpha> s)"
  using assms unfolding jni_laws_def by simp_all

text \<open>
  Storing a member in its owner \<open>ob\<close> and giving up its handle: only \<open>ob\<close> differs from before the
  member was parsed, among the objects that existed then.
\<close>

definition stored :: "('j \<Rightarrow> jview) \<Rightarrow> 'j reviver \<Rightarrow> u64 \<Rightarrow> jcell \<Rightarrow> nat \<Rightarrow> 'j reviver \<Rightarrow> bool" where
  "stored \<alpha> st ob c n st' \<longleftrightarrow> (let v = \<alpha> (rv_j st); v' = \<alpha> (rv_j st') in
     jv_handles v' = jv_handles v \<and> jv_exception v' = jv_exception v \<and> jv_room v' + n = jv_room v
     \<and> jv_objs v' ob = Some c \<and> (\<forall>p \<in> dom (jv_objs v) - {ob}. jv_objs v' p = jv_objs v p)
     \<and> rv_root st' = rv_root st)"

lemma stored_trans:
  assumes "stored \<alpha> st ob c n st1" "stored \<alpha> st1 ob c' n' st2"
  shows "stored \<alpha> st ob c' (n + n') st2"
proof -
  have "p \<in> dom (jv_objs (\<alpha> (rv_j st1)))" if "p \<in> dom (jv_objs (\<alpha> (rv_j st))) - {ob}" for p
    using assms(1) that by (simp add: stored_def Let_def) (metis DiffI domIff insertE empty_iff that)
  then show ?thesis using assms by (simp add: stored_def Let_def)
qed

lemma built_member:
  assumes J: "jni_laws J \<alpha>" and b: "built \<alpha> r t st off (m, st1)"
    and h: "jv_handles (\<alpha> (rv_j st)) h = Some ob" and ob: "jv_objs (\<alpha> (rv_j st)) ob = Some c" and root: "rv_root st \<noteq> 0"
  obtains mo where "deref (\<alpha> (rv_j st1)) m = Some mo" "jv_handles (\<alpha> (rv_j st1)) h = Some ob" "jv_objs (\<alpha> (rv_j st1)) ob = Some c"
    "\<And>j2 c'. \<alpha> j2 = set_obj (\<alpha> (rv_j st1)) ob c' \<Longrightarrow> stored \<alpha> st ob c' (nodes t) (st1\<lparr>rv_j := DeleteLocalRef J j2 m\<rparr>)
       \<and> rv r (dom (jv_objs (\<alpha> (rv_j st)))) (jv_objs (\<alpha> (DeleteLocalRef J j2 m))) mo t"
proof -
  let ?v = "\<alpha> (rv_j st)" and ?v1 = "\<alpha> (rv_j st1)"
  from b obtain mo where mo: "jv_handles ?v1 = (jv_handles ?v)(m := if m = 0 then None else Some mo)" "m = 0 \<longleftrightarrow> mo = 0"
    "rv r (dom (jv_objs ?v)) (jv_objs ?v1) mo t"
    and m: "jv_handles ?v m = None" and old: "\<forall>p \<in> dom (jv_objs ?v). jv_objs ?v1 p = jv_objs ?v p"
    and rest: "jv_exception ?v1 = jv_exception ?v" "jv_room ?v1 + nodes t = jv_room ?v" "rv_root st1 = rv_root st"
    using root by (auto simp: built_def Let_def)
  have hm: "h \<noteq> m" using h m by auto
  have 1: "deref ?v1 m = Some mo" using mo by (simp add: deref_def)
  have 2: "jv_handles ?v1 h = Some ob" using mo(1) hm h by simp
  have 3: "jv_objs ?v1 ob = Some c" using old ob by (metis domI)
  have 4: "stored \<alpha> st ob c' (nodes t) (st1\<lparr>rv_j := DeleteLocalRef J j2 m\<rparr>)
       \<and> rv r (dom (jv_objs ?v)) (jv_objs (\<alpha> (DeleteLocalRef J j2 m))) mo t" if j2: "\<alpha> j2 = set_obj ?v1 ob c'" for j2 c'
  proof -
    let ?v2 = "\<alpha> (DeleteLocalRef J j2 m)"
    have v2: "?v2 = ?v1\<lparr>jv_objs := (jv_objs ?v1)(ob \<mapsto> c'), jv_handles := (jv_handles ?v1)(m := None)\<rparr>"
      using jni_lawsD(9) [OF J, of j2 m] j2 by (simp add: set_obj_def)
    have "jv_handles ?v2 = jv_handles ?v" using m mo(1) by (auto simp: v2 fun_upd_idem)
    moreover have "rv r (dom (jv_objs ?v)) (jv_objs ?v2) mo t"
      using ob by (intro rv_frame(1) [OF mo(3)]) (auto simp: v2)
    ultimately show ?thesis using rest old by (simp add: stored_def v2)
  qed
  show thesis by (rule that [OF 1 2 3 4])
qed

abbreviation refs_of :: "field_info_t list \<Rightarrow> field_info_t list" where
  "refs_of fs \<equiv> filter (\<lambda>f. is_reference_type (fi_type f)) fs"

text \<open>The cell of an object after the fields \<open>fs\<close> have been set from a body and members.\<close>

definition fields_set :: "ClassResolver \<Rightarrow> u64 set \<Rightarrow> (u64 \<rightharpoonup> jcell) \<Rightarrow> u8 list \<Rightarrow> field_info_t list \<Rightarrow> jtree list
    \<Rightarrow> (u64 \<rightharpoonup> u8 list) \<Rightarrow> (u64 \<rightharpoonup> u64) \<Rightarrow> (u64 \<rightharpoonup> u8 list) \<Rightarrow> (u64 \<rightharpoonup> u64) \<Rightarrow> bool" where
  "fields_set r D m body fs ts P R P' R' \<longleftrightarrow>
     (\<forall>x. x \<notin> fi_j_field_id ` set fs \<longrightarrow> P' x = P x \<and> R' x = R x)
   \<and> (\<forall>f \<in> set fs. is_primitive_type (fi_type f) \<longrightarrow> P' (fi_j_field_id f) = Some (chunk body (unat (fi_offset f)) (field_size f)))
   \<and> rv_fields r D m R' (refs_of fs) ts"

lemma ser_fields_member:
  assumes "same_on d (ser_fields cv base (f # fs) (t # ts) u) k (length (ser_fields cv base (f # fs) (t # ts) u))"
    and k: "k \<le> length u" "\<forall>g \<in> set (f # fs). base + unat (fi_offset g) + 4 \<le> k"
  shows "same_on d (ser cv (fi_id f) t u) (length u) (length (ser cv (fi_id f) t u))"
    "length (patch (ser cv (fi_id f) t u) (base + unat (fi_offset f)) (u32_bytes x)) = length (ser cv (fi_id f) t u)"
proof -
  let ?w = "ser cv (fi_id f) t u"
  let ?p = "patch ?w (base + unat (fi_offset f)) (u32_bytes (of_nat (length (pad8 u))))"
  let ?V = "ser_fields cv base fs ts ?p"
  have lw: "length u \<le> length ?w" by (rule ser_length_ge)
  then show lp: "length (patch ?w (base + unat (fi_offset f)) (u32_bytes x)) = length ?w" for x using k by auto
  have lV: "length ?w \<le> length ?V" using ser_length(2) lp by metis
  have V: "same_on d ?V k (length ?V)" using assms(1) by simp
  show "same_on d ?w (length u) (length ?w)"
  proof (rule same_on_eq [OF same_on_sub [OF V k(1) lV] order_refl])
    fix x
    assume x: "length u \<le> x" "x < length ?w"
    have "?V ! x = ?p ! x" using x k lp by (intro ser_fields_nth) auto
    also have "\<dots> = ?w ! x" using x k lw by (auto simp: nth_patch)
    finally show "?V ! x = ?w ! x" .
  qed
qed

text \<open>One field: a primitive one is copied, a reference is parsed, stored and released.\<close>

lemma parse_field_prim:
  assumes J: "jni_laws (v_jni E) \<alpha>" and prim: "is_primitive_type (fi_type f)"
    and c: "get_at (rv_b st) (field_size f) (base + unat (fi_offset f)) = Inr c"
    and h: "jv_handles (\<alpha> (rv_j st)) h = Some ob" "jv_objs (\<alpha> (rv_j st)) ob = Some (CObj K P R)"
  obtains j where "parse_field pf E base h f st = Inr (st\<lparr>rv_j := j\<rparr>)"
    "stored \<alpha> st ob (CObj K (P(fi_j_field_id f \<mapsto> c)) R) 0 (st\<lparr>rv_j := j\<rparr>)"
    "dom (jv_objs (\<alpha> j)) = dom (jv_objs (\<alpha> (rv_j st)))"
proof -
  let ?j = "SetPrimField (v_jni E) (rv_j st) (fi_type f) h (fi_j_field_id f) c"
  obtain s where s: "type_size (fi_type f) = Inr s" using prim by (rule type_size_prim)
  have j: "\<alpha> ?j = set_obj (\<alpha> (rv_j st)) ob (CObj K (P(fi_j_field_id f \<mapsto> c)) R)"
    by (rule jni_lawsD(4) [OF J h])
  show thesis
  proof (rule that)
    show "parse_field pf E base h f st = Inr (st\<lparr>rv_j := ?j\<rparr>)"
      using prim s c by (simp add: parse_field_def field_size_def)
    show "stored \<alpha> st ob (CObj K (P(fi_j_field_id f \<mapsto> c)) R) 0 (st\<lparr>rv_j := ?j\<rparr>)"
      by (auto simp: stored_def j set_obj_def)
    show "dom (jv_objs (\<alpha> ?j)) = dom (jv_objs (\<alpha> (rv_j st)))" using h(2) by (auto simp: j set_obj_def)
  qed
qed

lemma parse_field_ref:
  assumes J: "jni_laws (v_jni E) \<alpha>" and pf: "parses_up_to n \<alpha> r cv pf" and rf: "is_reference_type (fi_type f)"
    and t: "depth t \<le> n" "revivable r t" "ready \<alpha> st (nodes t)" "rw_off (rv_b st) = length u"
      "same_on (rw_b (rv_b st)) (ser cv (fi_id f) t u) (length u) (length (ser cv (fi_id f) t u))"
    and h: "jv_handles (\<alpha> (rv_j st)) h = Some ob" "jv_objs (\<alpha> (rv_j st)) ob = Some (CObj K P R)" "rv_root st \<noteq> 0"
  obtains st2 mo where "parse_field pf E base h f st = Inr st2"
    "rv_b st2 = (rv_b st)\<lparr>rw_off := length (ser cv (fi_id f) t u)\<rparr>"
    "stored \<alpha> st ob (CObj K P (R(fi_j_field_id f \<mapsto> mo))) (nodes t) st2"
    "rv r (dom (jv_objs (\<alpha> (rv_j st)))) (jv_objs (\<alpha> (rv_j st2))) mo t"
proof -
  let ?J = "v_jni E" and ?w = "ser cv (fi_id f) t u" and ?v = "\<alpha> (rv_j st)"
  obtain m st1 where m: "pf (fi_id f) st = Inr (m, st1)" "built \<alpha> r t st (length ?w) (m, st1)"
    by (rule parses_up_toD [OF pf t]) auto
  obtain mo where mo: "deref (\<alpha> (rv_j st1)) m = Some mo" "jv_handles (\<alpha> (rv_j st1)) h = Some ob" "jv_objs (\<alpha> (rv_j st1)) ob = Some (CObj K P R)"
    "\<And>j2 c'. \<alpha> j2 = set_obj (\<alpha> (rv_j st1)) ob c' \<Longrightarrow> stored \<alpha> st ob c' (nodes t) (st1\<lparr>rv_j := DeleteLocalRef ?J j2 m\<rparr>)
       \<and> rv r (dom (jv_objs ?v)) (jv_objs (\<alpha> (DeleteLocalRef ?J j2 m))) mo t"
    by (rule built_member [OF J m(2) h]) blast
  let ?j2 = "SetObjectField ?J (rv_j st1) h (fi_j_field_id f) m"
  let ?st2 = "st1\<lparr>rv_j := DeleteLocalRef ?J ?j2 m\<rparr>"
  have 1: "parse_field pf E base h f st = Inr ?st2" using rf prim_not_ref m(1) by (auto simp: parse_field_def)
  have 2: "rv_b ?st2 = (rv_b st)\<lparr>rw_off := length ?w\<rparr>" using m(2) by (simp add: built_def Let_def)
  have 3: "stored \<alpha> st ob (CObj K P (R(fi_j_field_id f \<mapsto> mo))) (nodes t) ?st2" "rv r (dom (jv_objs ?v)) (jv_objs (\<alpha> (rv_j ?st2))) mo t"
    using mo(4) [OF jni_lawsD(5) [OF J mo(2,3,1)]] by simp_all
  show thesis by (rule that [OF 1 2 3])
qed

text \<open>A member built before the rest of the owner's fields still represents its tree after them.\<close>

lemma stored_dom:
  assumes "stored \<alpha> st ob c n st'"
  shows "dom (jv_objs (\<alpha> (rv_j st))) \<subseteq> dom (jv_objs (\<alpha> (rv_j st')))"
proof
  fix p
  assume "p \<in> dom (jv_objs (\<alpha> (rv_j st)))"
  then show "p \<in> dom (jv_objs (\<alpha> (rv_j st')))"
    using assms by (cases "p = ob") (simp_all add: stored_def Let_def domIff)
qed

lemma rv_stored:
  assumes "rv r D (jv_objs (\<alpha> (rv_j st))) p t" "stored \<alpha> st ob c n st'" "ob \<in> D"
  shows "rv r D (jv_objs (\<alpha> (rv_j st'))) p t"
  using assms(2,3) by (intro rv_frame(1) [OF assms(1)]) (auto simp: stored_def Let_def)

lemma parse_fields_ok:
  assumes J: "jni_laws (v_jni E) \<alpha>" and pf: "parses_up_to n \<alpha> r cv pf"
    and js: "\<forall>i \<in> set js. i < length (ci_fields ci) \<and> (is_primitive_type (fi_type (ci_fields ci ! i)) \<or> is_reference_type (fi_type (ci_fields ci ! i)))"
    and "distinct (map fi_j_field_id (map ((!) (ci_fields ci)) js))"
    and "length ts = length (refs_of (map ((!) (ci_fields ci)) js))" "\<forall>t \<in> set ts. depth t \<le> n \<and> revivable r t"
    and "k \<le> length u" "\<forall>f \<in> set (refs_of (map ((!) (ci_fields ci)) js)). base + unat (fi_offset f) + 4 \<le> k"
    and "\<forall>f \<in> set (map ((!) (ci_fields ci)) js). is_primitive_type (fi_type f) \<longrightarrow>
      get_at (rv_b st) (field_size f) (base + unat (fi_offset f)) = Inr (chunk body (unat (fi_offset f)) (field_size f))"
    and "same_on (rw_b (rv_b st)) (ser_fields cv base (refs_of (map ((!) (ci_fields ci)) js)) ts u) k
      (length (ser_fields cv base (refs_of (map ((!) (ci_fields ci)) js)) ts u))"
    and "rw_off (rv_b st) = length u" "ready \<alpha> st (sum_list (map nodes ts))"
    and "jv_handles (\<alpha> (rv_j st)) h = Some ob" "jv_objs (\<alpha> (rv_j st)) ob = Some (CObj K P R)" "rv_root st \<noteq> 0"
  shows "\<exists>st' P' R'. parse_fields pf E ci base h js st = Inr st'
    \<and> rv_b st' = (rv_b st)\<lparr>rw_off := length (ser_fields cv base (refs_of (map ((!) (ci_fields ci)) js)) ts u)\<rparr>
    \<and> stored \<alpha> st ob (CObj K P' R') (sum_list (map nodes ts)) st'
    \<and> fields_set r (dom (jv_objs (\<alpha> (rv_j st)))) (jv_objs (\<alpha> (rv_j st'))) body (map ((!) (ci_fields ci)) js) ts P R P' R'"
  using assms(3-15)
proof (induction js arbitrary: ts u st P R)
  case Nil
  then show ?case by (auto simp: stored_def fields_set_def)
next
  case (Cons i js)
  let ?f = "ci_fields ci ! i" and ?fs = "map ((!) (ci_fields ci)) js" and ?v = "\<alpha> (rv_j st)"
  have f: "get_field ci i = Inr ?f" using Cons.prems(1) by (simp add: get_field_def)
  show ?case
  proof (cases "is_primitive_type (fi_type ?f)")
    case True
    then have nr: "\<not> is_reference_type (fi_type ?f)" by (rule prim_not_ref)
    let ?c = "chunk body (unat (fi_offset ?f)) (field_size ?f)"
    obtain j where j: "parse_field pf E base h ?f st = Inr (st\<lparr>rv_j := j\<rparr>)"
      "stored \<alpha> st ob (CObj K (P(fi_j_field_id ?f \<mapsto> ?c)) R) 0 (st\<lparr>rv_j := j\<rparr>)" "dom (jv_objs (\<alpha> j)) = dom (jv_objs ?v)"
      by (rule parse_field_prim [OF J True _ Cons.prems(11,12)]) (use Cons.prems(7) True in auto)
    have "\<exists>st' P' R'. parse_fields pf E ci base h js (st\<lparr>rv_j := j\<rparr>) = Inr st'
      \<and> rv_b st' = (rv_b (st\<lparr>rv_j := j\<rparr>))\<lparr>rw_off := length (ser_fields cv base (refs_of ?fs) ts u)\<rparr>
      \<and> stored \<alpha> (st\<lparr>rv_j := j\<rparr>) ob (CObj K P' R') (sum_list (map nodes ts)) st'
      \<and> fields_set r (dom (jv_objs (\<alpha> (rv_j (st\<lparr>rv_j := j\<rparr>))))) (jv_objs (\<alpha> (rv_j st'))) body ?fs ts (P(fi_j_field_id ?f \<mapsto> ?c)) R P' R'"
      by (rule Cons.IH [where u = u]) (use Cons.prems nr j(2) in \<open>auto simp: stored_def Let_def ready_def\<close>)
    then obtain st' P' R' where
      1: "parse_fields pf E ci base h js (st\<lparr>rv_j := j\<rparr>) = Inr st'"
      "rv_b st' = (rv_b st)\<lparr>rw_off := length (ser_fields cv base (refs_of ?fs) ts u)\<rparr>"
      "stored \<alpha> (st\<lparr>rv_j := j\<rparr>) ob (CObj K P' R') (sum_list (map nodes ts)) st'"
      "fields_set r (dom (jv_objs ?v)) (jv_objs (\<alpha> (rv_j st'))) body ?fs ts (P(fi_j_field_id ?f \<mapsto> ?c)) R P' R'"
      using j(3) by auto
    have "stored \<alpha> st ob (CObj K P' R') (sum_list (map nodes ts)) st'" using stored_trans [OF j(2) 1(3)] by simp
    moreover have "fields_set r (dom (jv_objs ?v)) (jv_objs (\<alpha> (rv_j st'))) body (map ((!) (ci_fields ci)) (i # js)) ts P R P' R'"
      using 1(4) nr Cons.prems(2) by (auto simp: fields_set_def)
    ultimately show ?thesis using 1(1,2) nr by (auto simp: f j(1))
  next
    case False
    then have rf: "is_reference_type (fi_type ?f)" using Cons.prems(1) by simp
    then obtain t ts' where ts: "ts = t # ts'" using Cons.prems(3) by (cases ts) auto
    let ?w = "ser cv (fi_id ?f) t u"
    let ?p = "patch ?w (base + unat (fi_offset ?f)) (u32_bytes (of_nat (length (pad8 u))))"
    let ?V = "ser_fields cv base (refs_of ?fs) ts' ?p"
    have V: "same_on (rw_b (rv_b st)) ?V k (length ?V)" using Cons.prems(8) rf ts by simp
    have w: "same_on (rw_b (rv_b st)) ?w (length u) (length ?w)" "length ?p = length ?w"
      using ser_fields_member [of "rw_b (rv_b st)" cv base ?f "refs_of ?fs" t ts' u k] Cons.prems(5,6,8) rf ts by simp_all
    obtain st2 mo where st2: "parse_field pf E base h ?f st = Inr st2" "rv_b st2 = (rv_b st)\<lparr>rw_off := length ?w\<rparr>"
      "stored \<alpha> st ob (CObj K P (R(fi_j_field_id ?f \<mapsto> mo))) (nodes t) st2" "rv r (dom (jv_objs ?v)) (jv_objs (\<alpha> (rv_j st2))) mo t"
      by (rule parse_field_ref [OF J pf rf _ _ _ Cons.prems(9) w(1) Cons.prems(11-13)]) (use Cons.prems(4,10) ts in \<open>auto simp: ready_def\<close>)
    have "\<exists>st' P' R'. parse_fields pf E ci base h js st2 = Inr st' \<and> rv_b st' = (rv_b st2)\<lparr>rw_off := length ?V\<rparr>
      \<and> stored \<alpha> st2 ob (CObj K P' R') (sum_list (map nodes ts')) st'
      \<and> fields_set r (dom (jv_objs (\<alpha> (rv_j st2)))) (jv_objs (\<alpha> (rv_j st'))) body ?fs ts' P (R(fi_j_field_id ?f \<mapsto> mo)) P' R'"
      by (rule Cons.IH [where u = ?p])
         (use Cons.prems st2(2,3) rf ts V w(2) ser_length_ge [of u cv "fi_id ?f" t] in \<open>auto simp: stored_def Let_def get_at_def ready_def\<close>)
    then obtain st' P' R' where
      1: "parse_fields pf E ci base h js st2 = Inr st'" "rv_b st' = (rv_b st)\<lparr>rw_off := length ?V\<rparr>"
      "stored \<alpha> st2 ob (CObj K P' R') (sum_list (map nodes ts')) st'"
      "fields_set r (dom (jv_objs (\<alpha> (rv_j st2)))) (jv_objs (\<alpha> (rv_j st'))) body ?fs ts' P (R(fi_j_field_id ?f \<mapsto> mo)) P' R'"
      using st2(2) by auto
    have "stored \<alpha> st ob (CObj K P' R') (sum_list (map nodes ts)) st'" using stored_trans [OF st2(3) 1(3)] ts by simp
    moreover have "fields_set r (dom (jv_objs ?v)) (jv_objs (\<alpha> (rv_j st'))) body (map ((!) (ci_fields ci)) (i # js)) ts P R P' R'"
    proof -
      have "rv r (dom (jv_objs ?v)) (jv_objs (\<alpha> (rv_j st'))) mo t"
        by (rule rv_stored [OF st2(4) 1(3)]) (use Cons.prems(12) in auto)
      moreover have "rv_fields r (dom (jv_objs ?v)) (jv_objs (\<alpha> (rv_j st'))) R' (refs_of ?fs) ts'"
        by (rule rv_frame(2) [OF _ stored_dom [OF st2(3)]]) (use 1(4) in \<open>auto simp: fields_set_def\<close>)
      ultimately show ?thesis using 1(4) False rf Cons.prems(2) ts by (auto simp: fields_set_def)
    qed
    ultimately show ?thesis using 1(1,2) rf ts by (auto simp: f st2(1))
  qed
qed

lemma parse_elems_ok:
  assumes J: "jni_laws (v_jni E) \<alpha>" and pf: "parses_up_to n \<alpha> r cv pf"
    and "\<forall>t \<in> set ts. depth t \<le> n \<and> revivable r t"
    and "same_on (rw_b (rv_b st)) (ser_elems cv eid ts u) (length u) (length (ser_elems cv eid ts u))"
    and "rw_off (rv_b st) = length u" "ready \<alpha> st (sum_list (map nodes ts))"
    and "jv_handles (\<alpha> (rv_j st)) h = Some ob" "jv_objs (\<alpha> (rv_j st)) ob = Some (CRefs K xs)" "rv_root st \<noteq> 0"
    and "length xs = i + length ts" "length xs < 2 ^ 32"
  shows "\<exists>st' ys. parse_elems pf E eid h [i..<i + length ts] st = Inr st'
    \<and> rv_b st' = (rv_b st)\<lparr>rw_off := length (ser_elems cv eid ts u)\<rparr>
    \<and> stored \<alpha> st ob (CRefs K (take i xs @ ys)) (sum_list (map nodes ts)) st'
    \<and> rv_elems r (dom (jv_objs (\<alpha> (rv_j st)))) (jv_objs (\<alpha> (rv_j st'))) ys ts"
  using assms(3-11)
proof (induction ts arbitrary: i u st xs)
  case Nil
  then show ?case by (auto simp: stored_def)
next
  case (Cons t ts)
  let ?w = "ser cv eid t u" and ?J = "v_jni E" and ?v = "\<alpha> (rv_j st)"
  let ?V = "ser_elems cv eid ts ?w"
  have lV: "length ?w \<le> length ?V" by (rule ser_length(3))
  have V: "same_on (rw_b (rv_b st)) ?V (length u) (length ?V)" using Cons.prems(2) by simp
  have w: "same_on (rw_b (rv_b st)) ?w (length u) (length ?w)"
    using same_on_sub [OF V order_refl lV] by (rule same_on_eq) (simp_all add: ser_elems_nth)
  obtain m st1 where m: "pf eid st = Inr (m, st1)" "built \<alpha> r t st (length ?w) (m, st1)"
    by (rule parses_up_toD [OF pf _ _ _ Cons.prems(3) w]) (use Cons.prems(1,4) in \<open>auto simp: ready_def\<close>)
  obtain mo where mo: "deref (\<alpha> (rv_j st1)) m = Some mo" "jv_handles (\<alpha> (rv_j st1)) h = Some ob" "jv_objs (\<alpha> (rv_j st1)) ob = Some (CRefs K xs)"
    "\<And>j2 c'. \<alpha> j2 = set_obj (\<alpha> (rv_j st1)) ob c' \<Longrightarrow> stored \<alpha> st ob c' (nodes t) (st1\<lparr>rv_j := DeleteLocalRef ?J j2 m\<rparr>)
       \<and> rv r (dom (jv_objs ?v)) (jv_objs (\<alpha> (DeleteLocalRef ?J j2 m))) mo t"
    by (rule built_member [OF J m(2) Cons.prems(5-7)]) blast
  let ?st2 = "st1\<lparr>rv_j := DeleteLocalRef ?J (SetObjectArrayElement ?J (rv_j st1) h (of_nat i) m) m\<rparr>"
  have i: "unat (of_nat i :: u32) = i" using Cons.prems(8,9) by (simp add: unat_of_nat take_bit_nat_eq_self)
  have st2: "stored \<alpha> st ob (CRefs K (xs[i := mo])) (nodes t) ?st2" "rv r (dom (jv_objs ?v)) (jv_objs (\<alpha> (rv_j ?st2))) mo t"
    using mo(4) [OF jni_lawsD(6) [OF J mo(2,3,1)], of "of_nat i"] Cons.prems(8) i by simp_all
  have b1: "rv_b ?st2 = (rv_b st)\<lparr>rw_off := length ?w\<rparr>" using m(2) by (simp add: built_def Let_def)
  have "\<exists>st' ys. parse_elems pf E eid h [Suc i..<Suc i + length ts] ?st2 = Inr st' \<and> rv_b st' = (rv_b ?st2)\<lparr>rw_off := length ?V\<rparr>
    \<and> stored \<alpha> ?st2 ob (CRefs K (take (Suc i) (xs[i := mo]) @ ys)) (sum_list (map nodes ts)) st'
    \<and> rv_elems r (dom (jv_objs (\<alpha> (rv_j ?st2)))) (jv_objs (\<alpha> (rv_j st'))) ys ts"
  proof (rule Cons.IH)
    show "same_on (rw_b (rv_b ?st2)) ?V (length ?w) (length ?V)"
      using same_on_sub [OF V ser_length_ge order_refl] b1 by simp
    show "ready \<alpha> ?st2 (sum_list (map nodes ts))" using st2(1) Cons.prems(4) by (simp add: stored_def ready_def Let_def)
  qed (use Cons.prems st2(1) b1 in \<open>auto simp: stored_def Let_def\<close>)
  then obtain st' ys where
    1: "parse_elems pf E eid h [Suc i..<Suc i + length ts] ?st2 = Inr st'" "rv_b st' = (rv_b st)\<lparr>rw_off := length ?V\<rparr>"
    "stored \<alpha> ?st2 ob (CRefs K (take (Suc i) (xs[i := mo]) @ ys)) (sum_list (map nodes ts)) st'"
    "rv_elems r (dom (jv_objs (\<alpha> (rv_j ?st2)))) (jv_objs (\<alpha> (rv_j st'))) ys ts"
    using b1 by auto
  have xs: "take (Suc i) (xs[i := mo]) = take i xs @ [mo]" using Cons.prems(8) by (simp add: take_Suc_conv_app_nth)
  have "parse_elems pf E eid h [i..<i + length (t # ts)] st = Inr st'"
    using 1(1) m(1) by (simp add: upt_conv_Cons del: upt_Suc)
  moreover have "stored \<alpha> st ob (CRefs K (take i xs @ mo # ys)) (sum_list (map nodes (t # ts))) st'"
    using stored_trans [OF st2(1) 1(3)] by (simp add: xs)
  moreover have "rv_elems r (dom (jv_objs ?v)) (jv_objs (\<alpha> (rv_j st'))) (mo # ys) (t # ts)"
    using rv_stored [OF st2(2) 1(3)] rv_frame(3) [OF 1(4) stored_dom [OF st2(1)], of "jv_objs (\<alpha> (rv_j st'))"] Cons.prems(6) by auto
  ultimately show ?case using 1(2) by auto
qed

text \<open>A new object or array that is then filled is built.\<close>

lemma built_new:
  assumes fr: "fresh (\<alpha> (rv_j st)) h ob" and j: "\<alpha> j = add_obj (\<alpha> (rv_j st)) h ob c" and room: "jv_room (\<alpha> (rv_j st)) \<noteq> 0"
    and s: "stored \<alpha> (set_root (st\<lparr>rv_b := b, rv_j := j\<rparr>) h) ob c' n st'" and b: "rv_b st' = (rv_b st)\<lparr>rw_off := off\<rparr>"
    and n: "nodes t = Suc n" and r: "rv r (dom (jv_objs (\<alpha> (rv_j st)))) (jv_objs (\<alpha> (rv_j st'))) ob t"
  shows "built \<alpha> r t st off (h, st')"
proof -
  have h: "h \<noteq> 0" "ob \<noteq> 0" "jv_handles (\<alpha> (rv_j st)) h = None" "ob \<notin> dom (jv_objs (\<alpha> (rv_j st)))" using fr by (auto simp: fresh_def)
  have "jv_objs (\<alpha> (rv_j st')) p = jv_objs (\<alpha> (rv_j st)) p" if "p \<in> dom (jv_objs (\<alpha> (rv_j st)))" for p
  proof -
    have "p \<noteq> ob" using that h(4) by auto
    then show ?thesis using s that by (auto simp: stored_def set_root_def j add_obj_def Let_def split: if_splits)
  qed
  then show ?thesis
    using s h r b n room by (auto simp: built_def stored_def set_root_def j add_obj_def Let_def split: if_splits)
qed

lemma set_root_simps [simp]:
  "rv_b (set_root st h) = rv_b st" "rv_j (set_root st h) = rv_j st" "h \<noteq> 0 \<Longrightarrow> rv_root (set_root st h) \<noteq> 0"
  by (simp_all add: set_root_def)

section \<open>Objects and arrays\<close>

lemma sorted_wrt_cases: "sorted_wrt R xs \<Longrightarrow> x \<in> set xs \<Longrightarrow> y \<in> set xs \<Longrightarrow> x \<noteq> y \<Longrightarrow> R x y \<or> R y x"
  by (induction xs) auto

text \<open>The members' offsets are written over the references of the body, never over a primitive field.\<close>

lemma ser_fields_prim:
  assumes wf: "ci_wf ci" and f: "f \<in> set (ci_fields ci)" "is_primitive_type (fi_type f)"
    and u: "length u = base" and body: "length body = unat (object_body_size ci)"
  shows "chunk (ser_fields cv base (ref_fields ci) ts (u @ body)) (base + unat (fi_offset f)) (field_size f)
    = chunk body (unat (fi_offset f)) (field_size f)"
    "unat (fi_offset f) + field_size f \<le> length body"
proof -
  let ?V = "ser_fields cv base (ref_fields ci) ts (u @ body)" and ?o = "unat (fi_offset f)" and ?s = "field_size f"
  show fit: "?o + ?s \<le> length body" using wf f(1) body by (simp add: ci_wf_def)
  have lV: "length (u @ body) \<le> length ?V" by (rule ser_length(2))
  have refs: "\<forall>g \<in> set (ref_fields ci). base + unat (fi_offset g) + 4 \<le> length (u @ body)"
    using ci_wf_refs(2) [OF wf] u body by auto
  have disj: "?o + ?s \<le> unat (fi_offset g) \<or> unat (fi_offset g) + 4 \<le> ?o" if "g \<in> set (ref_fields ci)" for g
  proof -
    have g: "g \<in> set (ci_fields ci)" "is_reference_type (fi_type g)" using that by (auto simp: ref_fields_def)
    then have "f \<noteq> g" using f(2) prim_not_ref by auto
    then show ?thesis
      using sorted_wrt_cases [OF _ f(1) g(1)] wf ref_field_size [OF g(2)] by (fastforce simp: ci_wf_def)
  qed
  have "?V ! (base + ?o + i) = (u @ body) ! (base + ?o + i)" if "i < ?s" for i
    by (rule ser_fields_nth) (use that fit refs disj u in \<open>auto dest!: disj\<close>)
  then have "chunk ?V (base + ?o) ?s = chunk (u @ body) (base + ?o) ?s"
    using fit lV u by (auto simp: list_eq_iff_nth_eq)
  then show "chunk ?V (base + ?o) ?s = chunk body ?o ?s" using u by (simp add: chunk_append_right)
qed

lemma upper_align_plus_4: "upper_align (upper_align n 8 + 4) 8 = upper_align n 8 + (8 :: nat)"
proof -
  obtain k where k: "upper_align n 8 = 8 * k" by (metis upper_align_8_mod mod_0_imp_dvd dvdE)
  have "upper_align (4 + 8 * k) 8 = upper_align 4 8 + 8 * k" by (rule upper_align_add_8)
  also have "upper_align 4 8 = (8 :: nat)" by (simp add: upper_align_def)
  finally show ?thesis by (simp add: k add.commute)
qed

lemma do_parse_object_ok:
  assumes J: "jni_laws (v_jni E) \<alpha>" and pf: "parses_up_to n \<alpha> r cv pf"
    and t: "revivable r (JObj ci body ts)" "depth (JObj ci body ts) \<le> Suc n" "ready \<alpha> st (nodes (JObj ci body ts))"
    and off: "rw_off (rv_b st) = length (pad8 u) + 4"
    and V: "V = ser cv eid (JObj ci body ts) u" "same_on (rw_b (rv_b st)) V (length u) (length V)"
  shows "\<exists>x. do_parse_object pf E ci st = Inr x \<and> built \<alpha> r (JObj ci body ts) st (length V) x"
proof -
  let ?J = "v_jni E" and ?v = "\<alpha> (rv_j st)"
  define base where "base = length (pad8 u) + 8"
  define u0 where "u0 = pad8 u @ u16_bytes (ci_id ci) @ u16_bytes OBJECT_FLAG @ replicate 4 0"
  have u0: "length u0 = base" by (simp add: u0_def base_def)
  have V': "V = ser_fields cv base (ref_fields ci) ts (u0 @ body)" by (simp add: V u0_def base_def)
  have wf: "ci_wf ci" and body: "length body = unat (object_body_size ci)" using t(1) by simp_all
  have fs: "map ((!) (ci_fields ci)) [0..<unat (ci_n_non_static_field ci)] = ci_fields ci"
    using wf map_nth [of "ci_fields ci"] by (simp add: ci_wf_def)
  have refs: "refs_of (ci_fields ci) = ref_fields ci" by (simp add: ref_fields_def)
  obtain h j where hj: "AllocObject ?J (rv_j st) (ci_klass ci) = (h, j)" by fastforce
  have room: "jv_room ?v \<noteq> 0" using t(3) by (simp add: ready_def)
  obtain ob where ob: "fresh ?v h ob" "\<alpha> j = add_obj ?v h ob (CObj (ci_klass ci) Map.empty Map.empty)"
    using jni_lawsD(1) [OF J room hj] by blast
  let ?b = "skip (skip_next_align_8 (rv_b st)) (unat (object_body_size ci))"
  let ?st1 = "set_root (st\<lparr>rv_b := ?b, rv_j := j\<rparr>) h"
  have boff: "rw_off (skip_next_align_8 (rv_b st)) = base" "rw_b ?b = rw_b (rv_b st)" "rw_off ?b = length (u0 @ body)"
    using off u0 body by (simp_all add: skip_next_align_8_def skip_def base_def upper_align_plus_4)
  have lu: "length u \<le> base" using pad8_ge [of u] by (simp add: base_def)
  have "\<exists>st' P' R'. parse_fields pf E ci base h [0..<unat (ci_n_non_static_field ci)] ?st1 = Inr st'
    \<and> rv_b st' = (rv_b ?st1)\<lparr>rw_off := length (ser_fields cv base (refs_of (map ((!) (ci_fields ci)) [0..<unat (ci_n_non_static_field ci)])) ts (u0 @ body))\<rparr>
    \<and> stored \<alpha> ?st1 ob (CObj (ci_klass ci) P' R') (sum_list (map nodes ts)) st'
    \<and> fields_set r (dom (jv_objs (\<alpha> (rv_j ?st1)))) (jv_objs (\<alpha> (rv_j st'))) body (map ((!) (ci_fields ci)) [0..<unat (ci_n_non_static_field ci)]) ts Map.empty Map.empty P' R'"
  proof (rule parse_fields_ok [OF J pf, where k = "length (u0 @ body)"], unfold fs refs)
    show "\<forall>f \<in> set (ci_fields ci). is_primitive_type (fi_type f) \<longrightarrow>
      get_at (rv_b ?st1) (field_size f) (base + unat (fi_offset f)) = Inr (chunk body (unat (fi_offset f)) (field_size f))"
    proof (intro ballI impI)
      fix f
      assume f: "f \<in> set (ci_fields ci)" "is_primitive_type (fi_type f)"
      note p = ser_fields_prim [OF wf f u0 body]
      have "length (u0 @ body) \<le> length V" unfolding V' by (rule ser_length(2))
      then have "get_at (rv_b ?st1) (field_size f) (base + unat (fi_offset f)) = Inr (chunk V (base + unat (fi_offset f)) (field_size f))"
        using V(2) boff(2) lu p(2) u0 by (intro get_at_same) auto
      then show "get_at (rv_b ?st1) (field_size f) (base + unat (fi_offset f)) = Inr (chunk body (unat (fi_offset f)) (field_size f))"
        using p(1) by (simp add: V')
    qed
    show "same_on (rw_b (rv_b ?st1)) (ser_fields cv base (ref_fields ci) ts (u0 @ body)) (length (u0 @ body))
        (length (ser_fields cv base (ref_fields ci) ts (u0 @ body)))"
      using same_on_sub [OF V(2), of "length (u0 @ body)" "length V"] lu u0 boff(2) by (simp add: V')
    show "\<forall>f \<in> set (ref_fields ci). base + unat (fi_offset f) + 4 \<le> length (u0 @ body)"
      using ci_wf_refs(2) [OF wf] u0 body by auto
    show "\<forall>t \<in> set ts. depth t \<le> n \<and> revivable r t" using t(1,2) depth_member [of _ ts] by fastforce
    show "ready \<alpha> ?st1 (sum_list (map nodes ts))" using t(3) ob by (auto simp: ready_def add_obj_def fresh_def)
    show "\<forall>i \<in> set [0..<unat (ci_n_non_static_field ci)]. i < length (ci_fields ci) \<and>
        (is_primitive_type (fi_type (ci_fields ci ! i)) \<or> is_reference_type (fi_type (ci_fields ci ! i)))"
      using wf by (auto simp: ci_wf_def)
  qed (use t(1) ob boff in \<open>auto simp: add_obj_def fresh_def\<close>)
  then obtain st' P' R' where
    1: "parse_fields pf E ci base h [0..<unat (ci_n_non_static_field ci)] ?st1 = Inr st'" "rv_b st' = (rv_b st)\<lparr>rw_off := length V\<rparr>"
    "stored \<alpha> ?st1 ob (CObj (ci_klass ci) P' R') (sum_list (map nodes ts)) st'"
    "fields_set r (dom (jv_objs (\<alpha> (rv_j ?st1)))) (jv_objs (\<alpha> (rv_j st'))) body (ci_fields ci) ts Map.empty Map.empty P' R'"
    unfolding fs refs V' by (auto simp: skip_def skip_next_align_8_def)
  have "rv_fields r (dom (jv_objs ?v)) (jv_objs (\<alpha> (rv_j st'))) R' (ref_fields ci) ts"
    by (rule rv_frame(2)) (use 1(4) ob(2) in \<open>auto simp: fields_set_def refs add_obj_def\<close>)
  then have rep: "rv r (dom (jv_objs ?v)) (jv_objs (\<alpha> (rv_j st'))) ob (JObj ci body ts)"
    using 1(3,4) ob(1) by (auto simp: fields_set_def stored_def Let_def fresh_def)
  have "built \<alpha> r (JObj ci body ts) st (length V) (h, st')" by (rule built_new [OF ob room 1(3,2) _ rep]) simp
  moreover have "\<not> jv_exception (\<alpha> (rv_j st'))" "h \<noteq> 0"
    using 1(3) t(3) ob by (auto simp: stored_def Let_def ready_def add_obj_def fresh_def)
  ultimately show ?thesis
    using 1(1) hj boff(1) by (simp add: do_parse_object_def jni_lawsD(10) [OF J] Let_def)
qed

lemma rget_same:
  assumes "same_on (rw_b b) v lo hi" "lo \<le> rw_off b" "rw_off b + n \<le> hi"
  shows "rget b n = Inr (chunk v (rw_off b) n, b\<lparr>rw_off := rw_off b + n\<rparr>)"
  using get_at_same [OF assms] by (simp add: rget_def)

text \<open>A header field of a value: the bytes at a known distance behind a prefix.\<close>

lemma chunk_behind: "length u = off \<Longrightarrow> length x = n \<Longrightarrow> chunk (u @ x @ y) off n = x"
  by (simp add: chunk_def)

lemma do_parse_bytes_ok:
  assumes J: "jni_laws (v_jni E) \<alpha>"
    and t: "revivable r (JPrims ci len elems)" "ready \<alpha> st 1" and cv: "cv ci elems = elems"
    and off: "rw_off (rv_b st) = length (pad8 u) + 4"
    and V: "V = ser cv eid (JPrims ci len elems) u" "same_on (rw_b (rv_b st)) V (length u) (length V)"
  shows "\<exists>x. do_parse_array pf E ci st = Inr x \<and> built \<alpha> r (JPrims ci len elems) st (length V) x"
proof -
  let ?J = "v_jni E" and ?v = "\<alpha> (rv_j st)" and ?f = "ci_fields ci ! 0"
  define u0 where "u0 = pad8 u @ u16_bytes (ci_id ci) @ u16_bytes ARRAY_FLAG"
  have V': "V = u0 @ u32_bytes len @ elems" and u0: "length u0 = length (pad8 u) + 4" using V(1) cv by (simp_all add: u0_def)
  have elems: "length elems = unat len" and f: "get_field ci 0 = Inr ?f" "fi_type ?f = T_BYTE" "ci_dim ci = 1"
    using t(1) by (auto simp: get_field_def)
  have lu: "length u \<le> length (pad8 u)" by (rule pad8_ge)
  have len: "rget (rv_b st) 4 = Inr (u32_bytes len, (rv_b st)\<lparr>rw_off := length (pad8 u) + 8\<rparr>)"
    using rget_same [OF V(2), of 4] lu u0 off by (simp add: V' chunk_behind)
  let ?b = "(rv_b st)\<lparr>rw_off := length (pad8 u) + 8\<rparr>"
  have b: "skip_next_align_8 ?b = ?b" by (simp add: skip_next_align_8_def flip: upper_align_plus_4) (simp add: upper_align_8_aligned upper_align_plus_4)
  obtain h j where hj: "NewPrimArray ?J (rv_j st) T_BYTE len = (h, j)" by fastforce
  have room: "jv_room ?v \<noteq> 0" using t(2) by (simp add: ready_def)
  obtain ob bs where ob: "fresh ?v h ob" "\<alpha> j = add_obj ?v h ob (CPrim T_BYTE (unat len) bs)"
    using jni_lawsD(2) [OF J room hj] by blast
  let ?st1 = "set_root (st\<lparr>rv_b := ?b, rv_j := j\<rparr>) h"
  have a: "jv_handles (\<alpha> j) h = Some ob" "jv_objs (\<alpha> j) ob = Some (CPrim T_BYTE (unat len) bs)"
    using ob by (simp_all add: add_obj_def)
  let ?j2 = "SetByteArrayRegion ?J j h 0 len elems"
  let ?st2 = "?st1\<lparr>rv_j := ?j2, rv_b := skip ?b (unat len)\<rparr>"
  have j2: "\<alpha> ?j2 = set_obj (\<alpha> j) ob (CPrim T_BYTE (unat len) elems)"
    by (rule jni_lawsD(7) [OF J a refl elems])
  have "get_at ?b (unat len) (rw_off ?b) = Inr (chunk V (rw_off ?b) (unat len))"
    using V(2) lu u0 by (intro get_at_same) (auto simp: V' elems)
  then have data: "get_at ?b (unat len) (length (pad8 u) + 8) = Inr elems"
    using u0 elems by (simp add: V' chunk_append_right) (simp add: chunk_def)
  have "array_body_size ci len = Inr len" using f by (simp add: array_body_size_def type_size_def)
  moreover have "GetArrayLength ?J j h = len" by (rule jni_lawsD(8) [OF J a])
  moreover have s: "stored \<alpha> ?st1 ob (CPrim T_BYTE (unat len) elems) 0 ?st2" by (auto simp: stored_def j2 set_obj_def Let_def)
  moreover have "\<not> jv_exception (\<alpha> ?j2)" "h \<noteq> 0" using j2 t(2) ob by (auto simp: ready_def set_obj_def add_obj_def fresh_def)
  ultimately have step: "do_parse_array pf E ci st = Inr (h, ?st2)"
    using len f b hj data by (simp add: do_parse_array_def new_array_def is_primitive_type_def jni_lawsD(10) [OF J] Let_def)
  have "rv_b ?st2 = (rv_b st)\<lparr>rw_off := length V\<rparr>" using u0 elems by (simp add: skip_def V')
  then have "built \<alpha> r (JPrims ci len elems) st (length V) (h, ?st2)"
    by (rule built_new [OF ob room s]) (use ob(1) f(2) in \<open>auto simp: j2 set_obj_def fresh_def\<close>)
  then show ?thesis using step by blast
qed

lemma do_parse_refs_ok:
  assumes J: "jni_laws (v_jni E) \<alpha>" and pf: "parses_up_to n \<alpha> r cv pf" and E: "v_resolver E = r"
    and t: "revivable r (JRefs ci ts)" "depth (JRefs ci ts) \<le> Suc n" "ready \<alpha> st (nodes (JRefs ci ts))"
    and off: "rw_off (rv_b st) = length (pad8 u) + 4"
    and V: "V = ser cv eid (JRefs ci ts) u" "same_on (rw_b (rv_b st)) V (length u) (length V)"
  shows "\<exists>x. do_parse_array pf E ci st = Inr x \<and> built \<alpha> r (JRefs ci ts) st (length V) x"
proof -
  let ?J = "v_jni E" and ?v = "\<alpha> (rv_j st)" and ?f = "ci_fields ci ! 0" and ?len = "of_nat (length ts) :: u32"
  define u0 where "u0 = pad8 u @ u16_bytes (ci_id ci) @ u16_bytes ARRAY_FLAG @ u32_bytes ?len"
  have V': "V = ser_elems cv (fi_id ?f) ts u0" and u0: "length u0 = length (pad8 u) + 8" using V(1) by (simp_all add: u0_def)
  have l0: "length u0 \<le> length V" unfolding V' by (rule ser_length(3))
  have len: "unat ?len = length ts" and f: "get_field ci 0 = Inr ?f" "is_reference_type (fi_type ?f)"
    using t(1) by (auto simp: get_field_def unat_of_nat take_bit_nat_eq_self)
  have np: "\<not> is_primitive_type (fi_type ?f)" using f(2) prim_not_ref by blast
  obtain ei where ei: "info_by_class_id r (fi_id ?f) = Some ei" using t(1) by auto
  then obtain q where q: "get_class_info_id r (fi_id ?f) = Inr q" "info_at r q = Inr ei"
    by (auto simp: info_by_class_id_def info_at_def split: sum.splits if_splits)
  have lu: "length u \<le> length (pad8 u)" by (rule pad8_ge)
  have "chunk V (length (pad8 u) + 4) 4 = chunk u0 (length (pad8 u) + 4) 4"
    unfolding V' by (rule chunk_prefix [OF ser_prefix(3) [OF order_refl]]) (use u0 in simp)
  also have "\<dots> = u32_bytes ?len" by (simp add: u0_def chunk_def)
  finally have len': "rget (rv_b st) 4 = Inr (u32_bytes ?len, (rv_b st)\<lparr>rw_off := length (pad8 u) + 8\<rparr>)"
    using rget_same [OF V(2), of 4] lu u0 off l0 by simp
  let ?b = "(rv_b st)\<lparr>rw_off := length (pad8 u) + 8\<rparr>"
  have b: "skip_next_align_8 ?b = ?b" by (simp add: skip_next_align_8_def flip: upper_align_plus_4) (simp add: upper_align_8_aligned upper_align_plus_4)
  obtain h j where hj: "NewObjectArray ?J (rv_j st) (ci_klass ei) ?len = (h, j)" by fastforce
  have room: "jv_room ?v \<noteq> 0" using t(3) by (simp add: ready_def)
  obtain ob where ob: "fresh ?v h ob" "\<alpha> j = add_obj ?v h ob (CRefs (ci_klass ei) (replicate (length ts) 0))"
    using jni_lawsD(3) [OF J room hj] len by auto
  let ?st1 = "set_root (st\<lparr>rv_b := ?b, rv_j := j\<rparr>) h"
  have "\<exists>st' ys. parse_elems pf E (fi_id ?f) h [0..<0 + length ts] ?st1 = Inr st' \<and> rv_b st' = (rv_b ?st1)\<lparr>rw_off := length V\<rparr>
    \<and> stored \<alpha> ?st1 ob (CRefs (ci_klass ei) (take 0 (replicate (length ts) 0) @ ys)) (sum_list (map nodes ts)) st'
    \<and> rv_elems r (dom (jv_objs (\<alpha> (rv_j ?st1)))) (jv_objs (\<alpha> (rv_j st'))) ys ts"
    unfolding V'
  proof (rule parse_elems_ok [OF J pf])
    show "same_on (rw_b (rv_b ?st1)) (ser_elems cv (fi_id ?f) ts u0) (length u0) (length (ser_elems cv (fi_id ?f) ts u0))"
      using same_on_sub [OF V(2), of "length u0" "length V"] lu u0 by (simp add: V')
    show "\<forall>t \<in> set ts. depth t \<le> n \<and> revivable r t" using t(1,2) depth_member [of _ ts] by fastforce
    show "ready \<alpha> ?st1 (sum_list (map nodes ts))" using t(3) ob by (auto simp: ready_def add_obj_def fresh_def)
  qed (use t(1) ob u0 in \<open>auto simp: add_obj_def fresh_def\<close>)
  then obtain st' ys where
    1: "parse_elems pf E (fi_id ?f) h [0..<length ts] ?st1 = Inr st'" "rv_b st' = (rv_b st)\<lparr>rw_off := length V\<rparr>"
    "stored \<alpha> ?st1 ob (CRefs (ci_klass ei) ys) (sum_list (map nodes ts)) st'"
    "rv_elems r (dom (jv_objs (\<alpha> (rv_j ?st1)))) (jv_objs (\<alpha> (rv_j st'))) ys ts"
    by auto
  have "rv_elems r (dom (jv_objs ?v)) (jv_objs (\<alpha> (rv_j st'))) ys ts"
    by (rule rv_frame(3) [OF 1(4)]) (use ob(2) in \<open>auto simp: add_obj_def\<close>)
  then have rep: "rv r (dom (jv_objs ?v)) (jv_objs (\<alpha> (rv_j st'))) ob (JRefs ci ts)"
    using 1(3) ob(1) ei by (auto simp: stored_def Let_def fresh_def)
  have "built \<alpha> r (JRefs ci ts) st (length V) (h, st')" by (rule built_new [OF ob room 1(3,2) _ rep]) simp
  moreover have "\<not> jv_exception (\<alpha> (rv_j st'))" "h \<noteq> 0"
    using 1(3) t(3) ob by (auto simp: stored_def Let_def ready_def add_obj_def fresh_def)
  ultimately show ?thesis
    using 1(1) hj len' b q f np len E by (simp add: do_parse_array_def new_array_obj_def jni_lawsD(10) [OF J] Let_def)
qed

section \<open>The parser\<close>

lemma array_not_object: "is_array ci \<Longrightarrow> \<not> is_object ci"
  by (auto simp: is_array_def is_object_def)

lemma ser_header:
  assumes "revivable r t" "t \<noteq> JNull" "V = ser cv eid t u"
  obtains ci fl where "chunk V (length (pad8 u)) 2 = u16_bytes (ci_id ci)" "chunk V (length (pad8 u) + 2) 2 = u16_bytes fl"
    "length (pad8 u) + 4 \<le> length V" "info_by_class_id r (ci_id ci) = Some ci" "\<not> is_enum ci"
    "(is_object ci \<and> fl = OBJECT_FLAG \<and> (\<exists>body ts. t = JObj ci body ts))
     \<or> (\<not> is_object ci \<and> is_array ci \<and> fl = ARRAY_FLAG \<and> ((\<exists>n es. t = JPrims ci n es) \<or> (\<exists>ts. t = JRefs ci ts)))"
proof -
  have 1: "chunk V (length (pad8 u)) 2 = u16_bytes c \<and> chunk V (length (pad8 u) + 2) 2 = u16_bytes fl \<and> length (pad8 u) + 4 \<le> length V"
    if V: "take (length (pad8 u) + 4) V = pad8 u @ u16_bytes c @ u16_bytes fl" for c fl
  proof -
    have l: "length (pad8 u) + 4 \<le> length V"
      using arg_cong [OF V, of length] by (simp add: min_def split: if_splits)
    have "chunk V a 2 = chunk (pad8 u @ u16_bytes c @ u16_bytes fl) a 2" if "a + 2 \<le> length (pad8 u) + 4" for a
      using chunk_take [OF that, of V] V by simp
    then show ?thesis using l by (simp add: chunk_def)
  qed
  show thesis
  proof (cases t)
    case (JObj ci body ts)
    let ?u = "pad8 u @ u16_bytes (ci_id ci) @ u16_bytes OBJECT_FLAG @ replicate 4 0 @ body"
    have "take (length (pad8 u) + 4) V = take (length (pad8 u) + 4) ?u"
      unfolding assms(3) JObj ser.simps by (rule ser_prefix(2)) simp_all
    then show thesis using 1 [of "ci_id ci" OBJECT_FLAG] that [of ci OBJECT_FLAG] assms(1) JObj by auto
  next
    case (JPrims ci n es)
    then show thesis using 1 [of "ci_id ci" ARRAY_FLAG] that [of ci ARRAY_FLAG] assms(1,3) by (auto simp: array_not_object)
  next
    case (JRefs ci ts)
    let ?u = "pad8 u @ u16_bytes (ci_id ci) @ u16_bytes ARRAY_FLAG @ u32_bytes (of_nat (length ts))"
    have "take (length (pad8 u) + 4) V = take (length (pad8 u) + 4) ?u"
      unfolding assms(3) JRefs ser.simps by (rule ser_prefix(3)) simp_all
    then show thesis using 1 [of "ci_id ci" ARRAY_FLAG] that [of ci ARRAY_FLAG] assms(1) JRefs
      by (auto simp: array_not_object)
  qed (use assms in auto)
qed

lemma built_offset: "built \<alpha> r t (st\<lparr>rv_b := (rv_b st)\<lparr>rw_off := k\<rparr>\<rparr>) off x = built \<alpha> r t st off x"
  by (cases x; cases "rv_root st = 0") (simp_all add: built_def Let_def)

lemma parse_ok:
  assumes J: "jni_laws (v_jni E) \<alpha>" and E: "v_resolver E = r"
    and cv: "\<And>ci es. fi_type (ci_fields ci ! 0) = T_BYTE \<Longrightarrow> cv ci es = es"
  shows "parses_up_to n \<alpha> r cv (parse n E)"
proof (induction n)
  case 0
  then show ?case by (simp add: parses_up_to_def)
next
  case (Suc n)
  show ?case
    unfolding parses_up_to_def
  proof (intro allI impI)
    fix t eid u st
    assume t: "depth t \<le> Suc n" "revivable r t" and rdy: "ready \<alpha> st (nodes t)" and off: "rw_off (rv_b st) = length u"
      and V: "same_on (rw_b (rv_b st)) (ser cv eid t u) (length u) (length (ser cv eid t u))"
    let ?V = "ser cv eid t u" and ?b = "skip_next_align_8 (rv_b st)"
    let ?st = "st\<lparr>rv_b := (rv_b st)\<lparr>rw_off := length (pad8 u) + 4\<rparr>\<rparr>"
    have lu: "length u \<le> length (pad8 u)" by (rule pad8_ge)
    have b: "?b = (rv_b st)\<lparr>rw_off := length (pad8 u)\<rparr>" using off by (simp add: skip_next_align_8_def)
    have hd: "rget ?b 2 = Inr (chunk ?V (length (pad8 u)) 2, (rv_b st)\<lparr>rw_off := length (pad8 u) + 2\<rparr>)"
      "rget ((rv_b st)\<lparr>rw_off := length (pad8 u) + 2\<rparr>) 2 = Inr (chunk ?V (length (pad8 u) + 2) 2, (rv_b st)\<lparr>rw_off := length (pad8 u) + 4\<rparr>)"
      if "length (pad8 u) + 4 \<le> length ?V"
      using that lu V rget_same [of ?b ?V "length u" "length ?V" 2]
        rget_same [of "(rv_b st)\<lparr>rw_off := length (pad8 u) + 2\<rparr>" ?V "length u" "length ?V" 2] by (simp_all add: b)
    show "\<exists>x. parse (Suc n) E eid st = Inr x \<and> built \<alpha> r t st (length ?V) x"
    proof (cases "t = JNull")
      case True
      have "bytes_u16 (chunk ?V (length (pad8 u) + 2) 2) = NULL_FLAG" by (simp add: True chunk_def)
      then have "parse (Suc n) E eid st = Inr (0, ?st)" using hd True by (simp add: Let_def)
      moreover have "built \<alpha> r t st (length ?V) (0, ?st)"
        using rdy True by (auto simp: built_def ready_def fun_upd_idem)
      ultimately show ?thesis by blast
    next
      case False
      obtain ci fl where c: "chunk ?V (length (pad8 u)) 2 = u16_bytes (ci_id ci)" "chunk ?V (length (pad8 u) + 2) 2 = u16_bytes fl"
        "length (pad8 u) + 4 \<le> length ?V" "info_by_class_id r (ci_id ci) = Some ci" "\<not> is_enum ci"
        "(is_object ci \<and> fl = OBJECT_FLAG \<and> (\<exists>body ts. t = JObj ci body ts))
         \<or> (\<not> is_object ci \<and> is_array ci \<and> fl = ARRAY_FLAG \<and> ((\<exists>n es. t = JPrims ci n es) \<or> (\<exists>ts. t = JRefs ci ts)))"
        by (rule ser_header [OF t(2) False refl])
      from c(4) obtain q where q: "get_class_info_id r (ci_id ci) = Inr q" "q \<noteq> 0" "info_at r q = Inr ci"
        by (auto simp: info_by_class_id_def info_at_def split: sum.splits if_splits)
      have V': "same_on (rw_b (rv_b ?st)) ?V (length u) (length ?V)" "rw_off (rv_b ?st) = length (pad8 u) + 4" "ready \<alpha> ?st (nodes t)"
        using V rdy by (simp_all add: ready_def)
      have "\<exists>x. (if is_object ci then do_parse_object (parse n E) E ci ?st else do_parse_array (parse n E) E ci ?st) = Inr x
          \<and> built \<alpha> r t ?st (length ?V) x"
        using c(6)
      proof (elim disjE conjE exE)
        fix body ts
        assume o: "is_object ci" and t': "t = JObj ci body ts"
        then show ?thesis
          using do_parse_object_ok [OF J Suc.IH _ _ _ V'(2) refl, of ci body ts eid] t V' by simp
      next
        fix len es
        assume o: "\<not> is_object ci" and t': "t = JPrims ci len es"
        then show ?thesis
          using do_parse_bytes_ok [OF J _ _ _ V'(2) refl, of r ci len es cv eid] t V' cv by simp
      next
        fix ts
        assume o: "\<not> is_object ci" and t': "t = JRefs ci ts"
        then show ?thesis
          using do_parse_refs_ok [OF J Suc.IH E _ _ _ V'(2) refl, of ci ts eid] t V' by simp
      qed
      then obtain x where x: "(if is_object ci then do_parse_object (parse n E) E ci ?st else do_parse_array (parse n E) E ci ?st) = Inr x"
        "built \<alpha> r t ?st (length ?V) x" by blast
      have "parse (Suc n) E eid st = Inr x"
        using hd [OF c(3)] c(1,2,5,6) q x(1) E by (auto simp: Let_def)
      moreover have "built \<alpha> r t st (length ?V) x" using x(2) by (simp only: built_offset)
      ultimately show ?thesis by blast
    qed
  qed
qed

lemma prims_encoding_bytes: "fi_type (ci_fields ci ! 0) = T_BYTE \<Longrightarrow> prims_encoding W ci es = es"
  by (simp add: prims_encoding_def)

lemma revive_bytes:
  assumes J: "jni_laws (v_jni E) \<alpha>" and t: "revivable (v_resolver E) t" "t \<noteq> JNull" "depth t \<le> n"
    and j: "jv_handles (\<alpha> j) 0 = None" "\<not> jv_exception (\<alpha> j)" "nodes t \<le> jv_room (\<alpha> j)"
    and k: "info_by_klass_addr (v_resolver E) klass = Some info"
  shows "\<exists>h ob j'. revive n E klass (serialized (prims_encoding W) t) j = Inr (h, j') \<and> h \<noteq> 0
    \<and> jv_handles (\<alpha> j') = (jv_handles (\<alpha> j))(h \<mapsto> ob)
    \<and> rv (v_resolver E) (dom (jv_objs (\<alpha> j))) (jv_objs (\<alpha> j')) ob t
    \<and> (\<forall>p \<in> dom (jv_objs (\<alpha> j)). jv_objs (\<alpha> j') p = jv_objs (\<alpha> j) p)"
proof -
  let ?cv = "prims_encoding W" and ?r = "v_resolver E"
  let ?s = "ser ?cv UNREGISTERED_CLASS_ID t (replicate 8 0)" and ?in = "serialized (prims_encoding W) t"
  let ?st = "\<lparr>rv_b = skip (rw_new ?in) OBJECT_DATA_OFFSET, rv_j = j, rv_root = 0\<rparr>"
  have l: "8 \<le> length ?s" using ser_length_ge [of "replicate 8 0" ?cv UNREGISTERED_CLASS_ID t] by simp
  have same: "same_on ?in ?s 8 (length ?s)"
    using l by (auto simp: same_on_def serialized_def Let_def nth_patch)
  have eid: "ser ?cv (ci_id info) t (replicate 8 0) = ?s" using t(2) by (cases t) simp_all
  have pok: "parses_up_to n \<alpha> ?r ?cv (parse n E)" by (rule parse_ok [OF J refl prims_encoding_bytes])
  obtain x where x: "parse n E (ci_id info) ?st = Inr x"
    "built \<alpha> ?r t ?st (length (ser ?cv (ci_id info) t (replicate 8 0))) x"
    by (rule parses_up_toD [OF pok t(3,1), where st = ?st and u = "replicate 8 0" and eid = "ci_id info"])
       (use j same eid in \<open>simp_all add: ready_def skip_def rw_new_def\<close>)
  obtain h st' where hs: "x = (h, st')" by fastforce
  from x(2) obtain ob where ob: "jv_handles (\<alpha> (rv_j st')) = (jv_handles (\<alpha> j))(h := if h = 0 then None else Some ob)" "h = 0 \<longleftrightarrow> ob = 0"
    "rv ?r (dom (jv_objs (\<alpha> j))) (jv_objs (\<alpha> (rv_j st'))) ob t" and rt: "rv_root st' = h"
    and old: "\<forall>p \<in> dom (jv_objs (\<alpha> j)). jv_objs (\<alpha> (rv_j st')) p = jv_objs (\<alpha> j) p"
    by (auto simp: built_def hs Let_def)
  have h: "h \<noteq> 0" using ob(2,3) t(2) by (cases t) auto
  from k have q: "get_class_info ?r klass \<noteq> 0" "info_at ?r (get_class_info ?r klass) = Inr info"
    by (auto simp: info_by_klass_addr_def info_at_def Let_def split: if_splits)
  have "revive n E klass ?in j = Inr (h, rv_j st')" using q x(1) rt by (simp add: revive_def hs)
  then show ?thesis using ob h old by auto
qed


text \<open>
  A JVM that keeps the laws: objects are numbered from 1 in the order of their creation, a handle
  is the number of its object, and memory ends after \<open>2 ^ 16\<close> objects.
\<close>

record small_jvm =
  sj_cells :: "jcell list"
  sj_live :: "u64 list"
  sj_exception :: bool

definition small_view :: "small_jvm \<Rightarrow> jview" where
  "small_view s =
    \<lparr>jv_handles = (\<lambda>h. if h \<in> set (sj_live s) \<and> 0 < unat h \<and> unat h \<le> length (sj_cells s) then Some h else None),
     jv_objs = (\<lambda>p. if 0 < unat p \<and> unat p \<le> length (sj_cells s) then Some (sj_cells s ! (unat p - 1)) else None),
     jv_room = 2 ^ 16 - length (sj_cells s), jv_exception = sj_exception s\<rparr>"

definition small_new :: "small_jvm \<Rightarrow> jcell \<Rightarrow> u64 \<times> small_jvm" where
  "small_new s c =
    (if length (sj_cells s) < 2 ^ 16
     then (of_nat (Suc (length (sj_cells s))), s\<lparr>sj_cells := sj_cells s @ [c], sj_live := of_nat (Suc (length (sj_cells s))) # sj_live s\<rparr>)
     else (0, s\<lparr>sj_exception := True\<rparr>))"

definition small_set :: "small_jvm \<Rightarrow> u64 \<Rightarrow> (jcell \<Rightarrow> jcell) \<Rightarrow> small_jvm" where
  "small_set s h g = s\<lparr>sj_cells := (sj_cells s)[unat h - 1 := g (sj_cells s ! (unat h - 1))]\<rparr>"

definition small_jni :: "small_jvm jni" where
  "small_jni =
    \<lparr>AllocObject = (\<lambda>s k. small_new s (CObj k Map.empty Map.empty)),
     SetPrimField = (\<lambda>s t h f bs. small_set s h (\<lambda>c. case c of CObj k P R \<Rightarrow> CObj k (P(f \<mapsto> bs)) R | _ \<Rightarrow> c)),
     SetObjectField = (\<lambda>s h f m. small_set s h (\<lambda>c. case c of CObj k P R \<Rightarrow> CObj k P (R(f \<mapsto> m)) | _ \<Rightarrow> c)),
     DeleteLocalRef = (\<lambda>s h. s\<lparr>sj_live := removeAll h (sj_live s)\<rparr>),
     NewPrimArray = (\<lambda>s t n. small_new s (CPrim t (unat n) (replicate (unat n) 0))),
     NewObjectArray = (\<lambda>s k n. small_new s (CRefs k (replicate (unat n) 0))),
     GetArrayLength = (\<lambda>s h. case sj_cells s ! (unat h - 1) of CPrim t n bs \<Rightarrow> of_nat n | CRefs k xs \<Rightarrow> of_nat (length xs) | _ \<Rightarrow> 0),
     SetByteArrayRegion = (\<lambda>s h i n bs. small_set s h (\<lambda>c. case c of CPrim t m cs \<Rightarrow> CPrim t m bs | _ \<Rightarrow> c)),
     SetObjectArrayElement = (\<lambda>s h i m. small_set s h (\<lambda>c. case c of CRefs k xs \<Rightarrow> CRefs k (xs[unat i := m]) | _ \<Rightarrow> c)),
     ExceptionCheck = sj_exception,
     poke = (\<lambda>s h i bs. s)\<rparr>"

lemma small_new_law:
  assumes "small_new s c = (h, s')" "0 < jv_room (small_view s)"
  shows "\<exists>ob. fresh (small_view s) h ob \<and> small_view s' = add_obj (small_view s) h ob c"
proof -
  let ?n = "Suc (length (sj_cells s))"
  have n: "length (sj_cells s) < 2 ^ 16" using assms(2) by (simp add: small_view_def)
  then have h: "h = of_nat ?n" "s' = s\<lparr>sj_cells := sj_cells s @ [c], sj_live := h # sj_live s\<rparr>" "unat h = ?n"
    using assms(1) by (auto simp: small_new_def unat_of_nat take_bit_nat_eq_self simp del: of_nat_Suc)
  have eq: "p = h \<longleftrightarrow> unat p = ?n" for p :: u64 using h(3) by (metis unsigned_word_eqI)
  have "fresh (small_view s) h h" using h(3) by (auto simp: fresh_def small_view_def)
  moreover have "small_view s' = add_obj (small_view s) h h c"
    using h(3) by (auto simp: h(2) small_view_def add_obj_def fun_eq_iff nth_append eq)
  ultimately show ?thesis by blast
qed

lemma small_set_law:
  assumes "jv_handles (small_view s) h = Some ob" "jv_objs (small_view s) ob = Some c"
  shows "small_view (small_set s h g) = set_obj (small_view s) ob (g c)"
proof -
  have h: "ob = h" "0 < unat h" "unat h \<le> length (sj_cells s)" "c = sj_cells s ! (unat h - 1)"
    using assms by (auto simp: small_view_def split: if_splits)
  have eq: "p = h \<longleftrightarrow> unat p - 1 = unat h - 1" if "0 < unat p" for p :: u64
    using that h(2) by (metis unsigned_word_eqI Suc_pred' diff_Suc_1)
  have "(sj_cells s)[unat h - 1 := g c] ! (unat p - 1) = (if p = h then g c else sj_cells s ! (unat p - 1))"
    if "0 < unat p" "unat p \<le> length (sj_cells s)" for p :: u64
    using that eq [OF that(1)] h(2,3) by (auto simp: nth_list_update)
  then show ?thesis using h by (auto simp: small_view_def small_set_def set_obj_def fun_eq_iff)
qed

lemma small_deref: "deref (small_view s) m = Some mo \<Longrightarrow> mo = m"
  by (auto simp: deref_def small_view_def split: if_splits)

lemma small_jni_laws: "jni_laws small_jni small_view"
proof -
  have 1: "GetArrayLength small_jni s h = k"
    if "jv_handles (small_view s) h = Some ob" "jv_objs (small_view s) ob = Some (CPrim t (unat k) bs)" for s h ob t k bs
    using that by (auto simp: small_view_def small_jni_def split: if_splits)
  have 2: "small_view (DeleteLocalRef small_jni s h) = (small_view s)\<lparr>jv_handles := (jv_handles (small_view s))(h := None)\<rparr>" for s h
    by (auto simp: small_jni_def small_view_def fun_eq_iff)
  have 3: "ExceptionCheck small_jni s = jv_exception (small_view s)" for s by (simp add: small_jni_def small_view_def)
  show ?thesis
    unfolding jni_laws_def
    by (intro conjI allI impI, unfold 2 3)
       (auto simp: small_jni_def small_set_law 1 [unfolded small_jni_def, simplified] dest!: small_new_law dest: small_deref)
qed

lemma revivable_AB: "revivable resolver_AB tree_AB" "depth tree_AB \<le> 2" "tree_AB \<noteq> JNull" "nodes tree_AB = 2"
proof -
  have ids: "info_by_class_id resolver_AB 20 = Some info_A" "info_by_class_id resolver_AB 21 = Some info_bytes"
    by (simp_all add: info_by_class_id_def get_class_info_id_def id2index_def resolver_AB_def)
  have flags: "\<not> is_enum info_A" "is_object info_A" "\<not> is_enum info_bytes" "is_array info_bytes" "ci_id info_A = 20" "ci_id info_bytes = 21"
    "distinct (map fi_j_field_id (ci_fields info_A))" "unat (object_body_size info_A) = 8" "length (ref_fields info_A) = 1"
    "ci_dim info_bytes = 1" "ci_fields info_bytes \<noteq> []" "fi_type (ci_fields info_bytes ! 0) = T_BYTE"
    by (simp_all add: is_enum_def is_object_def is_array_def info_A_def info_bytes_def object_body_size_def ref_fields_def is_reference_type_def)
  show "revivable resolver_AB tree_AB" using ids flags info_A_wf by (simp add: tree_AB_def)
qed (simp_all add: tree_AB_def)

definition small_jvm_new :: small_jvm where
  "small_jvm_new = \<lparr>sj_cells = [], sj_live = [], sj_exception = False\<rparr>"

lemma small_jvm_new_view: "jv_objs (small_view small_jvm_new) = Map.empty" "jv_handles (small_view small_jvm_new) 0 = None"
    "\<not> jv_exception (small_view small_jvm_new)" "2 \<le> jv_room (small_view small_jvm_new)"
  by (auto simp: small_view_def small_jvm_new_def fun_eq_iff)

definition reviver_AB :: "small_jvm venv" where
  "reviver_AB = \<lparr>v_jni = small_jni, v_resolver = resolver_AB, v_enable_utf16_to_utf8 = False, v_to_utf16 = id\<rparr>"


end
