(* ===== verification/Kernel_Mem.thy ===== *)
theory Kernel_Mem
  imports DPX_Prelude
begin

text \<open>
  The memory primitives of the DPA kernel: the address macros of
  \<^verbatim>\<open>lib/doca/kernel/helper.h\<close> and the unrolled \<^verbatim>\<open>d_memcpy\<close> and \<^verbatim>\<open>d_memset\<close> of
  \<^verbatim>\<open>lib/doca/kernel/mem.h\<close>, over a byte-addressed device memory. The copy loops are
  modelled as written (a fall-through \<^verbatim>\<open>switch\<close> for the odd words, an eight-fold unrolled
  loop, a second \<^verbatim>\<open>switch\<close> for the odd bytes) and shown to be a plain block copy or fill.
\<close>

section \<open>Address macros\<close>

definition align_up_8 :: "u64 \<Rightarrow> u64" where
  "align_up_8 x = (x + 7) AND NOT 7"

definition h2d :: "u64 \<Rightarrow> u64" where
  "h2d a = a OR push_bit 63 1"

text \<open>The macro compares (\<^verbatim>\<open>1ull < 63\<close>, the integer 1) where a shift is meant.\<close>

definition d2h :: "u64 \<Rightarrow> u64" where
  "d2h a = a AND NOT (if (1 :: u64) < 63 then 1 else 0)"

section \<open>Unrolled loops\<close>

text \<open>
  A \<^verbatim>\<open>switch\<close> whose labels \<open>k, \<dots>, 1\<close> all fall through: entered at label \<open>r\<close>, it runs the
  body once for every label from \<open>r\<close> down.
\<close>

primrec fallthrough :: "nat \<Rightarrow> nat \<Rightarrow> ('s \<Rightarrow> 's) \<Rightarrow> 's \<Rightarrow> 's" where
  "fallthrough 0 r body st = st"
| "fallthrough (Suc k) r body st = fallthrough k r body (if Suc k \<le> r then body st else st)"

text \<open>\<^verbatim>\<open>while (n-- > 0) body\<close>\<close>

primrec while_dec :: "nat \<Rightarrow> ('s \<Rightarrow> 's) \<Rightarrow> 's \<Rightarrow> 's" where
  "while_dec 0 body st = st"
| "while_dec (Suc n) body st = while_dec n body (body st)"

text \<open>\<^verbatim>\<open>*d++ = *s++\<close> for a pointee of \<open>w\<close> bytes.\<close>

definition copy_step :: "nat \<Rightarrow> mem \<times> u64 \<times> u64 \<Rightarrow> mem \<times> u64 \<times> u64" where
  "copy_step w = (\<lambda>(m, d, s). (wr m d (rd m s w), d + of_nat w, s + of_nat w))"

text \<open>\<^verbatim>\<open>*p++ = u\<close> for the bytes of \<open>u\<close>.\<close>

definition set_step :: "u8 list \<Rightarrow> mem \<times> u64 \<Rightarrow> mem \<times> u64" where
  "set_step bs = (\<lambda>(m, p). (wr m p bs, p + of_nat (length bs)))"

section \<open>Block copy\<close>

definition d_memcpy_u64 :: "mem \<Rightarrow> u64 \<Rightarrow> u64 \<Rightarrow> u64 \<Rightarrow> mem \<times> u64" where
  "d_memcpy_u64 m d s bytes =
    (let u64_len = bytes div 8;
         n = u64_len div 8;
         st = fallthrough 7 (unat (u64_len mod 8)) (copy_step 8) (m, d, s);
         st = while_dec (unat n)
                (\<lambda>st. copy_step 8 (copy_step 8 (copy_step 8 (copy_step 8
                       (copy_step 8 (copy_step 8 (copy_step 8 (copy_step 8 st)))))))) st;
         st = fallthrough 7 (unat (bytes mod 8)) (copy_step 1) st
     in case st of (m', d', s') \<Rightarrow> (m', s'))"

definition d_memcpy_u32 :: "mem \<Rightarrow> u64 \<Rightarrow> u64 \<Rightarrow> u64 \<Rightarrow> mem \<times> u64" where
  "d_memcpy_u32 m d s bytes =
    (let u32_len = bytes div 4;
         n = u32_len div 8;
         st = fallthrough 7 (unat (u32_len mod 8)) (copy_step 4) (m, d, s);
         st = while_dec (unat n)
                (\<lambda>st. copy_step 4 (copy_step 4 (copy_step 4 (copy_step 4
                       (copy_step 4 (copy_step 4 (copy_step 4 (copy_step 4 st)))))))) st;
         st = fallthrough 3 (unat (bytes mod 4)) (copy_step 1) st
     in case st of (m', d', s') \<Rightarrow> (m', s'))"

text \<open>
  The result pointer is \<open>None\<close> where the code logs \<^verbatim>\<open>UNREACHABLE_CRIT\<close> and returns an
  uninitialised pointer without having copied anything.
\<close>

definition d_memcpy :: "mem \<Rightarrow> u64 \<Rightarrow> u64 \<Rightarrow> u64 \<Rightarrow> mem \<times> u64 option" where
  "d_memcpy m d s len =
    (if len = 0 then (m, Some s)
     else
       let align_d = d mod 8; align_s = s mod 8; al = align_d OR align_s
       in if al = 0 then (case d_memcpy_u64 m d s len of (m', e) \<Rightarrow> (m', Some e))
          else if al = 4 then (case d_memcpy_u32 m d s len of (m', e) \<Rightarrow> (m', Some e))
          else (m, None))"

section \<open>Block fill\<close>

definition expand_u32 :: "u8 \<Rightarrow> u32" where
  "expand_u32 v = (let u = ucast v; u = u OR push_bit 8 u; u = u OR push_bit 16 u in u)"

definition expand_u64 :: "u8 \<Rightarrow> u64" where
  "expand_u64 v = (let u = ucast v; u = u OR push_bit 8 u; u = u OR push_bit 16 u;
                       u = u OR push_bit 32 u in u)"

definition d_memset_u32 :: "mem \<Rightarrow> u64 \<Rightarrow> u8 \<Rightarrow> u64 \<Rightarrow> mem \<times> u64" where
  "d_memset_u32 m p v len =
    (let u32_len = len div 4;
         n = u32_len div 8;
         put = set_step (u32_bytes (expand_u32 v));
         st = fallthrough 7 (unat (u32_len mod 8)) put (m, p);
         st = while_dec (unat n)
                (\<lambda>st. put (put (put (put (put (put (put (put st)))))))) st
     in fallthrough 3 (unat (len mod 4)) (set_step [v]) st)"

definition d_memset_u64 :: "mem \<Rightarrow> u64 \<Rightarrow> u8 \<Rightarrow> u64 \<Rightarrow> mem \<times> u64" where
  "d_memset_u64 m p v len =
    (let u64_len = len div 8;
         n = u64_len div 8;
         put = set_step (u64_bytes (expand_u64 v));
         st = fallthrough 7 (unat (u64_len mod 8)) put (m, p);
         st = while_dec (unat n)
                (\<lambda>st. put (put (put (put (put (put (put (put st)))))))) st
     in fallthrough 7 (unat (len mod 8)) (set_step [v]) st)"

definition d_memset :: "mem \<Rightarrow> u64 \<Rightarrow> u8 \<Rightarrow> u64 \<Rightarrow> mem \<times> u64 option" where
  "d_memset m p v len =
    (if p mod 8 = 0 then (case d_memset_u64 m p v len of (m', e) \<Rightarrow> (m', Some e))
     else if p mod 8 = 4 then (case d_memset_u32 m p v len of (m', e) \<Rightarrow> (m', Some e))
     else (m, None))"

section \<open>The unrolled loops as iteration\<close>

lemma fallthrough_funpow: "r \<le> k \<Longrightarrow> fallthrough k r body st = (body ^^ r) st"
proof (induction k arbitrary: st)
  case 0
  then show ?case by simp
next
  case (Suc k)
  show ?case
  proof (cases "r = Suc k")
    case True
    have "j \<le> k \<Longrightarrow> k < r \<Longrightarrow> fallthrough j r body st' = (body ^^ j) st'" for j st'
      by (induction j arbitrary: st') (auto simp: funpow_swap1)
    with True show ?thesis by (simp add: funpow_swap1)
  next
    case False
    with Suc show ?thesis by simp
  qed
qed

lemma while_dec_funpow: "while_dec n body st = (body ^^ n) st"
  by (induction n arbitrary: st) (simp_all add: funpow_swap1)

lemma funpow_8: "f (f (f (f (f (f (f (f x))))))) = (f ^^ 8) x"
  by (simp add: numeral_eq_Suc)

lemma funpow_mult_apply: "((\<lambda>x. (f ^^ a) x) ^^ b) x = (f ^^ (b * a)) x" for f :: "'s \<Rightarrow> 's"
  using funpow_mult [where f = f and m = a and n = b] by (simp add: mult.commute)

lemma unrolled_funpow:
  "while_dec n (\<lambda>st. f (f (f (f (f (f (f (f st)))))))) ((f ^^ r) st) = (f ^^ (n * 8 + r)) st"
  by (simp only: while_dec_funpow funpow_8 funpow_mult_apply) (simp add: funpow_add)

lemmas unrolled_simps = Let_def fallthrough_funpow unrolled_funpow

lemma copy_steps:
  assumes "region_ok d (k * w)" "region_ok s (k * w)" "disjoint d (k * w) s (k * w)"
  shows "(copy_step w ^^ k) (m, d, s) =
         (wr m d (rd m s (k * w)), d + of_nat (k * w), s + of_nat (k * w))"
  using assms
proof (induction k)
  case 0
  then show ?case by simp
next
  case (Suc k)
  have ok: "region_ok d (k * w)" "region_ok s (k * w)" "disjoint d (k * w) s (k * w)"
    using Suc.prems by (auto simp: region_ok_def disjoint_def)
  show ?case
  proof (cases "w = 0")
    case True
    with Suc.IH ok show ?thesis by (simp add: copy_step_def)
  next
    case False
    have us: "unat (s + of_nat (k * w)) = unat s + k * w"
      using Suc.prems(2) False by (intro unat_add_region [of _ "Suc k * w"]) auto
    have sep: "rd (wr m d (rd m s (k * w))) (s + of_nat (k * w)) w = rd m (s + of_nat (k * w)) w"
      using Suc.prems us by (intro rd_wr_disjoint) (auto simp: region_ok_def disjoint_def)
    have "wr (wr m d (rd m s (k * w))) (d + of_nat (k * w)) (rd m (s + of_nat (k * w)) w)
        = wr m d (rd m s (k * w + w))"
      using wr_wr_append [of d "rd m s (k * w)" "rd m (s + of_nat (k * w)) w" m] Suc.prems(1)
      by (simp add: rd_add [of m s "k * w" w] add.commute [of w] del: of_nat_mult)
    with Suc.IH [OF ok] sep show ?thesis
      by (simp add: copy_step_def add.commute add.left_commute)
  qed
qed

lemma set_steps:
  assumes "region_ok p (k * length bs)"
  shows "(set_step bs ^^ k) (m, p) =
         (wr m p (concat (replicate k bs)), p + of_nat (k * length bs))"
  using assms
proof (induction k)
  case 0
  then show ?case by simp
next
  case (Suc k)
  have ok: "region_ok p (k * length bs)" using Suc.prems by (simp add: region_ok_def)
  have len: "length (concat (replicate k bs)) = k * length bs" by (induction k) auto
  have rep: "concat (replicate (Suc k) bs) = concat (replicate k bs) @ bs"
    by (induction k) auto
  have "wr (wr m p (concat (replicate k bs))) (p + of_nat (k * length bs)) bs
      = wr m p (concat (replicate (Suc k) bs))"
    unfolding rep len [symmetric]
    using Suc.prems by (intro wr_wr_append) (simp add: len add.commute)
  with Suc.IH [OF ok] show ?case
    by (simp add: set_step_def add.commute add.left_commute)
qed

lemma unat_u64_div [simp]: "unat (x div 8 :: u64) = unat x div 8" "unat (x div 4 :: u64) = unat x div 4"
  and unat_u64_mod [simp]: "unat (x mod 8 :: u64) = unat x mod 8" "unat (x mod 4 :: u64) = unat x mod 4"
  by (simp_all add: unat_div unat_mod)

text \<open>A word-wise pass over whole words and a byte-wise pass over the rest cover the region.\<close>

lemma copy_words_rest:
  assumes "region_ok d (k + r)" "region_ok s (k + r)" "disjoint d (k + r) s (k + r)"
  shows "(copy_step 1 ^^ r) (wr m d (rd m s k), d + of_nat k, s + of_nat k) =
         (wr m d (rd m s (k + r)), d + of_nat (k + r), s + of_nat (k + r))"
proof (cases "r = 0")
  case True
  then show ?thesis by simp
next
  case False
  have ud: "unat (d + of_nat k) = unat d + k" and us: "unat (s + of_nat k) = unat s + k"
    using assms False by (auto intro!: unat_add_region)
  have sep: "rd (wr m d (rd m s k)) (s + of_nat k) r = rd m (s + of_nat k) r"
    using assms us by (intro rd_wr_disjoint) (auto simp: region_ok_def disjoint_def)
  have "(copy_step 1 ^^ r) (wr m d (rd m s k), d + of_nat k, s + of_nat k) =
      (wr (wr m d (rd m s k)) (d + of_nat k) (rd m (s + of_nat k) r),
       d + of_nat k + of_nat r, s + of_nat k + of_nat r)"
    using copy_steps [of "d + of_nat k" r 1 "s + of_nat k" "wr m d (rd m s k)"] assms ud us
    by (auto simp: sep region_ok_def disjoint_def)
  moreover have "wr (wr m d (rd m s k)) (d + of_nat k) (rd m (s + of_nat k) r) = wr m d (rd m s (k + r))"
    using wr_wr_append [of d "rd m s k" "rd m (s + of_nat k) r" m] assms(1)
    by (simp add: rd_add [of m s k r])
  ultimately show ?thesis by (simp add: add.assoc)
qed

lemma copy_words_bytes:
  assumes "region_ok d n" "region_ok s n" "disjoint d n s n" "0 < w"
  shows "(copy_step 1 ^^ (n mod w)) ((copy_step w ^^ (n div w)) (m, d, s)) =
         (wr m d (rd m s n), d + of_nat n, s + of_nat n)"
proof -
  define k where "k = n div w * w"
  have n: "n = k + n mod w" by (simp add: k_def)
  have "(copy_step w ^^ (n div w)) (m, d, s) = (wr m d (rd m s k), d + of_nat k, s + of_nat k)"
    unfolding k_def using assms n
    by (intro copy_steps) (auto simp: region_ok_def disjoint_def simp flip: k_def)
  then show ?thesis
    using copy_words_rest [of d k "n mod w" s m] assms by (simp flip: n)
qed

lemma concat_replicate_single: "concat (replicate k (replicate w v)) = replicate (k * w) v"
  by (induction k) (auto simp: replicate_add)


lemma set_words_bytes:
  assumes "region_ok p n" "0 < w" "bs = replicate w v"
  shows "(set_step [v] ^^ (n mod w)) ((set_step bs ^^ (n div w)) (m, p)) =
         (wr m p (replicate n v), p + of_nat n)"
proof -
  define k where "k = n div w * w"
  have n: "n = k + n mod w" by (simp add: k_def)
  have words: "(set_step bs ^^ (n div w)) (m, p) = (wr m p (replicate k v), p + of_nat k)"
    using set_steps [of p "n div w" bs m] assms n
    by (simp add: concat_replicate_single region_ok_def del: of_nat_mult flip: k_def)
  show ?thesis
  proof (cases "n mod w = 0")
    case True
    with words n show ?thesis by simp
  next
    case False
    then have up: "unat (p + of_nat k) = unat p + k"
      using assms(1) n by (intro unat_add_region [of _ n]) auto
    have "(set_step [v] ^^ (n mod w)) (wr m p (replicate k v), p + of_nat k) =
        (wr (wr m p (replicate k v)) (p + of_nat k) (replicate (n mod w) v), p + of_nat k + of_nat (n mod w))"
      using set_steps [of "p + of_nat k" "n mod w" "[v]" "wr m p (replicate k v)"] assms(1) up n
        concat_replicate_single [of "n mod w" 1 v]
      by (simp add: region_ok_def)
    moreover have "wr (wr m p (replicate k v)) (p + of_nat k) (replicate (n mod w) v) = wr m p (replicate n v)"
      using wr_wr_append [of p "replicate k v" "replicate (n mod w) v" m] assms(1)
      by (simp flip: replicate_add n)
    ultimately show ?thesis using words by (simp add: add.assoc flip: of_nat_add n)
  qed
qed

lemma nth_le_bytes: "i < n \<Longrightarrow> le_bytes n v ! i = of_nat (v div 256 ^ i)"
proof (induction n arbitrary: v i)
  case 0
  then show ?case by simp
next
  case (Suc n)
  then show ?case by (cases i) (simp_all add: div_mult2_eq)
qed

lemma u64_bytes_nth: "i < 8 \<Longrightarrow> u64_bytes w ! i = ucast (drop_bit (8 * i) w)"
  and u32_bytes_nth: "i < 4 \<Longrightarrow> u32_bytes x ! i = ucast (drop_bit (8 * i) x)"
proof -
  have "i < 8 \<Longrightarrow> unat (drop_bit (8 * i) w) = unat w div 256 ^ i"
    and "i < 4 \<Longrightarrow> unat (drop_bit (8 * i) x) = unat x div 256 ^ i"
    using unat_less [of w] unat_less [of x]
    by (simp_all add: unsigned_drop_bit_eq take_bit_nat_eq_self) (simp_all add: drop_bit_eq_div power_mult)
  then show "i < 8 \<Longrightarrow> u64_bytes w ! i = ucast (drop_bit (8 * i) w)"
    and "i < 4 \<Longrightarrow> u32_bytes x ! i = ucast (drop_bit (8 * i) x)"
    by (simp_all add: u64_bytes_def u32_bytes_def nth_le_bytes word_eq_iff_unsigned [where 'a = nat]
        unsigned_ucast_eq unat_of_nat take_bit_eq_mod)
qed

lemma bit_double:
  fixes u :: "'a::len word"
  assumes "\<And>n. bit u n \<longleftrightarrow> n < 8 * k \<and> bit v (n mod 8)" "16 * k \<le> LENGTH('a)"
  shows "bit (u OR push_bit (8 * k) u) n \<longleftrightarrow> n < 8 * (2 * k) \<and> bit v (n mod 8)"
proof (cases "n < 8 * k")
  case True
  then show ?thesis by (simp add: bit_simps assms(1))
next
  case False
  then obtain j where j: "n = 8 * k + j" by (metis le_add_diff_inverse not_less)
  have "(8 * k + j) mod 8 = j mod 8" by simp
  with j assms(2) show ?thesis by (auto simp: bit_simps assms(1))
qed

lemma bit_expand_u32: "bit (expand_u32 v) n \<longleftrightarrow> n < 32 \<and> bit v (n mod 8)"
  and bit_expand_u64: "bit (expand_u64 v) n \<longleftrightarrow> n < 64 \<and> bit v (n mod 8)"
proof -
  have u: "bit (ucast v :: 'a::len word) n \<longleftrightarrow> n < 8 * 1 \<and> bit v (n mod 8)" if "8 \<le> LENGTH('a)" for n
    using that bit_imp_le_length [of v n] by (auto simp: bit_simps)
  show "bit (expand_u32 v) n \<longleftrightarrow> n < 32 \<and> bit v (n mod 8)"
    using bit_double [OF bit_double [OF u], where 'a = 32, of n] by (simp add: expand_u32_def Let_def)
  show "bit (expand_u64 v) n \<longleftrightarrow> n < 64 \<and> bit v (n mod 8)"
    using bit_double [OF bit_double [OF bit_double [OF u]], where 'a = 64, of n]
    by (simp add: expand_u64_def Let_def)
qed

lemma expand_bytes: "u32_bytes (expand_u32 v) = replicate 4 v" "u64_bytes (expand_u64 v) = replicate 8 v"
proof -
  have "ucast (drop_bit (8 * i) (expand_u32 v)) = v" if "i < 4" for i
    using that by (auto simp: bit_eq_iff bit_simps bit_expand_u32 dest: bit_imp_le_length)
  then show "u32_bytes (expand_u32 v) = replicate 4 v"
    by (simp add: list_eq_iff_nth_eq u32_bytes_nth)
  have "ucast (drop_bit (8 * i) (expand_u64 v)) = v" if "i < 8" for i
    using that by (auto simp: bit_eq_iff bit_simps bit_expand_u64 dest: bit_imp_le_length)
  then show "u64_bytes (expand_u64 v) = replicate 8 v"
    by (simp add: list_eq_iff_nth_eq u64_bytes_nth)
qed

section \<open>Block copy and fill are what they should be\<close>

lemma d_memcpy_block:
  assumes "region_ok d (unat len)" "region_ok s (unat len)" "disjoint d (unat len) s (unat len)"
    and "(d mod 8) OR (s mod 8) = 0 \<or> (d mod 8) OR (s mod 8) = 4"
  shows "d_memcpy m d s len = (wr m d (rd m s (unat len)), Some (s + len))"
proof -
  have "d_memcpy_u64 m d s len = (wr m d (rd m s (unat len)), s + len)"
    using copy_words_bytes [OF assms(1-3), of 8 m]
    by (simp add: d_memcpy_u64_def unrolled_simps)
  moreover have "d_memcpy_u32 m d s len = (wr m d (rd m s (unat len)), s + len)"
    using copy_words_bytes [OF assms(1-3), of 4 m]
    by (simp add: d_memcpy_u32_def unrolled_simps)
  ultimately show ?thesis
    using assms(4) by (auto simp: d_memcpy_def Let_def)
qed

text \<open>
  C38. Whenever source and destination do not overlap, do not wrap around the address space and
  the combined misalignment \<^verbatim>\<open>align_d | align_s\<close> is 0 or 4, the unrolled \<^verbatim>\<open>d_memcpy\<close> copies
  exactly the \<open>len\<close> bytes of the source to the destination, changes nothing else and returns
  the end of the source.
\<close>

theorem d_memcpy_correct:
  assumes "region_ok d (unat len)" "region_ok s (unat len)" "disjoint d (unat len) s (unat len)"
    and "(d mod 8) OR (s mod 8) = 0 \<or> (d mod 8) OR (s mod 8) = 4"
  shows "d_memcpy m d s len = (wr m d (rd m s (unat len)), Some (s + len))"
  by (rule d_memcpy_block [OF assms])

theorem d_memcpy_correct_witness:
  "d_memcpy (\<lambda>a. ucast a) 64 0 21 = (wr (\<lambda>a. ucast a) 64 (rd (\<lambda>a. ucast a) 0 21), Some 21)"
  using d_memcpy_correct [of 64 21 0 "\<lambda>a. ucast a"] by (simp add: region_ok_def disjoint_def)

text \<open>
  With any other misalignment \<^verbatim>\<open>d_memcpy\<close> copies nothing: the memory is unchanged and the
  pointer it returns is the uninitialised \<^verbatim>\<open>e\<close>.
\<close>

theorem d_memcpy_misaligned:
  assumes "len \<noteq> 0" "(d mod 8) OR (s mod 8) \<noteq> 0" "(d mod 8) OR (s mod 8) \<noteq> 4"
  shows "d_memcpy m d s len = (m, None)"
  using assms by (simp add: d_memcpy_def Let_def)

theorem d_memcpy_misaligned_witness: "d_memcpy (\<lambda>a. 7) 64 2 16 = ((\<lambda>a. 7), None)"
  using d_memcpy_misaligned [of 16 64 2 "\<lambda>a. 7"] by simp

text \<open>
  At an address that is a multiple of 4, \<^verbatim>\<open>d_memset\<close> fills exactly \<open>len\<close> bytes with the
  value and returns the end of the region.
\<close>

theorem d_memset_correct:
  assumes "region_ok p (unat len)" "p mod 8 = 0 \<or> p mod 8 = 4"
  shows "d_memset m p v len = (wr m p (replicate (unat len) v), Some (p + len))"
proof -
  have "d_memset_u64 m p v len = (wr m p (replicate (unat len) v), p + len)"
    using set_words_bytes [OF assms(1), of 8 "u64_bytes (expand_u64 v)" v m]
    by (simp add: d_memset_u64_def unrolled_simps expand_bytes)
  moreover have "d_memset_u32 m p v len = (wr m p (replicate (unat len) v), p + len)"
    using set_words_bytes [OF assms(1), of 4 "u32_bytes (expand_u32 v)" v m]
    by (simp add: d_memset_u32_def unrolled_simps expand_bytes)
  ultimately show ?thesis
    using assms(2) by (auto simp: d_memset_def)
qed

theorem d_memset_correct_witness:
  "d_memset (\<lambda>a. 0) 68 255 13 = (wr (\<lambda>a. 0) 68 (replicate 13 255), Some 81)"
  using d_memset_correct [of 68 13 "\<lambda>a. 0" 255] by (simp add: region_ok_def)


section \<open>Address arithmetic\<close>

lemma and_not_7: "(y :: u64) AND NOT 7 = push_bit 3 (drop_bit 3 y)"
proof -
  have "(7 :: u64) = mask 3" by (simp add: mask_eq_exp_minus_1)
  then show ?thesis by (simp only:) (auto simp: bit_eq_iff bit_simps)
qed

lemma unat_and_not_7: "unat ((y :: u64) AND NOT 7) = unat y div 8 * 8"
proof -
  have "unat y div 8 * 8 < 2 ^ 64"
    using unat_less [of y] by (simp add: order.strict_trans1 [OF div_times_less_eq_dividend])
  then show ?thesis
    unfolding and_not_7 by (simp add: push_bit_eq_mult drop_bit_eq_div unat_word_ariths unat_div)
qed

lemma align_up_8_unat:
  assumes "unat x + 7 < 2 ^ 64"
  shows "unat (align_up_8 x) = (unat x + 7) div 8 * 8 \<and> unat (align_up_8 x) mod 8 = 0
    \<and> unat x \<le> unat (align_up_8 x) \<and> unat (align_up_8 x) < unat x + 8"
proof -
  have "unat (x + 7) = unat x + 7" using assms by (simp add: unat_word_ariths)
  then have eq: "unat (align_up_8 x) = (unat x + 7) div 8 * 8"
    unfolding align_up_8_def unat_and_not_7 by simp
  have "(unat x + 7) div 8 * 8 + (unat x + 7) mod 8 = unat x + 7" by (rule div_mult_mod_eq)
  moreover have "(unat x + 7) mod 8 < 8" by simp
  ultimately show ?thesis unfolding eq by simp linarith
qed

text \<open>
  \<^verbatim>\<open>align_up_8\<close> rounds a pointer up to the next multiple of 8 (the least one not below it)
  as long as the sum does not wrap.
\<close>

theorem align_up_8_spec:
  assumes "unat x + 7 < 2 ^ 64"
  shows "unat (align_up_8 x) = (unat x + 7) div 8 * 8 \<and> unat (align_up_8 x) mod 8 = 0
    \<and> unat x \<le> unat (align_up_8 x) \<and> unat (align_up_8 x) < unat x + 8"
  by (rule align_up_8_unat [OF assms])

theorem align_up_8_spec_witness: "unat (align_up_8 13) = 16 \<and> (13 :: nat) \<le> unat (align_up_8 13)"
  using align_up_8_spec [of 13] by simp

text \<open>
  The DPA window of a host address is that address with bit 63 set, and \<^verbatim>\<open>d2h\<close> does not
  undo it: the macro writes \<^verbatim>\<open>1ull < 63\<close> for a shift, so it clears bit 0 and keeps bit 63. It
  never returns a host address (one below \<open>2 ^ 63\<close>) to itself.
\<close>

theorem d2h_not_inverse:
  assumes "a < 2 ^ 63"
  shows "d2h (h2d a) \<noteq> a \<and> bit (d2h (h2d a)) 63"
proof -
  have "bit (d2h (h2d a)) 63" by (simp add: d2h_def h2d_def bit_simps)
  moreover have "a div 2 ^ 63 = 0"
    using assms by (simp add: word_unat_eq_iff unat_div word_less_nat_alt)
  then have "\<not> bit a 63" by (simp add: bit_iff_odd)
  ultimately show ?thesis by metis
qed

theorem d2h_not_inverse_witness: "d2h (h2d 0x1000) \<noteq> 0x1000"
  using d2h_not_inverse [of "0x1000"] by simp

end
