(* ===== verification/Kernel_SD.thy ===== *)
theory Kernel_SD
  imports Kernel_Mem Object_Walker
begin

text \<open>
  The serializer that runs on the data path accelerator: \<^verbatim>\<open>lib/sd/kernel/sd.c\<close>. It works on raw
  device memory: class descriptions are structures of \<^verbatim>\<open>lib/sd/common/class_info.h\<close> read at
  their C offsets, the Java heap is the window of host memory at bit 63, and the output buffer is
  written through a cursor without any bound check. The functions of the device library that
  are not part of the repository are arguments.

  The kernel is proved to compute the same bytes as the native serializer by a simulation: a
  device buffer and the native buffer evolve in step.
\<close>

section \<open>Device data\<close>

definition ld16 :: "mem \<Rightarrow> u64 \<Rightarrow> u16" where "ld16 m a = bytes_u16 (rd m a 2)"
definition ld32 :: "mem \<Rightarrow> u64 \<Rightarrow> u32" where "ld32 m a = bytes_u32 (rd m a 4)"
definition ld64 :: "mem \<Rightarrow> u64 \<Rightarrow> u64" where "ld64 m a = bytes_u64 (rd m a 8)"

text \<open>The members of a \<^verbatim>\<open>class_info_t\<close> at an address, and those of its field descriptions.\<close>

definition d_klass :: "mem \<Rightarrow> u64 \<Rightarrow> u64" where "d_klass m i = ld64 m i"
definition d_id :: "mem \<Rightarrow> u64 \<Rightarrow> class_id_t" where "d_id m i = ld16 m (i + 8)"
definition d_enum_ref_arr_off :: "mem \<Rightarrow> u64 \<Rightarrow> u16" where "d_enum_ref_arr_off m i = ld16 m (i + 10)"
definition d_obj_size :: "mem \<Rightarrow> u64 \<Rightarrow> u16" where "d_obj_size m i = ld16 m (i + 16)"
definition d_header_size :: "mem \<Rightarrow> u64 \<Rightarrow> u8" where "d_header_size m i = m (i + 18)"
definition d_n_non_static_field :: "mem \<Rightarrow> u64 \<Rightarrow> u8" where "d_n_non_static_field m i = m (i + 19)"
definition d_dim :: "mem \<Rightarrow> u64 \<Rightarrow> u8" where "d_dim m i = m (i + 21)"

definition d_field :: "u64 \<Rightarrow> nat \<Rightarrow> u64" where "d_field i j = i + 24 + 24 * of_nat j"
definition f_id :: "mem \<Rightarrow> u64 \<Rightarrow> class_id_t" where "f_id m f = ld16 m f"
definition f_offset :: "mem \<Rightarrow> u64 \<Rightarrow> u16" where "f_offset m f = ld16 m (f + 2)"
definition f_type :: "mem \<Rightarrow> u64 \<Rightarrow> basic_type_t" where "f_type m f = m (f + 4)"

record meta_idx_t =
  class_infos_by_id :: u64
  class_infos_by_id_len :: u64
  class_infos_by_klass :: u64
  class_infos_by_klass_len :: u64
  class_infos_base :: u64
  class_infos_lim :: u64

text \<open>The two global variables.\<close>

record kglobals =
  g_meta_idx :: meta_idx_t
  g_jvm_args :: jvm_args_t

record buffer_t =
  bf_p :: u64
  bf_cur_p :: u64
  bf_lim :: u64

record sd_thread_args_t =
  ta_d_ctx :: u64
  ta_d_ctx_len :: u64
  ta_d_output :: u64
  ta_d_output_len :: u64
  ta_h_output :: u64
  ta_h_output_h :: u32

record se_input_t =
  se_h_object :: u64

record se_output_t =
  so_length :: u64
  so_h_output :: u64

section \<open>Class lookup and helpers\<close>

text \<open>The binary search of \<^verbatim>\<open>get_class_info_by_klass\<close> over the pointer array.\<close>

lemma mid_bounds:
  assumes "l < (r :: u32)"
  shows "unat ((r - l) div 2 + l) = (unat r - unat l) div 2 + unat l" "unat l \<le> unat ((r - l) div 2 + l)" "unat ((r - l) div 2 + l) < unat r"
proof -
  have lr: "unat l < unat r" using assms by (simp add: word_less_nat_alt)
  then have d: "unat (r - l) = unat r - unat l" by (simp add: unat_sub word_le_nat_alt)
  have "(unat r - unat l) div 2 + unat l < unat r" using lr by linarith
  then have "(unat r - unat l) div 2 + unat l < 2 ^ 32" using unat_less [of r] by simp
  then show 1: "unat ((r - l) div 2 + l) = (unat r - unat l) div 2 + unat l"
    by (simp add: unat_word_ariths unat_div d)
  show "unat l \<le> unat ((r - l) div 2 + l)" "unat ((r - l) div 2 + l) < unat r" unfolding 1 using lr by linarith+
qed

function k_search :: "mem \<Rightarrow> u64 \<Rightarrow> u64 \<Rightarrow> u32 \<Rightarrow> u32 \<Rightarrow> u64" where
  "k_search m arr klass l r =
    (if l < r then
       let mid = (r - l) div 2 + l; info = ld64 m (arr + 8 * ucast mid) in
       if d_klass m info = klass then info
       else if d_klass m info < klass then k_search m arr klass (mid + 1) r
       else k_search m arr klass l mid
     else 0)"
  by pat_completeness auto

termination
proof (relation "measure (\<lambda>(m, arr, klass, l, r). unat r - unat l)", goal_cases)
  case 1
  then show ?case by simp
next
  case (2 m arr klass l r mid info)
  have "unat (mid + 1) = unat mid + 1"
    using mid_bounds(3) [OF 2(1)] unat_less [of r] unfolding 2(2) by (subst unat_word_ariths) simp
  then have "unat r - unat (mid + 1) < unat r - unat l" using mid_bounds(2,3) [OF 2(1)] unfolding 2(2) by linarith
  then show ?case by simp
next
  case (3 m arr klass l r mid info)
  then show ?case using mid_bounds [OF 3(1)] by simp
qed

declare k_search.simps [simp del]

definition k_get_class_info_by_klass :: "kglobals \<Rightarrow> mem \<Rightarrow> u64 \<Rightarrow> u64" where
  "k_get_class_info_by_klass G m klass =
    k_search m (class_infos_by_klass (g_meta_idx G)) klass 0 (ucast (class_infos_by_klass_len (g_meta_idx G)))"

definition k_get_enum :: "mem \<Rightarrow> u64 \<Rightarrow> u32 \<Rightarrow> u64" where
  "k_get_enum m info ordinal = ld64 m (info + ucast (d_enum_ref_arr_off m info) + 8 * ucast ordinal)"

definition k_is_enum :: "mem \<Rightarrow> u64 \<Rightarrow> bool" where "k_is_enum m info \<longleftrightarrow> d_enum_ref_arr_off m info \<noteq> 0"
definition k_is_array :: "mem \<Rightarrow> u64 \<Rightarrow> bool" where "k_is_array m info \<longleftrightarrow> 1 \<le> d_dim m info"
definition k_is_object :: "mem \<Rightarrow> u64 \<Rightarrow> bool" where "k_is_object m info \<longleftrightarrow> d_dim m info = 0"

definition k_parse_u32_at :: "mem \<Rightarrow> u64 \<Rightarrow> u32 \<Rightarrow> u32" where
  "k_parse_u32_at m p off = ld32 m (p + ucast off)"
definition k_parse_u64_at :: "mem \<Rightarrow> u64 \<Rightarrow> u32 \<Rightarrow> u64" where
  "k_parse_u64_at m p off = ld64 m (p + ucast off)"
definition k_place_u32_at :: "mem \<Rightarrow> u64 \<Rightarrow> u32 \<Rightarrow> u32 \<Rightarrow> mem" where
  "k_place_u32_at m p v off = wr m (p + ucast off) (u32_bytes v)"
definition k_place_u64_at :: "mem \<Rightarrow> u64 \<Rightarrow> u64 \<Rightarrow> u32 \<Rightarrow> mem" where
  "k_place_u64_at m p v off = wr m (p + ucast off) (u64_bytes v)"

definition k_parse_cptr :: "u32 \<Rightarrow> u64 \<Rightarrow> u32 \<Rightarrow> u32 \<Rightarrow> u64 result" where
  "k_parse_cptr cptr base mode shift =
    (let ptr = (ucast cptr :: u64) in
     if mode = MODE_RAW32 then Inr ptr
     else if mode = MODE_ZERO_BASED then Inr (push_bit (unat shift) ptr)
     else if mode = MODE_NON_ZERO_BASED then Inr (base + push_bit (unat shift) ptr)
     else Inl Unreachable)"

definition k_compress_ptr :: "u64 \<Rightarrow> u64 \<Rightarrow> u32 \<Rightarrow> u32 \<Rightarrow> u32 result" where
  "k_compress_ptr ptr base mode shift =
    (if mode = MODE_RAW32 then Inr (ucast ptr)
     else if mode = MODE_ZERO_BASED then Inr (ucast (drop_bit (unat shift) ptr))
     else if mode = MODE_NON_ZERO_BASED then Inr (ucast (drop_bit (unat shift) ptr - base))
     else Inl Unreachable)"

definition k_parse_heap_cptr :: "kglobals \<Rightarrow> u64 \<Rightarrow> u64 result" where
  "k_parse_heap_cptr G cptr =
    (let a = g_jvm_args G in
     k_parse_cptr (ucast cptr) (h_heap_base a) (heap_compress_ptr_mode a) (heap_compress_ptr_shift a))"

definition k_parse_metaspace_cptr :: "kglobals \<Rightarrow> u64 \<Rightarrow> u64 result" where
  "k_parse_metaspace_cptr G cptr =
    (let a = g_jvm_args G in
     k_parse_cptr (ucast cptr) (h_compressed_class_space_base a) (metaspace_compress_ptr_mode a)
       (metaspace_compress_ptr_shift a))"

definition k_compress_heap_ptr :: "kglobals \<Rightarrow> u64 \<Rightarrow> u32 result" where
  "k_compress_heap_ptr G ptr =
    (let a = g_jvm_args G in
     k_compress_ptr ptr (h_heap_base a) (heap_compress_ptr_mode a) (heap_compress_ptr_shift a))"

definition k_compress_metaspace_ptr :: "kglobals \<Rightarrow> u64 \<Rightarrow> u32 result" where
  "k_compress_metaspace_ptr G ptr =
    (let a = g_jvm_args G in
     k_compress_ptr ptr (h_compressed_class_space_base a) (metaspace_compress_ptr_mode a)
       (metaspace_compress_ptr_shift a))"

definition k_get_klass_pointer :: "kglobals \<Rightarrow> mem \<Rightarrow> u64 \<Rightarrow> u64 result" where
  "k_get_klass_pointer G m d_object = k_parse_metaspace_cptr G (ucast (k_parse_u32_at m d_object 8))"
definition k_get_enum_ordinal :: "mem \<Rightarrow> u64 \<Rightarrow> u32" where
  "k_get_enum_ordinal m d_object = k_parse_u32_at m d_object 12"
definition k_get_array_length :: "mem \<Rightarrow> u64 \<Rightarrow> u32 \<Rightarrow> u32" where
  "k_get_array_length m d_array header_size = k_parse_u32_at m d_array (header_size - 4)"
definition k_get_array_elem_cptr :: "mem \<Rightarrow> u64 \<Rightarrow> u32 \<Rightarrow> u32 \<Rightarrow> u32" where
  "k_get_array_elem_cptr m d_array header_size i = k_parse_u32_at m d_array (header_size + i * 4)"

definition k_is_null_f :: "flag_t \<Rightarrow> bool" where "k_is_null_f f \<longleftrightarrow> f AND CTRL_FLAG_MASK = NULL_FLAG"
definition k_is_object_f :: "flag_t \<Rightarrow> bool" where "k_is_object_f f \<longleftrightarrow> f AND TYPE_FLAG_MASK = OBJECT_FLAG"
definition k_is_array_f :: "flag_t \<Rightarrow> bool" where "k_is_array_f f \<longleftrightarrow> f AND TYPE_FLAG_MASK = ARRAY_FLAG"
definition k_is_enum_f :: "flag_t \<Rightarrow> bool" where "k_is_enum_f f \<longleftrightarrow> k_is_object_f f \<and> f AND CTRL_FLAG_MASK = ENUM_FLAG"
definition k_is_redirect_f :: "flag_t \<Rightarrow> bool" where "k_is_redirect_f f \<longleftrightarrow> f AND CTRL_FLAG_MASK = REDIRECT_FLAG"

definition k_is_primitive_type :: "basic_type_t \<Rightarrow> bool" where
  "k_is_primitive_type t \<longleftrightarrow> sint T_BOOLEAN \<le> sint t \<and> sint t \<le> sint T_LONG"
definition k_is_reference_type :: "basic_type_t \<Rightarrow> bool" where
  "k_is_reference_type t \<longleftrightarrow> sint T_OBJECT \<le> sint t \<and> sint t \<le> sint T_ARRAY"

definition k_type_size :: "u16 \<Rightarrow> u32 result" where
  "k_type_size t =
    (if t \<in> {4, 8} then Inr 1
     else if t \<in> {5, 9} then Inr 2
     else if t \<in> {10, 6} then Inr 4
     else if t \<in> {11, 7} then Inr 8
     else if t \<in> {12, 13} then Inr 4
     else if t \<in> {14, 15, 16, 17, 18, 19, 20} then Inr 0
     else Inl Unreachable)"

section \<open>The output buffer\<close>

text \<open>The state of a task: device memory and the cursor.\<close>

type_synonym kstate = "mem \<times> buffer_t"

definition k_cur_off :: "kstate \<Rightarrow> u32" where
  "k_cur_off s = ucast (bf_cur_p (snd s) - bf_p (snd s))"

definition k_put_at :: "kstate \<Rightarrow> u8 list \<Rightarrow> u32 \<Rightarrow> kstate" where
  "k_put_at s bs off = (wr (fst s) (bf_p (snd s) + ucast off) bs, snd s)"

definition k_store :: "kstate \<Rightarrow> u8 list \<Rightarrow> kstate" where
  "k_store s bs = (wr (fst s) (bf_cur_p (snd s)) bs, (snd s)\<lparr>bf_cur_p := bf_cur_p (snd s) + of_nat (length bs)\<rparr>)"

definition put_u8 :: "kstate \<Rightarrow> u8 \<Rightarrow> kstate" where "put_u8 s v = k_store s [v]"
definition put_u16 :: "kstate \<Rightarrow> u16 \<Rightarrow> kstate" where "put_u16 s v = k_store s (u16_bytes v)"
definition put_u32 :: "kstate \<Rightarrow> u32 \<Rightarrow> kstate" where "put_u32 s v = k_store s (u32_bytes v)"
definition put_u64 :: "kstate \<Rightarrow> u64 \<Rightarrow> kstate" where "put_u64 s v = k_store s (u64_bytes v)"
definition put_u32_at :: "kstate \<Rightarrow> u32 \<Rightarrow> u32 \<Rightarrow> kstate" where "put_u32_at s v off = k_put_at s (u32_bytes v) off"

definition get_u32_at :: "kstate \<Rightarrow> u32 \<Rightarrow> u32" where
  "get_u32_at s off = ld32 (fst s) (bf_p (snd s) + ucast off)"

definition k_load :: "kstate \<Rightarrow> nat \<Rightarrow> u8 list \<times> kstate" where
  "k_load s n = (rd (fst s) (bf_cur_p (snd s)) n, (fst s, (snd s)\<lparr>bf_cur_p := bf_cur_p (snd s) + of_nat n\<rparr>))"

definition get_u8 :: "kstate \<Rightarrow> u8 \<times> kstate" where "get_u8 s = map_prod hd id (k_load s 1)"
definition get_u16 :: "kstate \<Rightarrow> u16 \<times> kstate" where "get_u16 s = map_prod bytes_u16 id (k_load s 2)"
definition get_u32 :: "kstate \<Rightarrow> u32 \<times> kstate" where "get_u32 s = map_prod bytes_u32 id (k_load s 4)"
definition get_u64 :: "kstate \<Rightarrow> u64 \<times> kstate" where "get_u64 s = map_prod bytes_u64 id (k_load s 8)"

definition k_get :: "kstate \<Rightarrow> u64 \<Rightarrow> u32 \<Rightarrow> kstate" where
  "k_get s d_dest len =
    (fst (d_memcpy (fst s) d_dest (bf_cur_p (snd s)) (ucast len)),
     (snd s)\<lparr>bf_cur_p := bf_cur_p (snd s) + ucast len\<rparr>)"

definition k_get_at :: "kstate \<Rightarrow> u64 \<Rightarrow> u32 \<Rightarrow> u32 \<Rightarrow> kstate" where
  "k_get_at s d_dest len off = (fst (d_memcpy (fst s) d_dest (bf_p (snd s) + ucast off) (ucast len)), snd s)"

text \<open>The copy may refuse a misaligned source; the cursor advances all the same.\<close>

definition k_put :: "kstate \<Rightarrow> u64 \<Rightarrow> u32 \<Rightarrow> kstate" where
  "k_put s d_src len =
    (fst (d_memcpy (fst s) (bf_cur_p (snd s)) d_src (ucast len)),
     (snd s)\<lparr>bf_cur_p := bf_cur_p (snd s) + ucast len\<rparr>)"

definition k_skip :: "kstate \<Rightarrow> u32 \<Rightarrow> kstate" where
  "k_skip s n = (fst s, (snd s)\<lparr>bf_cur_p := bf_cur_p (snd s) + ucast n\<rparr>)"

definition k_skip_next_align_8 :: "kstate \<Rightarrow> kstate" where
  "k_skip_next_align_8 s = (fst s, (snd s)\<lparr>bf_cur_p := align_up_8 (bf_cur_p (snd s))\<rparr>)"

definition k_fill_next_align_8 :: "kstate \<Rightarrow> kstate" where
  "k_fill_next_align_8 s =
    (let padding = (ucast (align_up_8 (bf_cur_p (snd s)) - bf_cur_p (snd s)) :: u32) in
     if padding = 0 then s
     else if padding = 7 then put_u32 (put_u16 (put_u8 s 0) 0) 0
     else if padding = 6 then put_u32 (put_u16 s 0) 0
     else if padding = 5 then put_u32 (put_u8 s 0) 0
     else if padding = 4 then put_u32 s 0
     else if padding = 3 then put_u16 (put_u8 s 0) 0
     else if padding = 2 then put_u16 s 0
     else if padding = 1 then put_u8 s 0
     else s)"

section \<open>The recursive serializer\<close>

type_synonym recur_fn = "u64 \<Rightarrow> class_id_t \<Rightarrow> kstate \<Rightarrow> (u32 \<times> kstate) result"

primrec k_serialize_fields :: "recur_fn \<Rightarrow> kglobals \<Rightarrow> u64 \<Rightarrow> u32 \<Rightarrow> nat list \<Rightarrow> kstate \<Rightarrow> kstate result" where
  "k_serialize_fields recur G info obj_base [] s = Inr s"
| "k_serialize_fields recur G info obj_base (i # is) s =
    (let f = d_field info i in
     if k_is_primitive_type (f_type (fst s) f) then k_serialize_fields recur G info obj_base is s
     else
       let off = obj_base + ucast (f_offset (fst s) f); h_member_cptr = get_u32_at s off in
       bnd (k_parse_heap_cptr G (ucast h_member_cptr)) (\<lambda>h_member.
       bnd (recur h_member (f_id (fst s) f) s) (\<lambda>(member_offset, s).
         k_serialize_fields recur G info obj_base is (put_u32_at s member_offset off))))"

definition k_do_serialize_object :: "recur_fn \<Rightarrow> kglobals \<Rightarrow> u64 \<Rightarrow> u64 \<Rightarrow> kstate \<Rightarrow> kstate result" where
  "k_do_serialize_object recur G h_object info s =
    (let s = put_u16 s (d_id (fst s) info);
         s = put_u16 s OBJECT_FLAG;
         s = k_fill_next_align_8 s;
         obj_base = k_cur_off s;
         s = k_put s (h2d (h_object + ucast (d_header_size (fst s) info)))
               (ucast (d_obj_size (fst s) info) - ucast (d_header_size (fst s) info))
     in k_serialize_fields recur G info obj_base [0..<unat (d_n_non_static_field (fst s) info)] s)"

primrec k_serialize_elems :: "recur_fn \<Rightarrow> kglobals \<Rightarrow> u64 \<Rightarrow> u64 \<Rightarrow> nat list \<Rightarrow> kstate \<Rightarrow> kstate result" where
  "k_serialize_elems recur G d_array info [] s = Inr s"
| "k_serialize_elems recur G d_array info (i # is) s =
    (let h_elem_cptr = k_get_array_elem_cptr (fst s) d_array (ucast (d_header_size (fst s) info)) (of_nat i) in
     bnd (k_parse_heap_cptr G (ucast h_elem_cptr)) (\<lambda>h_elem.
     bnd (recur h_elem (f_id (fst s) (d_field info 0)) s) (\<lambda>(elem_offset, s).
       k_serialize_elems recur G d_array info is s)))"

text \<open>An element type that is neither is logged and the array left without its elements.\<close>

definition k_do_serialize_array :: "recur_fn \<Rightarrow> kglobals \<Rightarrow> u64 \<Rightarrow> u64 \<Rightarrow> kstate \<Rightarrow> kstate result" where
  "k_do_serialize_array recur G h_array info s =
    (let d_array = h2d h_array;
         len = k_get_array_length (fst s) d_array (ucast (d_header_size (fst s) info));
         s = put_u16 s (d_id (fst s) info);
         s = put_u16 s ARRAY_FLAG;
         s = put_u32 s len;
         s = k_fill_next_align_8 s;
         elem = d_field info 0
     in if k_is_reference_type (f_type (fst s) elem) then k_serialize_elems recur G d_array info [0..<unat len] s
        else if k_is_primitive_type (f_type (fst s) elem) then
          bnd (k_type_size (scast (f_type (fst s) elem))) (\<lambda>sz.
            Inr (k_put s (d_array + ucast (d_header_size (fst s) info)) (len * sz)))
        else Inr s)"

text \<open>
  A class that is not found is logged, and the null pointer that is returned is then
  dereferenced: that is the end of the task.
\<close>

primrec k_do_serialize_recur :: "nat \<Rightarrow> kglobals \<Rightarrow> recur_fn" where
  "k_do_serialize_recur 0 G h_object expected_id s = Inl Out_of_fuel"
| "k_do_serialize_recur (Suc n) G h_object expected_id s =
    (let s = k_fill_next_align_8 s; base = k_cur_off s in
     if h_object = 0 then Inr (base, put_u16 (put_u16 s expected_id) NULL_FLAG)
     else
       let d_object = h2d h_object in
       bnd (k_get_klass_pointer G (fst s) d_object) (\<lambda>klass.
       let info = k_get_class_info_by_klass G (fst s) klass in
       bnd (check (info \<noteq> 0) Unreachable) (\<lambda>_.
       bnd (if k_is_enum (fst s) info then
              let s = put_u16 s (d_id (fst s) info);
                  s = put_u16 s (ENUM_FLAG OR OBJECT_FLAG)
              in Inr (put_u32 s (k_get_enum_ordinal (fst s) d_object))
            else if k_is_object (fst s) info then k_do_serialize_object (k_do_serialize_recur n G) G h_object info s
            else if k_is_array (fst s) info then k_do_serialize_array (k_do_serialize_recur n G) G h_object info s
            else Inr s) (\<lambda>s.
         Inr (base, s)))))"

definition k_do_serialize_top :: "nat \<Rightarrow> kglobals \<Rightarrow> u64 \<Rightarrow> kstate \<Rightarrow> (u64 \<times> kstate) result" where
  "k_do_serialize_top n G h_object s =
    bnd (k_do_serialize_recur n G h_object UNREGISTERED_CLASS_ID s) (\<lambda>(_, s).
    let total_length = bf_cur_p (snd s) - bf_p (snd s) in
    Inr (total_length, (wr (fst s) (bf_p (snd s)) (u64_bytes total_length), snd s)))"

text \<open>\<open>ext\<close> stands for \<^verbatim>\<open>doca_dpa_dev_mmap_get_external_ptr\<close>.\<close>

definition k_do_serialize :: "nat \<Rightarrow> (u32 \<Rightarrow> u64 \<Rightarrow> u64) \<Rightarrow> kglobals \<Rightarrow> sd_thread_args_t \<Rightarrow> se_input_t \<Rightarrow> mem \<Rightarrow> (se_output_t \<times> mem) result" where
  "k_do_serialize n ext G args inp m =
    (let outbuf = \<lparr>bf_p = ta_d_output args, bf_cur_p = ta_d_output args + of_nat OBJECT_DATA_OFFSET, bf_lim = ta_d_output_len args\<rparr> in
     bnd (k_do_serialize_top n G (se_h_object inp) (m, outbuf)) (\<lambda>(len, s).
     let h_output = ext (ta_h_output_h args) (ta_h_output args);
         m = fst (d_memcpy (fst s) h_output (bf_p (snd s)) len)
     in Inr (\<lparr>so_length = len, so_h_output = ta_h_output args\<rparr>, m)))"

section \<open>Messages and remote procedure calls\<close>

record payload_t =
  pl_id :: u64
  pl_payload :: "u8 list"

record dpa_thread_args_t =
  dt_cons_comp_h :: u64
  dt_prod_comp_h :: u64
  dt_cons_h :: u64
  dt_prod_h :: u64
  dt_cpu_cons_id :: u32

text \<open>
  The functions of the device library the message handlers call, on an unknown state of the
  communication channels.
\<close>

record 'd dpa_dev =
  consumer_get_completion :: "'d \<Rightarrow> u64 \<Rightarrow> payload_t option \<times> 'd"
  consumer_completion_ack :: "'d \<Rightarrow> u64 \<Rightarrow> u32 \<Rightarrow> 'd"
  consumer_completion_request_notification :: "'d \<Rightarrow> u64 \<Rightarrow> 'd"
  consumer_ack :: "'d \<Rightarrow> u64 \<Rightarrow> u32 \<Rightarrow> 'd"
  producer_post_send_imm_only :: "'d \<Rightarrow> u64 \<Rightarrow> u32 \<Rightarrow> payload_t \<Rightarrow> 'd"
  get_completion :: "'d \<Rightarrow> u64 \<Rightarrow> bool \<times> 'd"
  completion_ack :: "'d \<Rightarrow> u64 \<Rightarrow> u32 \<Rightarrow> 'd"
  completion_request_notification :: "'d \<Rightarrow> u64 \<Rightarrow> 'd"
  thread_reschedule :: "'d \<Rightarrow> 'd"

definition post_recv :: "'d dpa_dev \<Rightarrow> 'd \<Rightarrow> u64 \<Rightarrow> u32 \<Rightarrow> 'd" where
  "post_recv D d cons_h n = consumer_ack D d cons_h n"

definition post_send :: "'d dpa_dev \<Rightarrow> 'd \<Rightarrow> u64 \<Rightarrow> u32 \<Rightarrow> payload_t \<Rightarrow> 'd" where
  "post_send D d prod_h cons_id imm = producer_post_send_imm_only D d prod_h cons_id imm"

text \<open>The input and output structures inside the 24 bytes of a payload.\<close>

definition input_of :: "u8 list \<Rightarrow> se_input_t" where
  "input_of p = \<lparr>se_h_object = bytes_u64 (take 8 p)\<rparr>"

definition output_payload :: "u8 list \<Rightarrow> se_output_t \<Rightarrow> u8 list" where
  "output_payload p out = patch p 0 (u64_bytes (so_length out) @ u64_bytes (so_h_output out))"

text \<open>\<open>junk\<close> are the bytes of the reply that are not initialised.\<close>

definition comch_cons_comp :: "'d dpa_dev \<Rightarrow> nat \<Rightarrow> (u32 \<Rightarrow> u64 \<Rightarrow> u64) \<Rightarrow> kglobals \<Rightarrow> sd_thread_args_t \<Rightarrow> dpa_thread_args_t
    \<Rightarrow> u8 list \<Rightarrow> 'd \<times> mem \<Rightarrow> ('d \<times> mem) result" where
  "comch_cons_comp D n ext G sd p junk s =
    (let (d, m) = s; (got, d) = consumer_get_completion D d (dt_cons_comp_h p) in
     case got of None \<Rightarrow> Inr (d, m)
     | Some input \<Rightarrow>
         bnd (k_do_serialize n ext G sd (input_of (pl_payload input)) m) (\<lambda>(out, m).
         let output = \<lparr>pl_id = pl_id input, pl_payload = output_payload junk out\<rparr>;
             d = consumer_completion_ack D d (dt_cons_comp_h p) 1;
             d = consumer_completion_request_notification D d (dt_cons_comp_h p);
             d = post_recv D d (dt_cons_h p) 1;
             d = post_send D d (dt_prod_h p) (dt_cpu_cons_id p) output
         in Inr (d, m)))"

definition comch_prod_comp :: "'d dpa_dev \<Rightarrow> dpa_thread_args_t \<Rightarrow> 'd \<Rightarrow> 'd" where
  "comch_prod_comp D p d =
    (let (got, d) = get_completion D d (dt_prod_comp_h p) in
     if got then completion_request_notification D (completion_ack D d (dt_prod_comp_h p) 1) (dt_prod_comp_h p)
     else d)"

definition k_serialize :: "'d dpa_dev \<Rightarrow> nat \<Rightarrow> (u32 \<Rightarrow> u64 \<Rightarrow> u64) \<Rightarrow> kglobals \<Rightarrow> sd_thread_args_t \<Rightarrow> dpa_thread_args_t
    \<Rightarrow> u8 list \<Rightarrow> 'd \<times> mem \<Rightarrow> ('d \<times> mem) result" where
  "k_serialize D n ext G sd p junk s =
    bnd (comch_cons_comp D n ext G sd p junk s) (\<lambda>(d, m).
      Inr (thread_reschedule D (comch_prod_comp D p d), m))"

text \<open>\<^verbatim>\<open>register_class_infos\<close>: copy the class descriptions and the two arrays of offsets, then turn the offsets into device pointers.\<close>

primrec rebase :: "u64 \<Rightarrow> u64 \<Rightarrow> u64 \<Rightarrow> nat list \<Rightarrow> mem \<Rightarrow> mem" where
  "rebase by_id by_klass dev [] m = m"
| "rebase by_id by_klass dev (i # is) m =
    (let p = by_id + 8 * of_nat i; q = by_klass + 8 * of_nat i;
         m = wr m p (u64_bytes (ld64 m p + dev));
         m = wr m q (u64_bytes (ld64 m q + dev))
     in rebase by_id by_klass dev is m)"

definition register_class_infos :: "(u32 \<Rightarrow> u64 \<Rightarrow> u64) \<Rightarrow> u64 \<Rightarrow> u32 \<Rightarrow> u64 \<Rightarrow> u64 \<Rightarrow> u64 \<Rightarrow> u32 \<Rightarrow> u64 \<Rightarrow> u32 \<Rightarrow> u64
    \<Rightarrow> kglobals \<times> mem \<Rightarrow> kglobals \<times> mem" where
  "register_class_infos ext dev host_h host_base class_infos_len n_class_infos by_id_h by_id_base by_klass_h by_klass_base s =
    (let (G, m) = s;
         offsets_length = n_class_infos * 8;
         meta = \<lparr>class_infos_by_id = dev + class_infos_len, class_infos_by_id_len = n_class_infos,
           class_infos_by_klass = dev + class_infos_len + offsets_length, class_infos_by_klass_len = n_class_infos,
           class_infos_base = dev, class_infos_lim = class_infos_len\<rparr>;
         m = fst (d_memcpy m (class_infos_base meta) (ext host_h host_base) class_infos_len);
         m = fst (d_memcpy m (class_infos_by_id meta) (ext by_id_h by_id_base) offsets_length);
         m = fst (d_memcpy m (class_infos_by_klass meta) (ext by_klass_h by_klass_base) offsets_length);
         m = rebase (class_infos_by_id meta) (class_infos_by_klass meta) dev [0..<unat n_class_infos] m
     in (G\<lparr>g_meta_idx := meta\<rparr>, m))"

definition register_jvm_heap :: "u64 \<Rightarrow> u64 \<Rightarrow> u64 \<Rightarrow> u64 \<Rightarrow> u32 \<Rightarrow> u32 \<Rightarrow> u32 \<Rightarrow> u32 \<Rightarrow> u32 \<Rightarrow> kglobals \<Rightarrow> kglobals" where
  "register_jvm_heap heap_base heap_size ccs_base ccs_size mmap_h heap_mode metaspace_mode heap_shift metaspace_shift G =
    G\<lparr>g_jvm_args := \<lparr>h_heap_base = heap_base, h_heap_size = heap_size, h_compressed_class_space_base = ccs_base,
       h_compressed_class_space_size = ccs_size, heap_mmap_h = mmap_h, heap_compress_ptr_mode = heap_mode,
       metaspace_compress_ptr_mode = metaspace_mode, heap_compress_ptr_shift = heap_shift,
       metaspace_compress_ptr_shift = metaspace_shift\<rparr>\<rparr>"

end
