(* ===== verification/Kernel_Sim.thy ===== *)
theory Kernel_Sim
  imports Kernel_SD
begin

text \<open>
  The simulation between the native serializer and the kernel, and what the registration of class
  descriptions on the device establishes.
\<close>

section \<open>Device memory and the native buffer\<close>

definition inside :: "u64 \<Rightarrow> nat \<Rightarrow> u64 \<Rightarrow> bool" where
  "inside P n x \<longleftrightarrow> unat P \<le> unat x \<and> unat x < unat P + n"

text \<open>
  \<open>dev_ok P lim\<close>: the output buffer is 8-aligned, below the window of host memory and smaller than
  4 GB. \<open>ksim\<close>: it holds the bytes of the native buffer, the cursors correspond, and outside of it
  the memory is still \<open>m0\<close>.
\<close>

definition dev_ok :: "u64 \<Rightarrow> nat \<Rightarrow> bool" where
  "dev_ok P lim \<longleftrightarrow> unat P mod 8 = 0 \<and> unat P + lim \<le> 2 ^ 63 \<and> lim < 2 ^ 32"

definition ksim :: "mem \<Rightarrow> u64 \<Rightarrow> nat \<Rightarrow> kstate \<Rightarrow> RWBuffer \<Rightarrow> bool" where
  "ksim m0 P lim s b \<longleftrightarrow> bf_p (snd s) = P \<and> rd (fst s) P lim = rw_b b \<and> bf_cur_p (snd s) = P + of_nat (rw_off b)
     \<and> rw_off b \<le> lim \<and> (\<forall>x. \<not> inside P lim x \<longrightarrow> fst s x = m0 x)"

lemma ksim_length: "ksim m0 P lim s b \<Longrightarrow> length (rw_b b) = lim"
  by (metis ksim_def length_rd)

lemma dev_region: "dev_ok P lim \<Longrightarrow> region_ok P lim"
  by (simp add: dev_ok_def region_ok_def)

lemma unat_dev:
  assumes "dev_ok P lim" "off \<le> lim"
  shows "unat (P + of_nat off) = unat P + off"
proof -
  have "unat P + off < 2 ^ 64" using assms by (simp add: dev_ok_def)
  then show ?thesis by (simp add: unat_word_ariths unat_of_nat)
qed

lemma rd_wr_patch:
  assumes "dev_ok P lim" "off + length bs \<le> lim"
  shows "rd (wr m (P + of_nat off) bs) P lim = patch (rd m P lim) off bs"
    "\<not> inside P lim x \<Longrightarrow> wr m (P + of_nat off) bs x = m x"
proof -
  have u: "unat (P + of_nat off) = unat P + off" by (rule unat_dev [OF assms(1)]) (use assms(2) in linarith)
  have r: "region_ok (P + of_nat off) (length bs)" using assms u by (simp add: region_ok_def dev_ok_def)
  show "rd (wr m (P + of_nat off) bs) P lim = patch (rd m P lim) off bs"
    using assms by (auto simp: list_eq_iff_nth_eq wr_apply [OF r] u nth_patch unat_add_region [OF dev_region])
  show "\<not> inside P lim x \<Longrightarrow> wr m (P + of_nat off) bs x = m x"
    using assms by (auto simp: wr_apply [OF r] u inside_def)
qed

lemma ksim_write:
  assumes D: "dev_ok P lim" and s: "ksim m0 P lim s b" and "put_at b bs off = Inr b'"
  shows "ksim m0 P lim (wr (fst s) (P + of_nat off) bs, snd s) b'"
    "off + length bs \<le> lim" "rw_off b' = rw_off b"
proof -
  show le: "off + length bs \<le> lim" "rw_off b' = rw_off b"
    using assms(3) ksim_length [OF s] by (auto simp: put_at_def split: if_splits)
  show "ksim m0 P lim (wr (fst s) (P + of_nat off) bs, snd s) b'"
    using assms(3) s rd_wr_patch [OF D le(1)] by (auto simp: ksim_def put_at_def split: if_splits)
qed

lemma ksim_store:
  assumes D: "dev_ok P lim" and s: "ksim m0 P lim s b" and "put b bs = Inr b'"
  shows "ksim m0 P lim (k_store s bs) b'"
proof -
  from assms(3) obtain b1 where b1: "put_at b bs (rw_off b) = Inr b1" "b' = b1\<lparr>rw_off := rw_off b + length bs\<rparr>"
    by (auto simp: put_def put_at_def split: if_splits)
  have "bf_cur_p (snd s) = P + of_nat (rw_off b)" using s by (simp add: ksim_def)
  then show ?thesis using ksim_write [OF D s b1(1)] by (auto simp: k_store_def ksim_def b1(2) add.assoc)
qed

lemma ksim_put_at:
  assumes D: "dev_ok P lim" and s: "ksim m0 P lim s b" and "put_at b bs off = Inr b'"
  shows "ksim m0 P lim (k_put_at s bs (of_nat off)) b'"
proof -
  have "off < 2 ^ 32" using ksim_write(2) [OF assms] D by (simp add: dev_ok_def)
  then have "(ucast (of_nat off :: u32) :: u64) = of_nat off"
    by (intro word_unat_eq_iff [THEN iffD2]) (simp add: unat_ucast_up unat_of_nat)
  moreover have "bf_p (snd s) = P" using s by (simp add: ksim_def)
  ultimately show ?thesis using ksim_write(1) [OF assms] by (simp add: k_put_at_def)
qed

lemma ksim_cur_off:
  assumes "dev_ok P lim" "ksim m0 P lim s b"
  shows "k_cur_off s = of_nat (rw_off b)"
proof -
  have "bf_cur_p (snd s) - bf_p (snd s) = of_nat (rw_off b)" using assms(2) by (simp add: ksim_def)
  moreover have "rw_off b < 2 ^ 32" using assms by (simp add: ksim_def dev_ok_def)
  ultimately show ?thesis
    by (intro word_unat_eq_iff [THEN iffD2]) (simp add: k_cur_off_def unsigned_ucast_eq unat_of_nat take_bit_nat_eq_self)
qed

lemma ksim_get:
  assumes D: "dev_ok P lim" and s: "ksim m0 P lim s b" and "get_at b 4 off = Inr bs"
  shows "get_u32_at s (of_nat off) = bytes_u32 bs"
proof -
  have le: "off + 4 \<le> lim" and bs: "bs = chunk (rw_b b) off 4"
    using assms(3) ksim_length [OF s] by (auto simp: get_at_def split: if_splits)
  then have "(ucast (of_nat off :: u32) :: u64) = of_nat off"
    using D by (intro word_unat_eq_iff [THEN iffD2]) (simp add: unat_ucast_up unat_of_nat dev_ok_def)
  moreover have "rd (fst s) (P + of_nat off) 4 = chunk (rw_b b) off 4"
  proof -
    have "rw_b b = rd (fst s) P lim" using s by (simp add: ksim_def)
    then show ?thesis using le by (auto simp: list_eq_iff_nth_eq add.assoc)
  qed
  ultimately show ?thesis using s by (simp add: get_u32_at_def ld32_def ksim_def bs)
qed

text \<open>The padding the kernel writes piecewise is the padding of the native buffer.\<close>

lemma k_store_store:
  assumes "region_ok (bf_cur_p (snd s)) (length xs + length ys)"
  shows "k_store (k_store s xs) ys = k_store s (xs @ ys)"
  using wr_wr_append [OF assms, of "fst s"] by (simp add: k_store_def add.assoc)

lemma le_bytes_0: "le_bytes n 0 = replicate n 0"
  by (induction n) simp_all

lemma zero_bytes: "u16_bytes 0 = replicate 2 0" "u32_bytes 0 = replicate 4 0"
  by (simp_all add: u16_bytes_def u32_bytes_def le_bytes_0)

lemma cons_replicate: "x # replicate n x = replicate (Suc n) x" "replicate (Suc 0) x = [x]"
  by simp_all

lemma k_fill_store:
  assumes "region_ok (bf_cur_p (snd s)) 7" "unat (align_up_8 (bf_cur_p (snd s)) - bf_cur_p (snd s)) = k" "k < 8"
  shows "k_fill_next_align_8 s = k_store s (replicate k 0)"
proof -
  have s: "k_store s [] = s" by (cases s) (simp add: k_store_def)
  have r: "region_ok (bf_cur_p (snd s)) n" if "n \<le> 7" for n by (rule region_ok_mono [OF assms(1) that])
  have "(ucast (align_up_8 (bf_cur_p (snd s)) - bf_cur_p (snd s)) :: u32) = of_nat k"
    using assms(2,3) by (intro word_unat_eq_iff [THEN iffD2]) (simp add: unsigned_ucast_eq unat_of_nat take_bit_nat_eq_self)
  moreover have "k \<in> {0, 1, 2, 3, 4, 5, 6, 7}" using assms(3) by auto
  ultimately show ?thesis
    by (auto simp: k_fill_next_align_8_def put_u8_def put_u16_def put_u32_def zero_bytes s k_store_store r cons_replicate
        simp del: replicate_Suc simp flip: replicate_add)
qed

lemma ksim_fill:
  assumes D: "dev_ok P lim" and s: "ksim m0 P lim s b" and f: "fill_next_align_8 b = Inr b'"
  shows "ksim m0 P lim (k_fill_next_align_8 s) b'"
proof -
  let ?c = "bf_cur_p (snd s)" and ?k = "upper_align (rw_off b) 8 - rw_off b"
  have c: "?c = P + of_nat (rw_off b)" "rw_off b \<le> lim" using s by (simp_all add: ksim_def)
  have u: "unat ?c = unat P + rw_off b" using unat_dev [OF D c(2)] c(1) by simp
  have b: "unat ?c + 7 < 2 ^ 64" using D c(2) u by (simp add: dev_ok_def)
  then have a: "unat (align_up_8 ?c) = (unat ?c + 7) div 8 * 8" "unat ?c \<le> unat (align_up_8 ?c)"
    using align_up_8_unat by blast+
  obtain q where q: "unat P = 8 * q" using D by (auto simp: dev_ok_def)
  have "(unat ?c + 7) div 8 * 8 = unat P + upper_align (rw_off b) 8"
    unfolding u q upper_align_def by (simp add: add.assoc) 
  then have "unat (align_up_8 ?c - ?c) = ?k" using a u by (simp add: unat_sub word_le_nat_alt)
  moreover have "?k < 8" using upper_align_nat(3) [of 8 "rw_off b"] by simp
  moreover have "region_ok ?c 7" using b by (simp add: region_ok_def)
  ultimately have kf: "k_fill_next_align_8 s = k_store s (replicate ?k 0)" by (intro k_fill_store) simp_all
  show ?thesis
  proof (cases "?k = 0")
    case True
    then show ?thesis using f s kf by (cases s) (simp add: fill_next_align_8_def k_store_def)
  next
    case False
    then show ?thesis using f ksim_store [OF D s] kf by (simp add: fill_next_align_8_def Let_def)
  qed
qed

section \<open>Reading outside the output buffer\<close>

lemma ksim_rd_outside:
  assumes "ksim m0 P lim s b" "region_ok a n" "disjoint P lim a n"
  shows "rd (fst s) a n = rd m0 a n"
proof -
  have "\<not> inside P lim (a + of_nat i)" if "i < n" for i
    using assms(3) that unat_add_region [OF assms(2) that] by (auto simp: inside_def disjoint_def)
  then show ?thesis using assms(1) by (auto simp: list_eq_iff_nth_eq ksim_def)
qed

text \<open>The Java heap is below \<open>2 ^ 63\<close> and seen by the kernel with bit 63 set.\<close>

lemma h2d_add: "unat a < 2 ^ 63 \<Longrightarrow> h2d a = a + push_bit 63 1"
proof -
  assume "unat a < 2 ^ 63"
  then have "a div 2 ^ 63 = 0" by (simp add: word_unat_eq_iff unat_div)
  then have "\<not> bit a 63" by (simp add: bit_iff_odd)
  then have "\<not> bit a n \<or> \<not> bit (push_bit 63 1 :: u64) n" for n
    by (cases "n = 63") (auto simp: bit_push_bit_iff bit_1_iff simp del: push_bit_of_1)
  then have "a + push_bit 63 1 = a OR push_bit 63 1" by (rule disjunctive_add)
  then show ?thesis by (simp add: h2d_def)
qed

lemma unat_h2d: "unat a < 2 ^ 63 \<Longrightarrow> unat (h2d a) = unat a + 2 ^ 63"
  by (simp add: h2d_add unat_word_ariths)

lemma h2d_plus: "unat a + k < 2 ^ 63 \<Longrightarrow> h2d a + of_nat k = h2d (a + of_nat k)"
  by (simp add: h2d_add unat_word_ariths unat_of_nat)

definition heap_addr :: "u64 \<Rightarrow> bool" where
  "heap_addr a \<longleftrightarrow> unat a mod 8 = 0 \<and> unat a + 2 ^ 34 \<le> 2 ^ 63"

lemma rd_window:
  assumes "dev_ok P lim" "ksim m0 P lim s b" "\<And>a. unat a < 2 ^ 63 \<Longrightarrow> heap a = m0 (h2d a)" "unat a + n \<le> 2 ^ 63" "unat a < 2 ^ 63"
  shows "rd (fst s) (h2d a) n = rd heap a n"
proof -
  have u: "unat (h2d a) = unat a + 2 ^ 63" by (rule unat_h2d [OF assms(5)])
  have "rd (fst s) (h2d a) n = rd m0 (h2d a) n"
    using assms u by (intro ksim_rd_outside [OF assms(2)]) (auto simp: region_ok_def disjoint_def dev_ok_def)
  also have "\<dots> = rd heap a n"
  proof -
    have "unat (a + of_nat i) < 2 ^ 63" if "i < n" for i
      using that assms(4) by (simp add: unat_word_ariths unat_of_nat)
    then show ?thesis using assms(3,4) h2d_plus [of a] by (auto simp: list_eq_iff_nth_eq)
  qed
  finally show ?thesis .
qed

lemma raw_bounds:
  assumes "heap_addr obj"
  shows "unat (raw obj off) = unat obj + unat off" "unat (raw obj off) + 2 ^ 32 \<le> 2 ^ 63"
    "h2d obj + ucast off = h2d (raw obj off)"
proof -
  have "unat off < 2 ^ 32" using unat_less [of off] by simp
  moreover have "unat (ucast off :: u64) = unat off" by (simp add: unat_ucast_up)
  ultimately show 1: "unat (raw obj off) = unat obj + unat off"
    using assms by (simp add: raw_def heap_addr_def unat_word_ariths)
  show "unat (raw obj off) + 2 ^ 32 \<le> 2 ^ 63" using assms 1 \<open>unat off < 2 ^ 32\<close> by (simp add: heap_addr_def)
  have "(ucast off :: u64) = of_nat (unat off)" by (intro word_unat_eq_iff [THEN iffD2]) (simp add: unat_ucast_up unat_of_nat)
  then show "h2d obj + ucast off = h2d (raw obj off)"
    using h2d_plus [of obj "unat off"] assms \<open>unat off < 2 ^ 32\<close> by (simp add: raw_def heap_addr_def)
qed

lemma k_parse_u32:
  assumes "dev_ok P lim" "ksim m0 P lim s b" "\<And>a. unat a < 2 ^ 63 \<Longrightarrow> heap a = m0 (h2d a)" "heap_addr obj"
  shows "k_parse_u32_at (fst s) (h2d obj) off = parse_u32_at heap obj off"
proof -
  note r = raw_bounds [OF assms(4), of off]
  have "rd (fst s) (h2d (raw obj off)) 4 = rd heap (raw obj off) 4"
    using r(2) by (intro rd_window [OF assms(1-3)]) simp_all
  then show ?thesis by (simp add: k_parse_u32_at_def parse_u32_at_def ld32_def r(3))
qed

lemma ksim_put_heap:
  assumes D: "dev_ok P lim" and s: "ksim m0 P lim s b" and heap: "\<And>a. unat a < 2 ^ 63 \<Longrightarrow> heap a = m0 (h2d a)"
    and a: "unat a + 2 ^ 32 \<le> 2 ^ 63" "unat a mod 4 = 0" and off: "rw_off b mod 8 = 0"
    and p: "put b (rd heap a (unat len)) = Inr b'"
  shows "ksim m0 P lim (k_put s (h2d a) len) b'"
proof -
  let ?c = "bf_cur_p (snd s)"
  have n: "unat (ucast len :: u64) = unat len" by (simp add: unat_ucast_up)
  have l32: "unat len < 2 ^ 32" using unat_less [of len] by simp
  have le: "rw_off b + unat len \<le> lim" using p ksim_length [OF s] by (auto simp: put_def put_at_def split: if_splits)
  have u: "unat ?c = unat P + rw_off b" using unat_dev [OF D, of "rw_off b"] s by (simp add: ksim_def)
  have h: "unat (h2d a) = unat a + 2 ^ 63" using a by (intro unat_h2d) simp
  have c8: "?c mod 8 = 0"
    using u off D by (intro word_unat_eq_iff [THEN iffD2]) (simp add: unat_mod dev_ok_def mod_add_eq [symmetric, of "unat P"])
  obtain q where "unat a = 4 * q" using a(2) by auto
  then have "unat (h2d a) = 4 * (q + 2 ^ 61)" using h by simp
  then have "unat (h2d a) mod 8 = 0 \<or> unat (h2d a) mod 8 = 4" by presburger
  then have h8: "h2d a mod 8 = 0 \<or> h2d a mod 8 = 4" by (auto simp: word_unat_eq_iff unat_mod)
  have "d_memcpy (fst s) ?c (h2d a) (ucast len) = (wr (fst s) ?c (rd (fst s) (h2d a) (unat len)), Some (h2d a + ucast len))"
    using d_memcpy_block [of ?c "ucast len" "h2d a" "fst s"] u h le a D l32 c8 h8
    by (auto simp: n region_ok_def disjoint_def dev_ok_def)
  moreover have "rd (fst s) (h2d a) (unat len) = rd heap a (unat len)"
    using a l32 by (intro rd_window [OF D s heap]) simp_all
  ultimately have "k_put s (h2d a) len = k_store s (rd heap a (unat len))" by (simp add: k_put_def k_store_def)
  then show ?thesis using ksim_store [OF D s p] by simp
qed

section \<open>Class descriptions on the device\<close>

lemma rd_chunk: "k + l \<le> n \<Longrightarrow> rd m (a + of_nat k) l = chunk (rd m a n) k l"
  by (auto simp: list_eq_iff_nth_eq add.assoc)

lemma rd_sub_eq:
  assumes "rd m a n = rd m' a n"
  shows "k + l \<le> n \<Longrightarrow> rd m (a + of_nat k) l = rd m' (a + of_nat k) l"
    "k < n \<Longrightarrow> m (a + of_nat k) = m' (a + of_nat k)"
proof -
  show "k + l \<le> n \<Longrightarrow> rd m (a + of_nat k) l = rd m' (a + of_nat k) l" using assms by (simp add: rd_chunk)
  show "m (a + of_nat k) = m' (a + of_nat k)" if "k < n" using that arg_cong [OF assms, of "\<lambda>xs. xs ! k"] by simp
qed

text \<open>The structure at a device address describes the class as the host does.\<close>

definition mirrors :: "mem \<Rightarrow> u64 \<Rightarrow> class_info_t \<Rightarrow> bool" where
  "mirrors m i ci \<longleftrightarrow> d_klass m i = ci_klass ci \<and> d_id m i = ci_id ci \<and> d_enum_ref_arr_off m i = ci_enum_ref_arr_off ci
     \<and> d_obj_size m i = ci_obj_size ci \<and> d_header_size m i = ci_header_size ci
     \<and> d_n_non_static_field m i = ci_n_non_static_field ci \<and> d_dim m i = ci_dim ci
     \<and> (\<forall>j < length (ci_fields ci). f_id m (d_field i j) = fi_id (ci_fields ci ! j)
          \<and> f_offset m (d_field i j) = fi_offset (ci_fields ci ! j) \<and> f_type m (d_field i j) = fi_type (ci_fields ci ! j))"

lemma mirrors_cong:
  assumes "rd m i (24 + 24 * length (ci_fields ci)) = rd m' i (24 + 24 * length (ci_fields ci))"
  shows "mirrors m i ci = mirrors m' i ci"
proof -
  note sub = rd_sub_eq [OF assms]
  have f: "d_field i j + of_nat k = i + of_nat (24 + 24 * j + k)" for j k by (simp add: d_field_def)
  have "ld16 m (d_field i j) = ld16 m' (d_field i j)" "ld16 m (d_field i j + 2) = ld16 m' (d_field i j + 2)"
    "m (d_field i j + 4) = m' (d_field i j + 4)" if "j < length (ci_fields ci)" for j
    using sub(1) [of "24 + 24 * j" 2] sub(1) [of "24 + 24 * j + 2" 2] sub(2) [of "24 + 24 * j + 4"] that
      f [of j 0] f [of j 2] f [of j 4] by (simp_all add: ld16_def ac_simps)
  moreover have "ld64 m i = ld64 m' i" "ld16 m (i + 8) = ld16 m' (i + 8)" "ld16 m (i + 10) = ld16 m' (i + 10)"
    "ld16 m (i + 16) = ld16 m' (i + 16)" "m (i + 18) = m' (i + 18)" "m (i + 19) = m' (i + 19)" "m (i + 21) = m' (i + 21)"
    using sub(1) [of 0 8] sub(1) [of 8 2] sub(1) [of 10 2] sub(1) [of 16 2] sub(2) [of 18] sub(2) [of 19] sub(2) [of 21]
    by (simp_all add: ld16_def ld64_def)
  ultimately show ?thesis
    by (simp add: mirrors_def d_klass_def d_id_def d_enum_ref_arr_off_def d_obj_size_def d_header_size_def
        d_n_non_static_field_def d_dim_def f_id_def f_offset_def f_type_def)
qed

text \<open>
  The device has the descriptions of a resolver's classes, indexed by klass in the same order,
  outside the output buffer; header sizes are multiples of 4.
\<close>

definition usable_info :: "mem \<Rightarrow> u64 \<Rightarrow> nat \<Rightarrow> u64 \<Rightarrow> class_info_t \<Rightarrow> bool" where
  "usable_info m P lim i ci \<longleftrightarrow> i \<noteq> 0 \<and> mirrors m i ci \<and> region_ok i (24 + 24 * length (ci_fields ci))
     \<and> disjoint P lim i (24 + 24 * length (ci_fields ci)) \<and> unat (ci_header_size ci) mod 4 = 0"

definition device_table :: "kglobals \<Rightarrow> mem \<Rightarrow> u64 \<Rightarrow> nat \<Rightarrow> ClassResolver \<Rightarrow> bool" where
  "device_table G m P lim r \<longleftrightarrow> (let A = class_infos_by_klass (g_meta_idx G); n = length (info_by_klass r) in
     class_infos_by_klass_len (g_meta_idx G) = of_nat n \<and> n < 2 ^ 32 \<and> region_ok A (8 * n) \<and> disjoint P lim A (8 * n)
     \<and> (\<forall>j < n. \<exists>ci. r_store r (info_by_klass r ! j) = Some ci \<and> usable_info m P lim (ld64 m (A + 8 * of_nat j)) ci))"

lemma usable_info_ksim: "ksim m0 P lim s b \<Longrightarrow> usable_info m0 P lim i ci \<Longrightarrow> usable_info (fst s) P lim i ci"
  using mirrors_cong [OF ksim_rd_outside] by (auto simp: usable_info_def)

lemma device_table_ksim:
  assumes "device_table G m0 P lim r" "ksim m0 P lim s b"
  shows "device_table G (fst s) P lim r"
proof -
  let ?A = "class_infos_by_klass (g_meta_idx G)" and ?n = "length (info_by_klass r)"
  have "rd (fst s) ?A (8 * ?n) = rd m0 ?A (8 * ?n)"
    using assms by (intro ksim_rd_outside [OF assms(2)]) (simp_all add: device_table_def Let_def)
  then have "ld64 (fst s) (?A + 8 * of_nat j) = ld64 m0 (?A + 8 * of_nat j)" if "j < ?n" for j
    using rd_sub_eq(1) [of "fst s" ?A "8 * ?n" m0 "8 * j" 8] that by (simp add: ld64_def)
  then show ?thesis using assms usable_info_ksim [OF assms(2)] by (fastforce simp: device_table_def Let_def)
qed

section \<open>The binary search\<close>

lemma k_search_finds:
  assumes "\<And>a b. a < b \<Longrightarrow> b < n \<Longrightarrow> d_klass m (ld64 m (arr + 8 * of_nat a)) < d_klass m (ld64 m (arr + 8 * of_nat b))"
    and "d_klass m (ld64 m (arr + 8 * of_nat t)) = klass" "unat l \<le> t" "t < unat r" "unat r \<le> n"
  shows "k_search m arr klass l r = ld64 m (arr + 8 * of_nat t)"
  using assms(2-5)
proof (induction "unat r - unat l" arbitrary: l r rule: less_induct)
  case less
  let ?mid = "(r - l) div 2 + l"
  have lr: "l < r" using less.prems(2,3) by (simp add: word_less_nat_alt)
  note mid = mid_bounds(2,3) [OF lr]
  have e: "8 * (ucast ?mid :: u64) = 8 * of_nat (unat ?mid)" by simp
  let ?k = "d_klass m (ld64 m (arr + 8 * of_nat (unat ?mid)))"
  have un: "unat (?mid + 1) = unat ?mid + 1" using mid(2) unat_less [of r] by (subst unat_word_ariths) simp
  consider "unat ?mid = t" | "unat ?mid < t" | "t < unat ?mid" by linarith
  then show ?case
  proof cases
    case 1
    then show ?thesis using less.prems(1) lr by (subst k_search.simps) (simp add: Let_def flip: 1)
  next
    case 2
    then have "?k < klass" using assms(1) [OF 2] less.prems by simp
    then have "k_search m arr klass l r = k_search m arr klass (?mid + 1) r"
      using lr by (subst k_search.simps) (auto simp: Let_def)
    also have "\<dots> = ld64 m (arr + 8 * of_nat t)" using less.prems mid un 2 by (intro less.hyps) linarith+
    finally show ?thesis .
  next
    case 3
    then have "klass < ?k" using assms(1) [OF 3] less.prems mid by simp
    then have "k_search m arr klass l r = k_search m arr klass l ?mid"
      using lr by (subst k_search.simps) (auto simp: Let_def)
    also have "\<dots> = ld64 m (arr + 8 * of_nat t)" using less.prems mid 3 by (intro less.hyps) linarith+
    finally show ?thesis .
  qed
qed

lemma k_lookup:
  assumes r: "index_ok r" and T: "device_table G m P lim r"
    and q: "get_class_info r klass \<noteq> 0" "info_at r (get_class_info r klass) = Inr ci"
  shows "usable_info m P lim (k_get_class_info_by_klass G m klass) ci"
proof -
  let ?A = "class_infos_by_klass (g_meta_idx G)" and ?n = "length (info_by_klass r)"
  let ?e = "\<lambda>j. ld64 m (?A + 8 * of_nat j)"
  have n: "class_infos_by_klass_len (g_meta_idx G) = of_nat ?n" "?n < 2 ^ 32"
    and e: "\<And>j. j < ?n \<Longrightarrow> \<exists>ci. r_store r (info_by_klass r ! j) = Some ci \<and> usable_info m P lim (?e j) ci"
    using T by (simp_all add: device_table_def Let_def)
  have k: "d_klass m (?e j) = klass_of r (info_by_klass r ! j)" if "j < ?n" for j
    using e [OF that] by (auto simp: usable_info_def mirrors_def klass_of_def)
  from q(1) obtain t where t: "t < ?n" "get_class_info r klass = info_by_klass r ! t" "klass_of r (info_by_klass r ! t) = klass"
    by (auto simp: get_class_info_def Let_def split: if_splits)
  have "sorted_wrt (<) (map (klass_of r) (info_by_klass r))" using r by (simp add: index_ok_def)
  then have s: "klass_of r (info_by_klass r ! a) < klass_of r (info_by_klass r ! b)" if "a < b" "b < ?n" for a b
    using that by (simp add: sorted_wrt_iff_nth_less)
  have len: "unat (ucast (of_nat ?n :: u64) :: u32) = ?n"
    using n(2) by (simp add: unsigned_ucast_eq unat_of_nat take_bit_nat_eq_self)
  have "k_get_class_info_by_klass G m klass = ?e t"
    unfolding k_get_class_info_by_klass_def n(1)
  proof (rule k_search_finds [where n = ?n])
    show "d_klass m (?e a) < d_klass m (?e b)" if "a < b" "b < ?n" for a b
      using that s k less_trans [OF that] by simp
  qed (use t k len in auto)
  moreover have "r_store r (info_by_klass r ! t) = Some ci" using q(2) t(2) by (auto simp: info_at_def split: option.splits)
  ultimately show ?thesis using e [OF t(1)] by auto
qed

section \<open>The kernel follows the native serializer\<close>

text \<open>
  The hypotheses on the JVM: compressed references with a shift of 3 and an 8-aligned heap base
  (the default layout of HotSpot), the heap below \<open>2 ^ 63\<close>.
\<close>

definition heap_args_ok :: "jvm_args_t \<Rightarrow> bool" where
  "heap_args_ok a \<longleftrightarrow> (heap_compress_ptr_mode a = MODE_ZERO_BASED \<or> heap_compress_ptr_mode a = MODE_NON_ZERO_BASED)
     \<and> heap_compress_ptr_shift a = 3 \<and> unat (h_heap_base a) mod 8 = 0 \<and> unat (h_heap_base a) + 2 ^ 36 \<le> 2 ^ 63"

lemma kernel_helpers:
  "k_parse_heap_cptr G c = parse_heap_cptr (g_jvm_args G) c"
  "k_parse_metaspace_cptr G c = parse_metaspace_cptr (g_jvm_args G) c"
  "k_compress_heap_ptr G p = compress_heap_ptr (g_jvm_args G) p"
  "k_compress_metaspace_ptr G p = compress_metaspace_ptr (g_jvm_args G) p"
  "k_is_primitive_type t = is_primitive_type t" "k_is_reference_type t = is_reference_type t"
  "k_type_size (scast t) = type_size t"
  by (simp_all add: k_parse_heap_cptr_def parse_heap_cptr_def k_parse_metaspace_cptr_def parse_metaspace_cptr_def
      k_parse_cptr_def parse_cptr_def k_compress_heap_ptr_def compress_heap_ptr_def k_compress_metaspace_ptr_def
      compress_metaspace_ptr_def k_compress_ptr_def compress_ptr_def k_is_primitive_type_def is_primitive_type_def
      k_is_reference_type_def is_reference_type_def k_type_size_def type_size_def Let_def)

lemma parse_heap_addr:
  assumes "heap_args_ok a" "parse_heap_cptr a c = Inr p"
  shows "heap_addr p"
proof -
  let ?c = "ucast (ucast c :: u32) :: u64"
  have c: "unat ?c < 2 ^ 32" using unat_less [of "ucast c :: u32"] by (simp add: unat_ucast_up)
  have pb: "unat (push_bit 3 ?c) = 8 * unat ?c" using c by (simp add: push_bit_eq_mult unat_word_ariths)
  from assms consider "p = push_bit 3 ?c" | "p = h_heap_base a + push_bit 3 ?c"
    by (auto simp: heap_args_ok_def parse_heap_cptr_def parse_cptr_def Let_def)
  then show ?thesis
  proof cases
    case 1
    then show ?thesis using pb c by (simp add: heap_addr_def)
  next
    case 2
    have "unat p = unat (h_heap_base a) + 8 * unat ?c"
      using assms(1) c pb unfolding 2 by (simp add: heap_args_ok_def unat_word_ariths)
    moreover obtain k where "unat (h_heap_base a) = 8 * k" using assms(1) by (auto simp: heap_args_ok_def)
    ultimately show ?thesis using assms(1) c by (simp add: heap_addr_def heap_args_ok_def)
  qed
qed

text \<open>What ties a kernel to the native environment.\<close>

definition tied :: "kglobals \<Rightarrow> mem \<Rightarrow> u64 \<Rightarrow> nat \<Rightarrow> wenv \<Rightarrow> bool" where
  "tied G m0 P lim E \<longleftrightarrow> dev_ok P lim \<and> g_jvm_args G = w_args E \<and> heap_args_ok (w_args E) \<and> (\<forall>a. unat a < 2 ^ 63 \<longrightarrow> w_heap E a = m0 (h2d a))
     \<and> index_ok (w_resolver E) \<and> device_table G m0 P lim (w_resolver E) \<and> \<not> w_enable_utf16_to_utf8 E"

definition follows :: "mem \<Rightarrow> u64 \<Rightarrow> nat \<Rightarrow> walk_fn \<Rightarrow> recur_fn \<Rightarrow> bool" where
  "follows m0 P lim wk recur \<longleftrightarrow> (\<forall>obj eid s b x b'. obj = 0 \<or> heap_addr obj \<longrightarrow> ksim m0 P lim s b \<longrightarrow> wk obj eid b = Inr (x, b') \<longrightarrow>
     (\<exists>s'. recur obj eid s = Inr (x, s') \<and> ksim m0 P lim s' b'))"

lemma followsD:
  assumes "follows m0 P lim wk recur" "obj = 0 \<or> heap_addr obj" "ksim m0 P lim s b" "wk obj eid b = Inr (x, b')"
  obtains s' where "recur obj eid s = Inr (x, s')" "ksim m0 P lim s' b'"
  using assms unfolding follows_def by blast

lemma tied_dev: "tied G m0 P lim E \<Longrightarrow> dev_ok P lim"
  by (simp add: tied_def)

lemma u32_sum: "(of_nat base :: u32) + ucast (x :: u16) = of_nat (base + unat x)"
  by simp

lemma usable_field:
  assumes "usable_info m P lim i ci" "get_field ci j = Inr f"
  shows "f_id m (d_field i j) = fi_id f" "f_offset m (d_field i j) = fi_offset f" "f_type m (d_field i j) = fi_type f"
  using assms by (auto simp: usable_info_def mirrors_def get_field_def split: if_splits)

lemma k_serialize_fields_follows:
  assumes T: "tied G m0 P lim E" and F: "follows m0 P lim wk recur" and u: "usable_info m0 P lim i ci"
    and "ksim m0 P lim s b" "walk_fields wk E ci base js b = Inr b'"
  shows "\<exists>s'. k_serialize_fields recur G i (of_nat base) js s = Inr s' \<and> ksim m0 P lim s' b'"
  using assms(4,5)
proof (induction js arbitrary: s b)
  case Nil
  then show ?case by simp
next
  case (Cons j js)
  note D = tied_dev [OF T]
  from Cons.prems(2) obtain f where f: "get_field ci j = Inr f" by auto
  note uf = usable_field [OF usable_info_ksim [OF Cons.prems(1) u] f]
  show ?case
  proof (cases "is_primitive_type (fi_type f)")
    case True
    then show ?thesis using Cons f uf by (simp add: kernel_helpers Let_def)
  next
    case False
    let ?o = "base + unat (fi_offset f)"
    from Cons.prems(2) f False obtain cp m x b1 b2 where
      1: "get_at b 4 ?o = Inr cp" "parse_heap_cptr (w_args E) (ucast (bytes_u32 cp)) = Inr m" "wk m (fi_id f) b = Inr (x, b1)"
        "put_at b1 (u32_bytes x) ?o = Inr b2" "walk_fields wk E ci base js b2 = Inr b'"
      by (auto simp: Let_def)
    have "heap_addr m" using T 1(2) by (intro parse_heap_addr) (auto simp: tied_def)
    then obtain s1 where s1: "recur m (fi_id f) s = Inr (x, s1)" "ksim m0 P lim s1 b1"
      using followsD [OF F _ Cons.prems(1) 1(3)] by blast
    have s2: "ksim m0 P lim (put_u32_at s1 x (of_nat ?o)) b2"
      using ksim_put_at [OF D s1(2) 1(4)] by (simp only: put_u32_at_def)
    from Cons.IH [OF s2 1(5)] show ?thesis
      using False uf s1(1) 1(2) ksim_get [OF D Cons.prems(1) 1(1)] T
      by (simp add: kernel_helpers Let_def tied_def)
  qed
qed

lemma fill_aligned:
  assumes "fill_next_align_8 b = Inr b'"
  shows "rw_off b' mod 8 = 0"
proof -
  have "rw_off b' = upper_align (rw_off b) 8"
    using assms upper_align_nat(2) [of 8 "rw_off b"]
    by (auto simp: fill_next_align_8_def put_def put_at_def Let_def split: if_splits)
  then show ?thesis by simp
qed

lemma tied_heap: "tied G m0 P lim E \<Longrightarrow> unat a < 2 ^ 63 \<Longrightarrow> w_heap E a = m0 (h2d a)"
  by (simp add: tied_def)

text \<open>The bytes of an object or array behind a header of a multiple of 4.\<close>

lemma ksim_put_object:
  assumes T: "tied G m0 P lim E" and s: "ksim m0 P lim s b" and obj: "heap_addr obj" and h: "unat (h :: u8) mod 4 = 0"
    and b: "rw_off b mod 8 = 0" and p: "put b (rd (w_heap E) (raw obj (ucast h)) (unat len)) = Inr b'"
  shows "ksim m0 P lim (k_put s (h2d (obj + ucast h)) len) b'" "ksim m0 P lim (k_put s (h2d obj + ucast h) len) b'"
proof -
  have c: "(ucast (ucast h :: u32) :: u64) = ucast h" by (intro word_unat_eq_iff [THEN iffD2]) (simp add: unat_ucast_up)
  then have r: "obj + ucast h = raw obj (ucast h)" "h2d obj + ucast h = h2d (raw obj (ucast h))"
    using raw_bounds(3) [OF obj, of "ucast h"] by (simp_all add: raw_def)
  have "unat (raw obj (ucast h)) mod 4 = 0"
  proof -
    obtain j k where "unat obj = 8 * j" "unat h = 4 * k" using obj h unfolding heap_addr_def by (metis dvdE mod_0_imp_dvd)
    then have "unat (raw obj (ucast h)) = 4 * (2 * j + k)" using raw_bounds(1) [OF obj, of "ucast h"] by (simp add: unat_ucast_up)
    then show ?thesis by simp
  qed
  then have "ksim m0 P lim (k_put s (h2d (raw obj (ucast h))) len) b'"
    using tied_heap [OF T] by (intro ksim_put_heap [OF tied_dev [OF T] s _ raw_bounds(2) [OF obj] _ b p])
  then show "ksim m0 P lim (k_put s (h2d (obj + ucast h)) len) b'" "ksim m0 P lim (k_put s (h2d obj + ucast h) len) b'"
    by (simp_all only: r)
qed

lemma k_do_serialize_object_follows:
  assumes T: "tied G m0 P lim E" and F: "follows m0 P lim wk recur" and u: "usable_info m0 P lim i ci" and obj: "heap_addr obj"
    and s: "ksim m0 P lim s b" and w: "do_walk_object wk E obj ci b = Inr b'"
  shows "\<exists>s'. k_do_serialize_object recur G obj i s = Inr s' \<and> ksim m0 P lim s' b'"
proof -
  note D = tied_dev [OF T]
  from w obtain b1 b2 b3 b4 where
    1: "put b (u16_bytes (ci_id ci)) = Inr b1" "put b1 (u16_bytes OBJECT_FLAG) = Inr b2" "fill_next_align_8 b2 = Inr b3"
      "put b3 (rd (w_heap E) (raw obj (object_header_size ci)) (unat (object_body_size ci))) = Inr b4"
      "walk_fields wk E ci (rw_off b3) [0..<unat (ci_n_non_static_field ci)] b4 = Inr b'"
    by (auto simp: do_walk_object_def Let_def)
  define s1 where "s1 = k_store s (u16_bytes (ci_id ci))"
  define s2 where "s2 = k_store s1 (u16_bytes OBJECT_FLAG)"
  define s3 where "s3 = k_fill_next_align_8 s2"
  define s4 where "s4 = k_put s3 (h2d (obj + ucast (ci_header_size ci))) (object_body_size ci)"
  have k1: "ksim m0 P lim s1 b1" unfolding s1_def by (rule ksim_store [OF D s 1(1)])
  have k2: "ksim m0 P lim s2 b2" unfolding s2_def by (rule ksim_store [OF D k1 1(2)])
  have k3: "ksim m0 P lim s3 b3" unfolding s3_def by (rule ksim_fill [OF D k2 1(3)])
  have k4: "ksim m0 P lim s4 b4"
    unfolding s4_def using u 1(4) fill_aligned [OF 1(3)]
    by (intro ksim_put_object [OF T k3 obj]) (auto simp: usable_info_def object_header_size_def)
  obtain s5 where s5: "k_serialize_fields recur G i (of_nat (rw_off b3)) [0..<unat (ci_n_non_static_field ci)] s4 = Inr s5" "ksim m0 P lim s5 b'"
    using k_serialize_fields_follows [OF T F u k4 1(5)] by blast
  have m: "d_id (fst s) i = ci_id ci" "d_header_size (fst s3) i = ci_header_size ci" "d_obj_size (fst s3) i = ci_obj_size ci"
    "d_n_non_static_field (fst s4) i = ci_n_non_static_field ci"
    using usable_info_ksim [OF s u] usable_info_ksim [OF k3 u] usable_info_ksim [OF k4 u] by (simp_all add: usable_info_def mirrors_def)
  have "k_do_serialize_object recur G obj i s = k_serialize_fields recur G i (k_cur_off s3) [0..<unat (ci_n_non_static_field ci)] s4"
    by (simp only: k_do_serialize_object_def put_u16_def Let_def m s1_def [symmetric] s2_def [symmetric] s3_def [symmetric]
        s4_def [unfolded object_body_size_def, symmetric])
  then show ?thesis using s5 ksim_cur_off [OF D k3] by auto
qed

lemma k_serialize_elems_follows:
  assumes T: "tied G m0 P lim E" and F: "follows m0 P lim wk recur" and u: "usable_info m0 P lim i ci"
    and f: "get_field ci 0 = Inr f" and obj: "heap_addr obj"
    and "ksim m0 P lim s b" "walk_elems wk E obj ci (fi_id f) js b = Inr b'"
  shows "\<exists>s'. k_serialize_elems recur G (h2d obj) i js s = Inr s' \<and> ksim m0 P lim s' b'"
  using assms(6,7)
proof (induction js arbitrary: s b)
  case Nil
  then show ?case by simp
next
  case (Cons j js)
  from Cons.prems(2) obtain m x b1 where
    1: "array_elem_ref (w_args E) (w_heap E) obj (array_header_size ci) (of_nat j) = Inr m"
      "wk m (fi_id f) b = Inr (x, b1)" "walk_elems wk E obj ci (fi_id f) js b1 = Inr b'" by auto
  have "heap_addr m" using T 1(1) by (intro parse_heap_addr) (auto simp: tied_def array_elem_ref_def reference_at_def)
  then obtain s1 where s1: "recur m (fi_id f) s = Inr (x, s1)" "ksim m0 P lim s1 b1"
    using followsD [OF F _ Cons.prems(1) 1(2)] by blast
  note us = usable_info_ksim [OF Cons.prems(1) u]
  have "k_parse_u32_at (fst s) (h2d obj) off = parse_u32_at (w_heap E) obj off" for off
    by (rule k_parse_u32 [OF tied_dev [OF T] Cons.prems(1) tied_heap [OF T] obj])
  moreover have "d_header_size (fst s) i = ci_header_size ci" using us by (simp add: usable_info_def mirrors_def)
  ultimately show ?case
    using Cons.IH [OF s1(2) 1(3)] s1(1) 1(1) T usable_field(1) [OF us f]
    by (simp add: kernel_helpers k_get_array_elem_cptr_def array_elem_ref_def reference_at_def array_header_size_def tied_def)
qed

lemma k_do_serialize_array_follows:
  assumes T: "tied G m0 P lim E" and F: "follows m0 P lim wk recur" and u: "usable_info m0 P lim i ci" and obj: "heap_addr obj"
    and s: "ksim m0 P lim s b" and w: "do_walk_array wk E obj ci b = Inr b'"
  shows "\<exists>s'. k_do_serialize_array recur G obj i s = Inr s' \<and> ksim m0 P lim s' b'"
proof -
  note D = tied_dev [OF T]
  let ?len = "array_length (w_heap E) obj (array_header_size ci)"
  from w obtain b1 b2 b3 b4 f where
    1: "put b (u16_bytes (ci_id ci)) = Inr b1" "put b1 (u16_bytes ARRAY_FLAG) = Inr b2" "put b2 (u32_bytes ?len) = Inr b3"
      "fill_next_align_8 b3 = Inr b4" and f: "get_field ci 0 = Inr f"
    and e: "(if is_reference_type (fi_type f) then walk_elems wk E obj ci (fi_id f) [0..<unat ?len] b4
       else if is_primitive_type (fi_type f) then
         bnd (check (ci_dim ci = 1) Assert_fail) (\<lambda>_.
         if fi_type f = T_CHAR \<and> w_enable_utf16_to_utf8 E then cvt_utf16_to_utf8 E obj ci ?len b4
         else bnd (array_body_size ci ?len) (\<lambda>n. put b4 (rd (w_heap E) (raw obj (array_header_size ci)) (unat n))))
       else Inl Unreachable) = Inr b'"
    by (auto simp: do_walk_array_def Let_def)
  define s1 where "s1 = k_store s (u16_bytes (ci_id ci))"
  define s2 where "s2 = k_store s1 (u16_bytes ARRAY_FLAG)"
  define s3 where "s3 = k_store s2 (u32_bytes ?len)"
  define s4 where "s4 = k_fill_next_align_8 s3"
  have k1: "ksim m0 P lim s1 b1" unfolding s1_def by (rule ksim_store [OF D s 1(1)])
  have k2: "ksim m0 P lim s2 b2" unfolding s2_def by (rule ksim_store [OF D k1 1(2)])
  have k3: "ksim m0 P lim s3 b3" unfolding s3_def by (rule ksim_store [OF D k2 1(3)])
  have k4: "ksim m0 P lim s4 b4" unfolding s4_def by (rule ksim_fill [OF D k3 1(4)])
  have m: "d_id (fst s) i = ci_id ci" "d_header_size (fst s) i = ci_header_size ci" "d_header_size (fst s4) i = ci_header_size ci"
    using usable_info_ksim [OF s u] usable_info_ksim [OF k4 u] by (simp_all add: usable_info_def mirrors_def)
  have ft: "f_type (fst s4) (d_field i 0) = fi_type f" by (rule usable_field(3) [OF usable_info_ksim [OF k4 u] f])
  have len: "k_get_array_length (fst s) (h2d obj) (ucast (ci_header_size ci)) = ?len"
    using k_parse_u32 [OF D s tied_heap [OF T] obj]
    by (simp add: k_get_array_length_def array_length_def array_header_size_def)
  have eq: "k_do_serialize_array recur G obj i s =
      (if is_reference_type (fi_type f) then k_serialize_elems recur G (h2d obj) i [0..<unat ?len] s4
       else if is_primitive_type (fi_type f) then
         bnd (type_size (fi_type f)) (\<lambda>sz. Inr (k_put s4 (h2d obj + ucast (ci_header_size ci)) (?len * sz)))
       else Inr s4)"
    by (simp only: k_do_serialize_array_def Let_def put_u16_def put_u32_def m len ft kernel_helpers s1_def [symmetric] s2_def [symmetric]
        s3_def [symmetric] s4_def [symmetric])
  show ?thesis
  proof (cases "is_reference_type (fi_type f)")
    case True
    then show ?thesis using k_serialize_elems_follows [OF T F u f obj k4, of "[0..<unat ?len]" b'] e by (simp add: eq)
  next
    case False
    have "\<not> w_enable_utf16_to_utf8 E" using T by (simp add: tied_def)
    with e False obtain n where n: "array_body_size ci ?len = Inr n" "is_primitive_type (fi_type f)"
      "put b4 (rd (w_heap E) (raw obj (array_header_size ci)) (unat n)) = Inr b'" by (auto split: if_splits)
    then obtain sz where sz: "type_size (fi_type f) = Inr sz" "n = ?len * sz" using f by (auto simp: array_body_size_def)
    have "ksim m0 P lim (k_put s4 (h2d obj + ucast (ci_header_size ci)) n) b'"
      using u n(3) fill_aligned [OF 1(4)] by (intro ksim_put_object [OF T k4 obj]) (auto simp: usable_info_def array_header_size_def)
    then show ?thesis using False n(2) sz by (simp add: eq)
  qed
qed

lemma walk_nonnull:
  assumes "walk (Suc n) E obj eid b = Inr (x, b')" "obj \<noteq> 0" "fill_next_align_8 b = Inr b1"
  obtains kl ci where "klass_pointer (w_args E) (w_heap E) obj = Inr kl" "get_class_info (w_resolver E) kl \<noteq> 0"
    "info_at (w_resolver E) (get_class_info (w_resolver E) kl) = Inr ci" "x = of_nat (rw_off b1)"
    "(if is_enum ci then
        bnd (put b1 (u16_bytes (ci_id ci))) (\<lambda>b.
        bnd (put b (u16_bytes (ENUM_FLAG OR OBJECT_FLAG))) (\<lambda>b.
        bnd (put b (u32_bytes (enum_ordinal (w_heap E) obj))) (\<lambda>b.
        bnd (check (rw_off b mod 8 = 0) Assert_fail) (\<lambda>_. Inr b))))
      else if is_object ci then do_walk_object (walk n E) E obj ci b1
      else if is_array ci then do_walk_array (walk n E) E obj ci b1
      else Inl Unreachable) = Inr b'"
  using assms by (auto simp: Let_def)

lemma k_do_serialize_recur_follows:
  assumes T: "tied G m0 P lim E"
  shows "follows m0 P lim (walk n E) (k_do_serialize_recur n G)"
proof (induction n)
  case 0
  then show ?case by (simp add: follows_def)
next
  case (Suc n)
  note D = tied_dev [OF T]
  show ?case
    unfolding follows_def
  proof (intro allI impI)
    fix obj eid s b x b'
    assume obj: "obj = 0 \<or> heap_addr obj" and s: "ksim m0 P lim s b" and w: "walk (Suc n) E obj eid b = Inr (x, b')"
    from w obtain b1 where b1: "fill_next_align_8 b = Inr b1" by auto
    define s1 where "s1 = k_fill_next_align_8 s"
    have k1: "ksim m0 P lim s1 b1" unfolding s1_def by (rule ksim_fill [OF D s b1])
    note base = ksim_cur_off [OF D k1]
    show "\<exists>s'. k_do_serialize_recur (Suc n) G obj eid s = Inr (x, s') \<and> ksim m0 P lim s' b'"
    proof (cases "obj = 0")
      case True
      with w b1 obtain b2 where 1: "put b1 (u16_bytes eid) = Inr b2" "put b2 (u16_bytes NULL_FLAG) = Inr b'" "x = of_nat (rw_off b1)"
        by (auto simp: Let_def)
      show ?thesis
        using ksim_store [OF D ksim_store [OF D k1 1(1)] 1(2)] True base 1(3) by (simp add: put_u16_def flip: s1_def)
    next
      case False
      then have oa: "heap_addr obj" using obj by simp
      obtain kl ci where
        1: "klass_pointer (w_args E) (w_heap E) obj = Inr kl" "get_class_info (w_resolver E) kl \<noteq> 0"
          "info_at (w_resolver E) (get_class_info (w_resolver E) kl) = Inr ci" "x = of_nat (rw_off b1)"
        and rest: "(if is_enum ci then
            bnd (put b1 (u16_bytes (ci_id ci))) (\<lambda>b.
            bnd (put b (u16_bytes (ENUM_FLAG OR OBJECT_FLAG))) (\<lambda>b.
            bnd (put b (u32_bytes (enum_ordinal (w_heap E) obj))) (\<lambda>b.
            bnd (check (rw_off b mod 8 = 0) Assert_fail) (\<lambda>_. Inr b))))
          else if is_object ci then do_walk_object (walk n E) E obj ci b1
          else if is_array ci then do_walk_array (walk n E) E obj ci b1
          else Inl Unreachable) = Inr b'"
        by (rule walk_nonnull [OF w False b1])
      let ?i = "k_get_class_info_by_klass G (fst s1) kl"
      have pu: "k_parse_u32_at (fst t) (h2d obj) off = parse_u32_at (w_heap E) obj off" if "ksim m0 P lim t c" for t c off
        by (rule k_parse_u32 [OF D that tied_heap [OF T] oa])
      have kp: "k_get_klass_pointer G (fst s1) (h2d obj) = Inr kl"
        using T 1(1) by (simp add: k_get_klass_pointer_def kernel_helpers klass_pointer_def pu [OF k1] tied_def)
      have us1: "usable_info (fst s1) P lim ?i ci"
        by (rule k_lookup [OF _ device_table_ksim [OF _ k1] 1(2,3)]) (use T in \<open>auto simp: tied_def\<close>)
      have u: "usable_info m0 P lim ?i ci"
        using us1 mirrors_cong [OF ksim_rd_outside [OF k1]] by (auto simp: usable_info_def)
      have m: "?i \<noteq> 0" "k_is_enum (fst s1) ?i = is_enum ci" "k_is_object (fst s1) ?i = is_object ci" "k_is_array (fst s1) ?i = is_array ci"
        "d_id (fst s1) ?i = ci_id ci"
        using us1 by (simp_all add: usable_info_def mirrors_def k_is_enum_def is_enum_def k_is_object_def is_object_def k_is_array_def is_array_def)
      show ?thesis
      proof (cases "is_enum ci")
        case True
        with rest obtain c1 c2 where c: "put b1 (u16_bytes (ci_id ci)) = Inr c1" "put c1 (u16_bytes (ENUM_FLAG OR OBJECT_FLAG)) = Inr c2"
          "put c2 (u32_bytes (enum_ordinal (w_heap E) obj)) = Inr b'" by auto
        note c1 = ksim_store [OF D k1 c(1)]
        note c2 = ksim_store [OF D c1 c(2)]
        note c3 = ksim_store [OF D c2 c(3)]
        have "k_get_enum_ordinal (fst (k_store (k_store s1 (u16_bytes (ci_id ci))) (u16_bytes (ENUM_FLAG OR OBJECT_FLAG)))) (h2d obj)
            = enum_ordinal (w_heap E) obj"
          using pu [OF c2] by (simp add: k_get_enum_ordinal_def enum_ordinal_def)
        then show ?thesis
          using c3 True False kp m base 1(4) by (simp add: Let_def put_u16_def put_u32_def flip: s1_def)
      next
        case ne: False
        show ?thesis
        proof (cases "is_object ci")
          case True
          then have "do_walk_object (walk n E) E obj ci b1 = Inr b'" using rest ne by simp
          from k_do_serialize_object_follows [OF T Suc.IH u oa k1 this] show ?thesis
            using True False kp m base 1(4) ne
            by (auto simp: Let_def simp flip: s1_def)
        next
          case no: False
          then have a: "is_array ci" "do_walk_array (walk n E) E obj ci b1 = Inr b'" using rest ne by (auto split: if_splits)
          from k_do_serialize_array_follows [OF T Suc.IH u oa k1 a(2)] show ?thesis
            using a(1) no False kp m base 1(4) ne
            by (auto simp: Let_def simp flip: s1_def)
        qed
      qed
    qed
  qed
qed

section \<open>Properties of the kernel\<close>

lemma take_rd: "n \<le> k \<Longrightarrow> take n (rd m a k) = rd m a n"
  by (simp add: rd_def take_map)

lemma k_do_serialize_native:
  assumes T: "tied G m0 (ta_d_output args) lim E" and obj: "heap_addr obj"
    and w: "Context_serialize n E obj (rd m0 (ta_d_output args) lim) = Inr bytes"
    and Q: "ext (ta_h_output_h args) (ta_h_output args) = Q" "region_ok Q lim" "disjoint Q lim (ta_d_output args) lim"
      "Q mod 8 = 0 \<or> Q mod 8 = 4"
  shows "\<exists>m'. k_do_serialize n ext G args \<lparr>se_h_object = obj\<rparr> m0 =
      Inr (\<lparr>so_length = of_nat (length bytes), so_h_output = ta_h_output args\<rparr>, m')
    \<and> rd m' Q (length bytes) = bytes \<and> length bytes \<le> lim"
proof -
  note D = tied_dev [OF T]
  let ?P = "ta_d_output args"
  let ?b0 = "skip (rw_new (rd m0 ?P lim)) OBJECT_DATA_OFFSET"
  let ?s0 = "(m0, \<lparr>bf_p = ?P, bf_cur_p = ?P + of_nat OBJECT_DATA_OFFSET, bf_lim = ta_d_output_len args\<rparr>)"
  from w obtain x b b' where 1: "walk n E obj UNREGISTERED_CLASS_ID ?b0 = Inr (x, b)"
    "put_at b (u64_bytes (of_nat (rw_off b))) 0 = Inr b'" "bytes = take (rw_off b) (rw_b b')"
    by (auto simp: Context_serialize_def ObjectWalker_walk_def Let_def)
  have "length (rw_b b) = lim" using frames_walk [of n E] 1(1) by (auto simp: frames_def frame_def skip_def rw_new_def)
  then have "8 \<le> lim" using 1(2) by (auto simp: put_at_def split: if_splits)
  then have s0: "ksim m0 ?P lim ?s0 ?b0" by (simp add: ksim_def skip_def rw_new_def)
  obtain s where s: "k_do_serialize_recur n G obj UNREGISTERED_CLASS_ID ?s0 = Inr (x, s)" "ksim m0 ?P lim s b"
    using followsD [OF k_do_serialize_recur_follows [OF T] _ s0 1(1)] obj by blast
  let ?n = "rw_off b"
  have len: "bf_cur_p (snd s) - bf_p (snd s) = of_nat ?n" "?n \<le> lim" "bf_p (snd s) = ?P" using s(2) by (simp_all add: ksim_def)
  define m1 where "m1 = wr (fst s) ?P (u64_bytes (of_nat ?n))"
  have k1: "ksim m0 ?P lim (m1, snd s) b'" using ksim_write(1) [OF D s(2) 1(2)] by (simp add: m1_def)
  have un: "unat (of_nat ?n :: u64) = ?n" using len(2) D by (simp add: unat_of_nat dev_ok_def)
  have "rw_b b' = rd m1 ?P lim" using k1 by (simp add: ksim_def)
  then have bytes: "bytes = rd m1 ?P ?n" using take_rd [OF len(2)] by (simp add: 1(3))
  have p8: "?P mod 8 = 0" using D by (intro word_unat_eq_iff [THEN iffD2]) (simp add: unat_mod dev_ok_def)
  have "d_memcpy m1 Q ?P (of_nat ?n) = (wr m1 Q (rd m1 ?P (unat (of_nat ?n :: u64))), Some (?P + of_nat ?n))"
  proof (rule d_memcpy_block)
    show "region_ok Q (unat (of_nat ?n :: u64))" "region_ok ?P (unat (of_nat ?n :: u64))"
      using Q(2) dev_region [OF D] len(2) region_ok_mono by (auto simp: un)
    show "disjoint Q (unat (of_nat ?n :: u64)) ?P (unat (of_nat ?n :: u64))" using Q(3) len(2) by (auto simp: un disjoint_def)
    show "(Q mod 8) OR (?P mod 8) = 0 \<or> (Q mod 8) OR (?P mod 8) = 4" using Q(4) p8 by auto
  qed
  then have "k_do_serialize n ext G args \<lparr>se_h_object = obj\<rparr> m0 =
      Inr (\<lparr>so_length = of_nat ?n, so_h_output = ta_h_output args\<rparr>, wr m1 Q (rd m1 ?P ?n))"
    using s(1) len by (simp add: k_do_serialize_def k_do_serialize_top_def Q(1) un m1_def Let_def)
  moreover have "rd (wr m1 Q (rd m1 ?P ?n)) Q ?n = rd m1 ?P ?n"
    using Q(2) len(2) by (intro rd_wr_same) (auto intro: region_ok_mono)
  ultimately show ?thesis using bytes len(2) by simp
qed

text \<open>
  C6. The kernel computes what the native serializer computes. On a device that holds the
  registered class descriptions and sees the same Java heap, with the same buffer size and
  without string conversion, whenever \<^verbatim>\<open>Context::serialize\<close> returns bytes for an object, the kernel
  task ends, reports their number and leaves exactly these bytes in the host's output buffer.
\<close>

theorem kernel_equals_native:
  assumes "tied G m0 (ta_d_output args) lim E" "heap_addr obj"
    and "Context_serialize n E obj (rd m0 (ta_d_output args) lim) = Inr bytes"
    and "ext (ta_h_output_h args) (ta_h_output args) = Q" "region_ok Q lim" "disjoint Q lim (ta_d_output args) lim"
      "Q mod 8 = 0 \<or> Q mod 8 = 4"
  shows "\<exists>m'. k_do_serialize n ext G args \<lparr>se_h_object = obj\<rparr> m0 =
      Inr (\<lparr>so_length = of_nat (length bytes), so_h_output = ta_h_output args\<rparr>, m')
    \<and> rd m' Q (length bytes) = bytes \<and> length bytes \<le> lim"
  using k_do_serialize_native [where ext = ext, OF assms] by blast

text \<open>
  The memory of a device for the example: the descriptions of the two classes at \<open>0x8000\<close> and
  \<open>0x8100\<close>, the array of pointers to them at \<open>0x9000\<close>, and the Java heap in the window.
\<close>

definition device_AB :: mem where
  "device_AB a = (if 2 ^ 63 \<le> a then heap_AB (a - 2 ^ 63)
     else if a = 0x8001 then 0x10 else if a = 0x8008 then 20 else if a = 0x8010 then 20 else if a = 0x8012 then 12
     else if a = 0x8013 then 2 else if a = 0x8018 then 21 else if a = 0x801c then 13
     else if a = 0x8030 then 0xff else if a = 0x8031 then 0xff else if a = 0x8032 then 4 else if a = 0x8034 then 10
     else if a = 0x8101 then 0x20 else if a = 0x8108 then 21 else if a = 0x8110 then 16 else if a = 0x8112 then 16
     else if a = 0x8113 then 1 else if a = 0x8115 then 1 else if a = 0x8118 then 0xff else if a = 0x8119 then 0xff
     else if a = 0x811c then 8 else if a = 0x9001 then 0x80 else if a = 0x9009 then 0x81 else 0)"

definition globals_AB :: kglobals where
  "globals_AB = \<lparr>g_meta_idx = \<lparr>class_infos_by_id = 0x9000, class_infos_by_id_len = 2, class_infos_by_klass = 0x9000,
     class_infos_by_klass_len = 2, class_infos_base = 0x8000, class_infos_lim = 0x1000\<rparr>, g_jvm_args = w_args env_AB\<rparr>"

definition args_AB :: sd_thread_args_t where
  "args_AB = \<lparr>ta_d_ctx = 0, ta_d_ctx_len = 0, ta_d_output = 0x10000, ta_d_output_len = 64, ta_h_output = 0x20000, ta_h_output_h = 1\<rparr>"

lemma index_ok_AB: "index_ok resolver_AB"
  by (auto simp: index_ok_def resolver_AB_def klass_of_def keys_def info_A_def info_bytes_def less_Suc_eq)

lemma rd_2: "rd m a 2 = [m a, m (a + 1)]"
  by (simp add: rd_def upt_rec)

lemma mirrors_AB: "mirrors device_AB 0x8000 info_A" "mirrors device_AB 0x8100 info_bytes"
  by (auto simp: mirrors_def d_klass_def d_id_def d_enum_ref_arr_off_def d_obj_size_def d_header_size_def d_n_non_static_field_def
      d_dim_def f_id_def f_offset_def f_type_def d_field_def ld16_def ld64_def rd_2 rd_8 bytes_u16_def bytes_u64_def
      device_AB_def info_A_def info_bytes_def less_Suc_eq)

lemma tied_AB: "tied globals_AB device_AB 0x10000 64 env_AB"
proof -
  have "w_heap env_AB a = device_AB (h2d a)" if "unat a < 2 ^ 63" for a
  proof -
    have "2 ^ 63 \<le> h2d a" "h2d a - 2 ^ 63 = a" using unat_h2d [OF that] h2d_add [OF that] by (simp_all add: word_le_nat_alt)
    then show ?thesis by (simp add: device_AB_def env_AB_def)
  qed
  moreover have "ld64 device_AB 0x9000 = 0x8000" "ld64 device_AB 0x9008 = 0x8100"
    by (simp_all add: ld64_def rd_8 device_AB_def bytes_u64_def)
  then have "device_table globals_AB device_AB 0x10000 64 resolver_AB"
    using mirrors_AB by (auto simp: device_table_def globals_AB_def resolver_AB_def usable_info_def region_ok_def disjoint_def
        info_A_def info_bytes_def less_Suc_eq)
  ultimately show ?thesis
    using index_ok_AB by (simp add: tied_def dev_ok_def globals_AB_def heap_args_ok_def env_AB_def example_jvm_def)
qed

definition bytes_AB :: "u8 list" where
  "bytes_AB = [35, 0, 0, 0, 0, 0, 0, 0,  20, 0, 0x10, 0, 0, 0, 0, 0,  24, 0, 0, 0, 7, 0, 0, 0,  21, 0, 0x20, 0, 3, 0, 0, 0, 1, 2, 3]"

lemma serialize_AB: "length out = 64 \<Longrightarrow> Context_serialize 2 env_AB 0x100 out = Inr bytes_AB"
proof -
  assume "length out = 64"
  moreover have "serialized (prims_encoding env_AB) tree_AB = bytes_AB" by code_simp
  moreover have "length bytes_AB = 35" by (simp add: bytes_AB_def)
  moreover have "depth tree_AB \<le> 2" by (simp add: tree_AB_def)
  ultimately show ?thesis using Context_serialize_ok [OF represents_AB, of 2 out] by simp
qed

lemma output_AB: "region_ok 0x20000 64" "disjoint 0x20000 64 0x10000 64" "heap_addr 0x100" "length bytes_AB = 35"
  by (simp_all add: region_ok_def disjoint_def heap_addr_def bytes_AB_def)

theorem kernel_equals_native_witness:
  "\<exists>m'. k_do_serialize 2 (\<lambda>h a. a) globals_AB args_AB \<lparr>se_h_object = 0x100\<rparr> device_AB =
      Inr (\<lparr>so_length = 35, so_h_output = 0x20000\<rparr>, m') \<and> rd m' 0x20000 35 = bytes_AB"
  using kernel_equals_native [of globals_AB device_AB args_AB 64 env_AB "0x100" 2 bytes_AB "\<lambda>h a. a" "0x20000"]
    tied_AB serialize_AB output_AB by (simp add: args_AB_def)

lemma kernel_serializes:
  assumes "tied G m0 (ta_d_output args) lim E" "heap_addr obj"
    and "represents E obj UNREGISTERED_CLASS_ID t" "depth t \<le> n" "length (serialized (prims_encoding E) t) \<le> lim"
    and "ext (ta_h_output_h args) (ta_h_output args) = Q" "region_ok Q lim" "disjoint Q lim (ta_d_output args) lim"
      "Q mod 8 = 0 \<or> Q mod 8 = 4"
  shows "\<exists>out m'. k_do_serialize n ext G args \<lparr>se_h_object = obj\<rparr> m0 = Inr (out, m')
    \<and> so_h_output out = ta_h_output args \<and> unat (so_length out) = length (serialized (prims_encoding E) t)
    \<and> rd m' Q (unat (so_length out)) = serialized (prims_encoding E) t"
proof -
  let ?b = "serialized (prims_encoding E) t"
  have lim: "lim < 2 ^ 32" using tied_dev [OF assms(1)] by (simp add: dev_ok_def)
  then have "Context_serialize n E obj (rd m0 (ta_d_output args) lim) = Inr ?b"
    using assms(3-5) by (intro Context_serialize_ok) simp_all
  from k_do_serialize_native [where ext = ext, OF assms(1,2) this assms(6-9)] show ?thesis
    using lim by (auto simp: unat_of_nat take_bit_nat_eq_self)
qed

text \<open>
  C5. The kernel is correct and total on acyclic values: for an object whose value is the tree
  \<open>t\<close>, with enough stack and buffer, the task ends and the host's output buffer holds the
  specified bytes of \<open>t\<close>.
\<close>

theorem kernel_serialize_correct:
  assumes "tied G m0 (ta_d_output args) lim E" "heap_addr obj"
    and "represents E obj UNREGISTERED_CLASS_ID t" "depth t \<le> n" "length (serialized (prims_encoding E) t) \<le> lim"
    and "ext (ta_h_output_h args) (ta_h_output args) = Q" "region_ok Q lim" "disjoint Q lim (ta_d_output args) lim"
      "Q mod 8 = 0 \<or> Q mod 8 = 4"
  shows "\<exists>out m'. k_do_serialize n ext G args \<lparr>se_h_object = obj\<rparr> m0 = Inr (out, m')
    \<and> so_h_output out = ta_h_output args \<and> unat (so_length out) = length (serialized (prims_encoding E) t)
    \<and> rd m' Q (unat (so_length out)) = serialized (prims_encoding E) t"
  using kernel_serializes [where ext = ext, OF assms] .

theorem kernel_serialize_correct_witness:
  "\<exists>out m'. k_do_serialize 2 (\<lambda>h a. a) globals_AB args_AB \<lparr>se_h_object = 0x100\<rparr> device_AB = Inr (out, m')
    \<and> unat (so_length out) = 35"
proof -
  have s: "serialized (prims_encoding env_AB) tree_AB = bytes_AB" by code_simp
  have "depth tree_AB \<le> 2" by (simp add: tree_AB_def)
  from kernel_serialize_correct [of globals_AB device_AB args_AB 64 env_AB "0x100" tree_AB 2 "\<lambda>h a. a" "0x20000", OF _ _ represents_AB this]
  show ?thesis using tied_AB output_AB by (auto simp: s args_AB_def)
qed

text \<open>
  C7. The binary search of the kernel terminates and agrees with the lookup of the host: a class
  the host's resolver has registered is found on the device, as a description with the same
  contents.
\<close>

theorem kernel_lookup_correct:
  assumes "index_ok r" "device_table G m P lim r" "info_by_klass_addr r klass = Some ci"
  shows "k_get_class_info_by_klass G m klass \<noteq> 0 \<and> mirrors m (k_get_class_info_by_klass G m klass) ci"
proof -
  from assms(3) have "get_class_info r klass \<noteq> 0" "info_at r (get_class_info r klass) = Inr ci"
    by (auto simp: info_by_klass_addr_def info_at_def Let_def split: if_splits)
  from k_lookup [OF assms(1,2) this] show ?thesis by (simp add: usable_info_def)
qed

theorem kernel_lookup_correct_witness: "mirrors device_AB (k_get_class_info_by_klass globals_AB device_AB 0x2000) info_bytes"
proof -
  have "device_table globals_AB device_AB 0x10000 64 resolver_AB" using tied_AB by (simp add: tied_def env_AB_def)
  then show ?thesis using kernel_lookup_correct [OF index_ok_AB _ lookup_AB(2)] by blast
qed

section \<open>Registration on the device\<close>

text \<open>The slots of an array of pointers do not interfere.\<close>

definition slots_ok :: "u64 \<Rightarrow> nat \<Rightarrow> bool" where
  "slots_ok A n \<longleftrightarrow> unat A + 8 * n \<le> 2 ^ 64"

lemma slot_unat:
  assumes "slots_ok A n" "j < n"
  shows "unat (A + 8 * of_nat j) = unat A + 8 * j"
proof -
  have "unat A + 8 * j < 2 ^ 64" using assms by (simp add: slots_ok_def)
  then show ?thesis by (simp add: unat_word_ariths unat_of_nat)
qed

lemma slot_region: "slots_ok A n \<Longrightarrow> j < n \<Longrightarrow> region_ok (A + 8 * of_nat j) 8"
  using slot_unat [of A n j] by (simp add: slots_ok_def region_ok_def)

lemma ld64_wr_same: "region_ok a 8 \<Longrightarrow> ld64 (wr m a (u64_bytes v)) a = v"
  by (simp add: ld64_def rd_wr_same)

lemma ld64_wr_other: "region_ok a 8 \<Longrightarrow> region_ok b 8 \<Longrightarrow> disjoint a 8 b 8 \<Longrightarrow> ld64 (wr m a (u64_bytes v)) b = ld64 m b"
  by (simp add: ld64_def rd_wr_disjoint)

lemma rebase_slots:
  assumes A: "slots_ok A n" and B: "slots_ok B n" and AB: "disjoint A (8 * n) B (8 * n)"
    and "distinct js" "\<forall>j \<in> set js. j < n" "k < n"
  shows "ld64 (rebase A B dev js m) (A + 8 * of_nat k) = (if k \<in> set js then ld64 m (A + 8 * of_nat k) + dev else ld64 m (A + 8 * of_nat k))
    \<and> ld64 (rebase A B dev js m) (B + 8 * of_nat k) = (if k \<in> set js then ld64 m (B + 8 * of_nat k) + dev else ld64 m (B + 8 * of_nat k))"
  using assms(4,5)
proof (induction js arbitrary: m)
  case Nil
  then show ?case by simp
next
  case (Cons j js)
  let ?a = "\<lambda>k. A + 8 * of_nat k" and ?b = "\<lambda>k. B + 8 * of_nat k"
  have j: "j < n" using Cons.prems(2) by simp
  note u = slot_unat [OF A j] slot_unat [OF B j] slot_unat [OF A assms(6)] slot_unat [OF B assms(6)]
  note r = slot_region [OF A j] slot_region [OF B j] slot_region [OF A assms(6)] slot_region [OF B assms(6)]
  have dab: "disjoint (?a j) 8 (?b k) 8" "disjoint (?b j) 8 (?a k) 8" "disjoint (?a j) 8 (?b j) 8"
    using AB j assms(6) by (auto simp: disjoint_def u)
  have ne: "disjoint (?a j) 8 (?a k) 8" "disjoint (?b j) 8 (?b k) 8" if "j \<noteq> k"
    using that by (auto simp: disjoint_def u)
  let ?m1 = "wr m (?a j) (u64_bytes (ld64 m (?a j) + dev))"
  let ?m2 = "wr ?m1 (?b j) (u64_bytes (ld64 ?m1 (?b j) + dev))"
  have b1: "ld64 ?m1 (?b j) = ld64 m (?b j)" by (rule ld64_wr_other [OF r(1,2) dab(3)])
  have a2: "ld64 ?m2 (?a k) = ld64 ?m1 (?a k)" by (rule ld64_wr_other [OF r(2,3) dab(2)])
  have 1: "ld64 ?m2 (?a k) = (if k = j then ld64 m (?a k) + dev else ld64 m (?a k))"
    unfolding a2 using ld64_wr_same [OF r(1)] ld64_wr_other [OF r(1,3) ne(1)] by auto
  have 2: "ld64 ?m2 (?b k) = (if k = j then ld64 m (?b k) + dev else ld64 m (?b k))"
    using ld64_wr_same [OF r(2)] ld64_wr_other [OF r(2,4) ne(2)] ld64_wr_other [OF r(1,4) dab(1)] b1 by auto
  have "rebase A B dev (j # js) m = rebase A B dev js ?m2" by (simp add: Let_def)
  then show ?case using Cons.IH [of ?m2] Cons.prems 1 2 by auto
qed

lemma rebase_outside:
  assumes A: "slots_ok A n" and B: "slots_ok B n" and "\<forall>j \<in> set js. j < n"
    and a: "region_ok a l" "disjoint A (8 * n) a l" "disjoint B (8 * n) a l"
  shows "rd (rebase A B dev js m) a l = rd m a l"
  using assms(3)
proof (induction js arbitrary: m)
  case Nil
  then show ?case by simp
next
  case (Cons j js)
  have j: "j < n" using Cons.prems by simp
  have "disjoint (A + 8 * of_nat j) 8 a l" "disjoint (B + 8 * of_nat j) 8 a l"
    using a(2,3) j slot_unat [OF A j] slot_unat [OF B j] by (auto simp: disjoint_def)
  then show ?case
    using Cons slot_region [OF A j] slot_region [OF B j] a(1) by (simp add: Let_def rd_wr_disjoint)
qed

text \<open>
  Registering the class descriptions on the device: the descriptions are copied unchanged and
  every entry of the two index arrays points to the copy of the description the host's offset
  refers to.
\<close>

lemma register_class_infos_spec:
  assumes dev: "dev mod 8 = 0" "len mod 8 = 0" "unat dev + unat len + 16 * unat n < 2 ^ 64"
    and H: "ext hh hb = H" "region_ok H (unat len)" "disjoint dev (unat len + 16 * unat n) H (unat len)" "H mod 8 = 0 \<or> H mod 8 = 4"
    and I: "ext ih ib = I" "region_ok I (8 * unat n)" "disjoint dev (unat len + 16 * unat n) I (8 * unat n)" "I mod 8 = 0 \<or> I mod 8 = 4"
    and K: "ext kh kb = K" "region_ok K (8 * unat n)" "disjoint dev (unat len + 16 * unat n) K (8 * unat n)" "K mod 8 = 0 \<or> K mod 8 = 4"
    and r: "register_class_infos ext dev hh hb len n ih ib kh kb (G, m) = (G', m')"
  shows "rd m' dev (unat len) = rd m H (unat len)
    \<and> (\<forall>j < unat n. ld64 m' (class_infos_by_id (g_meta_idx G') + 8 * of_nat j) = ld64 m (I + 8 * of_nat j) + dev
         \<and> ld64 m' (class_infos_by_klass (g_meta_idx G') + 8 * of_nat j) = ld64 m (K + 8 * of_nat j) + dev)
    \<and> class_infos_by_klass_len (g_meta_idx G') = n \<and> g_jvm_args G' = g_jvm_args G"
proof -
  let ?A = "dev + len" and ?B = "dev + len + n * 8" and ?n = "unat n" and ?L = "unat len"
  have n8: "unat (n * 8) = 8 * ?n" using dev(3) by (simp add: unat_word_ariths)
  have u: "unat ?A = unat dev + ?L" "unat ?B = unat dev + ?L + 8 * ?n"
    using dev(3) n8 by (simp_all add: unat_word_ariths)
  have al: "?A mod 8 = 0" "?B mod 8 = 0"
  proof -
    have "8 dvd unat dev" "8 dvd unat len" using dev(1,2) by (simp_all add: word_unat_eq_iff unat_mod mod_eq_0_iff_dvd)
    then obtain p q where "unat dev = 8 * p" "unat len = 8 * q" by (auto elim!: dvdE)
    then have "unat ?A = 8 * (p + q)" "unat ?B = 8 * (p + q + ?n)" using u by simp_all
    then show "?A mod 8 = 0" "?B mod 8 = 0" by (simp_all add: word_unat_eq_iff unat_mod)
  qed
  define m1 where "m1 = wr m dev (rd m H ?L)"
  define m2 where "m2 = wr m1 ?A (rd m1 I (8 * ?n))"
  define m3 where "m3 = wr m2 ?B (rd m2 K (8 * ?n))"
  have c1: "fst (d_memcpy m dev H len) = m1"
    using d_memcpy_block [of dev len H m] dev H by (auto simp: m1_def region_ok_def disjoint_def)
  have c2: "fst (d_memcpy m1 ?A I (n * 8)) = m2"
    using d_memcpy_block [of ?A "n * 8" I m1] al I dev(3) n8 u by (auto simp: m2_def region_ok_def disjoint_def)
  have c3: "fst (d_memcpy m2 ?B K (n * 8)) = m3"
    using d_memcpy_block [of ?B "n * 8" K m2] al K dev(3) n8 u by (auto simp: m3_def region_ok_def disjoint_def)
  have m': "m' = rebase ?A ?B dev [0..<?n] m3" and G': "class_infos_by_id (g_meta_idx G') = ?A" "class_infos_by_klass (g_meta_idx G') = ?B"
    "class_infos_by_klass_len (g_meta_idx G') = n" "g_jvm_args G' = g_jvm_args G"
    using r by (auto simp: register_class_infos_def Let_def H(1) I(1) K(1) c1 c2 c3)
  have s: "slots_ok ?A ?n" "slots_ok ?B ?n" "disjoint ?A (8 * ?n) ?B (8 * ?n)"
    using dev(3) u by (auto simp: slots_ok_def disjoint_def)
  have ro: "region_ok dev ?L" "region_ok ?A (8 * ?n)" "region_ok ?B (8 * ?n)" using dev(3) u by (simp_all add: region_ok_def)
  have dj: "disjoint ?A (8 * ?n) dev ?L" "disjoint ?B (8 * ?n) dev ?L" "disjoint ?B (8 * ?n) ?A (8 * ?n)"
    "disjoint dev ?L I (8 * ?n)" "disjoint dev ?L K (8 * ?n)" "disjoint ?A (8 * ?n) K (8 * ?n)"
    using u I(3) K(3) by (auto simp: disjoint_def)
  have "rd m' dev ?L = rd m3 dev ?L"
    unfolding m' by (rule rebase_outside [OF s(1,2) _ ro(1) dj(1,2)]) simp
  also have "\<dots> = rd m H ?L" using ro dj by (simp add: m3_def m2_def m1_def rd_wr_disjoint rd_wr_same)
  finally have 1: "rd m' dev ?L = rd m H ?L" .
  have A3: "rd m3 ?A (8 * ?n) = rd m I (8 * ?n)"
    using ro dj I(2) by (simp add: m3_def m2_def rd_wr_disjoint rd_wr_same) (simp add: m1_def rd_wr_disjoint)
  have B3: "rd m3 ?B (8 * ?n) = rd m K (8 * ?n)"
    using ro dj K(2) by (simp add: m3_def rd_wr_same) (simp add: m2_def m1_def rd_wr_disjoint)
  have slot: "ld64 m3 (?A + 8 * of_nat j) = ld64 m (I + 8 * of_nat j)" "ld64 m3 (?B + 8 * of_nat j) = ld64 m (K + 8 * of_nat j)" if "j < ?n" for j
  proof -
    have e: "ld64 mm (a + 8 * of_nat j) = bytes_u64 (chunk (rd mm a (8 * ?n)) (8 * j) 8)" for mm a
      using rd_chunk [of "8 * j" 8 "8 * ?n" mm a] that by (simp add: ld64_def)
    show "ld64 m3 (?A + 8 * of_nat j) = ld64 m (I + 8 * of_nat j)" "ld64 m3 (?B + 8 * of_nat j) = ld64 m (K + 8 * of_nat j)"
      by (simp_all only: e A3 B3)
  qed
  have "ld64 m' (?A + 8 * of_nat j) = ld64 m (I + 8 * of_nat j) + dev \<and> ld64 m' (?B + 8 * of_nat j) = ld64 m (K + 8 * of_nat j) + dev"
    if "j < ?n" for j
    using rebase_slots [OF s _ _ that, of "[0..<?n]" dev m3] that slot [OF that] by (simp add: m')
  then show ?thesis using 1 G' by simp
qed

end
