(* ===== verification/Partition_Buffer.thy ===== *)
theory Partition_Buffer
  imports Memory_Pool
begin

text \<open>
  \<^verbatim>\<open>lib/native/offload.hxx\<close>: the buffers in which the records of one partition are collected before
  they are spilled. A buffer starts with a header (partition id and length, 8 bytes each); the
  length counts the header. \<^verbatim>\<open>PartitionBuffer\<close> refers to a piece of a buffer pool: the model keeps
  the region and its bytes, which the pool's exclusive ownership makes the buffer's own.
\<close>

definition sizeof_PartitionDataHeader :: nat where [simp]: "sizeof_PartitionDataHeader = 16"

record PartitionBuffer =
  pb_region :: MemoryRegion
  pb_bytes :: "u8 list"

definition header_partition_id :: "u8 list \<Rightarrow> u64" where
  "header_partition_id bs = bytes_u64 (chunk bs 0 8)"

definition header_length :: "u8 list \<Rightarrow> u64" where
  "header_length bs = bytes_u64 (chunk bs 8 8)"

text \<open>The two constructors: over a buffer that was received, and over a fresh one.\<close>

definition pb_attach :: "MemoryRegion \<Rightarrow> u8 list \<Rightarrow> PartitionBuffer" where
  "pb_attach r bs = \<lparr>pb_region = r, pb_bytes = bs\<rparr>"

definition pb_new :: "MemoryRegion \<Rightarrow> u8 list \<Rightarrow> u64 \<Rightarrow> PartitionBuffer" where
  "pb_new r bs pid =
    \<lparr>pb_region = r, pb_bytes = patch (patch bs 0 (u64_bytes pid)) 8 (u64_bytes (of_nat sizeof_PartitionDataHeader))\<rparr>"

definition need_spill :: "PartitionBuffer \<Rightarrow> u64 \<Rightarrow> bool" where
  "need_spill b expected_size \<longleftrightarrow> header_length (pb_bytes b) + expected_size > of_nat (length (pb_bytes b))"

text \<open>The copy is not checked against the size of the buffer: beyond it, it is out of bounds.\<close>

definition pb_append :: "PartitionBuffer \<Rightarrow> u8 list \<Rightarrow> PartitionBuffer result" where
  "pb_append b data =
    (let len = header_length (pb_bytes b) in
     if unat len + length data \<le> length (pb_bytes b)
     then Inr (b\<lparr>pb_bytes := patch (patch (pb_bytes b) (unat len) data) 8 (u64_bytes (len + of_nat (length data)))\<rparr>)
     else Inl Out_of_bounds)"

definition pb_empty :: "PartitionBuffer \<Rightarrow> bool" where
  "pb_empty b \<longleftrightarrow> header_length (pb_bytes b) = of_nat sizeof_PartitionDataHeader"
definition actual_size :: "PartitionBuffer \<Rightarrow> u64" where
  "actual_size b = header_length (pb_bytes b) - of_nat sizeof_PartitionDataHeader"
definition total_size :: "PartitionBuffer \<Rightarrow> u64" where
  "total_size b = header_length (pb_bytes b)"
definition partition_id :: "PartitionBuffer \<Rightarrow> u64" where
  "partition_id b = header_partition_id (pb_bytes b)"
definition actual_data :: "PartitionBuffer \<Rightarrow> u8 list" where
  "actual_data b = drop sizeof_PartitionDataHeader (pb_bytes b)"

section \<open>Contents of a buffer\<close>

definition pb_wf :: "PartitionBuffer \<Rightarrow> bool" where
  "pb_wf b \<longleftrightarrow> 16 \<le> unat (total_size b) \<and> unat (total_size b) \<le> length (pb_bytes b) \<and> length (pb_bytes b) < 2 ^ 63"

definition payload :: "PartitionBuffer \<Rightarrow> u8 list" where
  "payload b = take (unat (actual_size b)) (actual_data b)"

lemma actual_size_unat: "pb_wf b \<Longrightarrow> unat (actual_size b) = unat (total_size b) - 16"
  by (simp add: pb_wf_def actual_size_def total_size_def unat_sub word_le_nat_alt)

lemma payload_chunk: "pb_wf b \<Longrightarrow> payload b = chunk (pb_bytes b) 16 (unat (total_size b) - 16)"
  by (simp add: payload_def actual_size_unat actual_data_def chunk_def)

lemma pb_new_wf:
  assumes "16 \<le> length bs" "length bs < 2 ^ 63"
  shows "pb_wf (pb_new r bs pid)" "payload (pb_new r bs pid) = []" "partition_id (pb_new r bs pid) = pid"
    "pb_region (pb_new r bs pid) = r" "length (pb_bytes (pb_new r bs pid)) = length bs" "unat (total_size (pb_new r bs pid)) = 16"
proof -
  have h: "header_length (pb_bytes (pb_new r bs pid)) = 16" "header_partition_id (pb_bytes (pb_new r bs pid)) = pid"
    using assms by (simp_all add: pb_new_def header_length_def header_partition_id_def chunk_patch_same chunk_patch_before)
  show l: "length (pb_bytes (pb_new r bs pid)) = length bs" using assms by (simp add: pb_new_def)
  show wf: "pb_wf (pb_new r bs pid)" using assms h l by (simp add: pb_wf_def total_size_def)
  show "payload (pb_new r bs pid) = []" by (simp add: payload_def actual_size_def h)
  show "partition_id (pb_new r bs pid) = pid" "pb_region (pb_new r bs pid) = r" "unat (total_size (pb_new r bs pid)) = 16"
    by (simp_all add: partition_id_def total_size_def h) (simp add: pb_new_def)
qed

lemma pb_append_ok:
  assumes wf: "pb_wf b" and fit: "unat (total_size b) + length data \<le> length (pb_bytes b)"
  obtains b' where "pb_append b data = Inr b'" "pb_wf b'" "payload b' = payload b @ data" "partition_id b' = partition_id b"
    "pb_region b' = pb_region b" "length (pb_bytes b') = length (pb_bytes b)" "unat (total_size b') = unat (total_size b) + length data"
proof -
  let ?l = "total_size b" and ?bs = "pb_bytes b"
  let ?n = "?l + of_nat (length data)"
  let ?p = "patch ?bs (unat ?l) data"
  let ?b = "b\<lparr>pb_bytes := patch ?p 8 (u64_bytes ?n)\<rparr>"
  have ap: "pb_append b data = Inr ?b" using fit by (simp add: pb_append_def total_size_def Let_def)
  have 16: "16 \<le> unat ?l" "length ?bs < 2 ^ 63" using wf by (simp_all add: pb_wf_def)
  have n: "unat ?n = unat ?l + length data" using fit 16 by (simp add: unat_word_ariths unat_of_nat)
  have lp: "length ?p = length ?bs" using fit by simp
  have l: "length (pb_bytes ?b) = length ?bs" using fit 16 by simp
  have t: "total_size ?b = ?n" using fit 16 by (simp add: total_size_def header_length_def chunk_patch_same)
  have wf': "pb_wf ?b" using n t l fit 16 by (simp add: pb_wf_def)
  have "partition_id ?b = partition_id b"
    using fit 16 by (simp add: partition_id_def header_partition_id_def chunk_patch_before)
  moreover have "payload ?b = payload b @ data"
  proof -
    have "payload ?b = chunk (patch ?p 8 (u64_bytes ?n)) 16 (unat ?l - 16 + length data)"
      using payload_chunk [OF wf'] t n 16 by simp
    also have "\<dots> = chunk ?p 16 (unat ?l - 16 + length data)" using lp fit 16 by (intro chunk_patch_after) simp_all
    also have "\<dots> = chunk ?p 16 (unat ?l - 16) @ chunk ?p (unat ?l) (length data)"
      using chunk_append [of ?p 16 "unat ?l - 16" "length data"] 16 by simp
    also have "chunk ?p 16 (unat ?l - 16) = payload b" using fit 16 payload_chunk [OF wf] by (simp add: chunk_patch_before)
    also have "chunk ?p (unat ?l) (length data) = data" using fit by (simp add: chunk_patch_same)
    finally show ?thesis .
  qed
  ultimately show ?thesis using that [OF ap wf'] l t n by simp
qed

end
