(* ===== verification/Spill_Agent.thy ===== *)
theory Spill_Agent
  imports Partition_Buffer
begin

text \<open>
  \<^verbatim>\<open>lib/native/spill_agent.hxx\<close>: the host side of spilling. Callers append records to the active
  buffer of their partition; a full buffer is queued and replaced by a fresh one of the pool;
  worker threads take the queue, transfer the buffers and return them to the pool.

  The operations of callers and workers interleave. Under the lock of its partition a caller can
  only be interrupted where \<^verbatim>\<open>acquire_one\<close> sleeps because the pool is empty: an operation that
  needs a buffer is split there, and the partition remembers what its caller is waiting for. A
  worker is split into taking the queue, issuing the transfers and completing them. The
  transport's \<^verbatim>\<open>bulk\<close> is an argument, the function of a buffer that gives the size it reports.
\<close>

section \<open>The agent\<close>

datatype waiting = Idle | Wait_append "u8 list" "u8 list" | Wait_force

record SpillAgent =
  ag_running :: bool
  ag_spill_q :: "PartitionBuffer list"
  ag_active :: "PartitionBuffer option list"
  ag_waiting :: "waiting list"
  ag_pool :: BufferPool
  ag_taken :: "PartitionBuffer list list"
  ag_inflight :: "PartitionBuffer list list"

definition agent_new :: "nat \<Rightarrow> nat \<Rightarrow> BufferPool \<Rightarrow> SpillAgent" where
  "agent_new n_worker max_n_partition pool =
    \<lparr>ag_running = True, ag_spill_q = [], ag_active = replicate max_n_partition None,
     ag_waiting = replicate max_n_partition Idle, ag_pool = enable_mt pool,
     ag_taken = replicate n_worker [], ag_inflight = replicate n_worker []\<rparr>"

definition submit_spill_buffer :: "SpillAgent \<Rightarrow> PartitionBuffer \<Rightarrow> SpillAgent" where
  "submit_spill_buffer a b = a\<lparr>ag_spill_q := ag_spill_q a @ [b]\<rparr>"

text \<open>One round of the loop of \<^verbatim>\<open>acquire_one\<close>; a buffer of the pool has been cleared.\<close>

definition agent_acquire_one :: "SpillAgent \<Rightarrow> nat \<Rightarrow> (PartitionBuffer \<times> SpillAgent) option" where
  "agent_acquire_one a pid =
    (case acquire_one (ag_pool a) of
       (None, _) \<Rightarrow> None
     | (Some r, pool) \<Rightarrow> Some (pb_new r (replicate (unat (mr_len r)) 0) (of_nat pid), a\<lparr>ag_pool := pool\<rparr>))"

definition agent_release_one :: "SpillAgent \<Rightarrow> PartitionBuffer \<Rightarrow> SpillAgent result" where
  "agent_release_one a b = bnd (release_one (ag_pool a) (pb_region b)) (\<lambda>pool. Inr (a\<lparr>ag_pool := pool\<rparr>))"

definition append_record :: "PartitionBuffer \<Rightarrow> u8 list \<Rightarrow> u8 list \<Rightarrow> PartitionBuffer result" where
  "append_record b key val = bnd (pb_append b key) (\<lambda>b. pb_append b val)"

text \<open>\<^verbatim>\<open>append_or_spill\<close> up to the end or the call of \<^verbatim>\<open>acquire_one\<close>, and from its return.\<close>

definition append_or_spill :: "SpillAgent \<Rightarrow> nat \<Rightarrow> u8 list \<Rightarrow> u8 list \<Rightarrow> SpillAgent result" where
  "append_or_spill a pid key val =
    (if length (ag_active a) \<le> pid then Inl Out_of_bounds
     else case ag_active a ! pid of
       None \<Rightarrow> Inr (a\<lparr>ag_waiting := (ag_waiting a)[pid := Wait_append key val]\<rparr>)
     | Some b \<Rightarrow>
         if need_spill b (of_nat (length key) + of_nat (length val))
         then Inr ((submit_spill_buffer a b)\<lparr>ag_waiting := (ag_waiting a)[pid := Wait_append key val]\<rparr>)
         else bnd (append_record b key val) (\<lambda>b. Inr (a\<lparr>ag_active := (ag_active a)[pid := Some b]\<rparr>)))"

definition force_spill :: "SpillAgent \<Rightarrow> nat \<Rightarrow> SpillAgent result" where
  "force_spill a pid =
    (if length (ag_active a) \<le> pid then Inl Out_of_bounds
     else case ag_active a ! pid of
       None \<Rightarrow> Inr a
     | Some b \<Rightarrow> Inr ((submit_spill_buffer a b)\<lparr>ag_waiting := (ag_waiting a)[pid := Wait_force]\<rparr>))"

definition resume :: "SpillAgent \<Rightarrow> nat \<Rightarrow> SpillAgent result" where
  "resume a pid =
    (case agent_acquire_one a pid of
       None \<Rightarrow> Inr a
     | Some (b, a) \<Rightarrow>
         bnd (case ag_waiting a ! pid of Wait_append key val \<Rightarrow> append_record b key val | _ \<Rightarrow> Inr b) (\<lambda>b.
           Inr (a\<lparr>ag_active := (ag_active a)[pid := Some b], ag_waiting := (ag_waiting a)[pid := Idle]\<rparr>)))"

text \<open>The loop of \<^verbatim>\<open>issue_spill\<close> in worker \<open>i\<close>: take the queue, start the transfers, collect the results.\<close>

definition take_queue :: "SpillAgent \<Rightarrow> nat \<Rightarrow> SpillAgent" where
  "take_queue a i = a\<lparr>ag_taken := (ag_taken a)[i := ag_spill_q a], ag_spill_q := []\<rparr>"

definition start_transfers :: "SpillAgent \<Rightarrow> nat \<Rightarrow> PartitionBuffer list \<times> SpillAgent" where
  "start_transfers a i = (ag_taken a ! i, a\<lparr>ag_inflight := (ag_inflight a)[i := ag_taken a ! i], ag_taken := (ag_taken a)[i := []]\<rparr>)"

primrec complete_each :: "(PartitionBuffer \<Rightarrow> u64) \<Rightarrow> PartitionBuffer list \<Rightarrow> SpillAgent \<Rightarrow> SpillAgent result" where
  "complete_each bulk [] a = Inr a"
| "complete_each bulk (b # bs) a =
    bnd (check (bulk b = total_size b) Die) (\<lambda>_.
    bnd (agent_release_one a b) (complete_each bulk bs))"

definition complete_transfers :: "(PartitionBuffer \<Rightarrow> u64) \<Rightarrow> SpillAgent \<Rightarrow> nat \<Rightarrow> SpillAgent result" where
  "complete_transfers bulk a i =
    bnd (complete_each bulk (ag_inflight a ! i) a) (\<lambda>a. Inr (a\<lparr>ag_inflight := (ag_inflight a)[i := []]\<rparr>))"

definition agent_stop :: "SpillAgent \<Rightarrow> SpillAgent" where
  "agent_stop a = a\<lparr>ag_running := False\<rparr>"

text \<open>Whether a worker leaves its loop when it has nothing taken or in flight.\<close>

definition spiller_stops :: "SpillAgent \<Rightarrow> bool" where
  "spiller_stops a \<longleftrightarrow> \<not> ag_running a \<and> ag_spill_q a = []"

section \<open>Interleavings\<close>

text \<open>
  A run: the agent, the records handed to it with their partitions, and the buffers whose
  transfer was started, both in order.
\<close>

record arun =
  ar_agent :: SpillAgent
  ar_records :: "(nat \<times> u8 list) list"
  ar_sent :: "PartitionBuffer list"

inductive agent_step :: "(PartitionBuffer \<Rightarrow> u64) \<Rightarrow> arun \<Rightarrow> arun \<Rightarrow> bool" for bulk where
  append: "pid < length (ag_active (ar_agent s)) \<Longrightarrow> ag_waiting (ar_agent s) ! pid = Idle \<Longrightarrow>
    append_or_spill (ar_agent s) pid key val = Inr a \<Longrightarrow>
    agent_step bulk s (s\<lparr>ar_agent := a, ar_records := ar_records s @ [(pid, key @ val)]\<rparr>)"
| force: "pid < length (ag_active (ar_agent s)) \<Longrightarrow> ag_waiting (ar_agent s) ! pid = Idle \<Longrightarrow>
    force_spill (ar_agent s) pid = Inr a \<Longrightarrow> agent_step bulk s (s\<lparr>ar_agent := a\<rparr>)"
| resume: "pid < length (ag_active (ar_agent s)) \<Longrightarrow> ag_waiting (ar_agent s) ! pid \<noteq> Idle \<Longrightarrow>
    resume (ar_agent s) pid = Inr a \<Longrightarrow> agent_step bulk s (s\<lparr>ar_agent := a\<rparr>)"
| take: "i < length (ag_taken (ar_agent s)) \<Longrightarrow> ag_taken (ar_agent s) ! i = [] \<Longrightarrow> ag_inflight (ar_agent s) ! i = [] \<Longrightarrow>
    ag_spill_q (ar_agent s) \<noteq> [] \<Longrightarrow> agent_step bulk s (s\<lparr>ar_agent := take_queue (ar_agent s) i\<rparr>)"
| start: "i < length (ag_taken (ar_agent s)) \<Longrightarrow> ag_taken (ar_agent s) ! i \<noteq> [] \<Longrightarrow> start_transfers (ar_agent s) i = (bs, a) \<Longrightarrow>
    agent_step bulk s (s\<lparr>ar_agent := a, ar_sent := ar_sent s @ bs\<rparr>)"
| complete: "i < length (ag_inflight (ar_agent s)) \<Longrightarrow> ag_inflight (ar_agent s) ! i \<noteq> [] \<Longrightarrow>
    complete_transfers bulk (ar_agent s) i = Inr a \<Longrightarrow> agent_step bulk s (s\<lparr>ar_agent := a\<rparr>)"
| stop: "agent_step bulk s (s\<lparr>ar_agent := agent_stop (ar_agent s)\<rparr>)"

inductive agent_reach :: "(PartitionBuffer \<Rightarrow> u64) \<Rightarrow> arun \<Rightarrow> arun \<Rightarrow> bool" for bulk where
  refl: "agent_reach bulk s s"
| step: "agent_reach bulk s s' \<Longrightarrow> agent_step bulk s' s'' \<Longrightarrow> agent_reach bulk s s''"

section \<open>Invariants\<close>

lemma pb_append_fits: "pb_append b data = Inr b' \<Longrightarrow> unat (total_size b) + length data \<le> length (pb_bytes b)"
  by (auto simp: pb_append_def total_size_def Let_def split: if_splits)

lemma append_record_ok:
  assumes "pb_wf b" "append_record b key val = Inr b'"
  shows "pb_wf b'" "payload b' = payload b @ key @ val" "partition_id b' = partition_id b" "pb_region b' = pb_region b"
proof -
  from assms(2) obtain b1 where b1: "pb_append b key = Inr b1" "pb_append b1 val = Inr b'" by (auto simp: append_record_def)
  obtain c1 where c1: "pb_append b key = Inr c1" "pb_wf c1" "payload c1 = payload b @ key" "partition_id c1 = partition_id b"
    "pb_region c1 = pb_region b" by (rule pb_append_ok [OF assms(1) pb_append_fits [OF b1(1)]])
  have e1: "b1 = c1" using b1(1) c1(1) by simp
  obtain c2 where c2: "pb_append c1 val = Inr c2" "pb_wf c2" "payload c2 = payload c1 @ val" "partition_id c2 = partition_id c1"
    "pb_region c2 = pb_region c1" by (rule pb_append_ok [OF c1(2) pb_append_fits [OF b1(2) [unfolded e1]]])
  have e2: "b' = c2" using b1(2) c2(1) e1 by simp
  show "pb_wf b'" "payload b' = payload b @ key @ val" "partition_id b' = partition_id b" "pb_region b' = pb_region b"
    using c1 c2 e2 by simp_all
qed

text \<open>The buffer a partition owns: its active one, unless it was just submitted.\<close>

definition owned :: "waiting \<times> PartitionBuffer option \<Rightarrow> PartitionBuffer list" where
  "owned = (\<lambda>(w, b). case (w, b) of (Idle, Some b) \<Rightarrow> [b] | _ \<Rightarrow> [])"

definition slots :: "SpillAgent \<Rightarrow> (waiting \<times> PartitionBuffer option) list" where
  "slots a = zip (ag_waiting a) (ag_active a)"

definition in_use :: "SpillAgent \<Rightarrow> PartitionBuffer list" where
  "in_use a = concat (map owned (slots a)) @ ag_spill_q a @ concat (ag_taken a) @ concat (ag_inflight a)"

definition regions_of :: "SpillAgent \<Rightarrow> MemoryRegion multiset" where
  "regions_of a = mset (map pb_region (in_use a)) + mset (bp_q (ag_pool a))"

definition region_usable :: "SpillAgent \<Rightarrow> MemoryRegion \<Rightarrow> bool" where
  "region_usable a r \<longleftrightarrow> 16 \<le> unat (mr_len r) \<and> unat (mr_len r) < 2 ^ 63 \<and> bp_owns (bp_bs (ag_pool a)) (bp_piece_size (ag_pool a)) r"

definition agent_wf :: "SpillAgent \<Rightarrow> bool" where
  "agent_wf a \<longleftrightarrow> length (ag_waiting a) = length (ag_active a) \<and> length (ag_taken a) = length (ag_inflight a)
     \<and> (\<forall>i < length (ag_taken a). ag_taken a ! i = [] \<or> ag_inflight a ! i = [])
     \<and> (\<forall>b \<in># mset (in_use a). pb_wf b)
     \<and> (\<forall>pid < length (ag_active a). \<forall>b \<in> set (owned (ag_waiting a ! pid, ag_active a ! pid)). partition_id b = of_nat pid)
     \<and> (\<forall>r \<in># regions_of a. region_usable a r)"

lemma owned_update:
  assumes "pid < length (ag_active a)" "length (ag_waiting a) = length (ag_active a)"
  shows "map owned (zip ((ag_waiting a)[pid := w]) ((ag_active a)[pid := b])) = (map owned (slots a))[pid := owned (w, b)]"
    "map owned (zip ((ag_waiting a)[pid := w]) (ag_active a)) = (map owned (slots a))[pid := owned (w, ag_active a ! pid)]"
    "map owned (zip (ag_waiting a) ((ag_active a)[pid := b])) = (map owned (slots a))[pid := owned (ag_waiting a ! pid, b)]"
    "map owned (slots a) ! pid = owned (ag_waiting a ! pid, ag_active a ! pid)" "pid < length (map owned (slots a))"
proof -
  show 1: "map owned (zip ((ag_waiting a)[pid := w]) ((ag_active a)[pid := b])) = (map owned (slots a))[pid := owned (w, b)]" for w b
    by (simp add: slots_def zip_update map_update)
  show "map owned (zip ((ag_waiting a)[pid := w]) (ag_active a)) = (map owned (slots a))[pid := owned (w, ag_active a ! pid)]"
    using 1 [of w "ag_active a ! pid"] by simp
  show "map owned (zip (ag_waiting a) ((ag_active a)[pid := b])) = (map owned (slots a))[pid := owned (ag_waiting a ! pid, b)]"
    using 1 [of "ag_waiting a ! pid" b] by simp
  show "map owned (slots a) ! pid = owned (ag_waiting a ! pid, ag_active a ! pid)" "pid < length (map owned (slots a))"
    using assms by (simp_all add: slots_def)
qed

lemma mset_in_use: "mset (in_use a) = mset (concat (map owned (slots a))) + mset (ag_spill_q a) + mset (concat (ag_taken a)) + mset (concat (ag_inflight a))"
  by (simp add: in_use_def ac_simps)

lemma regions_of_mset: "regions_of a = image_mset pb_region (mset (in_use a)) + mset (bp_q (ag_pool a))"
  by (simp add: regions_of_def)

text \<open>The effect of an operation on the buffers in use is a change of one list in a list of lists.\<close>

lemma owned_simps [simp]:
  "owned (Idle, Some b) = [b]" "owned (w, None) = []" "owned (Wait_force, x) = []" "owned (Wait_append k v, x) = []"
  by (simp_all add: owned_def split: waiting.splits)

lemma mset_owned_update:
  assumes "agent_wf a" "pid < length (ag_active a)"
  shows "mset (concat (map owned (zip ((ag_waiting a)[pid := w]) ((ag_active a)[pid := b])))) + mset (owned (ag_waiting a ! pid, ag_active a ! pid))
    = mset (concat (map owned (slots a))) + mset (owned (w, b))"
proof -
  have l: "length (ag_waiting a) = length (ag_active a)" using assms(1) by (simp add: agent_wf_def)
  note u = owned_update [OF assms(2) l]
  show ?thesis using mset_concat_update [OF u(5), of "owned (w, b)"] by (simp add: u(1) u(4) del: mset_concat)
qed

definition keeps :: "SpillAgent \<Rightarrow> SpillAgent \<Rightarrow> bool" where
  "keeps a a' \<longleftrightarrow> agent_wf a' \<and> regions_of a' = regions_of a \<and> bp_bs (ag_pool a') = bp_bs (ag_pool a)
     \<and> bp_piece_size (ag_pool a') = bp_piece_size (ag_pool a) \<and> length (ag_active a') = length (ag_active a)
     \<and> length (ag_taken a') = length (ag_taken a)"

lemma keepsI:
  assumes "agent_wf a" "regions_of a' = regions_of a" "bp_bs (ag_pool a') = bp_bs (ag_pool a)" "bp_piece_size (ag_pool a') = bp_piece_size (ag_pool a)"
    "length (ag_waiting a') = length (ag_waiting a)" "length (ag_active a') = length (ag_active a)"
    "length (ag_taken a') = length (ag_taken a)" "length (ag_inflight a') = length (ag_inflight a)"
    "\<forall>i < length (ag_taken a). ag_taken a' ! i = [] \<or> ag_inflight a' ! i = []"
    "\<forall>b \<in># mset (in_use a'). pb_wf b"
    "\<forall>pid < length (ag_active a). \<forall>b \<in> set (owned (ag_waiting a' ! pid, ag_active a' ! pid)). partition_id b = of_nat pid"
  shows "keeps a a'"
  using assms by (simp add: keeps_def agent_wf_def region_usable_def)

lemma submit_keeps:
  assumes wf: "agent_wf a" and pid: "pid < length (ag_active a)" "ag_waiting a ! pid = Idle" "ag_active a ! pid = Some b" and w: "w \<noteq> Idle"
  shows "keeps a ((submit_spill_buffer a b)\<lparr>ag_waiting := (ag_waiting a)[pid := w]\<rparr>)"
proof (rule keepsI [OF wf])
  let ?a = "(submit_spill_buffer a b)\<lparr>ag_waiting := (ag_waiting a)[pid := w]\<rparr>"
  have o: "owned (w, Some b) = []" using w by (cases w) simp_all
  have u: "(ag_active a)[pid := Some b] = ag_active a" using list_update_id [of "ag_active a" pid] pid(3) by simp
  have m: "mset (in_use ?a) = mset (in_use a)"
    using mset_owned_update [OF wf pid(1), of w "Some b"] pid o
    by (simp add: mset_in_use submit_spill_buffer_def slots_def u ac_simps del: mset_concat)
  show "regions_of ?a = regions_of a" using m by (simp add: regions_of_mset submit_spill_buffer_def)
  show "\<forall>b \<in># mset (in_use ?a). pb_wf b" unfolding m using wf by (simp add: agent_wf_def)
  show "\<forall>pid' < length (ag_active a). \<forall>b \<in> set (owned (ag_waiting ?a ! pid', ag_active ?a ! pid')). partition_id b = of_nat pid'"
    using wf o pid by (auto simp: agent_wf_def submit_spill_buffer_def nth_list_update)
qed (use wf in \<open>simp_all add: submit_spill_buffer_def agent_wf_def\<close>)

lemma wait_keeps:
  assumes wf: "agent_wf a" and pid: "pid < length (ag_active a)" "ag_active a ! pid = None"
  shows "keeps a (a\<lparr>ag_waiting := (ag_waiting a)[pid := w]\<rparr>)"
proof (rule keepsI [OF wf])
  let ?a = "a\<lparr>ag_waiting := (ag_waiting a)[pid := w]\<rparr>"
  have u: "(ag_active a)[pid := None] = ag_active a" using list_update_id [of "ag_active a" pid] pid(2) by simp
  have m: "mset (in_use ?a) = mset (in_use a)"
    using mset_owned_update [OF wf pid(1), of w None] pid by (simp add: mset_in_use slots_def u del: mset_concat)
  show "regions_of ?a = regions_of a" using m by (simp add: regions_of_mset)
  show "\<forall>b \<in># mset (in_use ?a). pb_wf b" unfolding m using wf by (simp add: agent_wf_def)
  show "\<forall>pid' < length (ag_active a). \<forall>b \<in> set (owned (ag_waiting ?a ! pid', ag_active ?a ! pid')). partition_id b = of_nat pid'"
    using wf pid by (auto simp: agent_wf_def nth_list_update)
qed (use wf in \<open>simp_all add: agent_wf_def\<close>)

lemma owned_in_use:
  assumes "agent_wf a" "pid < length (ag_active a)" "b \<in> set (owned (ag_waiting a ! pid, ag_active a ! pid))"
  shows "b \<in># mset (in_use a)" "pb_wf b" "partition_id b = of_nat pid"
proof -
  have "(ag_waiting a ! pid, ag_active a ! pid) \<in> set (slots a)"
    using assms(1,2) by (auto simp: slots_def agent_wf_def set_zip intro!: exI [of _ pid])
  then show "b \<in># mset (in_use a)" using assms(3) by (auto simp: in_use_def)
  then show "pb_wf b" using assms(1) by (auto simp: agent_wf_def)
  show "partition_id b = of_nat pid" using assms by (simp add: agent_wf_def)
qed

lemma append_keeps:
  assumes wf: "agent_wf a" and pid: "pid < length (ag_active a)" "ag_waiting a ! pid = Idle" "ag_active a ! pid = Some b"
    and ap: "append_record b key val = Inr b'"
  shows "keeps a (a\<lparr>ag_active := (ag_active a)[pid := Some b']\<rparr>)"
proof (rule keepsI [OF wf])
  let ?a = "a\<lparr>ag_active := (ag_active a)[pid := Some b']\<rparr>"
  have b: "pb_wf b" "partition_id b = of_nat pid" using owned_in_use [OF wf pid(1), of b] pid by simp_all
  note b' = append_record_ok [OF b(1) ap]
  have u: "(ag_waiting a)[pid := Idle] = ag_waiting a" using list_update_id [of "ag_waiting a" pid] pid(2) by simp
  have m: "add_mset b (mset (in_use ?a)) = add_mset b' (mset (in_use a))"
    using mset_owned_update [OF wf pid(1), of Idle "Some b'"] pid by (simp add: mset_in_use slots_def u del: mset_concat)
  have "image_mset pb_region (add_mset b (mset (in_use ?a))) = image_mset pb_region (add_mset b' (mset (in_use a)))"
    by (simp only: m)
  then show "regions_of ?a = regions_of a" using b'(4) by (simp add: regions_of_mset)
  have "set_mset (mset (in_use ?a)) \<subseteq> insert b' (set_mset (mset (in_use a)))"
    using arg_cong [OF m, of set_mset] by auto
  then show "\<forall>b \<in># mset (in_use ?a). pb_wf b" using wf b'(1) by (auto simp: agent_wf_def)
  show "\<forall>pid' < length (ag_active a). \<forall>b \<in> set (owned (ag_waiting ?a ! pid', ag_active ?a ! pid')). partition_id b = of_nat pid'"
    using wf pid b b'(3) by (auto simp: agent_wf_def nth_list_update)
qed (use wf in \<open>simp_all add: agent_wf_def\<close>)

lemma acquire_one_buffer:
  assumes wf: "agent_wf a" and aq: "agent_acquire_one a pid = Some (b, a')"
  obtains r q where "bp_q (ag_pool a) = r # q" "b = pb_new r (replicate (unat (mr_len r)) 0) (of_nat pid)" "pb_wf b" "payload b = []"
    "partition_id b = of_nat pid" "pb_region b = r" "a' = a\<lparr>ag_pool := (ag_pool a)\<lparr>bp_q := q\<rparr>\<rparr>" "length (pb_bytes b) = unat (mr_len r)"
    "unat (total_size b) = 16"
proof -
  from aq obtain r q where q: "bp_q (ag_pool a) = r # q" "b = pb_new r (replicate (unat (mr_len r)) 0) (of_nat pid)"
    "a' = a\<lparr>ag_pool := (ag_pool a)\<lparr>bp_q := q\<rparr>\<rparr>"
    by (auto simp: agent_acquire_one_def acquire_one_def split: list.splits)
  then have "16 \<le> unat (mr_len r)" "unat (mr_len r) < 2 ^ 63" using wf by (simp_all add: agent_wf_def regions_of_def region_usable_def)
  then show ?thesis using that [OF q(1,2)] q pb_new_wf [of "replicate (unat (mr_len r)) 0" r "of_nat pid"] by simp
qed

definition waited :: "waiting \<Rightarrow> u8 list" where
  "waited w = (case w of Wait_append key val \<Rightarrow> key @ val | _ \<Rightarrow> [])"

lemma resume_cases:
  assumes wf: "agent_wf a" and re: "resume a pid = Inr a'"
  obtains (asleep) "bp_q (ag_pool a) = []" "a' = a"
  | (awake) r q b where "bp_q (ag_pool a) = r # q" "pb_wf b" "payload b = waited (ag_waiting a ! pid)" "partition_id b = of_nat pid" "pb_region b = r"
    "a' = a\<lparr>ag_pool := (ag_pool a)\<lparr>bp_q := q\<rparr>, ag_active := (ag_active a)[pid := Some b], ag_waiting := (ag_waiting a)[pid := Idle]\<rparr>"
proof (cases "agent_acquire_one a pid")
  case None
  then have "bp_q (ag_pool a) = []" by (simp add: agent_acquire_one_def acquire_one_def split: list.splits)
  moreover have "a' = a" using re None by (simp add: resume_def)
  ultimately show ?thesis by (rule asleep)
next
  case (Some p)
  obtain b0 a1 where p: "p = (b0, a1)" by (cases p)
  obtain r q where q: "bp_q (ag_pool a) = r # q" "pb_wf b0" "payload b0 = []" "partition_id b0 = of_nat pid" "pb_region b0 = r"
    "a1 = a\<lparr>ag_pool := (ag_pool a)\<lparr>bp_q := q\<rparr>\<rparr>" by (rule acquire_one_buffer [OF wf Some [unfolded p]])
  let ?app = "case ag_waiting a ! pid of Wait_append key val \<Rightarrow> append_record b0 key val | _ \<Rightarrow> Inr b0"
  obtain b where b: "?app = Inr b"
    "a' = a\<lparr>ag_pool := (ag_pool a)\<lparr>bp_q := q\<rparr>, ag_active := (ag_active a)[pid := Some b], ag_waiting := (ag_waiting a)[pid := Idle]\<rparr>"
    using re q Some p by (cases ?app) (auto simp: resume_def)
  have "pb_wf b \<and> payload b = waited (ag_waiting a ! pid) \<and> partition_id b = of_nat pid \<and> pb_region b = r"
    using b(1) q append_record_ok [of b0 _ _ b] by (auto simp: waited_def split: waiting.splits)
  then show ?thesis using awake [OF q(1), of b] b(2) by blast
qed

lemma resume_keeps:
  assumes wf: "agent_wf a" and pid: "pid < length (ag_active a)" "ag_waiting a ! pid \<noteq> Idle" and re: "resume a pid = Inr a'"
  shows "keeps a a'"
  using wf re
proof (cases rule: resume_cases)
  case asleep
  then show ?thesis using wf by (simp add: keeps_def)
next
  case (awake r q b)
  have o: "owned (ag_waiting a ! pid, ag_active a ! pid) = []" using pid(2) by (cases "ag_waiting a ! pid") simp_all
  have m: "mset (in_use a') = add_mset b (mset (in_use a))"
    using mset_owned_update [OF wf pid(1), of Idle "Some b"] o by (simp add: awake(6) mset_in_use slots_def del: mset_concat)
  show ?thesis
  proof (rule keepsI [OF wf])
    show "regions_of a' = regions_of a" using m awake by (simp add: regions_of_mset)
    show "\<forall>b \<in># mset (in_use a'). pb_wf b" unfolding m using wf awake(2) by (simp add: agent_wf_def)
    show "\<forall>pid' < length (ag_active a). \<forall>b \<in> set (owned (ag_waiting a' ! pid', ag_active a' ! pid')). partition_id b = of_nat pid'"
      using wf pid awake by (auto simp: agent_wf_def nth_list_update)
  qed (use wf awake(6) in \<open>simp_all add: agent_wf_def\<close>)
qed

lemma take_keeps:
  assumes wf: "agent_wf a" and i: "i < length (ag_taken a)" "ag_taken a ! i = []" "ag_inflight a ! i = []"
  shows "keeps a (take_queue a i)"
proof (rule keepsI [OF wf])
  have m: "mset (in_use (take_queue a i)) = mset (in_use a)"
    using mset_concat_update [OF i(1), of "ag_spill_q a"] i(2) by (simp add: mset_in_use take_queue_def slots_def del: mset_concat)
  then show "regions_of (take_queue a i) = regions_of a" by (simp add: regions_of_mset take_queue_def)
  show "\<forall>b \<in># mset (in_use (take_queue a i)). pb_wf b" unfolding m using wf by (simp add: agent_wf_def)
  show "\<forall>j < length (ag_taken a). ag_taken (take_queue a i) ! j = [] \<or> ag_inflight (take_queue a i) ! j = []"
    using wf i by (auto simp: agent_wf_def take_queue_def nth_list_update)
qed (use wf in \<open>simp_all add: agent_wf_def take_queue_def\<close>)

lemma start_keeps:
  assumes wf: "agent_wf a" and i: "i < length (ag_taken a)" "ag_taken a ! i \<noteq> []" and st: "start_transfers a i = (bs, a')"
  shows "keeps a a'"
proof (rule keepsI [OF wf])
  have a': "a' = a\<lparr>ag_inflight := (ag_inflight a)[i := ag_taken a ! i], ag_taken := (ag_taken a)[i := []]\<rparr>"
    using st by (auto simp: start_transfers_def)
  have fl: "ag_inflight a ! i = []" "i < length (ag_inflight a)" using wf i by (auto simp: agent_wf_def)
  have "mset (in_use a') + mset (ag_taken a ! i) = mset (in_use a) + mset (ag_taken a ! i)"
    using mset_concat_update [OF i(1), of "[]"] mset_concat_update [OF fl(2), of "ag_taken a ! i"] fl
    by (simp add: mset_in_use a' slots_def ac_simps del: mset_concat)
  then have m: "mset (in_use a') = mset (in_use a)" by simp
  then show "regions_of a' = regions_of a" by (simp add: regions_of_mset a')
  show "\<forall>b \<in># mset (in_use a'). pb_wf b" unfolding m using wf by (simp add: agent_wf_def)
  show "\<forall>j < length (ag_taken a). ag_taken a' ! j = [] \<or> ag_inflight a' ! j = []"
    using wf i by (auto simp: agent_wf_def a' nth_list_update)
qed (use wf st in \<open>auto simp: agent_wf_def start_transfers_def\<close>)

text \<open>Completing a batch never fails for buffers of the pool whose transfer was complete.\<close>

lemma complete_each_ok:
  assumes "complete_each bulk bs a = Inr a'"
  obtains p where "a' = a\<lparr>ag_pool := p\<rparr>" "bp_q p = bp_q (ag_pool a) @ map pb_region bs" "bp_bs p = bp_bs (ag_pool a)"
    "bp_piece_size p = bp_piece_size (ag_pool a)"
  using assms
proof (induction bs arbitrary: a thesis)
  case Nil
  show ?case using Nil.prems(1) [of "ag_pool a"] Nil.prems(2) by simp
next
  case (Cons b bs)
  from Cons.prems(2) obtain p1 where p1: "release_one (ag_pool a) (pb_region b) = Inr p1" "complete_each bulk bs (a\<lparr>ag_pool := p1\<rparr>) = Inr a'"
    by (auto simp: agent_release_one_def)
  obtain p where p: "a' = a\<lparr>ag_pool := p1\<rparr>\<lparr>ag_pool := p\<rparr>" "bp_q p = bp_q p1 @ map pb_region bs" "bp_bs p = bp_bs p1" "bp_piece_size p = bp_piece_size p1"
    using Cons.IH [OF _ p1(2)] by auto
  have "bp_q p1 = bp_q (ag_pool a) @ [pb_region b]" "bp_bs p1 = bp_bs (ag_pool a)" "bp_piece_size p1 = bp_piece_size (ag_pool a)"
    using p1(1) by (auto simp: release_one_def)
  then show ?case using Cons.prems(1) [of p] p by simp
qed

lemma complete_each_total:
  assumes "\<forall>b \<in> set bs. bulk b = total_size b" "\<forall>b \<in> set bs. region_usable a (pb_region b)"
  shows "\<exists>a'. complete_each bulk bs a = Inr a'"
  using assms
proof (induction bs arbitrary: a)
  case Nil
  then show ?case by simp
next
  case (Cons b bs)
  then have "bp_owns (bp_bs (ag_pool a)) (bp_piece_size (ag_pool a)) (pb_region b)" by (simp add: region_usable_def)
  then obtain p where p: "agent_release_one a b = Inr (a\<lparr>ag_pool := p\<rparr>)" "bp_bs p = bp_bs (ag_pool a)" "bp_piece_size p = bp_piece_size (ag_pool a)"
    by (simp add: agent_release_one_def release_one_def check_def)
  then have "\<forall>b \<in> set bs. region_usable (a\<lparr>ag_pool := p\<rparr>) (pb_region b)" using Cons.prems by (simp add: region_usable_def)
  then show ?case using Cons p by (simp add: check_def)
qed

lemma complete_keeps:
  assumes wf: "agent_wf a" and i: "i < length (ag_inflight a)" and co: "complete_transfers bulk a i = Inr a'"
  shows "keeps a a'"
proof (rule keepsI [OF wf])
  from co obtain a1 where a1: "complete_each bulk (ag_inflight a ! i) a = Inr a1" "a' = a1\<lparr>ag_inflight := (ag_inflight a1)[i := []]\<rparr>"
    by (auto simp: complete_transfers_def)
  obtain p where p: "a1 = a\<lparr>ag_pool := p\<rparr>" "bp_q p = bp_q (ag_pool a) @ map pb_region (ag_inflight a ! i)" "bp_bs p = bp_bs (ag_pool a)"
    "bp_piece_size p = bp_piece_size (ag_pool a)" by (rule complete_each_ok [OF a1(1)])
  have m: "mset (in_use a') + mset (ag_inflight a ! i) = mset (in_use a)"
    using mset_concat_update [OF i, of "[]"] by (simp add: mset_in_use a1 p(1) slots_def ac_simps del: mset_concat)
  have "image_mset pb_region (mset (in_use a') + mset (ag_inflight a ! i)) = image_mset pb_region (mset (in_use a))" by (simp only: m)
  then show "regions_of a' = regions_of a" using p(2) by (simp add: regions_of_mset a1 p(1) ac_simps)
  show "\<forall>b \<in># mset (in_use a'). pb_wf b" using wf m by (metis agent_wf_def union_iff)
  show "\<forall>j < length (ag_taken a). ag_taken a' ! j = [] \<or> ag_inflight a' ! j = []"
    using wf i by (auto simp: agent_wf_def a1 p(1) nth_list_update)
  show "bp_bs (ag_pool a') = bp_bs (ag_pool a)" "bp_piece_size (ag_pool a') = bp_piece_size (ag_pool a)"
    using p by (simp_all add: a1)
qed (use wf co in \<open>auto simp: agent_wf_def complete_transfers_def elim!: complete_each_ok\<close>)

lemma append_or_spill_keeps:
  assumes wf: "agent_wf a" and pid: "pid < length (ag_active a)" "ag_waiting a ! pid = Idle" and ap: "append_or_spill a pid key val = Inr a'"
  shows "keeps a a'"
proof (cases "ag_active a ! pid")
  case None
  then show ?thesis using wait_keeps [OF wf pid(1) None] ap pid by (auto simp: append_or_spill_def)
next
  case (Some b)
  then show ?thesis using ap pid submit_keeps [OF wf pid Some, of "Wait_append key val"] append_keeps [OF wf pid Some]
    by (auto simp: append_or_spill_def split: if_splits)
qed

lemma force_spill_keeps:
  assumes wf: "agent_wf a" and pid: "pid < length (ag_active a)" "ag_waiting a ! pid = Idle" and ap: "force_spill a pid = Inr a'"
  shows "keeps a a'"
proof (cases "ag_active a ! pid")
  case None
  then show ?thesis using wf ap pid by (simp add: force_spill_def keeps_def)
next
  case (Some b)
  then show ?thesis using ap pid submit_keeps [OF wf pid Some, of Wait_force] by (auto simp: force_spill_def)
qed

lemma stop_keeps: "agent_wf a \<Longrightarrow> keeps a (agent_stop a)"
  by (rule keepsI) (auto simp: agent_stop_def agent_wf_def regions_of_def in_use_def slots_def)

lemma agent_step_keeps: "agent_step bulk s s' \<Longrightarrow> agent_wf (ar_agent s) \<Longrightarrow> keeps (ar_agent s) (ar_agent s')"
  by (induction rule: agent_step.induct)
    (simp_all add: append_or_spill_keeps force_spill_keeps resume_keeps take_keeps start_keeps complete_keeps stop_keeps)

lemma keeps_trans: "keeps a b \<Longrightarrow> keeps b c \<Longrightarrow> keeps a c"
  by (simp add: keeps_def)

lemma agent_reach_keeps: "agent_reach bulk s s' \<Longrightarrow> agent_wf (ar_agent s) \<Longrightarrow> keeps (ar_agent s) (ar_agent s')"
proof (induction rule: agent_reach.induct)
  case (refl s)
  then show ?case by (simp add: keeps_def)
next
  case (step s s' s'')
  then have "keeps (ar_agent s) (ar_agent s')" by simp
  then show ?case using agent_step_keeps [OF step.hyps(2)] keeps_trans by (auto simp: keeps_def)
qed

section \<open>A run from the start\<close>

definition run_new :: "nat \<Rightarrow> nat \<Rightarrow> BufferPool \<Rightarrow> arun" where
  "run_new n_worker max_n_partition pool = \<lparr>ar_agent = agent_new n_worker max_n_partition pool, ar_records = [], ar_sent = []\<rparr>"

definition pool_usable :: "BufferPool \<Rightarrow> bool" where
  "pool_usable p \<longleftrightarrow> (\<forall>r \<in> set (bp_q p). 16 \<le> unat (mr_len r) \<and> unat (mr_len r) < 2 ^ 63 \<and> bp_owns (bp_bs p) (bp_piece_size p) r)"

lemma owned_none: "concat (map owned (zip (replicate n w) (replicate m None))) = []"
  by (auto simp: set_zip)

lemma agent_new_wf:
  assumes "pool_usable pool"
  shows "agent_wf (agent_new n_worker n pool)" "regions_of (agent_new n_worker n pool) = mset (bp_q pool)"
proof -
  have u: "in_use (agent_new n_worker n pool) = []" by (simp add: in_use_def slots_def agent_new_def owned_none del: concat_eq_Nil_conv)
  then show "regions_of (agent_new n_worker n pool) = mset (bp_q pool)" by (simp add: regions_of_def agent_new_def enable_mt_def)
  then show "agent_wf (agent_new n_worker n pool)" using assms u
    by (auto simp: agent_wf_def agent_new_def region_usable_def pool_usable_def enable_mt_def)
qed

text \<open>
  C10. Whatever the interleaving of callers and spill workers, no buffer of the pool is lost or in
  two places: the buffers of the pool are at every moment those that are free, active in a
  partition, queued, taken by a worker or in flight, each with a well formed header, and the
  active buffer of a partition carries its id.
\<close>

theorem spill_agent_conserves_buffers:
  assumes "pool_usable pool" "agent_reach bulk (run_new n_worker max_n_partition pool) s"
  shows "agent_wf (ar_agent s) \<and> mset (map pb_region (in_use (ar_agent s))) + mset (bp_q (ag_pool (ar_agent s))) = mset (bp_q pool)"
  using agent_reach_keeps [OF assms(2)] agent_new_wf [OF assms(1)] by (simp add: keeps_def run_new_def regions_of_def)

section \<open>Progress\<close>

lemma append_record_total:
  assumes "pb_wf b" "unat (total_size b) + length key + length val \<le> length (pb_bytes b)"
  shows "\<exists>b'. append_record b key val = Inr b'"
proof -
  have f: "unat (total_size b) + length key \<le> length (pb_bytes b)" using assms(2) by simp
  obtain b1 where b1: "pb_append b key = Inr b1" "pb_wf b1" "length (pb_bytes b1) = length (pb_bytes b)"
    "unat (total_size b1) = unat (total_size b) + length key" by (rule pb_append_ok [OF assms(1) f])
  then obtain b2 where "pb_append b1 val = Inr b2" using pb_append_ok [OF b1(2), of val] assms(2) by auto
  then show ?thesis using b1(1) by (simp add: append_record_def)
qed

lemma append_record_overflow:
  assumes "pb_wf b" "unat (total_size b) + length key + length val > length (pb_bytes b)"
  shows "append_record b key val = Inl Out_of_bounds"
proof (cases "unat (total_size b) + length key \<le> length (pb_bytes b)")
  case True
  obtain b1 where b1: "pb_append b key = Inr b1" "pb_wf b1" "length (pb_bytes b1) = length (pb_bytes b)"
    "unat (total_size b1) = unat (total_size b) + length key" by (rule pb_append_ok [OF assms(1) True])
  then show ?thesis using assms(2) by (simp add: append_record_def pb_append_def total_size_def Let_def)
next
  case False
  then show ?thesis by (simp add: append_record_def pb_append_def total_size_def Let_def)
qed

lemma resume_total:
  assumes wf: "agent_wf a" and pid: "pid < length (ag_active a)" and q: "bp_q (ag_pool a) = r # q"
    and fit: "16 + length (waited (ag_waiting a ! pid)) \<le> unat (mr_len r)"
  shows "\<exists>a'. resume a pid = Inr a' \<and> ag_waiting a' ! pid = Idle"
proof -
  have l: "pid < length (ag_waiting a)" using wf pid by (simp add: agent_wf_def)
  obtain b a1 where aq: "agent_acquire_one a pid = Some (b, a1)" using q by (simp add: agent_acquire_one_def acquire_one_def)
  obtain r' q' where "bp_q (ag_pool a) = r' # q'" and b: "pb_wf b" "length (pb_bytes b) = unat (mr_len r')" "unat (total_size b) = 16"
    and a1: "a1 = a\<lparr>ag_pool := (ag_pool a)\<lparr>bp_q := q'\<rparr>\<rparr>" by (rule acquire_one_buffer [OF wf aq])
  then have lb: "length (pb_bytes b) = unat (mr_len r)" using q by simp
  show ?thesis
  proof (cases "ag_waiting a ! pid")
    case (Wait_append key val)
    then have "\<exists>b'. append_record b key val = Inr b'"
      using append_record_total [OF b(1)] fit lb b(3) by (simp add: waited_def)
    then show ?thesis using aq a1 l Wait_append by (auto simp: resume_def)
  qed (use aq a1 l in \<open>simp_all add: resume_def\<close>)
qed

lemma owned_length: "length (owned p) \<le> Suc 0"
  by (cases p; cases "fst p"; cases "snd p") simp_all

lemma waiting_leaves_buffer:
  assumes wf: "agent_wf a" and pid: "pid < length (ag_active a)" "ag_waiting a ! pid \<noteq> Idle"
  shows "length (concat (map owned (slots a))) < length (ag_active a)"
proof -
  let ?f = "\<lambda>i. length (owned (slots a ! i))" and ?n = "length (ag_active a)"
  have l: "length (slots a) = ?n" using wf by (simp add: slots_def agent_wf_def)
  have "length (concat (map owned (slots a))) = (\<Sum>i \<in> {0..<?n}. ?f i)"
    by (simp add: length_concat comp_def sum_list_sum_nth l)
  also have "\<dots> = ?f pid + (\<Sum>i \<in> {0..<?n} - {pid}. ?f i)" using pid(1) by (intro sum.remove) simp_all
  also have "?f pid = 0" using pid wf by (cases "ag_waiting a ! pid") (simp_all add: slots_def agent_wf_def)
  also have "(\<Sum>i \<in> {0..<?n} - {pid}. ?f i) \<le> (\<Sum>i \<in> {0..<?n} - {pid}. 1)"
    by (rule sum_mono) (simp add: owned_length)
  also have "\<dots> = ?n - 1" using pid(1) by simp
  finally show ?thesis using pid(1) by linarith
qed

lemma agent_reach_trans: "agent_reach bulk s' s'' \<Longrightarrow> agent_reach bulk s s' \<Longrightarrow> agent_reach bulk s s''"
  by (induction rule: agent_reach.induct) (auto intro: agent_reach.step)

text \<open>What the workers do between two steps of the callers leaves the callers' view alone.\<close>

definition same_callers :: "arun \<Rightarrow> arun \<Rightarrow> bool" where
  "same_callers s s' \<longleftrightarrow> ag_waiting (ar_agent s') = ag_waiting (ar_agent s) \<and> ag_active (ar_agent s') = ag_active (ar_agent s)
     \<and> ar_records s' = ar_records s"

lemma same_callers_trans: "same_callers s s' \<Longrightarrow> same_callers s' s'' \<Longrightarrow> same_callers s s''"
  by (simp add: same_callers_def)

lemma agent_reach_one: "agent_step bulk s s' \<Longrightarrow> agent_reach bulk s s'"
  by (rule agent_reach.step [OF agent_reach.refl])

lemma complete_refills:
  assumes wf: "agent_wf (ar_agent s)" and i: "i < length (ag_inflight (ar_agent s))" "ag_inflight (ar_agent s) ! i \<noteq> []"
    and bulk: "\<forall>b. bulk b = total_size b"
  shows "\<exists>s'. agent_step bulk s s' \<and> same_callers s s' \<and> bp_q (ag_pool (ar_agent s')) \<noteq> []"
proof -
  let ?a = "ar_agent s"
  have "set (ag_inflight ?a ! i) \<subseteq> set (in_use ?a)" using i(1) by (auto simp: in_use_def)
  then have "\<forall>b \<in> set (ag_inflight ?a ! i). region_usable ?a (pb_region b)" using wf by (auto simp: agent_wf_def regions_of_def)
  then obtain a1 where a1: "complete_each bulk (ag_inflight ?a ! i) ?a = Inr a1" using complete_each_total bulk by blast
  obtain p where p: "a1 = ?a\<lparr>ag_pool := p\<rparr>" "bp_q p = bp_q (ag_pool ?a) @ map pb_region (ag_inflight ?a ! i)" by (rule complete_each_ok [OF a1])
  then have co: "complete_transfers bulk ?a i = Inr (?a\<lparr>ag_pool := p, ag_inflight := (ag_inflight ?a)[i := []]\<rparr>)"
    using a1 by (simp add: complete_transfers_def)
  show ?thesis using agent_step.complete [OF i co] p(2) i(2) by (intro exI [of _ "s\<lparr>ar_agent := ?a\<lparr>ag_pool := p, ag_inflight := (ag_inflight ?a)[i := []]\<rparr>\<rparr>"]) (simp add: same_callers_def)
qed

lemma start_refills:
  assumes wf: "agent_wf (ar_agent s)" and i: "i < length (ag_taken (ar_agent s))" "ag_taken (ar_agent s) ! i \<noteq> []"
    and bulk: "\<forall>b. bulk b = total_size b"
  shows "\<exists>s'. agent_reach bulk s s' \<and> same_callers s s' \<and> bp_q (ag_pool (ar_agent s')) \<noteq> []"
proof -
  let ?a = "ar_agent s"
  obtain a1 where st: "start_transfers ?a i = (ag_taken ?a ! i, a1)"
    and a1: "a1 = ?a\<lparr>ag_inflight := (ag_inflight ?a)[i := ag_taken ?a ! i], ag_taken := (ag_taken ?a)[i := []]\<rparr>" by (simp add: start_transfers_def)
  let ?s = "s\<lparr>ar_agent := a1, ar_sent := ar_sent s @ ag_taken ?a ! i\<rparr>"
  have step: "agent_step bulk s ?s" by (rule agent_step.start [OF i st])
  have wf1: "agent_wf (ar_agent ?s)" using start_keeps [OF wf i st] by (simp add: keeps_def)
  have fl: "i < length (ag_inflight (ar_agent ?s))" "ag_inflight (ar_agent ?s) ! i \<noteq> []" using i wf by (simp_all add: a1 agent_wf_def)
  obtain s' where "agent_step bulk ?s s'" "same_callers ?s s'" "bp_q (ag_pool (ar_agent s')) \<noteq> []" using complete_refills [OF wf1 fl bulk] by blast
  moreover have "same_callers s ?s" by (simp add: same_callers_def a1)
  ultimately show ?thesis by (blast intro: agent_reach.step [OF agent_reach_one [OF step]] same_callers_trans)
qed

lemma worker_refills:
  assumes wf: "agent_wf (ar_agent s)" and w: "ag_taken (ar_agent s) \<noteq> []"
    and busy: "ag_spill_q (ar_agent s) @ concat (ag_taken (ar_agent s)) @ concat (ag_inflight (ar_agent s)) \<noteq> []"
    and bulk: "\<forall>b. bulk b = total_size b"
  shows "\<exists>s'. agent_reach bulk s s' \<and> same_callers s s' \<and> bp_q (ag_pool (ar_agent s')) \<noteq> []"
proof -
  let ?a = "ar_agent s"
  have l: "length (ag_inflight ?a) = length (ag_taken ?a)" "0 < length (ag_taken ?a)" using wf w by (auto simp: agent_wf_def)
  consider (fl) i where "i < length (ag_inflight ?a)" "ag_inflight ?a ! i \<noteq> []" | (tk) i where "i < length (ag_taken ?a)" "ag_taken ?a ! i \<noteq> []"
    | (q) "ag_spill_q ?a \<noteq> []" "ag_taken ?a ! 0 = []" "ag_inflight ?a ! 0 = []"
  proof (cases "concat (ag_inflight ?a) = [] \<and> concat (ag_taken ?a) = []")
    case True
    then have "ag_spill_q ?a \<noteq> []" "\<forall>i < length (ag_taken ?a). ag_taken ?a ! i = [] \<and> ag_inflight ?a ! i = []"
      using busy l by simp_all
    then show ?thesis using l(2) by (intro q) simp_all
  next
    case False
    then show ?thesis using fl tk by (auto simp: in_set_conv_nth)
  qed
  then show ?thesis
  proof cases
    case fl
    then show ?thesis using complete_refills [OF wf fl bulk] by (blast intro: agent_reach_one)
  next
    case tk
    then show ?thesis by (rule start_refills [OF wf _ _ bulk])
  next
    case q
    let ?s = "s\<lparr>ar_agent := take_queue ?a 0\<rparr>"
    note l = l(2)
    have step: "agent_step bulk s ?s" by (rule agent_step.take [OF l q(2,3,1)])
    have wf1: "agent_wf (ar_agent ?s)" using take_keeps [OF wf l q(2,3)] by (simp add: keeps_def)
    have tk: "0 < length (ag_taken (ar_agent ?s))" "ag_taken (ar_agent ?s) ! 0 \<noteq> []" using l q(1) by (simp_all add: take_queue_def)
    obtain s' where s': "agent_reach bulk ?s s'" "same_callers ?s s'" "bp_q (ag_pool (ar_agent s')) \<noteq> []"
      using start_refills [OF wf1 tk bulk] by blast
    have "same_callers s ?s" by (simp add: same_callers_def take_queue_def)
    then show ?thesis using s' by (blast intro: agent_reach_trans [OF _ agent_reach_one [OF step]] same_callers_trans)
  qed
qed


section \<open>Order of the records\<close>

text \<open>
  What the data of a partition is made of, in order: the buffers whose transfer was started, those
  a worker has taken, the queue, the active buffer, the record whose caller waits.
\<close>

definition partition_stream :: "arun \<Rightarrow> nat \<Rightarrow> u8 list" where
  "partition_stream s pid = (let a = ar_agent s in
     concat (map payload (filter (\<lambda>b. partition_id b = of_nat pid) (ar_sent s @ concat (ag_taken a) @ ag_spill_q a)))
     @ concat (map payload (owned (ag_waiting a ! pid, ag_active a ! pid))) @ waited (ag_waiting a ! pid))"

definition records_of :: "arun \<Rightarrow> nat \<Rightarrow> u8 list" where
  "records_of s pid = concat (map snd (filter (\<lambda>r. fst r = pid) (ar_records s)))"

definition in_order :: "arun \<Rightarrow> bool" where
  "in_order s \<longleftrightarrow> (\<forall>pid < length (ag_active (ar_agent s)). partition_stream s pid = records_of s pid)"

lemma waited_simps [simp]: "waited Idle = []" "waited Wait_force = []" "waited (Wait_append k v) = k @ v"
  by (simp_all add: waited_def)

lemma of_nat_u64_eq: "p < n \<Longrightarrow> q < n \<Longrightarrow> n \<le> 2 ^ 64 \<Longrightarrow> (of_nat p :: u64) = of_nat q \<longleftrightarrow> p = q"
  by (auto dest!: arg_cong [of _ _ unat] simp: unat_of_nat)

lemma append_in_order:
  assumes wf: "agent_wf (ar_agent s)" and n: "length (ag_active (ar_agent s)) \<le> 2 ^ 64" and ord: "in_order s"
    and pid: "pid < length (ag_active (ar_agent s))" "ag_waiting (ar_agent s) ! pid = Idle"
    and ap: "append_or_spill (ar_agent s) pid key val = Inr a"
  shows "in_order (s\<lparr>ar_agent := a, ar_records := ar_records s @ [(pid, key @ val)]\<rparr>)"
proof -
  let ?a = "ar_agent s"
  have l: "pid < length (ag_waiting ?a)" using wf pid by (simp add: agent_wf_def)
  have ot: "p < length (ag_active ?a) \<Longrightarrow> (of_nat pid :: u64) = of_nat p \<longleftrightarrow> pid = p" for p using of_nat_u64_eq [OF pid(1) _ n] by simp
  consider "ag_active ?a ! pid = None" "a = ?a\<lparr>ag_waiting := (ag_waiting ?a)[pid := Wait_append key val]\<rparr>"
    | b where "ag_active ?a ! pid = Some b" "a = (submit_spill_buffer ?a b)\<lparr>ag_waiting := (ag_waiting ?a)[pid := Wait_append key val]\<rparr>"
    | b b' where "ag_active ?a ! pid = Some b" "append_record b key val = Inr b'" "a = ?a\<lparr>ag_active := (ag_active ?a)[pid := Some b']\<rparr>"
    using ap pid by (cases "ag_active ?a ! pid") (auto simp: append_or_spill_def split: if_splits)
  then show ?thesis
  proof cases
    case 1
    then show ?thesis using ord pid l
      by (auto simp: in_order_def partition_stream_def records_of_def nth_list_update Let_def)
  next
    case (2 b)
    have "partition_id b = of_nat pid" using owned_in_use [OF wf pid(1), of b] pid 2 by simp
    then show ?thesis using ord pid l 2 ot
      by (auto simp: in_order_def partition_stream_def records_of_def nth_list_update submit_spill_buffer_def Let_def)
  next
    case (3 b b')
    have "pb_wf b" using owned_in_use [OF wf pid(1), of b] pid 3 by simp
    then have "payload b' = payload b @ key @ val" by (rule append_record_ok [OF _ 3(2)])
    then show ?thesis using ord pid l 3
      by (auto simp: in_order_def partition_stream_def records_of_def nth_list_update Let_def)
  qed
qed

lemma force_in_order:
  assumes wf: "agent_wf (ar_agent s)" and n: "length (ag_active (ar_agent s)) \<le> 2 ^ 64" and ord: "in_order s"
    and pid: "pid < length (ag_active (ar_agent s))" "ag_waiting (ar_agent s) ! pid = Idle" and ap: "force_spill (ar_agent s) pid = Inr a"
  shows "in_order (s\<lparr>ar_agent := a\<rparr>)"
proof (cases "ag_active (ar_agent s) ! pid")
  case None
  then show ?thesis using ord ap pid by (simp add: force_spill_def in_order_def partition_stream_def records_of_def Let_def)
next
  case (Some b)
  have l: "pid < length (ag_waiting (ar_agent s))" using wf pid by (simp add: agent_wf_def)
  have "partition_id b = of_nat pid" using owned_in_use [OF wf pid(1), of b] pid Some by simp
  then show ?thesis using ord [unfolded in_order_def, rule_format, OF pid(1)] ord pid l ap Some of_nat_u64_eq [OF pid(1) _ n]
    by (auto simp: force_spill_def in_order_def partition_stream_def records_of_def nth_list_update submit_spill_buffer_def Let_def)
qed

lemma resume_in_order:
  assumes wf: "agent_wf (ar_agent s)" and ord: "in_order s"
    and pid: "pid < length (ag_active (ar_agent s))" "ag_waiting (ar_agent s) ! pid \<noteq> Idle" and re: "resume (ar_agent s) pid = Inr a"
  shows "in_order (s\<lparr>ar_agent := a\<rparr>)"
  using wf re
proof (cases rule: resume_cases)
  case asleep
  then show ?thesis using ord by simp
next
  case (awake r q b)
  have l: "pid < length (ag_waiting (ar_agent s))" using wf pid by (simp add: agent_wf_def)
  have o: "owned (ag_waiting (ar_agent s) ! pid, x) = []" for x using pid(2) by (cases "ag_waiting (ar_agent s) ! pid") simp_all
  show ?thesis using ord pid l awake o
    by (auto simp: in_order_def partition_stream_def records_of_def nth_list_update Let_def)
qed

lemma one_worker:
  assumes "length xss = Suc 0" "i < length xss"
  shows "i = 0" "concat xss = xss ! 0" "xss[i := ys] = [ys]"
  using assms by (cases xss; simp)+

lemma worker_in_order:
  assumes wf: "agent_wf (ar_agent s)" and w: "length (ag_taken (ar_agent s)) = Suc 0" and ord: "in_order s" and i: "i < length (ag_taken (ar_agent s))"
  shows "ag_taken (ar_agent s) ! i = [] \<Longrightarrow> in_order (s\<lparr>ar_agent := take_queue (ar_agent s) i\<rparr>)"
    "start_transfers (ar_agent s) i = (bs, a) \<Longrightarrow> in_order (s\<lparr>ar_agent := a, ar_sent := ar_sent s @ bs\<rparr>)"
    "complete_transfers bulk (ar_agent s) i = Inr a \<Longrightarrow> in_order (s\<lparr>ar_agent := a\<rparr>)"
  subgoal using ord w i one_worker [OF w i]
    by (simp add: in_order_def partition_stream_def records_of_def take_queue_def Let_def)
  subgoal using ord w i one_worker [OF w i]
    by (auto simp: in_order_def partition_stream_def records_of_def start_transfers_def Let_def)
  subgoal using ord
    by (auto simp: in_order_def partition_stream_def records_of_def complete_transfers_def Let_def elim!: complete_each_ok)
  done

lemma agent_step_in_order:
  assumes "agent_step bulk s s'" "agent_wf (ar_agent s)" "length (ag_taken (ar_agent s)) = Suc 0"
    "length (ag_active (ar_agent s)) \<le> 2 ^ 64" "in_order s"
  shows "in_order s'"
  using assms
proof (induction rule: agent_step.induct)
  case (append pid s key val a)
  then show ?case by (intro append_in_order)
next
  case (force pid s a)
  then show ?case by (intro force_in_order)
next
  case (resume pid s a)
  then show ?case by (intro resume_in_order)
next
  case (take i s)
  then show ?case by (intro worker_in_order(1))
next
  case (start i s bs a)
  then show ?case by (intro worker_in_order(2))
next
  case (complete i s a)
  then have "i < length (ag_taken (ar_agent s))" by (simp add: agent_wf_def)
  with complete show ?case by (intro worker_in_order(3))
next
  case (stop s)
  then show ?case by (simp add: agent_stop_def in_order_def partition_stream_def records_of_def Let_def)
qed

text \<open>
  C11. With one spill worker, the data of every partition is spilled in the order in which its
  records were appended: the contents of the buffers sent, taken and queued for the partition,
  followed by its active buffer and the record still waiting for one, are exactly the
  concatenation of its records, whatever the interleaving of callers and worker.
\<close>

theorem spill_agent_keeps_record_order:
  assumes pool: "pool_usable pool" and n: "max_n_partition \<le> 2 ^ 64"
    and reach: "agent_reach bulk (run_new 1 max_n_partition pool) s" and pid: "pid < max_n_partition"
  shows "partition_stream s pid = records_of s pid"
proof -
  note new = agent_new_wf [OF pool, of 1 max_n_partition]
  have "in_order s \<and> keeps (agent_new 1 max_n_partition pool) (ar_agent s)" using reach
  proof (induction s' \<equiv> "run_new 1 max_n_partition pool" s rule: agent_reach.induct)
    case refl
    then show ?case using new(1)
      by (simp add: run_new_def agent_new_def keeps_def in_order_def partition_stream_def records_of_def Let_def)
  next
    case (step s' s'')
    have k: "keeps (agent_new 1 max_n_partition pool) (ar_agent s')" "in_order s'" using step by simp_all
    then have wf: "agent_wf (ar_agent s')" and l: "length (ag_taken (ar_agent s')) = Suc 0" "length (ag_active (ar_agent s')) \<le> 2 ^ 64"
      using n by (simp_all add: keeps_def agent_new_def)
    then show ?case using agent_step_in_order [OF step.hyps(3) wf l k(2)] agent_step_keeps [OF step.hyps(3) wf] keeps_trans k(1) by blast
  qed
  then show ?thesis using pid by (simp add: in_order_def keeps_def agent_new_def)
qed

text \<open>
  C13. A call that waits for a buffer writes out of bounds when it gets one exactly if its record
  does not fit into the whole buffer: \<^verbatim>\<open>append_or_spill\<close> never compares a record with the size of
  a fresh buffer.
\<close>

theorem fresh_buffer_overflow:
  assumes "agent_wf a" "pid < length (ag_active a)" "bp_q (ag_pool a) = r # q"
  shows "resume a pid = Inl Out_of_bounds \<longleftrightarrow> unat (mr_len r) < 16 + length (waited (ag_waiting a ! pid))"
proof (cases "unat (mr_len r) < 16 + length (waited (ag_waiting a ! pid))")
  case True
  obtain b a1 where aq: "agent_acquire_one a pid = Some (b, a1)" using assms(3) by (simp add: agent_acquire_one_def acquire_one_def)
  obtain r' q' where q: "bp_q (ag_pool a) = r' # q'" and b: "pb_wf b" "length (pb_bytes b) = unat (mr_len r')" "unat (total_size b) = 16"
    and a1: "a1 = a\<lparr>ag_pool := (ag_pool a)\<lparr>bp_q := q'\<rparr>\<rparr>" by (rule acquire_one_buffer [OF assms(1) aq])
  have "16 \<le> unat (mr_len r)" using assms(1,3) by (simp add: agent_wf_def regions_of_def region_usable_def)
  with True obtain key val where w: "ag_waiting a ! pid = Wait_append key val" by (cases "ag_waiting a ! pid") simp_all
  then have "append_record b key val = Inl Out_of_bounds"
    using append_record_overflow [OF b(1), of key val] True b q assms(3) by simp
  then show ?thesis using True w aq a1 by (simp add: resume_def)
next
  case False
  then show ?thesis using resume_total [OF assms] by auto
qed

section \<open>A concrete run\<close>

text \<open>
  Two buffers of 32 bytes, two partitions, one worker: the first record of partition 0 gets a
  fresh buffer, the second one does not fit behind it, so that the buffer is queued and the caller
  waits.
\<close>

definition demo_pool :: BufferPool where
  "demo_pool = bp_new \<lparr>mr_base = 4096, mr_len = 64\<rparr> 32 [\<lparr>mr_base = 4096, mr_len = 32\<rparr>, \<lparr>mr_base = 4128, mr_len = 32\<rparr>] (\<lambda>_. 0)"

definition demo_bulk :: "PartitionBuffer \<Rightarrow> u64" where "demo_bulk = total_size"

primrec ok :: "SpillAgent result \<Rightarrow> SpillAgent" where "ok (Inr a) = a" | "ok (Inl _) = agent_new 0 0 demo_pool"

definition demo_a1 :: SpillAgent where "demo_a1 = ok (append_or_spill (agent_new 1 2 demo_pool) 0 [1, 2] [3])"
definition demo_a2 :: SpillAgent where "demo_a2 = ok (resume demo_a1 0)"
definition demo_a3 :: SpillAgent where "demo_a3 = ok (append_or_spill demo_a2 0 [7, 7, 7, 7, 7, 7] [4, 4, 4, 4, 4, 4, 4, 4])"

lemma ok_Inr: "\<not> isl r \<Longrightarrow> r = Inr (ok r)"
  by (cases r) simp_all

lemma demo_steps:
  "append_or_spill (agent_new 1 2 demo_pool) 0 [1, 2] [3] = Inr demo_a1" "resume demo_a1 0 = Inr demo_a2"
  "append_or_spill demo_a2 0 [7, 7, 7, 7, 7, 7] [4, 4, 4, 4, 4, 4, 4, 4] = Inr demo_a3"
  unfolding demo_a1_def demo_a2_def demo_a3_def by (rule ok_Inr; code_simp)+

lemma demo_waiting:
  "ag_waiting demo_a1 = [Wait_append [1, 2] [3], Idle]" "ag_waiting demo_a2 = [Idle, Idle]" "ag_active demo_a1 = [None, None]"
  "length (ag_active demo_a2) = 2" "ag_waiting demo_a3 = [Wait_append [7, 7, 7, 7, 7, 7] [4, 4, 4, 4, 4, 4, 4, 4], Idle]"
  by code_simp+

definition demo_run :: arun where
  "demo_run = \<lparr>ar_agent = demo_a3, ar_records = [(0, [1, 2, 3]), (0, [7, 7, 7, 7, 7, 7, 4, 4, 4, 4, 4, 4, 4, 4])], ar_sent = []\<rparr>"

lemma demo_reach: "agent_reach bulk (run_new 1 2 demo_pool) demo_run"
proof -
  let ?r0 = "run_new 1 2 demo_pool"
  let ?r1 = "?r0\<lparr>ar_agent := demo_a1, ar_records := ar_records ?r0 @ [(0, [1, 2] @ [3])]\<rparr>" and ?v = "[4, 4, 4, 4, 4, 4, 4, 4]"
  let ?r2 = "?r1\<lparr>ar_agent := demo_a2\<rparr>"
  have 1: "agent_step bulk ?r0 ?r1" by (rule agent_step.append) (simp_all add: run_new_def demo_steps [simplified], simp_all add: agent_new_def)
  have 2: "agent_step bulk ?r1 ?r2" by (rule agent_step.resume [of 0]) (simp_all add: demo_steps demo_waiting)
  have 3: "agent_step bulk ?r2 (?r2\<lparr>ar_agent := demo_a3, ar_records := ar_records ?r2 @ [(0, [7, 7, 7, 7, 7, 7] @ ?v)]\<rparr>)"
    by (rule agent_step.append) (simp_all add: demo_steps demo_waiting)
  have e: "?r2\<lparr>ar_agent := demo_a3, ar_records := ar_records ?r2 @ [(0, [7, 7, 7, 7, 7, 7] @ ?v)]\<rparr> = demo_run"
    by (simp add: demo_run_def run_new_def)
  show ?thesis using agent_reach.step [OF agent_reach.step [OF agent_reach_one [OF 1] 2] 3] unfolding e .
qed

lemma demo_pool_usable: "pool_usable demo_pool" "length (bp_q demo_pool) = 2" "bp_piece_size demo_pool = 32"
  by (simp_all add: pool_usable_def demo_pool_def bp_new_def bp_owns_def)

theorem spill_agent_conserves_buffers_witness:
  "agent_wf demo_a3 \<and> mset (map pb_region (in_use demo_a3)) + mset (bp_q (ag_pool demo_a3)) = mset (bp_q demo_pool)"
  using spill_agent_conserves_buffers [OF demo_pool_usable(1) demo_reach] by (simp add: demo_run_def)


theorem spill_agent_keeps_record_order_witness:
  "partition_stream demo_run 0 = records_of demo_run 0 \<and> records_of demo_run 0 = [1, 2, 3, 7, 7, 7, 7, 7, 7, 4, 4, 4, 4, 4, 4, 4, 4]"
  using spill_agent_keeps_record_order [OF demo_pool_usable(1) _ demo_reach, of 0] by (simp add: records_of_def demo_run_def)

text \<open>A record of 20 bytes never fits into a buffer of 32 bytes with a header of 16.\<close>

definition demo_big :: SpillAgent where
  "demo_big = ok (append_or_spill (agent_new 1 2 demo_pool) 1 (replicate 10 1) (replicate 10 2))"

lemma demo_big_steps:
  "append_or_spill (agent_new 1 2 demo_pool) 1 (replicate 10 1) (replicate 10 2) = Inr demo_big"
  unfolding demo_big_def by (rule ok_Inr; code_simp)

lemma demo_big_fields: "length (ag_active demo_big) = 2" "length (waited (ag_waiting demo_big ! 1)) = 20"
  "bp_q (ag_pool demo_big) = [\<lparr>mr_base = 4096, mr_len = 32\<rparr>, \<lparr>mr_base = 4128, mr_len = 32\<rparr>]"
  by code_simp+

theorem fresh_buffer_overflow_witness: "resume demo_big 1 = Inl Out_of_bounds"
proof -
  have "agent_wf demo_big" using append_or_spill_keeps [OF agent_new_wf(1) [OF demo_pool_usable(1)] _ _ demo_big_steps]
    by (simp add: agent_new_def keeps_def)
  then show ?thesis using fresh_buffer_overflow [of demo_big 1, OF _ _ demo_big_fields(3)] by (simp add: demo_big_fields demo_big_fields(2) [simplified])
qed

end
