(* ===== verification/Spill_Records.thy ===== *)
theory Spill_Records
  imports Spill_Agent
begin

text \<open>
  What any number of spill workers do with the records of \<^verbatim>\<open>SpillAgent\<close>. Several workers may send the buffers of a
  partition in another order than they were filled, but every record is in one buffer as a whole:
  none is lost, duplicated or torn.
\<close>

section \<open>Buffers and the records in them\<close>

text \<open>The buffers that carry data: sent, taken by a worker, queued, and active in a partition.\<close>

definition data_buffers :: "arun \<Rightarrow> PartitionBuffer list" where
  "data_buffers s = (let a = ar_agent s in ar_sent s @ concat (ag_taken a) @ ag_spill_q a @ concat (map owned (slots a)))"

text \<open>The record a caller waits to append.\<close>

fun waiting_record :: "nat \<times> waiting \<Rightarrow> (u64 \<times> u8 list) list" where
  "waiting_record (pid, Wait_append key val) = [(of_nat pid, key @ val)]"
| "waiting_record (pid, w) = []"

definition waiting_records :: "SpillAgent \<Rightarrow> (u64 \<times> u8 list) multiset" where
  "waiting_records a = mset (concat (map waiting_record (zip [0..<length (ag_waiting a)] (ag_waiting a))))"

definition records_in :: "PartitionBuffer \<times> u8 list list \<Rightarrow> (u64 \<times> u8 list) multiset" where
  "records_in x = image_mset (Pair (partition_id (fst x))) (mset (snd x))"

text \<open>\<open>M\<close> tells which records are in which buffer.\<close>

definition records_split :: "arun \<Rightarrow> (PartitionBuffer \<times> u8 list list) multiset \<Rightarrow> bool" where
  "records_split s M \<longleftrightarrow> image_mset fst M = mset (data_buffers s) \<and> (\<forall>x \<in># M. payload (fst x) = concat (snd x))
    \<and> sum_mset (image_mset records_in M) + waiting_records (ar_agent s) = image_mset (\<lambda>r. (of_nat (fst r), snd r)) (mset (ar_records s))"

lemma mset_data_buffers:
  "mset (data_buffers s) = mset (ar_sent s) + mset (concat (ag_taken (ar_agent s))) + mset (ag_spill_q (ar_agent s)) + mset (concat (map owned (slots (ar_agent s))))"
  by (simp add: data_buffers_def Let_def ac_simps)

lemma waiting_records_update:
  assumes "pid < length (ag_waiting a)"
  shows "waiting_records (a\<lparr>ag_waiting := (ag_waiting a)[pid := w]\<rparr>) + mset (waiting_record (pid, ag_waiting a ! pid))
    = waiting_records a + mset (waiting_record (pid, w))"
proof -
  let ?f = "\<lambda>ws. map waiting_record (zip [0..<length (ag_waiting a)] ws)"
  have "?f ((ag_waiting a)[pid := w]) = (?f (ag_waiting a))[pid := waiting_record (pid, w)]"
    using assms zip_update [of "[0..<length (ag_waiting a)]" pid pid "ag_waiting a" w] list_update_id [of "[0..<length (ag_waiting a)]" pid]
    by (simp add: map_update)
  then show ?thesis using mset_concat_update [of pid "?f (ag_waiting a)" "waiting_record (pid, w)"] assms
    by (simp add: waiting_records_def del: mset_concat)
qed

lemma image_mset_list:
  assumes "image_mset f M = mset ys"
  shows "\<exists>xs. mset xs = M \<and> map f xs = ys"
  using assms
proof (induction ys arbitrary: M)
  case (Cons y ys)
  then have "y \<in># image_mset f M" by simp
  then obtain x where x: "x \<in># M" "f x = y" by auto
  then have "image_mset f (M - {#x#}) = mset ys" using Cons.prems by (simp add: image_mset_Diff)
  from Cons.IH [OF this] obtain xs where "mset xs = M - {#x#}" "map f xs = ys" by blast
  with x show ?case by (intro exI [of _ "x # xs"]) simp
qed simp

section \<open>Every step keeps the records\<close>

lemma records_split_frame:
  assumes "records_split s M" "mset (data_buffers s') = mset (data_buffers s)"
    and "waiting_records (ar_agent s') = waiting_records (ar_agent s) + R"
    and "image_mset (\<lambda>r. (of_nat (fst r), snd r)) (mset (ar_records s')) = image_mset (\<lambda>r. (of_nat (fst r), snd r)) (mset (ar_records s)) + R"
  shows "records_split s' M"
  using assms unfolding records_split_def by (simp add: add.assoc [symmetric])

lemma waiting_records_cong: "ag_waiting a = ag_waiting b \<Longrightarrow> waiting_records a = waiting_records b"
  by (simp add: waiting_records_def)

text \<open>A caller waits from now on: its record waits, and its active buffer, if it had one, is queued.\<close>

lemma submit_data_buffers:
  assumes "agent_wf a" "pid < length (ag_active a)" "ag_waiting a ! pid = Idle" "ag_active a ! pid = Some b" "w \<noteq> Idle" "ar_agent s = a"
  shows "mset (data_buffers (s\<lparr>ar_agent := (submit_spill_buffer a b)\<lparr>ag_waiting := (ag_waiting a)[pid := w]\<rparr>, ar_records := rs\<rparr>)) = mset (data_buffers s)"
proof -
  have "owned (w, Some b) = []" using assms(5) by (cases w) simp_all
  then show ?thesis using mset_owned_update [OF assms(1,2), of w "Some b"] assms list_update_id [of "ag_active a" pid]
    by (simp add: mset_data_buffers submit_spill_buffer_def slots_def del: mset_concat)
qed

lemma wait_data_buffers:
  assumes "agent_wf a" "pid < length (ag_active a)" "ag_active a ! pid = None" "ar_agent s = a"
  shows "mset (data_buffers (s\<lparr>ar_agent := a\<lparr>ag_waiting := (ag_waiting a)[pid := w]\<rparr>, ar_records := rs\<rparr>)) = mset (data_buffers s)"
  using mset_owned_update [OF assms(1,2), of w None] assms list_update_id [of "ag_active a" pid]
  by (simp add: mset_data_buffers slots_def del: mset_concat)

text \<open>A record is appended to a buffer.\<close>

lemma split_buffer:
  assumes "records_split s M" "b \<in># mset (data_buffers s)"
  obtains rs M' where "M = add_mset (b, rs) M'" "payload b = concat rs"
proof -
  from assms have "b \<in># image_mset fst M" by (simp add: records_split_def)
  then obtain rs where rs: "(b, rs) \<in># M" by auto
  with assms(1) have "payload b = concat rs" by (auto simp: records_split_def)
  with rs show ?thesis using that by (metis insert_DiffM)
qed

lemma records_split_swap:
  assumes M: "records_split s M" and b: "b \<in># mset (data_buffers s)" "add_mset b (mset (data_buffers s')) = add_mset b' (mset (data_buffers s))"
    and b': "payload b' = payload b @ r" "partition_id b' = partition_id b"
    and w: "waiting_records (ar_agent s') = waiting_records (ar_agent s)"
    and rs: "image_mset (\<lambda>r. (of_nat (fst r), snd r)) (mset (ar_records s')) = add_mset (partition_id b, r) (image_mset (\<lambda>r. (of_nat (fst r), snd r)) (mset (ar_records s)))"
  shows "\<exists>M'. records_split s' M'"
proof -
  obtain xs M' where M': "M = add_mset (b, xs) M'" "payload b = concat xs" using split_buffer [OF M b(1)] .
  have "mset (data_buffers s) = add_mset b (image_mset fst M')" using M M'(1) by (simp add: records_split_def)
  with b(2) have "mset (data_buffers s') = add_mset b' (image_mset fst M')" by simp
  then have "records_split s' (add_mset (b', xs @ [r]) M')"
    using M M' b' w rs by (auto simp: records_split_def records_in_def)
  then show ?thesis by blast
qed

lemma append_split:
  assumes wf: "agent_wf (ar_agent s)" and M: "records_split s M"
    and pid: "pid < length (ag_active (ar_agent s))" "ag_waiting (ar_agent s) ! pid = Idle"
    and ap: "append_or_spill (ar_agent s) pid key val = Inr a"
  shows "\<exists>M. records_split (s\<lparr>ar_agent := a, ar_records := ar_records s @ [(pid, key @ val)]\<rparr>) M"
proof -
  let ?a = "ar_agent s"
  have l: "pid < length (ag_waiting ?a)" using wf pid by (simp add: agent_wf_def)
  have w: "waiting_records (?a\<lparr>ag_waiting := (ag_waiting ?a)[pid := Wait_append key val]\<rparr>) = waiting_records ?a + {#(of_nat pid, key @ val)#}"
    using waiting_records_update [OF l, of "Wait_append key val"] pid(2) by simp
  consider "ag_active ?a ! pid = None" "a = ?a\<lparr>ag_waiting := (ag_waiting ?a)[pid := Wait_append key val]\<rparr>"
    | b where "ag_active ?a ! pid = Some b" "a = (submit_spill_buffer ?a b)\<lparr>ag_waiting := (ag_waiting ?a)[pid := Wait_append key val]\<rparr>"
    | b b' where "ag_active ?a ! pid = Some b" "append_record b key val = Inr b'" "a = ?a\<lparr>ag_active := (ag_active ?a)[pid := Some b']\<rparr>"
    using ap pid by (cases "ag_active ?a ! pid") (auto simp: append_or_spill_def split: if_splits)
  then show ?thesis
  proof cases
    case 1
    show ?thesis unfolding 1(2)
      using records_split_frame [OF M wait_data_buffers [OF wf pid(1) 1(1) HOL.refl, where w = "Wait_append key val" and rs = "ar_records s @ [(pid, key @ val)]"], of "{#(of_nat pid, key @ val)#}"] w
      by (intro exI [of _ M]) simp
  next
    case (2 b)
    then have "waiting_records a = waiting_records ?a + {#(of_nat pid, key @ val)#}"
      unfolding w [symmetric] by (intro waiting_records_cong) (simp add: submit_spill_buffer_def)
    with records_split_frame [OF M submit_data_buffers [OF wf pid 2(1) _ HOL.refl, where w = "Wait_append key val" and rs = "ar_records s @ [(pid, key @ val)]"], of "{#(of_nat pid, key @ val)#}"] 2(2)
    show ?thesis by (intro exI [of _ M]) simp
  next
    case (3 b b')
    have "(Idle, Some b) \<in> set (slots ?a)"
      using pid 3(1) l by (force simp: slots_def set_zip)
    then have "b \<in> set (concat (map owned (slots ?a)))" by (simp del: set_concat add: set_concat) (rule bexI, simp_all)
    then have b: "b \<in># mset (data_buffers s)" by (simp add: data_buffers_def Let_def)
    have o: "pb_wf b" "partition_id b = of_nat pid" using owned_in_use [OF wf pid(1), of b] pid 3(1) by simp_all
    note b' = append_record_ok [OF o(1) 3(2)]
    have "add_mset b (mset (data_buffers (s\<lparr>ar_agent := a, ar_records := rr\<rparr>))) = add_mset b' (mset (data_buffers s))" for rr
      using mset_owned_update [OF wf pid(1), of Idle "Some b'"] pid 3 list_update_id [of "ag_waiting ?a" pid]
      by (simp add: mset_data_buffers slots_def del: mset_concat)
    moreover have "waiting_records a = waiting_records ?a" using 3 by (intro waiting_records_cong) simp
    ultimately show ?thesis using records_split_swap [OF M b _ b'(2,3)] o(2) by simp
  qed
qed

lemma force_split:
  assumes wf: "agent_wf (ar_agent s)" and M: "records_split s M"
    and pid: "pid < length (ag_active (ar_agent s))" "ag_waiting (ar_agent s) ! pid = Idle" and fs: "force_spill (ar_agent s) pid = Inr a"
  shows "records_split (s\<lparr>ar_agent := a\<rparr>) M"
proof (cases "ag_active (ar_agent s) ! pid")
  case None
  then have "ar_agent s = a" using fs pid by (simp add: force_spill_def)
  then have "s\<lparr>ar_agent := a\<rparr> = s" by auto
  then show ?thesis using M by simp
next
  case (Some b)
  let ?a = "ar_agent s"
  have a: "a = (submit_spill_buffer ?a b)\<lparr>ag_waiting := (ag_waiting ?a)[pid := Wait_force]\<rparr>" using fs pid Some by (simp add: force_spill_def)
  have "waiting_records (?a\<lparr>ag_waiting := (ag_waiting ?a)[pid := Wait_force]\<rparr>) = waiting_records ?a"
    using waiting_records_update [of pid ?a Wait_force] wf pid by (simp add: agent_wf_def)
  moreover have "waiting_records a = waiting_records (?a\<lparr>ag_waiting := (ag_waiting ?a)[pid := Wait_force]\<rparr>)"
    by (rule waiting_records_cong) (simp add: a submit_spill_buffer_def)
  ultimately show ?thesis
    using records_split_frame [OF M submit_data_buffers [OF wf pid Some _ HOL.refl, where w = Wait_force and rs = "ar_records s"], of "{#}"] a by simp
qed

text \<open>A caller gets its buffer: the record that waited is the first one in it.\<close>

lemma waited_record: "concat (map snd (waiting_record (pid, w))) = waited w" "\<forall>x \<in> set (waiting_record (pid, w)). fst x = of_nat pid"
  by (cases w; simp add: waited_def)+

lemma records_in_waited:
  "partition_id b = of_nat pid \<Longrightarrow> records_in (b, map snd (waiting_record (pid, w))) = mset (waiting_record (pid, w))"
  by (cases w) (simp_all add: records_in_def)

lemma resume_split:
  assumes wf: "agent_wf (ar_agent s)" and M: "records_split s M"
    and pid: "pid < length (ag_active (ar_agent s))" "ag_waiting (ar_agent s) ! pid \<noteq> Idle" and re: "resume (ar_agent s) pid = Inr a"
  shows "\<exists>M. records_split (s\<lparr>ar_agent := a\<rparr>) M"
  using wf re
proof (cases rule: resume_cases)
  case asleep
  then show ?thesis using M by auto
next
  case (awake r q b)
  let ?a = "ar_agent s" and ?w = "ag_waiting (ar_agent s) ! pid"
  have l: "pid < length (ag_waiting ?a)" using wf pid by (simp add: agent_wf_def)
  have "owned (?w, ag_active ?a ! pid) = []" using pid(2) by (cases ?w) simp_all
  then have d: "mset (data_buffers (s\<lparr>ar_agent := a\<rparr>)) = add_mset b (mset (data_buffers s))"
    using mset_owned_update [OF wf pid(1), of Idle "Some b"] by (simp add: awake(6) mset_data_buffers slots_def del: mset_concat)
  have "waiting_records a = waiting_records (?a\<lparr>ag_waiting := (ag_waiting ?a)[pid := Idle]\<rparr>)"
    by (rule waiting_records_cong) (simp add: awake(6))
  then have w: "waiting_records ?a = waiting_records a + mset (waiting_record (pid, ?w))"
    using waiting_records_update [OF l, of Idle] by simp
  have "records_split (s\<lparr>ar_agent := a\<rparr>) (add_mset (b, map snd (waiting_record (pid, ?w))) M)"
    using M d awake(3) records_in_waited [OF awake(4), of ?w] waited_record(1) [of pid ?w]
    by (auto simp: records_split_def w ac_simps)
  then show ?thesis by blast
qed

text \<open>The workers only move buffers.\<close>

lemma worker_split:
  assumes wf: "agent_wf (ar_agent s)" and M: "records_split s M"
  shows "i < length (ag_taken (ar_agent s)) \<Longrightarrow> ag_taken (ar_agent s) ! i = [] \<Longrightarrow> records_split (s\<lparr>ar_agent := take_queue (ar_agent s) i\<rparr>) M"
    "i < length (ag_taken (ar_agent s)) \<Longrightarrow> start_transfers (ar_agent s) i = (bs, a) \<Longrightarrow> records_split (s\<lparr>ar_agent := a, ar_sent := ar_sent s @ bs\<rparr>) M"
    "complete_transfers bulk (ar_agent s) i = Inr a \<Longrightarrow> records_split (s\<lparr>ar_agent := a\<rparr>) M"
proof -
  show "records_split (s\<lparr>ar_agent := take_queue (ar_agent s) i\<rparr>) M" if "i < length (ag_taken (ar_agent s))" "ag_taken (ar_agent s) ! i = []"
    using mset_concat_update [OF that(1), of "ag_spill_q (ar_agent s)"] that(2)
    by (intro records_split_frame [OF M, of _ "{#}"])
      (simp_all add: mset_data_buffers take_queue_def slots_def waiting_records_def del: mset_concat)
  show "records_split (s\<lparr>ar_agent := a, ar_sent := ar_sent s @ bs\<rparr>) M"
    if "i < length (ag_taken (ar_agent s))" "start_transfers (ar_agent s) i = (bs, a)"
    using mset_concat_update [OF that(1), of "[]"] that(2)
    by (intro records_split_frame [OF M, of _ "{#}"])
      (auto simp: mset_data_buffers start_transfers_def slots_def waiting_records_def ac_simps simp del: mset_concat)
  show "records_split (s\<lparr>ar_agent := a\<rparr>) M" if "complete_transfers bulk (ar_agent s) i = Inr a"
    using that by (intro records_split_frame [OF M, of _ "{#}"])
      (auto simp: mset_data_buffers complete_transfers_def slots_def waiting_records_def elim!: complete_each_ok)
qed

lemma agent_step_split:
  assumes "agent_step bulk s s'" "agent_wf (ar_agent s)" "\<exists>M. records_split s M"
  shows "\<exists>M. records_split s' M"
  using assms
proof (induction rule: agent_step.induct)
  case (append pid s key val a)
  then show ?case using append_split by blast
next
  case (resume pid s a)
  then show ?case using resume_split by blast
next
  case (stop s)
  then obtain M where "records_split s M" by blast
  then have "records_split (s\<lparr>ar_agent := agent_stop (ar_agent s)\<rparr>) M"
    by (rule records_split_frame [of _ _ _ "{#}"]) (simp_all add: mset_data_buffers agent_stop_def slots_def waiting_records_def)
  then show ?case by blast
qed (blast intro: force_split worker_split)+

lemma agent_reach_split:
  assumes "agent_reach bulk s s'" "agent_wf (ar_agent s)" "\<exists>M. records_split s M"
  shows "\<exists>M. records_split s' M"
  using assms
proof (induction rule: agent_reach.induct)
  case (step s s' s'')
  then show ?case using agent_step_split [OF step.hyps(2)] agent_reach_keeps [OF step.hyps(1)] by (simp add: keeps_def)
qed

section \<open>The records of one partition\<close>

text \<open>The data of a partition that was not sent yet, and the records of the buffers sent for it.\<close>

definition unsent :: "arun \<Rightarrow> nat \<Rightarrow> u8 list" where
  "unsent s pid = (let a = ar_agent s in
     concat (map payload (filter (\<lambda>b. partition_id b = of_nat pid) (concat (ag_taken a) @ ag_spill_q a)))
     @ concat (map payload (owned (ag_waiting a ! pid, ag_active a ! pid))) @ waited (ag_waiting a ! pid))"

definition records_sent :: "(PartitionBuffer \<times> u8 list list) list \<Rightarrow> nat \<Rightarrow> u8 list list" where
  "records_sent xs pid = concat (map snd (filter (\<lambda>x. partition_id (fst x) = of_nat pid) xs))"

definition records_given :: "arun \<Rightarrow> nat \<Rightarrow> u8 list list" where
  "records_given s pid = map snd (filter (\<lambda>r. fst r = pid) (ar_records s))"

text \<open>The records of partition \<open>pid\<close> among records marked with their partitions.\<close>

definition only :: "nat \<Rightarrow> (u64 \<times> u8 list) multiset \<Rightarrow> u8 list multiset" where
  "only pid R = image_mset snd (filter_mset (\<lambda>x. fst x = of_nat pid) R)"

lemma only_union [simp]: "only pid (R + S) = only pid R + only pid S"
  by (simp add: only_def)

lemma only_records_in: "only pid (records_in x) = (if partition_id (fst x) = of_nat pid then mset (snd x) else {#})"
proof -
  have "only pid (image_mset (Pair p) R) = (if p = of_nat pid then R else {#})" for p R
    by (cases "p = of_nat pid"; induction R; simp add: only_def)
  then show ?thesis by (simp add: records_in_def)
qed

lemma only_records_sent: "only pid (sum_mset (image_mset records_in (mset xs))) = mset (records_sent xs pid)"
  by (induction xs) (simp_all add: only_records_in records_sent_def, simp add: only_def)

lemma only_records_given:
  assumes "\<forall>r \<in> set rs. fst r < n" "n \<le> 2 ^ 64" "pid < n"
  shows "only pid (image_mset (\<lambda>r. (of_nat (fst r), snd r)) (mset rs)) = mset (map snd (filter (\<lambda>r. fst r = pid) rs))"
  using assms(1) by (induction rs) (auto simp: only_def of_nat_u64_eq [OF _ assms(3,2)])

lemma records_in_range:
  assumes "agent_reach bulk s s'" "agent_wf (ar_agent s)" "\<forall>r \<in> set (ar_records s). fst r < length (ag_active (ar_agent s))"
  shows "\<forall>r \<in> set (ar_records s'). fst r < length (ag_active (ar_agent s'))"
  using assms
proof (induction rule: agent_reach.induct)
  case (step s s' s'')
  have wf: "agent_wf (ar_agent s')" using agent_reach_keeps step by (auto simp: keeps_def)
  have l: "length (ag_active (ar_agent s'')) = length (ag_active (ar_agent s'))"
    using agent_step_keeps [OF step.hyps(2) wf] by (simp add: keeps_def)
  from step.hyps(2) step.IH [OF step.prems] show ?case unfolding l
    by (induction rule: agent_step.induct) auto
qed

text \<open>A buffer not yet sent of a drained partition is empty, and so is the record waiting for it.\<close>

lemma unsent_empty:
  assumes wf: "agent_wf a" and n: "length (ag_active a) \<le> 2 ^ 64" and pid: "pid < length (ag_active a)" and e: "unsent s pid = []" "ar_agent s = a"
  shows "b \<in> set (concat (ag_taken a) @ ag_spill_q a @ concat (map owned (slots a))) \<Longrightarrow> partition_id b = of_nat pid \<Longrightarrow> payload b = []"
    and "r \<in># only pid (waiting_records a) \<Longrightarrow> r = []"
proof -
  have l: "length (ag_waiting a) = length (ag_active a)" using wf by (simp add: agent_wf_def)
  show "payload b = []" if b: "b \<in> set (concat (ag_taken a) @ ag_spill_q a @ concat (map owned (slots a)))" "partition_id b = of_nat pid"
  proof (cases "b \<in> set (concat (ag_taken a) @ ag_spill_q a)")
    case True
    then show ?thesis using e b(2) by (auto simp: unsent_def Let_def)
  next
    case False
    with b(1) obtain x where "x \<in> set (slots a)" "b \<in> set (owned x)" by auto
    then obtain p where p: "p < length (ag_active a)" "b \<in> set (owned (ag_waiting a ! p, ag_active a ! p))"
      using l by (auto simp: slots_def set_zip)
    have "(of_nat p :: u64) = of_nat pid" using owned_in_use(3) [OF wf p] b(2) by (rule subst)
    then have "p = pid" using of_nat_u64_eq [OF p(1) pid n] by blast
    then show ?thesis using e p(2) by (auto simp: unsent_def Let_def)
  qed
  show "r = []" if "r \<in># only pid (waiting_records a)"
  proof -
    from that have "(of_nat pid, r) \<in># waiting_records a" by (auto simp: only_def)
    then obtain p where p: "p < length (ag_active a)" "(of_nat pid, r) \<in> set (waiting_record (p, ag_waiting a ! p))"
      using l by (auto simp: waiting_records_def set_zip)
    then have "(of_nat p :: u64) = of_nat pid" and r: "r = waited (ag_waiting a ! p)" by (cases "ag_waiting a ! p"; simp)+
    then have "p = pid" using of_nat_u64_eq [OF p(1) pid n] by blast
    then show ?thesis using e r by (simp add: unsent_def Let_def)
  qed
qed

lemma new_split: "records_split (run_new n_worker n pool) {#}"
proof -
  have "concat (map waiting_record (zip [0..<n] (replicate n Idle))) = []" by (auto simp: set_zip)
  then show ?thesis
    by (simp add: records_split_def run_new_def data_buffers_def waiting_records_def agent_new_def slots_def owned_none del: concat_eq_Nil_conv)
qed

lemma records_split_total:
  "records_split s M \<Longrightarrow> sum_mset (image_mset records_in M) + waiting_records (ar_agent s) = image_mset (\<lambda>r. (of_nat (fst r), snd r)) (mset (ar_records s))"
  by (simp add: records_split_def)

lemma split_sent:
  assumes M: "records_split s M"
  obtains ys zs where "ar_sent s = map fst ys" "map fst zs = concat (ag_taken (ar_agent s)) @ ag_spill_q (ar_agent s) @ concat (map owned (slots (ar_agent s)))"
    "\<forall>x \<in> set (ys @ zs). payload (fst x) = concat (snd x)"
    "\<forall>pid. mset (records_sent ys pid) + mset (records_sent zs pid) + only pid (waiting_records (ar_agent s))
       = only pid (image_mset (\<lambda>r. (of_nat (fst r), snd r)) (mset (ar_records s)))"
proof -
  from M obtain xs where xs: "mset xs = M" "map fst xs = data_buffers s" using image_mset_list by (metis records_split_def)
  let ?ys = "take (length (ar_sent s)) xs" and ?zs = "drop (length (ar_sent s)) xs"
  have 1: "ar_sent s = map fst ?ys" "map fst ?zs = concat (ag_taken (ar_agent s)) @ ag_spill_q (ar_agent s) @ concat (map owned (slots (ar_agent s)))"
    using xs(2) by (simp_all add: take_map [symmetric] drop_map [symmetric] data_buffers_def Let_def)
  have 2: "\<forall>x \<in> set (?ys @ ?zs). payload (fst x) = concat (snd x)" using M xs(1) by (auto simp: records_split_def)
  have "records_sent xs pid = records_sent ?ys pid @ records_sent ?zs pid" for pid
    by (simp add: records_sent_def flip: map_append filter_append concat_append)
  then have "mset (records_sent ?ys pid) + mset (records_sent ?zs pid) + only pid (waiting_records (ar_agent s))
    = only pid (image_mset (\<lambda>r. (of_nat (fst r), snd r)) (mset (ar_records s)))" for pid
    using arg_cong [of _ _ "only pid", OF records_split_total [OF M]] only_records_sent [of pid xs] xs(1) by simp
  then show ?thesis using that [OF 1 2] by blast
qed

lemma agent_runs_split:
  assumes pool: "pool_usable pool" and n: "n \<le> 2 ^ 64" and reach: "agent_reach bulk (run_new n_worker n pool) s"
  shows "\<exists>rss. list_all2 (\<lambda>b rs. payload b = concat rs) (ar_sent s) rss
    \<and> (\<forall>pid < n. mset (records_sent (zip (ar_sent s) rss) pid) \<subseteq># mset (records_given s pid)
        \<and> (unsent s pid = [] \<longrightarrow> filter_mset (\<lambda>r. r \<noteq> []) (mset (records_sent (zip (ar_sent s) rss) pid))
             = filter_mset (\<lambda>r. r \<noteq> []) (mset (records_given s pid))))"
proof -
  let ?a = "ar_agent s"
  have wf0: "agent_wf (ar_agent (run_new n_worker n pool))" using agent_new_wf(1) [OF pool] by (simp add: run_new_def)
  have k: "agent_wf ?a" "length (ag_active ?a) = n"
    using agent_reach_keeps [OF reach wf0] by (simp_all add: keeps_def run_new_def agent_new_def)
  obtain M where M: "records_split s M" using agent_reach_split [OF reach wf0] new_split by blast
  obtain ys zs where yz: "ar_sent s = map fst ys" "map fst zs = concat (ag_taken ?a) @ ag_spill_q ?a @ concat (map owned (slots ?a))"
    "\<forall>x \<in> set (ys @ zs). payload (fst x) = concat (snd x)"
    "\<forall>pid. mset (records_sent ys pid) + mset (records_sent zs pid) + only pid (waiting_records ?a)
       = only pid (image_mset (\<lambda>r. (of_nat (fst r), snd r)) (mset (ar_records s)))" by (rule split_sent [OF M])
  have "\<forall>r \<in> set (ar_records s). fst r < n" using records_in_range [OF reach wf0] k(2) by (simp add: run_new_def)
  then have g: "mset (records_sent ys pid) + (mset (records_sent zs pid) + only pid (waiting_records ?a)) = mset (records_given s pid)" if "pid < n" for pid
    using yz(4) [rule_format, of pid] only_records_given [OF _ n that, of "ar_records s"] by (simp add: records_given_def add.assoc)
  have z: "filter_mset (\<lambda>r. r \<noteq> []) (mset (records_sent zs pid) + only pid (waiting_records ?a)) = {#}"
    if "pid < n" "unsent s pid = []" for pid
  proof -
    note u = unsent_empty [OF k(1), unfolded k(2), OF n that HOL.refl]
    have "r = []" if r: "r \<in> set (records_sent zs pid)" for r
    proof -
      from r obtain x where x: "x \<in> set zs" "partition_id (fst x) = of_nat pid" "r \<in> set (snd x)" by (auto simp: records_sent_def)
      then have "fst x \<in> set (map fst zs)" by simp
      then have "payload (fst x) = []" using u(1) x(2) unfolding yz(2) by blast
      then show ?thesis using yz(3) x(1,3) by auto
    qed
    then show ?thesis using u(2) by (subst set_mset_eq_empty_iff [symmetric]) auto
  qed
  have zip: "zip (ar_sent s) (map snd ys) = ys" by (simp add: yz(1) zip_map_fst_snd)
  show ?thesis
  proof (intro exI [of _ "map snd ys"] conjI allI impI; (unfold zip)?)
    show "list_all2 (\<lambda>b rs. payload b = concat rs) (ar_sent s) (map snd ys)" using yz(3) by (auto simp: yz(1) list_all2_conv_all_nth)
    show "mset (records_sent ys pid) \<subseteq># mset (records_given s pid)" if "pid < n" for pid
      using g [OF that] by (metis mset_subset_eq_add_left)
    show "filter_mset (\<lambda>r. r \<noteq> []) (mset (records_sent ys pid)) = filter_mset (\<lambda>r. r \<noteq> []) (mset (records_given s pid))"
      if "pid < n" "unsent s pid = []" for pid using z [OF that] by (simp flip: g [OF that(1)])
  qed
qed

text \<open>
  C9. Whatever the number of spill workers and the interleaving, no record is lost, duplicated or
  torn: each buffer sent holds the concatenation of some records, the records in the buffers sent
  for a partition are among those appended to it with their multiplicities, and once the partition
  has nothing unsent, they are all of them (empty records, which leave no trace in a buffer, apart).
\<close>

theorem spill_agent_loses_no_record:
  assumes pool: "pool_usable pool" and n: "max_n_partition \<le> 2 ^ 64"
    and reach: "agent_reach bulk (run_new n_worker max_n_partition pool) s"
  shows "\<exists>rss. list_all2 (\<lambda>b rs. payload b = concat rs) (ar_sent s) rss
    \<and> (\<forall>pid < max_n_partition. mset (records_sent (zip (ar_sent s) rss) pid) \<subseteq># mset (records_given s pid)
        \<and> (unsent s pid = [] \<longrightarrow> filter_mset (\<lambda>r. r \<noteq> []) (mset (records_sent (zip (ar_sent s) rss) pid))
             = filter_mset (\<lambda>r. r \<noteq> []) (mset (records_given s pid))))"
  using agent_runs_split [OF assms] .

section \<open>Two workers\<close>

text \<open>
  The records of the run of \<open>demo_run\<close> with two workers: each takes one buffer of partition 0, and
  the one that took the later buffer sends first.
\<close>

definition demo_w1 :: SpillAgent where "demo_w1 = ok (append_or_spill (agent_new 2 2 demo_pool) 0 [1, 2] [3])"
definition demo_w2 :: SpillAgent where "demo_w2 = ok (resume demo_w1 0)"
definition demo_w3 :: SpillAgent where "demo_w3 = ok (append_or_spill demo_w2 0 [7, 7, 7, 7, 7, 7] [4, 4, 4, 4, 4, 4, 4, 4])"
definition demo_w4 :: SpillAgent where "demo_w4 = ok (resume (take_queue demo_w3 0) 0)"
definition demo_w5 :: SpillAgent where "demo_w5 = take_queue (ok (force_spill demo_w4 0)) 1"

lemma demo_w_steps:
  "append_or_spill (agent_new 2 2 demo_pool) 0 [1, 2] [3] = Inr demo_w1" "resume demo_w1 0 = Inr demo_w2"
  "append_or_spill demo_w2 0 [7, 7, 7, 7, 7, 7] [4, 4, 4, 4, 4, 4, 4, 4] = Inr demo_w3"
  "resume (take_queue demo_w3 0) 0 = Inr demo_w4" "force_spill demo_w4 0 = Inr (ok (force_spill demo_w4 0))"
  unfolding demo_w1_def demo_w2_def demo_w3_def demo_w4_def by (rule ok_Inr; code_simp)+

lemma demo_w_enabled:
  "ag_waiting demo_w1 ! 0 \<noteq> Idle" "ag_waiting demo_w2 ! 0 = Idle" "ag_waiting (take_queue demo_w3 0) ! 0 \<noteq> Idle" "ag_waiting demo_w4 ! 0 = Idle"
  "0 < length (ag_active demo_w1)" "0 < length (ag_active demo_w2)" "0 < length (ag_active (take_queue demo_w3 0))" "0 < length (ag_active demo_w4)"
  "0 < length (ag_taken demo_w3)" "ag_taken demo_w3 ! 0 = []" "ag_inflight demo_w3 ! 0 = []" "ag_spill_q demo_w3 \<noteq> []"
  "1 < length (ag_taken (ok (force_spill demo_w4 0)))" "ag_taken (ok (force_spill demo_w4 0)) ! 1 = []" "ag_inflight (ok (force_spill demo_w4 0)) ! 1 = []"
  "ag_spill_q (ok (force_spill demo_w4 0)) \<noteq> []" "1 < length (ag_taken demo_w5)" "ag_taken demo_w5 ! 1 \<noteq> []"
  "0 < length (ag_taken (snd (start_transfers demo_w5 1)))" "ag_taken (snd (start_transfers demo_w5 1)) ! 0 \<noteq> []"
  by code_simp+

definition demo_swapped :: arun where
  "demo_swapped = (let (bs1, a) = start_transfers demo_w5 1; (bs0, a) = start_transfers a 0
    in \<lparr>ar_agent = a, ar_records = [(0, [1, 2, 3]), (0, [7, 7, 7, 7, 7, 7, 4, 4, 4, 4, 4, 4, 4, 4])], ar_sent = bs1 @ bs0\<rparr>)"

lemma demo_swapped_reach: "agent_reach bulk (run_new 2 2 demo_pool) demo_swapped"
proof -
  let ?rs1 = "[(0::nat, [1, 2, 3 :: u8])]" and ?rs2 = "[(0::nat, [1, 2, 3 :: u8]), (0, [7, 7, 7, 7, 7, 7, 4, 4, 4, 4, 4, 4, 4, 4])]"
  let ?s = "\<lambda>a rs bs. \<lparr>ar_agent = a, ar_records = rs, ar_sent = bs\<rparr>" and ?a6 = "snd (start_transfers demo_w5 1)"
  let ?bs = "fst (start_transfers demo_w5 1)"
  have 1: "agent_step bulk (run_new 2 2 demo_pool) (?s demo_w1 ?rs1 [])"
    using agent_step.append [of 0 "run_new 2 2 demo_pool" "[1, 2]" "[3]" demo_w1 bulk] demo_w_steps(1)
    by (simp add: run_new_def) (simp add: agent_new_def)
  have 2: "agent_step bulk (?s demo_w1 ?rs1 []) (?s demo_w2 ?rs1 [])"
    using agent_step.resume [of 0 "?s demo_w1 ?rs1 []" demo_w2 bulk] demo_w_steps(2) demo_w_enabled by simp
  have 3: "agent_step bulk (?s demo_w2 ?rs1 []) (?s demo_w3 ?rs2 [])"
    using agent_step.append [of 0 "?s demo_w2 ?rs1 []" "[7, 7, 7, 7, 7, 7]" "[4, 4, 4, 4, 4, 4, 4, 4]" demo_w3 bulk] demo_w_steps(3) demo_w_enabled by simp
  have 4: "agent_step bulk (?s demo_w3 ?rs2 []) (?s (take_queue demo_w3 0) ?rs2 [])"
    using agent_step.take [of 0 "?s demo_w3 ?rs2 []" bulk] demo_w_enabled by simp
  have 5: "agent_step bulk (?s (take_queue demo_w3 0) ?rs2 []) (?s demo_w4 ?rs2 [])"
    using agent_step.resume [of 0 "?s (take_queue demo_w3 0) ?rs2 []" demo_w4 bulk] demo_w_steps(4) demo_w_enabled by simp
  have 6: "agent_step bulk (?s demo_w4 ?rs2 []) (?s (ok (force_spill demo_w4 0)) ?rs2 [])"
    using agent_step.force [of 0 "?s demo_w4 ?rs2 []" "ok (force_spill demo_w4 0)" bulk] demo_w_steps(5) demo_w_enabled by simp
  have 7: "agent_step bulk (?s (ok (force_spill demo_w4 0)) ?rs2 []) (?s demo_w5 ?rs2 [])"
    using agent_step.take [of 1 "?s (ok (force_spill demo_w4 0)) ?rs2 []" bulk] demo_w_enabled by (simp add: demo_w5_def)
  have 8: "agent_step bulk (?s demo_w5 ?rs2 []) (?s ?a6 ?rs2 ?bs)"
    using agent_step.start [of 1 "?s demo_w5 ?rs2 []" ?bs ?a6 bulk] demo_w_enabled by simp
  have 9: "agent_step bulk (?s ?a6 ?rs2 ?bs) demo_swapped"
    using agent_step.start [of 0 "?s ?a6 ?rs2 ?bs" "fst (start_transfers ?a6 0)" "snd (start_transfers ?a6 0)" bulk] demo_w_enabled
    by (simp add: demo_swapped_def split_beta Let_def)
  note r = agent_reach_one [OF 1]
  note r = agent_reach.step [OF agent_reach.step [OF agent_reach.step [OF agent_reach.step [OF r 2] 3] 4] 5]
  show ?thesis by (rule agent_reach.step [OF agent_reach.step [OF agent_reach.step [OF agent_reach.step [OF r 6] 7] 8] 9])
qed

lemma demo_swapped_fields:
  "unsent demo_swapped 0 = []" "map payload (ar_sent demo_swapped) = [[7, 7, 7, 7, 7, 7, 4, 4, 4, 4, 4, 4, 4, 4], [1, 2, 3]]"
  "records_given demo_swapped 0 = [[1, 2, 3], [7, 7, 7, 7, 7, 7, 4, 4, 4, 4, 4, 4, 4, 4]]"
  by code_simp+

text \<open>With two workers the order of the records is lost.\<close>

lemma two_workers_reorder: "partition_stream demo_swapped 0 \<noteq> records_of demo_swapped 0"
  by code_simp

theorem spill_agent_loses_no_record_witness:
  "\<exists>rss. list_all2 (\<lambda>b rs. payload b = concat rs) (ar_sent demo_swapped) rss
    \<and> filter_mset (\<lambda>r. r \<noteq> []) (mset (records_sent (zip (ar_sent demo_swapped) rss) 0)) = {#[1, 2, 3], [7, 7, 7, 7, 7, 7, 4, 4, 4, 4, 4, 4, 4, 4]#}"
  using spill_agent_loses_no_record [OF demo_pool_usable(1) _ demo_swapped_reach] demo_swapped_fields(1,3) by fastforce

end
