(* ===== verification/File_IO.thy ===== *)
theory File_IO
  imports Partition_Buffer
begin

text \<open>
  What the spill workers of \<^verbatim>\<open>lib/native/spill_worker.hxx\<close> share: the partition files with their next
  offsets and the asynchronous writes they submit. The kernel side of io_uring is the environment:
  it may complete any submitted write at any time, after storing the part of the data its result
  tells (\<^verbatim>\<open>pwrite\<close>).
\<close>

section \<open>Files and rings\<close>

record PartitionFile =
  pf_fd :: int
  pf_partition_id :: nat
  pf_offset :: u64

record 't sqe =
  sq_fd :: int
  sq_data :: "u8 list"
  sq_off :: u64
  sq_task :: 't

record 't spill_io =
  io_files :: "PartitionFile list"
  io_ring :: "'t sqe list"
  io_disk :: "int \<Rightarrow> u8 list"

definition pwrite :: "u8 list \<Rightarrow> nat \<Rightarrow> u8 list \<Rightarrow> u8 list" where
  "pwrite f off d = (if d = [] then f else take off (f @ replicate (off - length f) 0) @ d @ drop (off + length d) f)"

text \<open>
  The critical section of the three \<^verbatim>\<open>submit_direct_spill\<close>: a write of \<open>sz\<close> bytes behind the
  header of a buffer, at the file's offset, which moves on.
\<close>

definition issue_write :: "'t spill_io \<Rightarrow> u64 \<Rightarrow> u8 list \<Rightarrow> u64 \<Rightarrow> 't \<Rightarrow> 't spill_io result" where
  "issue_write io pid bytes sz task =
    (if length (io_files io) \<le> unat pid \<or> length bytes < sizeof_PartitionDataHeader + unat sz then Inl Out_of_bounds
     else let f = io_files io ! unat pid in
       Inr (io\<lparr>io_ring := io_ring io @ [\<lparr>sq_fd = pf_fd f, sq_data = chunk bytes sizeof_PartitionDataHeader (unat sz), sq_off = pf_offset f, sq_task = task\<rparr>],
               io_files := (io_files io)[unat pid := f\<lparr>pf_offset := pf_offset f + sz\<rparr>]\<rparr>))"

text \<open>The environment completes the \<open>i\<close>-th submitted write with result \<open>res\<close>.\<close>

definition ring_complete :: "'t spill_io \<Rightarrow> nat \<Rightarrow> int \<Rightarrow> 't \<times> 't spill_io" where
  "ring_complete io i res =
    (let r = io_ring io ! i in
     (sq_task r, io\<lparr>io_ring := take i (io_ring io) @ drop (Suc i) (io_ring io),
        io_disk := (io_disk io)(sq_fd r := pwrite (io_disk io (sq_fd r)) (unat (sq_off r)) (take (nat res) (sq_data r)))\<rparr>))"

section \<open>Contents of the files\<close>

text \<open>The log of the writes that were submitted, by partition, and what the file should hold.\<close>

definition file_data :: "u8 list \<Rightarrow> (nat \<times> u8 list) list \<Rightarrow> nat \<Rightarrow> u8 list" where
  "file_data hdr log p = hdr @ concat (map snd (filter (\<lambda>r. fst r = p) log))"

definition covered :: "'t sqe list \<Rightarrow> int \<Rightarrow> nat \<Rightarrow> bool" where
  "covered ring fd i \<longleftrightarrow> (\<exists>r \<in> set ring. sq_fd r = fd \<and> unat (sq_off r) \<le> i \<and> i < unat (sq_off r) + length (sq_data r))"

definition file_inv :: "u8 list \<Rightarrow> 't sqe list \<Rightarrow> int \<Rightarrow> u8 list \<Rightarrow> bool" where
  "file_inv f ring fd whole \<longleftrightarrow> length f \<le> length whole
     \<and> (\<forall>r \<in> set ring. sq_fd r = fd \<longrightarrow> unat (sq_off r) + length (sq_data r) \<le> length whole
          \<and> chunk whole (unat (sq_off r)) (length (sq_data r)) = sq_data r)
     \<and> (\<forall>i < length whole. \<not> covered ring fd i \<longrightarrow> i < length f \<and> f ! i = whole ! i)"

definition io_inv :: "u8 list \<Rightarrow> 't spill_io \<Rightarrow> (nat \<times> u8 list) list \<Rightarrow> bool" where
  "io_inv hdr io log \<longleftrightarrow> distinct (map pf_fd (io_files io))
     \<and> (\<forall>p < length (io_files io). let f = io_files io ! p; whole = file_data hdr log p in
          pf_offset f = of_nat (length whole) \<and> file_inv (io_disk io (pf_fd f)) (io_ring io) (pf_fd f) whole)"

lemma file_data_snoc: "file_data hdr (log @ [(q, d)]) p = file_data hdr log p @ (if q = p then d else [])"
  by (simp add: file_data_def)

lemma length_pwrite: "length (pwrite f off d) = (if d = [] then length f else max (length f) (off + length d))"
  by (auto simp: pwrite_def max_def)

lemma nth_pwrite:
  "i < length (pwrite f off d) \<Longrightarrow> pwrite f off d ! i
    = (if off \<le> i \<and> i < off + length d then d ! (i - off) else if i < length f then f ! i else 0)"
  by (auto simp: pwrite_def nth_append min_def)

lemma file_inv_done: "file_inv f [] fd whole \<Longrightarrow> f = whole"
proof (rule nth_equalityI)
  assume inv: "file_inv f [] fd whole"
  then have all: "\<forall>i < length whole. i < length f \<and> f ! i = whole ! i" by (simp add: file_inv_def covered_def)
  then show len: "length f = length whole" using inv by (metis file_inv_def le_antisym linorder_le_less_linear nat_less_le)
  show "f ! i = whole ! i" if "i < length f" for i using all that len by simp
qed

lemma file_inv_write:
  assumes inv: "file_inv f ring fd whole" and r: "r \<in> set ring" "sq_fd r = fd"
    and ring: "set ring \<subseteq> insert r (set ring')" "set ring' \<subseteq> set ring"
  shows "file_inv (pwrite f (unat (sq_off r)) (sq_data r)) ring' fd whole"
proof -
  let ?o = "unat (sq_off r)" and ?d = "sq_data r"
  have d: "?o + length ?d \<le> length whole" "chunk whole ?o (length ?d) = ?d" using inv r by (auto simp: file_inv_def)
  have l: "length (pwrite f ?o ?d) \<le> length whole" using inv d by (simp add: length_pwrite file_inv_def)
  have "i < length (pwrite f ?o ?d) \<and> pwrite f ?o ?d ! i = whole ! i" if i: "i < length whole" "\<not> covered ring' fd i" for i
  proof (cases "?o \<le> i \<and> i < ?o + length ?d")
    case True
    then have "i - ?o < length ?d" by linarith
    then have "?d ! (i - ?o) = whole ! i" using d(2) nth_chunk [of "i - ?o" "length ?d" ?o whole] i(1) True by simp
    then show ?thesis using True by (auto simp: nth_pwrite length_pwrite)
  next
    case False
    then have "\<not> covered ring fd i" using i(2) ring(1) by (auto simp: covered_def)
    then have "i < length f \<and> f ! i = whole ! i" using inv i(1) by (simp add: file_inv_def)
    then show ?thesis using False by (auto simp: nth_pwrite length_pwrite)
  qed
  moreover have "\<forall>r \<in> set ring'. sq_fd r = fd \<longrightarrow> unat (sq_off r) + length (sq_data r) \<le> length whole
      \<and> chunk whole (unat (sq_off r)) (length (sq_data r)) = sq_data r"
    using inv ring(2) by (auto simp: file_inv_def)
  ultimately show ?thesis using l by (simp add: file_inv_def)
qed

lemma file_inv_other:
  assumes "file_inv f ring fd whole" "{r \<in> set ring'. sq_fd r = fd} = {r \<in> set ring. sq_fd r = fd}"
  shows "file_inv f ring' fd whole"
proof -
  have m: "r \<in> set ring' \<and> sq_fd r = fd \<longleftrightarrow> r \<in> set ring \<and> sq_fd r = fd" for r using assms(2) by blast
  have "covered ring' fd i = covered ring fd i" for i unfolding covered_def using m by blast
  then show ?thesis using assms(1) m by (simp add: file_inv_def) blast
qed

lemma file_inv_snoc_other: "file_inv f ring fd whole \<Longrightarrow> sq_fd r \<noteq> fd \<Longrightarrow> file_inv f (ring @ [r]) fd whole"
  by (erule file_inv_other) auto

lemma file_inv_append:
  assumes inv: "file_inv f ring fd whole" and r: "sq_fd r = fd" "sq_off r = of_nat (length whole)" and l: "length whole < 2 ^ 64"
  shows "file_inv f (ring @ [r]) fd (whole @ sq_data r)"
proof -
  let ?d = "sq_data r"
  have o: "unat (sq_off r) = length whole" using r l by (simp add: unat_of_nat)
  have "i < length f \<and> f ! i = (whole @ ?d) ! i" if "i < length (whole @ ?d)" "\<not> covered (ring @ [r]) fd i" for i
  proof -
    have "i < length whole" using that r o by (auto simp: covered_def)
    moreover have "\<not> covered ring fd i" using that(2) by (auto simp: covered_def)
    ultimately show ?thesis using inv by (simp add: file_inv_def nth_append)
  qed
  then show ?thesis using inv r o by (auto simp: file_inv_def chunk_append_left chunk_append_right chunk_def)
qed

lemma issue_write_inv:
  assumes inv: "io_inv hdr io log" and wr: "issue_write io pid bytes sz t = Inr io'" and l: "length (file_data hdr log (unat pid)) < 2 ^ 64"
  shows "io_inv hdr io' (log @ [(unat pid, chunk bytes sizeof_PartitionDataHeader (unat sz))])"
proof -
  let ?p = "unat pid" and ?d = "chunk bytes sizeof_PartitionDataHeader (unat sz)"
  let ?f = "io_files io ! ?p"
  let ?r = "\<lparr>sq_fd = pf_fd ?f, sq_data = ?d, sq_off = pf_offset ?f, sq_task = t\<rparr>"
  from wr have p: "?p < length (io_files io)" and lb: "length ?d = unat sz"
    and io': "io' = io\<lparr>io_ring := io_ring io @ [?r], io_files := (io_files io)[?p := ?f\<lparr>pf_offset := pf_offset ?f + sz\<rparr>]\<rparr>"
    by (auto simp: issue_write_def Let_def split: if_splits)
  have fds: "map pf_fd (io_files io') = map pf_fd (io_files io)" using p by (simp add: io' map_update list_update_same_conv)
  have fp: "pf_offset ?f = of_nat (length (file_data hdr log ?p))" "file_inv (io_disk io (pf_fd ?f)) (io_ring io) (pf_fd ?f) (file_data hdr log ?p)"
    using inv p by (simp_all add: io_inv_def Let_def)
  have "pf_offset (io_files io' ! q) = of_nat (length (file_data hdr (log @ [(?p, ?d)]) q))
      \<and> file_inv (io_disk io' (pf_fd (io_files io' ! q))) (io_ring io') (pf_fd (io_files io' ! q)) (file_data hdr (log @ [(?p, ?d)]) q)"
    if q: "q < length (io_files io')" for q
  proof (cases "q = ?p")
    case True
    have "file_inv (io_disk io (pf_fd ?f)) (io_ring io @ [?r]) (pf_fd ?f) (file_data hdr log ?p @ sq_data ?r)"
      using fp l by (intro file_inv_append) simp_all
    moreover have "of_nat (unat sz) = sz" by simp
    ultimately show ?thesis using True p fp(1) lb by (simp add: io' file_data_snoc del: of_nat_unat)
  next
    case False
    have ql: "q < length (io_files io)" using q by (simp add: io')
    have "pf_fd (io_files io ! q) \<noteq> pf_fd ?f"
      using inv False ql p nth_eq_iff_index_eq [of "map pf_fd (io_files io)" q ?p] by (simp add: io_inv_def)
    moreover have "file_inv (io_disk io (pf_fd (io_files io ! q))) (io_ring io) (pf_fd (io_files io ! q)) (file_data hdr log q)"
      using inv ql by (simp add: io_inv_def Let_def)
    ultimately have "file_inv (io_disk io (pf_fd (io_files io ! q))) (io_ring io @ [?r]) (pf_fd (io_files io ! q)) (file_data hdr log q)"
      by (intro file_inv_snoc_other) simp_all
    moreover have "pf_offset (io_files io ! q) = of_nat (length (file_data hdr log q))" using inv ql by (simp add: io_inv_def Let_def)
    ultimately show ?thesis using False by (simp add: io' file_data_snoc)
  qed
  then show ?thesis using inv fds by (simp add: io_inv_def Let_def)
qed

lemma ring_complete_inv:
  assumes inv: "io_inv hdr io log" and i: "i < length (io_ring io)" and res: "nat res = length (sq_data (io_ring io ! i))"
    and rc: "ring_complete io i res = (t, io')"
  shows "io_inv hdr io' log"
proof -
  let ?r = "io_ring io ! i" and ?ring = "take i (io_ring io) @ drop (Suc i) (io_ring io)"
  have io': "io' = io\<lparr>io_ring := ?ring, io_disk := (io_disk io)(sq_fd ?r := pwrite (io_disk io (sq_fd ?r)) (unat (sq_off ?r)) (sq_data ?r))\<rparr>"
    using rc res by (auto simp: ring_complete_def Let_def)
  have set: "set (io_ring io) = insert ?r (set ?ring)" using id_take_nth_drop [OF i] by (metis Un_insert_right list.simps(15) set_append)
  have "file_inv (io_disk io' fd) ?ring fd whole" if f: "file_inv (io_disk io fd) (io_ring io) fd whole" for fd whole
  proof (cases "fd = sq_fd ?r")
    case True
    then show ?thesis using file_inv_write [OF f, of ?r ?ring] set i by (auto simp: io')
  next
    case False
    then show ?thesis using file_inv_other [OF f, of ?ring] set by (auto simp: io')
  qed
  then show ?thesis using inv by (auto simp: io_inv_def io' Let_def)
qed

lemma io_inv_done: "io_inv hdr io log \<Longrightarrow> io_ring io = [] \<Longrightarrow> p < length (io_files io) \<Longrightarrow>
    io_disk io (pf_fd (io_files io ! p)) = file_data hdr log p"
  by (auto simp: io_inv_def Let_def intro!: file_inv_done [where fd = "pf_fd (io_files io ! p)"])

lemma issue_write_files: "issue_write io pid bytes sz t = Inr io' \<Longrightarrow> map pf_fd (io_files io') = map pf_fd (io_files io)"
  by (auto simp: issue_write_def Let_def map_update list_update_same_conv split: if_splits)

section \<open>Workers that write partition files\<close>

text \<open>
  Runs of a worker: it submits the write \<open>written w\<close> when it is \<open>ready\<close>, the kernel completes a
  write, and anything else happens that leaves files and ring alone.
\<close>

inductive spill_run :: "('w \<Rightarrow> 't spill_io) \<Rightarrow> ('w \<Rightarrow> bool) \<Rightarrow> ('w \<Rightarrow> nat \<times> u8 list) \<Rightarrow> ('w \<Rightarrow> 'w result) \<Rightarrow> ('w \<Rightarrow> nat \<Rightarrow> int \<Rightarrow> 'w)
    \<Rightarrow> ('w \<Rightarrow> 'w \<Rightarrow> bool) \<Rightarrow> 'w \<Rightarrow> 'w \<Rightarrow> (nat \<times> u8 list) list \<Rightarrow> bool"
  for io ready written submit progress other w0 where
  start: "spill_run io ready written submit progress other w0 w0 []"
| submit: "spill_run io ready written submit progress other w0 w log \<Longrightarrow> ready w \<Longrightarrow> submit w = Inr w' \<Longrightarrow>
    spill_run io ready written submit progress other w0 w' (log @ [written w])"
| progress: "spill_run io ready written submit progress other w0 w log \<Longrightarrow> i < length (io_ring (io w)) \<Longrightarrow>
    nat res = length (sq_data (io_ring (io w) ! i)) \<Longrightarrow> spill_run io ready written submit progress other w0 (progress w i res) log"
| other: "spill_run io ready written submit progress other w0 w log \<Longrightarrow> other w w' \<Longrightarrow>
    spill_run io ready written submit progress other w0 w' log"

locale file_spiller =
  fixes io :: "'w \<Rightarrow> 't spill_io" and ready :: "'w \<Rightarrow> bool" and written :: "'w \<Rightarrow> nat \<times> u8 list"
    and submit :: "'w \<Rightarrow> 'w result" and progress :: "'w \<Rightarrow> nat \<Rightarrow> int \<Rightarrow> 'w" and other :: "'w \<Rightarrow> 'w \<Rightarrow> bool"
  assumes submit_io: "ready w \<Longrightarrow> submit w = Inr w' \<Longrightarrow>
      \<exists>pid bytes sz t. issue_write (io w) pid bytes sz t = Inr (io w') \<and> written w = (unat pid, chunk bytes sizeof_PartitionDataHeader (unat sz))"
    and progress_io: "io (progress w i res) = snd (ring_complete (io w) i res)"
    and other_io: "other w w' \<Longrightarrow> io w' = io w"
begin

lemma run_inv:
  assumes "spill_run io ready written submit progress other w0 w log" "io_inv hdr (io w0) []"
    "\<forall>p. length (file_data hdr log p) < 2 ^ 64"
  shows "io_inv hdr (io w) log \<and> map pf_fd (io_files (io w)) = map pf_fd (io_files (io w0))"
  using assms
proof (induction rule: spill_run.induct)
  case start
  then show ?case by simp
next
  case (submit w log w')
  obtain pid bytes sz t where iw: "issue_write (io w) pid bytes sz t = Inr (io w')" "written w = (unat pid, chunk bytes sizeof_PartitionDataHeader (unat sz))"
    using submit_io [OF submit.hyps(2,3)] by blast
  have b: "\<forall>p. length (file_data hdr log p) < 2 ^ 64"
  proof
    fix p
    have "length (file_data hdr log p) \<le> length (file_data hdr (log @ [written w]) p)" by (simp add: iw(2) file_data_snoc)
    then show "length (file_data hdr log p) < 2 ^ 64" using submit.prems(2) by (meson le_less_trans)
  qed
  show ?case using issue_write_files [OF iw(1)] issue_write_inv [OF _ iw(1)] submit.IH [OF submit.prems(1) b] b iw(2) by simp
next
  case (progress w log i res)
  obtain t io' where rc: "ring_complete (io w) i res = (t, io')" by (cases "ring_complete (io w) i res")
  moreover have "map pf_fd (io_files io') = map pf_fd (io_files (io w))" using rc by (auto simp: ring_complete_def Let_def)
  ultimately show ?case using progress ring_complete_inv [OF _ progress.hyps(2,3) rc] by (simp add: progress_io)
next
  case (other w log w')
  then show ?case by (simp add: other_io)
qed

lemma files_complete:
  assumes "spill_run io ready written submit progress other w0 w log" "io_inv hdr (io w0) []"
    "\<forall>p. length (file_data hdr log p) < 2 ^ 64" "io_ring (io w) = []" "p < length (io_files (io w0))"
  shows "io_disk (io w) (pf_fd (io_files (io w0) ! p)) = file_data hdr log p"
proof -
  have m: "map pf_fd (io_files (io w)) = map pf_fd (io_files (io w0))" and inv: "io_inv hdr (io w) log" using run_inv [OF assms(1-3)] by simp_all
  have "length (io_files (io w)) = length (io_files (io w0))" using m by (rule map_eq_imp_length_eq)
  then show ?thesis using io_inv_done [OF inv assms(4), of p] assms(5) nth_map [of p "io_files (io w)" pf_fd] nth_map [of p "io_files (io w0)" pf_fd] m by simp
qed

end

section \<open>Creating and closing the files\<close>

fun decimal :: "nat \<Rightarrow> string" where
  "decimal n = (if n < 10 then [char_of (48 + n)] else decimal (n div 10) @ [char_of (48 + n mod 10)])"

declare decimal.simps [simp del]

definition partition_fname :: "string \<Rightarrow> nat \<Rightarrow> string" where
  "partition_fname dir i = dir @ ''/p'' @ decimal i"

text \<open>
  The loops that open the files; \<open>opn\<close> is \<^verbatim>\<open>open\<close> with \<^verbatim>\<open>O_CREAT | O_TRUNC | O_RDWR\<close>. The header of a
  Java object stream is optional.
\<close>

definition stream_header :: "bool \<Rightarrow> u8 list" where
  "stream_header need_header = (if need_header then u32_bytes 0x0500edac else [])"

primrec open_files :: "(string \<Rightarrow> int) \<Rightarrow> string \<Rightarrow> bool \<Rightarrow> nat list \<Rightarrow> 't spill_io \<Rightarrow> 't spill_io result" where
  "open_files opn dir need_header [] io = Inr io"
| "open_files opn dir need_header (i # is) io =
    (let fd = opn (partition_fname dir i) in
     bnd (check (fd \<noteq> -1) Die) (\<lambda>_.
       open_files opn dir need_header is (io\<lparr>io_disk := (io_disk io)(fd := stream_header need_header),
         io_files := io_files io @ [\<lparr>pf_fd = fd, pf_partition_id = i, pf_offset = of_nat (length (stream_header need_header))\<rparr>]\<rparr>)))"

definition create_files :: "(string \<Rightarrow> int) \<Rightarrow> string \<Rightarrow> bool \<Rightarrow> nat \<Rightarrow> 't spill_io \<Rightarrow> 't spill_io result" where
  "create_files opn dir need_header n io =
    (if length (io_files io) = n then Inr io else open_files opn dir need_header [0..<n] io)"

definition close_files :: "'t spill_io \<Rightarrow> 't spill_io" where
  "close_files io = (if io_files io = [] then io else io\<lparr>io_files := []\<rparr>)"

definition fds_ok :: "(string \<Rightarrow> int) \<Rightarrow> string \<Rightarrow> nat \<Rightarrow> bool" where
  "fds_ok opn dir n \<longleftrightarrow> distinct (map (\<lambda>i. opn (partition_fname dir i)) [0..<n]) \<and> (\<forall>i < n. opn (partition_fname dir i) \<noteq> -1)"

lemma open_files_ok:
  assumes "\<forall>i \<in> set is. opn (partition_fname dir i) \<noteq> -1"
  shows "\<exists>io'. open_files opn dir h is io = Inr io' \<and> io_ring io' = io_ring io
    \<and> io_files io' = io_files io @ map (\<lambda>i. \<lparr>pf_fd = opn (partition_fname dir i), pf_partition_id = i, pf_offset = of_nat (length (stream_header h))\<rparr>) is
    \<and> (\<forall>fd. io_disk io' fd = (if fd \<in> (\<lambda>i. opn (partition_fname dir i)) ` set is then stream_header h else io_disk io fd))"
  using assms
proof (induction "is" arbitrary: io)
  case Nil
  then show ?case by simp
next
  case (Cons i "is")
  let ?io = "io\<lparr>io_disk := (io_disk io)(opn (partition_fname dir i) := stream_header h),
         io_files := io_files io @ [\<lparr>pf_fd = opn (partition_fname dir i), pf_partition_id = i, pf_offset = of_nat (length (stream_header h))\<rparr>]\<rparr>"
  from Cons.IH [of ?io] Cons.prems show ?case by (auto simp: Let_def check_def)
qed

lemma open_files_inv:
  assumes fds: "fds_ok opn dir n" and io: "io_files io = []" "io_ring io = []"
  shows "\<exists>io'. open_files opn dir h [0..<n] io = Inr io' \<and> io_inv (stream_header h) io' [] \<and> length (io_files io') = n
    \<and> (\<forall>p < n. pf_fd (io_files io' ! p) = opn (partition_fname dir p))"
proof -
  obtain io' where io': "open_files opn dir h [0..<n] io = Inr io'" "io_ring io' = []"
    "io_files io' = map (\<lambda>i. \<lparr>pf_fd = opn (partition_fname dir i), pf_partition_id = i, pf_offset = of_nat (length (stream_header h))\<rparr>) [0..<n]"
    "\<forall>fd. io_disk io' fd = (if fd \<in> (\<lambda>i. opn (partition_fname dir i)) ` {0..<n} then stream_header h else io_disk io fd)"
    using open_files_ok [of "[0..<n]" opn dir h io] fds io by (auto simp: fds_ok_def)
  have m: "map pf_fd (io_files io') = map (\<lambda>i. opn (partition_fname dir i)) [0..<n]" by (simp add: io'(3))
  have "distinct (map pf_fd (io_files io'))" unfolding m using fds by (simp only: fds_ok_def)
  then have "io_inv (stream_header h) io' []" using io' by (auto simp: io_inv_def file_inv_def file_data_def Let_def)
  then show ?thesis using io' by auto
qed

end
