(* ===== verification/Host_Spill.thy ===== *)
theory Host_Spill
  imports File_IO
begin

text \<open>
  \<^verbatim>\<open>lib/native/spill_worker.hxx\<close>, the workers on the host that store received partition buffers in
  files: \<^verbatim>\<open>BufferredHostSpillWorker\<close>, which reads into the buffers of a pool, and
  \<^verbatim>\<open>HostSpillWorker\<close>, which allocates a buffer per request. Three fibers share such a worker: the
  request handlers, the spiller (\<^verbatim>\<open>submit_direct_spill\<close>) and the poller (\<^verbatim>\<open>progress_io\<close>). A handler
  is split where it waits for its result, the spiller where it waits for the files. The bytes a
  \<^verbatim>\<open>bulk_read\<close> brings and its size are arguments, as is \<^verbatim>\<open>open\<close>.
\<close>

section \<open>Operations\<close>

subsection \<open>\<open>BufferredHostSpillWorker\<close>\<close>

record BufferredHostSpillWorker =
  bw_running :: bool
  bw_bp :: BufferPool
  bw_io_q :: "PartitionBuffer list"
  bw_pulled :: "PartitionBuffer option"
  bw_io :: "PartitionBuffer spill_io"
  bw_spill_dir :: string
  bw_max_n_partition :: nat
  bw_results :: "(PartitionBuffer \<times> u64) list"
  bw_spilling :: bool
  bw_count :: nat

definition bw_new :: "BufferPool \<Rightarrow> string \<Rightarrow> nat \<Rightarrow> (int \<Rightarrow> u8 list) \<Rightarrow> BufferredHostSpillWorker" where
  "bw_new bp spill_dir max_n_partition disk =
    \<lparr>bw_running = True, bw_bp = bp, bw_io_q = [], bw_pulled = None, bw_io = \<lparr>io_files = [], io_ring = [], io_disk = disk\<rparr>,
     bw_spill_dir = spill_dir, bw_max_n_partition = max_n_partition, bw_results = [], bw_spilling = False, bw_count = 0\<rparr>"

definition bw_create_partition_files :: "(string \<Rightarrow> int) \<Rightarrow> BufferredHostSpillWorker \<Rightarrow> bool \<Rightarrow> BufferredHostSpillWorker result" where
  "bw_create_partition_files opn w need_header =
    bnd (create_files opn (bw_spill_dir w) need_header (bw_max_n_partition w) (bw_io w)) (\<lambda>io. Inr (w\<lparr>bw_io := io\<rparr>))"

definition bw_close_partition_files :: "BufferredHostSpillWorker \<Rightarrow> BufferredHostSpillWorker" where
  "bw_close_partition_files w = w\<lparr>bw_io := close_files (bw_io w)\<rparr>"

text \<open>\<^verbatim>\<open>handle_spill_request\<close> up to the wait for the result of the task, and from there.\<close>

definition bw_handle_spill_request :: "BufferredHostSpillWorker \<Rightarrow> u8 list \<Rightarrow> u64 \<Rightarrow> BufferredHostSpillWorker result" where
  "bw_handle_spill_request w bytes n_read =
    (case acquire_one (bw_bp w) of
       (None, _) \<Rightarrow> Inl Die
     | (Some r, bp) \<Rightarrow>
         let buf = pb_attach r bytes in
         bnd (check (header_length (pb_bytes buf) = n_read) Die) (\<lambda>_.
           Inr (w\<lparr>bw_bp := bp, bw_io_q := bw_io_q w @ [buf]\<rparr>)))"

definition bw_finish_request :: "BufferredHostSpillWorker \<Rightarrow> nat \<Rightarrow> (u64 \<times> BufferredHostSpillWorker) result" where
  "bw_finish_request w i =
    (case bw_results w ! i of (buf, n_spill) \<Rightarrow>
       bnd (check (n_spill = header_length (pb_bytes buf)) Die) (\<lambda>_.
       bnd (release_one (bw_bp w) (pb_region buf)) (\<lambda>bp.
         Inr (header_length (pb_bytes buf), w\<lparr>bw_bp := bp, bw_results := take i (bw_results w) @ drop (Suc i) (bw_results w)\<rparr>))))"

text \<open>The loop of the spiller: it takes a task, then waits until the files are there.\<close>

definition bw_pull :: "BufferredHostSpillWorker \<Rightarrow> BufferredHostSpillWorker" where
  "bw_pull w = (case bw_io_q w of [] \<Rightarrow> w
     | task # q \<Rightarrow> if bw_running w \<and> bw_pulled w = None then w\<lparr>bw_io_q := q, bw_pulled := Some task\<rparr> else w)"

definition bw_ready :: "BufferredHostSpillWorker \<Rightarrow> bool" where
  "bw_ready w \<longleftrightarrow> bw_running w \<and> bw_pulled w \<noteq> None \<and> length (io_files (bw_io w)) = bw_max_n_partition w"

definition bw_submit_direct_spill :: "BufferredHostSpillWorker \<Rightarrow> BufferredHostSpillWorker result" where
  "bw_submit_direct_spill w =
    (case bw_pulled w of None \<Rightarrow> Inr w
     | Some task \<Rightarrow>
         if bw_ready w
         then let header = pb_bytes task in
              bnd (issue_write (bw_io w) (header_partition_id header) (pb_bytes task) (header_length header - of_nat sizeof_PartitionDataHeader) task)
                (\<lambda>io. Inr (w\<lparr>bw_io := io, bw_pulled := None\<rparr>))
         else Inr w)"

definition bw_progress_io :: "BufferredHostSpillWorker \<Rightarrow> nat \<Rightarrow> int \<Rightarrow> BufferredHostSpillWorker" where
  "bw_progress_io w i res =
    (case ring_complete (bw_io w) i res of (task, io) \<Rightarrow>
       w\<lparr>bw_io := io, bw_spilling := True, bw_count := 0,
         bw_results := bw_results w @ [(task, if 0 < res then header_length (pb_bytes task) else of_int res)]\<rparr>)"

definition bw_poll_idle :: "BufferredHostSpillWorker \<Rightarrow> BufferredHostSpillWorker" where
  "bw_poll_idle w = w\<lparr>bw_spilling := (if bw_count w = 5000 then False else bw_spilling w), bw_count := bw_count w + 1\<rparr>"

definition bw_is_spilling :: "BufferredHostSpillWorker \<Rightarrow> bool" where
  "bw_is_spilling w = bw_spilling w"

subsection \<open>\<open>HostSpillWorker\<close>\<close>

record HostSpillWorker =
  hw_running :: bool
  hw_io_q :: "u8 list list"
  hw_pulled :: "u8 list option"
  hw_io :: "u8 list spill_io"
  hw_spill_dir :: string
  hw_max_n_partition :: nat
  hw_results :: "(u8 list \<times> u64) list"
  hw_spilling :: bool
  hw_count :: nat

definition hw_new :: "string \<Rightarrow> nat \<Rightarrow> (int \<Rightarrow> u8 list) \<Rightarrow> HostSpillWorker" where
  "hw_new spill_dir max_n_partition disk =
    \<lparr>hw_running = True, hw_io_q = [], hw_pulled = None, hw_io = \<lparr>io_files = [], io_ring = [], io_disk = disk\<rparr>,
     hw_spill_dir = spill_dir, hw_max_n_partition = max_n_partition, hw_results = [], hw_spilling = False, hw_count = 0\<rparr>"

definition hw_create_partition_files :: "(string \<Rightarrow> int) \<Rightarrow> HostSpillWorker \<Rightarrow> bool \<Rightarrow> HostSpillWorker result" where
  "hw_create_partition_files opn w need_header =
    bnd (create_files opn (hw_spill_dir w) need_header (hw_max_n_partition w) (hw_io w)) (\<lambda>io. Inr (w\<lparr>hw_io := io\<rparr>))"

definition hw_close_partition_files :: "HostSpillWorker \<Rightarrow> HostSpillWorker" where
  "hw_close_partition_files w = w\<lparr>hw_io := close_files (hw_io w)\<rparr>"

definition hw_handle_spill_request :: "HostSpillWorker \<Rightarrow> u8 list \<Rightarrow> HostSpillWorker" where
  "hw_handle_spill_request w bytes = w\<lparr>hw_io_q := hw_io_q w @ [bytes]\<rparr>"

definition hw_finish_request :: "HostSpillWorker \<Rightarrow> nat \<Rightarrow> u64 \<Rightarrow> (u64 \<times> HostSpillWorker) result" where
  "hw_finish_request w i n_read =
    (case hw_results w ! i of (buf, n_spill) \<Rightarrow>
       bnd (check (n_spill = of_nat (length buf)) Die) (\<lambda>_.
         Inr (n_read, w\<lparr>hw_results := take i (hw_results w) @ drop (Suc i) (hw_results w)\<rparr>)))"

definition hw_pull :: "HostSpillWorker \<Rightarrow> HostSpillWorker" where
  "hw_pull w = (case hw_io_q w of [] \<Rightarrow> w
     | task # q \<Rightarrow> if hw_running w \<and> hw_pulled w = None then w\<lparr>hw_io_q := q, hw_pulled := Some task\<rparr> else w)"

definition hw_ready :: "HostSpillWorker \<Rightarrow> bool" where
  "hw_ready w \<longleftrightarrow> hw_running w \<and> hw_pulled w \<noteq> None \<and> length (io_files (hw_io w)) = hw_max_n_partition w"

definition hw_submit_direct_spill :: "HostSpillWorker \<Rightarrow> HostSpillWorker result" where
  "hw_submit_direct_spill w =
    (case hw_pulled w of None \<Rightarrow> Inr w
     | Some task \<Rightarrow>
         if hw_ready w
         then bnd (issue_write (hw_io w) (header_partition_id task) task (of_nat (length task) - of_nat sizeof_PartitionDataHeader) task)
                (\<lambda>io. Inr (w\<lparr>hw_io := io, hw_pulled := None\<rparr>))
         else Inr w)"

definition hw_progress_io :: "HostSpillWorker \<Rightarrow> nat \<Rightarrow> int \<Rightarrow> HostSpillWorker" where
  "hw_progress_io w i res =
    (case ring_complete (hw_io w) i res of (task, io) \<Rightarrow>
       w\<lparr>hw_io := io, hw_spilling := True, hw_count := 0,
         hw_results := hw_results w @ [(task, if 0 < res then of_nat (length task) else of_int res)]\<rparr>)"

definition hw_poll_idle :: "HostSpillWorker \<Rightarrow> HostSpillWorker" where
  "hw_poll_idle w = w\<lparr>hw_spilling := (if hw_count w = 10000 then False else hw_spilling w), hw_count := hw_count w + 1\<rparr>"

definition hw_is_spilling :: "HostSpillWorker \<Rightarrow> bool" where
  "hw_is_spilling w = hw_spilling w"

section \<open>Files of the workers\<close>

text \<open>What a write of the spiller stores, and the steps of a worker that do not write.\<close>

definition bw_written :: "BufferredHostSpillWorker \<Rightarrow> nat \<times> u8 list" where
  "bw_written w = (case bw_pulled w of Some t \<Rightarrow> (unat (partition_id t), payload t) | None \<Rightarrow> (0, []))"

definition hw_written :: "HostSpillWorker \<Rightarrow> nat \<times> u8 list" where
  "hw_written w = (case hw_pulled w of Some t \<Rightarrow> (unat (header_partition_id t), chunk t 16 (unat (of_nat (length t) - 16 :: u64))) | None \<Rightarrow> (0, []))"

inductive bw_other :: "BufferredHostSpillWorker \<Rightarrow> BufferredHostSpillWorker \<Rightarrow> bool" where
  "bw_handle_spill_request w bytes n = Inr w' \<Longrightarrow> bw_other w w'"
| "bw_finish_request w i = Inr (n, w') \<Longrightarrow> bw_other w w'"
| "bw_other w (bw_pull w)"
| "bw_other w (bw_poll_idle w)"

inductive hw_other :: "HostSpillWorker \<Rightarrow> HostSpillWorker \<Rightarrow> bool" where
  "hw_other w (hw_handle_spill_request w bytes)"
| "hw_finish_request w i n = Inr (n', w') \<Longrightarrow> hw_other w w'"
| "hw_other w (hw_pull w)"
| "hw_other w (hw_poll_idle w)"

lemma payload_eq_chunk: "payload t = chunk (pb_bytes t) 16 (unat (header_length (pb_bytes t) - 16))"
  by (simp add: payload_def actual_size_def actual_data_def chunk_def)

interpretation buffered: file_spiller bw_io bw_ready bw_written bw_submit_direct_spill bw_progress_io bw_other
proof
  fix w w' assume "bw_ready w" "bw_submit_direct_spill w = Inr w'"
  then obtain t where "bw_pulled w = Some t"
    "issue_write (bw_io w) (partition_id t) (pb_bytes t) (header_length (pb_bytes t) - 16) t = Inr (bw_io w')"
    by (auto simp: bw_submit_direct_spill_def bw_ready_def partition_id_def Let_def)
  then show "\<exists>pid bytes sz t. issue_write (bw_io w) pid bytes sz t = Inr (bw_io w') \<and> bw_written w = (unat pid, chunk bytes sizeof_PartitionDataHeader (unat sz))"
    by (auto simp: bw_written_def payload_eq_chunk intro!: exI)
next
  show "bw_io (bw_progress_io w i res) = snd (ring_complete (bw_io w) i res)" for w i res
    by (simp add: bw_progress_io_def split: prod.splits)
  show "bw_other w w' \<Longrightarrow> bw_io w' = bw_io w" for w w'
    by (induction rule: bw_other.induct)
      (auto simp: bw_handle_spill_request_def bw_finish_request_def bw_pull_def bw_poll_idle_def Let_def split: prod.splits option.splits list.splits)
qed

interpretation host: file_spiller hw_io hw_ready hw_written hw_submit_direct_spill hw_progress_io hw_other
proof
  fix w w' assume "hw_ready w" "hw_submit_direct_spill w = Inr w'"
  then obtain t where t: "hw_pulled w = Some t"
    "issue_write (hw_io w) (header_partition_id t) t (of_nat (length t) - 16) t = Inr (hw_io w')"
    by (auto simp: hw_submit_direct_spill_def hw_ready_def)
  then show "\<exists>pid bytes sz t. issue_write (hw_io w) pid bytes sz t = Inr (hw_io w') \<and> hw_written w = (unat pid, chunk bytes sizeof_PartitionDataHeader (unat sz))"
    by (auto simp: hw_written_def intro!: exI)
next
  show "hw_io (hw_progress_io w i res) = snd (ring_complete (hw_io w) i res)" for w i res
    by (simp add: hw_progress_io_def split: prod.splits)
  show "hw_other w w' \<Longrightarrow> hw_io w' = hw_io w" for w w'
    by (induction rule: hw_other.induct)
      (auto simp: hw_handle_spill_request_def hw_finish_request_def hw_pull_def hw_poll_idle_def split: prod.splits option.splits list.splits)
qed

lemma create_files_new:
  assumes "fds_ok opn dir n" "io_files io = []" "io_ring io = []" "n \<noteq> 0"
  obtains io' where "create_files opn dir h n io = Inr io'" "io_inv (stream_header h) io' []" "length (io_files io') = n"
    "\<forall>p < n. pf_fd (io_files io' ! p) = opn (partition_fname dir p)"
  using open_files_inv [OF assms(1-3), of h] assms by (auto simp: create_files_def)

text \<open>
  C14. \<^verbatim>\<open>BufferredHostSpillWorker\<close> stores what it was given: once the partition files are created and
  no write is in flight, the file of every partition holds the stream header, if asked for,
  followed by the contents of the buffers of that partition in the order in which the spiller
  took them, in whatever order the kernel completed the writes.
\<close>

theorem buffered_worker_files:
  assumes fds: "fds_ok opn dir n" "n \<noteq> 0" and create: "bw_create_partition_files opn (bw_new bp dir n disk) need_header = Inr w0"
    and run: "spill_run bw_io bw_ready bw_written bw_submit_direct_spill bw_progress_io bw_other w0 w log"
    and fit: "\<forall>p. length (file_data (stream_header need_header) log p) < 2 ^ 64" and idle: "io_ring (bw_io w) = []" and p: "p < n"
  shows "io_disk (bw_io w) (opn (partition_fname dir p)) = stream_header need_header @ concat (map snd (filter (\<lambda>r. fst r = p) log))"
proof -
  let ?io = "\<lparr>io_files = [], io_ring = [], io_disk = disk\<rparr> :: PartitionBuffer spill_io"
  obtain io' where io': "create_files opn dir need_header n ?io = Inr io'" "io_inv (stream_header need_header) io' []"
    "length (io_files io') = n" "\<forall>p < n. pf_fd (io_files io' ! p) = opn (partition_fname dir p)"
    by (rule create_files_new [OF fds(1) _ _ fds(2), of ?io need_header]) simp_all
  have w0: "bw_io w0 = io'" using create io'(1) by (auto simp: bw_create_partition_files_def bw_new_def)
  show ?thesis using buffered.files_complete [OF run _ fit idle, of p] io' p by (simp add: w0 file_data_def)
qed

text \<open>
  The same for \<^verbatim>\<open>HostSpillWorker\<close>, which writes all bytes behind the header of a received buffer.
\<close>

theorem host_worker_files:
  assumes fds: "fds_ok opn dir n" "n \<noteq> 0" and create: "hw_create_partition_files opn (hw_new dir n disk) need_header = Inr w0"
    and run: "spill_run hw_io hw_ready hw_written hw_submit_direct_spill hw_progress_io hw_other w0 w log"
    and fit: "\<forall>p. length (file_data (stream_header need_header) log p) < 2 ^ 64" and idle: "io_ring (hw_io w) = []" and p: "p < n"
  shows "io_disk (hw_io w) (opn (partition_fname dir p)) = stream_header need_header @ concat (map snd (filter (\<lambda>r. fst r = p) log))"
proof -
  let ?io = "\<lparr>io_files = [], io_ring = [], io_disk = disk\<rparr> :: u8 list spill_io"
  obtain io' where io': "create_files opn dir need_header n ?io = Inr io'" "io_inv (stream_header need_header) io' []"
    "length (io_files io') = n" "\<forall>p < n. pf_fd (io_files io' ! p) = opn (partition_fname dir p)"
    by (rule create_files_new [OF fds(1) _ _ fds(2), of ?io need_header]) simp_all
  have w0: "hw_io w0 = io'" using create io'(1) by (auto simp: hw_create_partition_files_def hw_new_def)
  show ?thesis using host.files_complete [OF run _ fit idle, of p] io' p by (simp add: w0 file_data_def)
qed

text \<open>
  The answer to a spill request follows the sign of the result of its write alone: a request is
  answered with the full length of its buffer when at least one byte was written, even if the
  write was short, and the process dies otherwise, in particular for a buffer without records,
  whose write stores nothing.
\<close>

theorem buffered_worker_answer:
  assumes t: "pb_wf t" "bp_owns (bp_bs (bw_bp w)) (bp_piece_size (bw_bp w)) (pb_region t)" "io_ring (bw_io w) ! i = r" "sq_task r = t"
    and res: "- (2 ^ 31) \<le> res" "res < 2 ^ 31" and fin: "w' = bw_progress_io w i res"
  shows "if 0 < res then \<exists>w''. bw_finish_request w' (length (bw_results w)) = Inr (total_size t, w'')
    else bw_finish_request w' (length (bw_results w)) = Inl Die"
proof -
  have r: "bw_results w' ! length (bw_results w) = (t, if 0 < res then total_size t else of_int res)" "bw_bp w' = bw_bp w"
    using t(3,4) by (auto simp: fin bw_progress_io_def ring_complete_def Let_def total_size_def)
  have "\<exists>w''. bw_finish_request w' (length (bw_results w)) = Inr (total_size t, w'')" if "0 < res"
    using r t that by (simp add: bw_finish_request_def total_size_def release_one_def check_def)
  moreover have "bw_finish_request w' (length (bw_results w)) = Inl Die" if "res \<le> 0"
  proof -
    have "uint (of_int res :: u64) = res mod 2 ^ 64" by (simp add: uint_word_of_int)
    moreover have "res mod 2 ^ 64 = (if res = 0 then 0 else res + 2 ^ 64)" using that res mod_pos_pos_trivial [of "res + 2 ^ 64" "2 ^ 64"] by simp
    ultimately have u: "uint (of_int res :: u64) = (if res = 0 then 0 else res + 2 ^ 64)" by simp
    have "16 \<le> unat (total_size t)" "unat (total_size t) < 9223372036854775808" using t(1) by (auto simp: pb_wf_def)
    then have h: "16 \<le> uint (total_size t)" "uint (total_size t) < 9223372036854775808" unfolding uint_nat by linarith+
    have "of_int res \<noteq> total_size t"
    proof
      assume "of_int res = total_size t"
      then show False using u h res by (cases "res = 0") simp_all
    qed
    then show ?thesis using r that by (simp add: bw_finish_request_def total_size_def check_def)
  qed
  ultimately show ?thesis by simp
qed

section \<open>Concrete runs\<close>

text \<open>Two buffers of partition 1 are stored; the kernel completes the second write first.\<close>

definition demo_opn :: "string \<Rightarrow> int" where
  "demo_opn s = (if s = ''d/p0'' then 3 else if s = ''d/p1'' then 4 else -1)"

definition demo_msg :: "u8 list \<Rightarrow> u8 list" where
  "demo_msg data = u64_bytes 1 @ u64_bytes (of_nat (16 + length data)) @ data"

definition demo_bp :: BufferPool where
  "demo_bp = \<lparr>bp_bs = \<lparr>mr_base = 4096, mr_len = 64\<rparr>, bp_piece_size = 32, bp_q = [\<lparr>mr_base = 4096, mr_len = 32\<rparr>, \<lparr>mr_base = 4128, mr_len = 32\<rparr>],
     bp_mem = (\<lambda>_. 0), bp_mt = False\<rparr>"

lemma demo_msgs [simp]:
  "header_length (demo_msg [1, 2, 3]) = 19" "header_partition_id (demo_msg [1, 2, 3]) = 1" "chunk (demo_msg [1, 2, 3]) 16 3 = [1, 2, 3]"
  "header_length (demo_msg [7, 8]) = 18" "header_partition_id (demo_msg [7, 8]) = 1" "chunk (demo_msg [7, 8]) 16 2 = [7, 8]"
  "length (demo_msg [1, 2, 3]) = 19" "length (demo_msg [7, 8]) = 18"
  by code_simp+

definition demo_t1 :: PartitionBuffer where "demo_t1 = \<lparr>pb_region = \<lparr>mr_base = 4096, mr_len = 32\<rparr>, pb_bytes = demo_msg [1, 2, 3]\<rparr>"
definition demo_t2 :: PartitionBuffer where "demo_t2 = \<lparr>pb_region = \<lparr>mr_base = 4128, mr_len = 32\<rparr>, pb_bytes = demo_msg [7, 8]\<rparr>"

definition demo_files :: "u64 \<Rightarrow> PartitionFile list" where
  "demo_files off = [\<lparr>pf_fd = 3, pf_partition_id = 0, pf_offset = 4\<rparr>, \<lparr>pf_fd = 4, pf_partition_id = 1, pf_offset = off\<rparr>]"

definition demo_disk :: "u8 list \<Rightarrow> int \<Rightarrow> u8 list" where
  "demo_disk data = (\<lambda>_. [])(3 := stream_header True, 4 := data)"

text \<open>The worker after the files were created, with a queue, a pulled task, writes in flight and results.\<close>

definition bw_state :: "MemoryRegion list \<Rightarrow> PartitionBuffer list \<Rightarrow> PartitionBuffer option \<Rightarrow> u64 \<Rightarrow> PartitionBuffer sqe list \<Rightarrow> u8 list
    \<Rightarrow> (PartitionBuffer \<times> u64) list \<Rightarrow> BufferredHostSpillWorker" where
  "bw_state free q pulled off ring data results =
    \<lparr>bw_running = True, bw_bp = demo_bp\<lparr>bp_q := free\<rparr>, bw_io_q = q, bw_pulled = pulled,
     bw_io = \<lparr>io_files = demo_files off, io_ring = ring, io_disk = demo_disk data\<rparr>, bw_spill_dir = ''d'', bw_max_n_partition = 2,
     bw_results = results, bw_spilling = results \<noteq> [], bw_count = 0\<rparr>"

definition demo_q1 :: "PartitionBuffer sqe" where "demo_q1 = \<lparr>sq_fd = 4, sq_data = [1, 2, 3], sq_off = 4, sq_task = demo_t1\<rparr>"
definition demo_q2 :: "PartitionBuffer sqe" where "demo_q2 = \<lparr>sq_fd = 4, sq_data = [7, 8], sq_off = 7, sq_task = demo_t2\<rparr>"

abbreviation demo_magic :: "u8 list" where "demo_magic \<equiv> [0xac, 0xed, 0, 5]"

lemma demo_names [simp]: "partition_fname ''d'' 0 = ''d/p0''" "partition_fname ''d'' (Suc 0) = ''d/p1''"
  by code_simp+

lemma demo_stream_header [simp]: "stream_header True = demo_magic"
proof -
  have "le_bytes 4 n = [of_nat n, of_nat (n div 256), of_nat (n div 65536), of_nat (n div 16777216)]" for n
  proof -
    have "(4 :: nat) = Suc (Suc (Suc (Suc 0)))" by simp
    then show ?thesis by (simp only: le_bytes.simps) (simp add: div_mult2_eq [symmetric])
  qed
  then show ?thesis by (simp add: stream_header_def u32_bytes_def)
qed

lemma upt_2: "[0..<2] = [0, Suc 0]"
  by code_simp

lemma bw_demo_create: "bw_create_partition_files demo_opn (bw_new demo_bp ''d'' 2 (\<lambda>_. [])) True = Inr (bw_state (bp_q demo_bp) [] None 4 [] demo_magic [])"
  by (simp add: bw_create_partition_files_def bw_new_def create_files_def upt_2 demo_opn_def check_def bw_state_def demo_files_def demo_disk_def Let_def)

lemma replicate_3: "replicate 3 (0 :: u8) = [0, 0, 0]"
  by code_simp

lemma bw_demo_steps:
  "bw_handle_spill_request (bw_state (bp_q demo_bp) [] None 4 [] demo_magic []) (demo_msg [1, 2, 3]) 19
    = Inr (bw_state [\<lparr>mr_base = 4128, mr_len = 32\<rparr>] [demo_t1] None 4 [] demo_magic [])"
  "bw_handle_spill_request (bw_state [\<lparr>mr_base = 4128, mr_len = 32\<rparr>] [demo_t1] None 4 [] demo_magic []) (demo_msg [7, 8]) 18
    = Inr (bw_state [] [demo_t1, demo_t2] None 4 [] demo_magic [])"
  "bw_pull (bw_state [] (t # ts) None off ring data results) = bw_state [] ts (Some t) off ring data results"
  "bw_submit_direct_spill (bw_state [] [demo_t2] (Some demo_t1) 4 [] demo_magic []) = Inr (bw_state [] [demo_t2] None 7 [demo_q1] demo_magic [])"
  "bw_submit_direct_spill (bw_state [] [] (Some demo_t2) 7 [demo_q1] demo_magic []) = Inr (bw_state [] [] None 9 [demo_q1, demo_q2] demo_magic [])"
  "bw_progress_io (bw_state [] [] None 9 [demo_q1, demo_q2] demo_magic []) 1 2
    = bw_state [] [] None 9 [demo_q1] (demo_magic @ [0, 0, 0, 7, 8]) [(demo_t2, 18)]"
  "bw_progress_io (bw_state [] [] None 9 [demo_q1] (demo_magic @ [0, 0, 0, 7, 8]) [(demo_t2, 18)]) 0 3
    = bw_state [] [] None 9 [] (demo_magic @ [1, 2, 3, 7, 8]) [(demo_t2, 18), (demo_t1, 19)]"
  by (simp_all add: bw_state_def bw_handle_spill_request_def acquire_one_def demo_bp_def pb_attach_def demo_t1_def demo_t2_def check_def bw_pull_def
      bw_submit_direct_spill_def bw_ready_def issue_write_def demo_files_def demo_q1_def demo_q2_def bw_progress_io_def ring_complete_def Let_def
      demo_disk_def pwrite_def fun_eq_iff replicate_3)

lemma bw_demo_run:
  "spill_run bw_io bw_ready bw_written bw_submit_direct_spill bw_progress_io bw_other (bw_state (bp_q demo_bp) [] None 4 [] demo_magic [])
    (bw_state [] [] None 9 [] (demo_magic @ [1, 2, 3, 7, 8]) [(demo_t2, 18), (demo_t1, 19)]) [(1, [1, 2, 3]), (1, [7, 8])]"
proof -
  let ?run = "spill_run bw_io bw_ready bw_written bw_submit_direct_spill bw_progress_io bw_other (bw_state (bp_q demo_bp) [] None 4 [] demo_magic [])"
  let ?s3 = "bw_state [] [demo_t1, demo_t2] None 4 [] demo_magic []" and ?s4 = "bw_state [] [demo_t2] (Some demo_t1) 4 [] demo_magic []"
  let ?s5 = "bw_state [] [demo_t2] None 7 [demo_q1] demo_magic []" and ?s6 = "bw_state [] [] (Some demo_t2) 7 [demo_q1] demo_magic []"
  let ?s7 = "bw_state [] [] None 9 [demo_q1, demo_q2] demo_magic []"
  let ?s8 = "bw_state [] [] None 9 [demo_q1] (demo_magic @ [0, 0, 0, 7, 8]) [(demo_t2, 18)]"
  note o = bw_other.intros
  have w: "bw_ready ?s4" "bw_ready ?s6" "bw_written ?s4 = (1, [1, 2, 3])" "bw_written ?s6 = (1, [7, 8])"
    by (simp_all add: bw_ready_def bw_state_def demo_files_def bw_written_def demo_t1_def demo_t2_def partition_id_def payload_eq_chunk)
  have 3: "?run ?s3 []" by (rule spill_run.other [where other = bw_other, OF spill_run.other [where other = bw_other, OF spill_run.start o(1)] o(1)]) (rule bw_demo_steps)+
  have 4: "?run ?s4 []" using spill_run.other [where other = bw_other, OF 3 o(3)] by (simp add: bw_demo_steps)
  have 5: "?run ?s5 [(1, [1, 2, 3])]" using spill_run.submit [OF 4 w(1) bw_demo_steps(4)] w by simp
  have 6: "?run ?s6 [(1, [1, 2, 3])]" using spill_run.other [where other = bw_other, OF 5 o(3)] by (simp add: bw_demo_steps)
  have 7: "?run ?s7 [(1, [1, 2, 3]), (1, [7, 8])]" using spill_run.submit [OF 6 w(2) bw_demo_steps(5)] w by simp
  have 8: "?run ?s8 [(1, [1, 2, 3]), (1, [7, 8])]" using spill_run.progress [OF 7, of 1 2] by (simp only: bw_demo_steps) (simp add: bw_state_def demo_q2_def)
  show ?thesis using spill_run.progress [OF 8, of 0 3] by (simp only: bw_demo_steps) (simp add: bw_state_def demo_q1_def)
qed

lemma demo_fds: "fds_ok demo_opn ''d'' 2"
  by code_simp

theorem buffered_worker_files_witness:
  "io_disk (bw_io (bw_state [] [] None 9 [] (demo_magic @ [1, 2, 3, 7, 8]) [(demo_t2, 18), (demo_t1, 19)])) 4 = [0xac, 0xed, 0, 5, 1, 2, 3, 7, 8]"
proof -
  have fit: "\<forall>p. length (file_data (stream_header True) [(1, [1, 2, 3]), (1, [7, 8])] p) < 2 ^ 64"
    by (simp add: file_data_def)
  have "demo_opn ''d/p1'' = 4" by code_simp
  then show ?thesis
    using buffered_worker_files [where p = 1, OF demo_fds _ bw_demo_create bw_demo_run fit] by (simp add: bw_state_def)
qed

theorem buffered_worker_answer_witness:
  "bw_finish_request (bw_progress_io (bw_state [] [] None 9 [demo_q1] (demo_magic @ [0, 0, 0, 7, 8]) [(demo_t2, 18)]) 0 0) 1 = Inl Die"
proof -
  have t: "pb_wf demo_t1" by (simp add: pb_wf_def demo_t1_def total_size_def)
  show ?thesis using buffered_worker_answer [OF t, of "bw_state [] [] None 9 [demo_q1] (demo_magic @ [0, 0, 0, 7, 8]) [(demo_t2, 18)]" 0 demo_q1 0]
    by (simp add: bw_state_def demo_q1_def demo_t1_def demo_bp_def bp_owns_def)
qed

text \<open>One buffer of partition 1, without stream header.\<close>

definition hw_state :: "u8 list list \<Rightarrow> u8 list option \<Rightarrow> u64 \<Rightarrow> u8 list sqe list \<Rightarrow> u8 list \<Rightarrow> (u8 list \<times> u64) list \<Rightarrow> HostSpillWorker" where
  "hw_state q pulled off ring data results =
    \<lparr>hw_running = True, hw_io_q = q, hw_pulled = pulled,
     hw_io = \<lparr>io_files = [\<lparr>pf_fd = 3, pf_partition_id = 0, pf_offset = 0\<rparr>, \<lparr>pf_fd = 4, pf_partition_id = 1, pf_offset = off\<rparr>],
       io_ring = ring, io_disk = (\<lambda>_. [])(3 := [], 4 := data)\<rparr>, hw_spill_dir = ''d'', hw_max_n_partition = 2,
     hw_results = results, hw_spilling = results \<noteq> [], hw_count = 0\<rparr>"

abbreviation demo_q3 :: "u8 list sqe" where "demo_q3 \<equiv> \<lparr>sq_fd = 4, sq_data = [7, 8], sq_off = 0, sq_task = demo_msg [7, 8]\<rparr>"

lemma hw_demo_run:
  "hw_create_partition_files demo_opn (hw_new ''d'' 2 (\<lambda>_. [])) False = Inr (hw_state [] None 0 [] [] [])"
  "spill_run hw_io hw_ready hw_written hw_submit_direct_spill hw_progress_io hw_other (hw_state [] None 0 [] [] [])
    (hw_state [] None 2 [] [7, 8] [(demo_msg [7, 8], 18)]) [(1, [7, 8])]"
proof -
  show "hw_create_partition_files demo_opn (hw_new ''d'' 2 (\<lambda>_. [])) False = Inr (hw_state [] None 0 [] [] [])"
    by (simp add: hw_create_partition_files_def hw_new_def create_files_def upt_2 demo_opn_def check_def hw_state_def stream_header_def Let_def)
  let ?run = "spill_run hw_io hw_ready hw_written hw_submit_direct_spill hw_progress_io hw_other (hw_state [] None 0 [] [] [])"
  let ?s2 = "hw_state [] (Some (demo_msg [7, 8])) 0 [] [] []" and ?s3 = "hw_state [] None 2 [demo_q3] [] []"
  have st: "hw_handle_spill_request (hw_state [] None 0 [] [] []) (demo_msg [7, 8]) = hw_state [demo_msg [7, 8]] None 0 [] [] []"
    "hw_pull (hw_state [demo_msg [7, 8]] None 0 [] [] []) = ?s2" "hw_submit_direct_spill ?s2 = Inr ?s3" "hw_ready ?s2" "hw_written ?s2 = (1, [7, 8])"
    "hw_progress_io ?s3 0 2 = hw_state [] None 2 [] [7, 8] [(demo_msg [7, 8], 18)]"
    by (simp_all add: hw_state_def hw_handle_spill_request_def hw_pull_def hw_submit_direct_spill_def hw_ready_def issue_write_def hw_written_def
        hw_progress_io_def ring_complete_def pwrite_def Let_def)
  have "?run (hw_state [demo_msg [7, 8]] None 0 [] [] []) []"
    using spill_run.other [where other = hw_other, OF spill_run.start hw_other.intros(1)] st(1) by metis
  then have 2: "?run ?s2 []" using spill_run.other [where other = hw_other, OF _ hw_other.intros(3)] st(2) by metis
  have 3: "?run ?s3 [(1, [7, 8])]" using spill_run.submit [OF 2 st(4,3)] st(5) by simp
  show "?run (hw_state [] None 2 [] [7, 8] [(demo_msg [7, 8], 18)]) [(1, [7, 8])]"
    using spill_run.progress [OF 3, of 0 2] by (simp only: st) (simp add: hw_state_def)
qed

theorem host_worker_files_witness: "io_disk (hw_io (hw_state [] None 2 [] [7, 8] [(demo_msg [7, 8], 18)])) 4 = [7, 8]"
proof -
  have fit: "\<forall>p. length (file_data (stream_header False) [(1, [7, 8])] p) < 2 ^ 64" by (simp add: file_data_def stream_header_def)
  have "demo_opn ''d/p1'' = 4" by code_simp
  then show ?thesis
    using host_worker_files [where p = 1, OF demo_fds _ hw_demo_run fit] by (simp add: hw_state_def stream_header_def)
qed

end
