(* ===== verification/Direct_Spill.thy ===== *)
theory Direct_Spill
  imports Host_Spill
begin

text \<open>
  \<^verbatim>\<open>DirectSpillWorker\<close> of \<^verbatim>\<open>lib/native/spill_worker.hxx\<close>, which writes partition buffers on the
  DPU to a disk that is handed over by \<^verbatim>\<open>DiskAgent\<close> of \<^verbatim>\<open>lib/native/disk_agent.hxx\<close> on the host, and
  the commands \<^verbatim>\<open>mount\<close> and \<^verbatim>\<open>umount\<close> of \<^verbatim>\<open>lib/native/offload.hxx\<close>. \<^verbatim>\<open>system\<close> is the function
  \<open>sys\<close> of the command that gives its exit code, \<^verbatim>\<open>open\<close> the function \<open>opn\<close>.
\<close>

section \<open>The worker\<close>

definition mount_command :: "string \<Rightarrow> string \<Rightarrow> string" where
  "mount_command dev mount_point = ''sudo mount '' @ dev @ '' '' @ mount_point"

definition umount_command :: "string \<Rightarrow> string" where
  "umount_command mount_point = ''sudo umount '' @ mount_point"

record DirectSpillWorker =
  dw_running :: bool
  dw_mounted :: bool
  dw_spill_q :: "PartitionBuffer list"
  dw_pulled :: "PartitionBuffer option"
  dw_io :: "PartitionBuffer spill_io"
  dw_mount_point :: string
  dw_output_device :: string
  dw_max_n_partition :: nat
  dw_issued_io :: u64
  dw_iovecs :: "MemoryRegion list"
  dw_base :: u64
  dw_piece_size :: u64
  dw_fixed :: "u64 list"
  dw_results :: "(PartitionBuffer \<times> u64) list"

text \<open>\<open>uninit\<close> is the value of \<^verbatim>\<open>max_n_partition\<close> before the first mount, which no constructor sets.\<close>

definition dw_new :: "BufferPool \<Rightarrow> string \<Rightarrow> string \<Rightarrow> nat \<Rightarrow> (int \<Rightarrow> u8 list) \<Rightarrow> DirectSpillWorker" where
  "dw_new bp mount_point output_device uninit disk =
    \<lparr>dw_running = True, dw_mounted = False, dw_spill_q = [], dw_pulled = None, dw_io = \<lparr>io_files = [], io_ring = [], io_disk = disk\<rparr>,
     dw_mount_point = mount_point, dw_output_device = output_device, dw_max_n_partition = uninit, dw_issued_io = 0,
     dw_iovecs = bp_q bp, dw_base = mr_base (bp_bs bp), dw_piece_size = bp_piece_size bp, dw_fixed = [], dw_results = []\<rparr>"

definition dw_do_mount :: "(string \<Rightarrow> int) \<Rightarrow> (string \<Rightarrow> int) \<Rightarrow> DirectSpillWorker \<Rightarrow> nat \<Rightarrow> (int \<times> DirectSpillWorker) result" where
  "dw_do_mount sys opn w max_n_partition =
    bnd (check (\<not> dw_mounted w) Die) (\<lambda>_.
    let rc = sys (mount_command (dw_output_device w) (dw_mount_point w)) in
    bnd (open_files opn (dw_mount_point w) False [0..<max_n_partition] (dw_io w)) (\<lambda>io.
      Inr (rc, w\<lparr>dw_max_n_partition := max_n_partition, dw_mounted := True, dw_io := io\<rparr>)))"

text \<open>
  The handler of an unmount request sleeps until the queue is empty and no write is in flight
  (\<open>None\<close>: it still does). The closed files stay in \<^verbatim>\<open>files\<close>.
\<close>

definition dw_do_umount :: "(string \<Rightarrow> int) \<Rightarrow> DirectSpillWorker \<Rightarrow> (int \<times> DirectSpillWorker) option result" where
  "dw_do_umount sys w =
    bnd (check (dw_mounted w) Die) (\<lambda>_.
      if dw_spill_q w \<noteq> [] \<or> dw_issued_io w \<noteq> 0 then Inr None
      else Inr (Some (sys (umount_command (dw_mount_point w)), w\<lparr>dw_mounted := False\<rparr>)))"

definition dw_pull :: "DirectSpillWorker \<Rightarrow> DirectSpillWorker" where
  "dw_pull w = (case dw_spill_q w of [] \<Rightarrow> w
     | task # q \<Rightarrow> if dw_running w \<and> dw_pulled w = None then w\<lparr>dw_spill_q := q, dw_pulled := Some task\<rparr> else w)"

definition dw_ready :: "DirectSpillWorker \<Rightarrow> bool" where
  "dw_ready w \<longleftrightarrow> dw_running w \<and> dw_pulled w \<noteq> None \<and> length (io_files (dw_io w)) = dw_max_n_partition w"

text \<open>The index of the registered buffer a task uses.\<close>

definition fixed_idx :: "DirectSpillWorker \<Rightarrow> PartitionBuffer \<Rightarrow> u64" where
  "fixed_idx w task = (mr_base (pb_region task) - dw_base w) div dw_piece_size w"

definition dw_submit_direct_spill :: "DirectSpillWorker \<Rightarrow> DirectSpillWorker result" where
  "dw_submit_direct_spill w =
    (case dw_pulled w of None \<Rightarrow> Inr w
     | Some task \<Rightarrow>
         if dw_ready w
         then bnd (issue_write (dw_io w) (partition_id task) (pb_bytes task) (actual_size task) task) (\<lambda>io.
                Inr (w\<lparr>dw_io := io, dw_pulled := None, dw_fixed := dw_fixed w @ [fixed_idx w task], dw_issued_io := dw_issued_io w + 1\<rparr>))
         else Inr w)"

definition dw_progress_io :: "DirectSpillWorker \<Rightarrow> nat \<Rightarrow> int \<Rightarrow> DirectSpillWorker" where
  "dw_progress_io w i res =
    (case ring_complete (dw_io w) i res of (task, io) \<Rightarrow>
       w\<lparr>dw_io := io, dw_results := dw_results w @ [(task, if 0 < res then total_size task else of_int res)],
         dw_issued_io := dw_issued_io w - 1\<rparr>)"

section \<open>The agent on the host\<close>

record DiskAgent =
  da_mount_point :: string
  da_output_device :: string
  da_max_n_partition :: nat
  da_mounted :: bool

definition da_new :: "string \<Rightarrow> string \<Rightarrow> nat \<Rightarrow> DiskAgent" where
  "da_new mount_point output_device max_n_partition =
    \<lparr>da_mount_point = mount_point, da_output_device = output_device, da_max_n_partition = max_n_partition, da_mounted = True\<rparr>"

text \<open>
  The two calls. The remote procedures are the worker's handlers, given as functions of the worker.
  Every command that was run is recorded.
\<close>

datatype disk_event = Host_umount | Dpu_mount | Dpu_umount | Host_mount

definition mount_on_dpu :: "(string \<Rightarrow> int) \<Rightarrow> ('w \<Rightarrow> nat \<Rightarrow> (int \<times> 'w) result) \<Rightarrow> DiskAgent \<times> 'w \<times> disk_event list \<Rightarrow> (DiskAgent \<times> 'w \<times> disk_event list) result" where
  "mount_on_dpu sys call = (\<lambda>(a, w, es).
    if \<not> da_mounted a then Inr (a, w, es)
    else bnd (check (sys (umount_command (da_mount_point a)) = 0) Die) (\<lambda>_.
         bnd (call w (da_max_n_partition a)) (\<lambda>(rc, w).
         bnd (check (rc = 0) Die) (\<lambda>_. Inr (a\<lparr>da_mounted := False\<rparr>, w, es @ [Host_umount, Dpu_mount])))))"

definition umount_on_dpu :: "(string \<Rightarrow> int) \<Rightarrow> ('w \<Rightarrow> (int \<times> 'w) option result) \<Rightarrow> DiskAgent \<times> 'w \<times> disk_event list \<Rightarrow> (DiskAgent \<times> 'w \<times> disk_event list) option result" where
  "umount_on_dpu sys call = (\<lambda>(a, w, es).
    if da_mounted a then Inr (Some (a, w, es))
    else bnd (call w) (\<lambda>r. case r of None \<Rightarrow> Inr None
         | Some (rc, w) \<Rightarrow>
             bnd (check (rc = 0) Die) (\<lambda>_.
             bnd (check (sys (mount_command (da_output_device a) (da_mount_point a)) = 0) Die) (\<lambda>_.
               Inr (Some (a\<lparr>da_mounted := True\<rparr>, w, es @ [Dpu_umount, Host_mount]))))))"

section \<open>Files of the worker\<close>

definition dw_written :: "DirectSpillWorker \<Rightarrow> nat \<times> u8 list" where
  "dw_written w = (case dw_pulled w of Some t \<Rightarrow> (unat (partition_id t), payload t) | None \<Rightarrow> (0, []))"

inductive dw_other :: "DirectSpillWorker \<Rightarrow> DirectSpillWorker \<Rightarrow> bool" where
  "dw_other w (w\<lparr>dw_spill_q := dw_spill_q w @ [t]\<rparr>)"
| "dw_other w (dw_pull w)"

interpretation direct: file_spiller dw_io dw_ready dw_written dw_submit_direct_spill dw_progress_io dw_other
proof
  fix w w' assume "dw_ready w" "dw_submit_direct_spill w = Inr w'"
  then obtain t where "dw_pulled w = Some t" "issue_write (dw_io w) (partition_id t) (pb_bytes t) (actual_size t) t = Inr (dw_io w')"
    by (auto simp: dw_submit_direct_spill_def dw_ready_def)
  then show "\<exists>pid bytes sz t. issue_write (dw_io w) pid bytes sz t = Inr (dw_io w') \<and> dw_written w = (unat pid, chunk bytes sizeof_PartitionDataHeader (unat sz))"
    by (auto simp: dw_written_def payload_def actual_data_def chunk_def intro!: exI)
next
  show "dw_io (dw_progress_io w i res) = snd (ring_complete (dw_io w) i res)" for w i res
    by (simp add: dw_progress_io_def split: prod.splits)
  show "dw_other w w' \<Longrightarrow> dw_io w' = dw_io w" for w w'
    by (induction rule: dw_other.induct) (auto simp: dw_pull_def split: list.splits)
qed

text \<open>The counter of issued writes is the number of writes in flight.\<close>

lemma issue_write_ring: "issue_write io pid bytes sz t = Inr io' \<Longrightarrow> length (io_ring io') = Suc (length (io_ring io))"
  by (auto simp: issue_write_def Let_def split: if_splits)

lemma ring_complete_ring: "i < length (io_ring io) \<Longrightarrow> Suc (length (io_ring (snd (ring_complete io i res)))) = length (io_ring io)"
  by (simp add: ring_complete_def Let_def)

lemma dw_issued:
  assumes "spill_run dw_io dw_ready dw_written dw_submit_direct_spill dw_progress_io dw_other w0 w log"
    "io_ring (dw_io w0) = []" "dw_issued_io w0 = 0"
  shows "dw_issued_io w = of_nat (length (io_ring (dw_io w))) \<and> length (io_ring (dw_io w)) \<le> length log \<and> dw_max_n_partition w = dw_max_n_partition w0"
  using assms
proof (induction rule: spill_run.induct)
  case start
  then show ?case by simp
next
  case (submit w log w')
  then obtain t io where "issue_write (dw_io w) (partition_id t) (pb_bytes t) (actual_size t) t = Inr io"
    "dw_io w' = io" "dw_issued_io w' = dw_issued_io w + 1" "dw_max_n_partition w' = dw_max_n_partition w"
    by (auto simp: dw_submit_direct_spill_def dw_ready_def)
  then show ?case using submit issue_write_ring by fastforce
next
  case (progress w log i res)
  have "dw_issued_io (dw_progress_io w i res) = dw_issued_io w - 1" "dw_max_n_partition (dw_progress_io w i res) = dw_max_n_partition w"
    by (simp_all add: dw_progress_io_def split: prod.splits)
  then show ?case using progress ring_complete_ring [OF progress.hyps(2), of res, symmetric] by (auto simp: direct.progress_io)
next
  case (other w log w')
  from other.hyps(2) have "dw_issued_io w' = dw_issued_io w \<and> dw_io w' = dw_io w \<and> dw_max_n_partition w' = dw_max_n_partition w"
    by (induction rule: dw_other.induct) (auto simp: dw_pull_def split: list.splits)
  then show ?case using other by simp
qed

lemma do_mount_ok:
  assumes fds: "fds_ok opn (dw_mount_point w) n" and w: "\<not> dw_mounted w" "io_files (dw_io w) = []" "io_ring (dw_io w) = []"
  obtains rc w0 where "dw_do_mount sys opn w n = Inr (rc, w0)" "rc = sys (mount_command (dw_output_device w) (dw_mount_point w))"
    "io_inv [] (dw_io w0) []" "length (io_files (dw_io w0)) = n" "\<forall>p < n. pf_fd (io_files (dw_io w0) ! p) = opn (partition_fname (dw_mount_point w) p)"
    "io_ring (dw_io w0) = []" "dw_issued_io w0 = dw_issued_io w" "dw_mounted w0" "dw_max_n_partition w0 = n"
proof -
  obtain io' where io': "open_files opn (dw_mount_point w) False [0..<n] (dw_io w) = Inr io'" "io_inv [] io' []" "length (io_files io') = n"
    "\<forall>p < n. pf_fd (io_files io' ! p) = opn (partition_fname (dw_mount_point w) p)"
    using open_files_inv [OF fds w(2,3), of False] by (auto simp: stream_header_def)
  have "io_ring io' = []" using open_files_ok [of "[0..<n]" opn "dw_mount_point w" False "dw_io w"] fds io'(1) w(3) by (auto simp: fds_ok_def)
  then show ?thesis using io' w(1)
    by (intro that [of _ "w\<lparr>dw_max_n_partition := n, dw_mounted := True, dw_io := io'\<rparr>"]) (simp_all add: dw_do_mount_def check_def)
qed

text \<open>
  When \<^verbatim>\<open>do_umount\<close> stops waiting and closes the partition files, no write is in flight and every
  file is complete: it holds the contents of the partition's buffers in the order in which they
  were submitted, in whatever order the writes were completed.
\<close>

theorem direct_umount_complete:
  assumes fds: "fds_ok opn mount_point n" and mount: "dw_do_mount sys opn (dw_new bp mount_point output_device uninit disk) n = Inr (rc, w0)"
    and run: "spill_run dw_io dw_ready dw_written dw_submit_direct_spill dw_progress_io dw_other w0 w log"
    and fit: "\<forall>p. length (file_data [] log p) < 2 ^ 64" "length log < 2 ^ 64"
    and umount: "dw_do_umount sys w = Inr (Some (rc', w'))" and p: "p < n"
  shows "io_ring (dw_io w') = [] \<and> io_disk (dw_io w') (opn (partition_fname mount_point p)) = concat (map snd (filter (\<lambda>r. fst r = p) log))"
proof -
  let ?w = "dw_new bp mount_point output_device uninit disk"
  have mp: "dw_mount_point ?w = mount_point" "\<not> dw_mounted ?w" "io_files (dw_io ?w) = []" "io_ring (dw_io ?w) = []" "dw_issued_io ?w = 0"
    by (simp_all add: dw_new_def)
  have fds': "fds_ok opn (dw_mount_point ?w) n" using fds by (simp only: mp)
  obtain rc1 w1 where w1: "dw_do_mount sys opn ?w n = Inr (rc1, w1)" "io_inv [] (dw_io w1) []" "length (io_files (dw_io w1)) = n"
    "\<forall>p < n. pf_fd (io_files (dw_io w1) ! p) = opn (partition_fname mount_point p)" "io_ring (dw_io w1) = []" "dw_issued_io w1 = 0"
    by (rule do_mount_ok [where sys = sys, OF fds' mp(2-4), unfolded mp])
  have eq: "w1 = w0" using w1(1) mount by simp
  have um: "dw_issued_io w = 0" "w' = w\<lparr>dw_mounted := False\<rparr>" using umount by (auto simp: dw_do_umount_def split: if_splits)
  have iss: "dw_issued_io w = of_nat (length (io_ring (dw_io w)))" and le: "length (io_ring (dw_io w)) \<le> length log"
    using dw_issued [OF run w1(5,6) [unfolded eq]] by blast+
  have l: "length (io_ring (dw_io w)) < 2 ^ 64" using le fit(2) by (rule le_less_trans)
  have io: "dw_io w' = dw_io w" using um(2) by simp
  have "unat (of_nat (length (io_ring (dw_io w))) :: u64) = 0" using iss um(1) by simp
  then have ring: "io_ring (dw_io w) = []" by (simp only: unat_of_nat_u64 [OF l] length_0_conv)
  show ?thesis using direct.files_complete [OF run w1(2) [unfolded eq] fit(1) ring, of p] p w1(3,4) eq ring by (simp add: io file_data_def)
qed

lemma open_files_length: "open_files opn dir h is io = Inr io' \<Longrightarrow> length (io_files io') = length (io_files io) + length is"
  by (induction "is" arbitrary: io) (auto simp: Let_def)

lemma direct_run_files:
  "spill_run dw_io dw_ready dw_written dw_submit_direct_spill dw_progress_io dw_other w0 w log \<Longrightarrow>
    length (io_files (dw_io w0)) \<noteq> dw_max_n_partition w0 \<Longrightarrow>
    log = [] \<and> length (io_files (dw_io w)) \<noteq> dw_max_n_partition w"
proof (induction rule: spill_run.induct)
  case (submit w log w')
  then show ?case by (simp add: dw_ready_def)
next
  case (other w log w')
  from other.hyps(2) have "dw_io w' = dw_io w \<and> dw_max_n_partition w' = dw_max_n_partition w"
    by (induction rule: dw_other.induct) (auto simp: dw_pull_def split: list.splits)
  then show ?case using other by simp
qed (simp_all add: dw_progress_io_def ring_complete_def Let_def)

text \<open>
  The worker does not survive a second mount: \<^verbatim>\<open>do_umount\<close> leaves the closed files in \<^verbatim>\<open>files\<close>
  and \<^verbatim>\<open>do_mount\<close> appends the new ones, so that the spiller's condition \<^verbatim>\<open>files.size() ==
  max_n_partition\<close> never holds again and no buffer is ever written after it.
\<close>

theorem direct_remount_stuck:
  assumes n: "n \<noteq> 0" and mount: "dw_do_mount sys opn (dw_new bp mount_point output_device uninit disk) n = Inr (rc, w0)"
    and umount: "dw_do_umount sys w0 = Inr (Some (rc', w1))" and remount: "dw_do_mount sys opn w1 n = Inr (rc'', w2)"
    and run: "spill_run dw_io dw_ready dw_written dw_submit_direct_spill dw_progress_io dw_other w2 w log"
  shows "log = [] \<and> \<not> dw_ready w"
proof -
  have "length (io_files (dw_io w0)) = n" using mount by (auto simp: dw_do_mount_def dw_new_def check_def Let_def open_files_length)
  moreover have "dw_io w1 = dw_io w0" "dw_mount_point w1 = mount_point" using umount mount
    by (auto simp: dw_do_umount_def dw_do_mount_def dw_new_def check_def Let_def split: if_splits)
  ultimately have "length (io_files (dw_io w2)) = n + n" "dw_max_n_partition w2 = n"
    using remount by (auto simp: dw_do_mount_def check_def Let_def open_files_length)
  then show ?thesis using direct_run_files [OF run] n by (simp add: dw_ready_def)
qed

text \<open>
  The index given to a fixed-buffer write names the registered buffer the task lies in: for the
  \<open>i\<close>-th piece of the pool it is \<open>i\<close>.
\<close>

theorem fixed_idx_correct:
  assumes "mr_base (pb_region task) = dw_base w + of_nat i * dw_piece_size w" "dw_piece_size w \<noteq> 0"
    "unat (dw_base w) + (i + 1) * unat (dw_piece_size w) \<le> 2 ^ 64"
  shows "fixed_idx w task = of_nat i"
proof -
  let ?p = "dw_piece_size w"
  have p: "0 < unat ?p" using assms(2) by (simp add: unat_gt_0)
  have le1: "i * unat ?p < 2 ^ 64" using assms(3) p by (simp add: algebra_simps)
  moreover have "i \<le> i * unat ?p" using p by simp
  ultimately have le: "i * unat ?p < 2 ^ 64" "i < 2 ^ 64" by (blast intro: le_less_trans)+
  have "unat (of_nat i * ?p) = i * unat ?p" using le by (simp add: unat_word_ariths unat_of_nat)
  then have "unat ((of_nat i * ?p) div ?p) = i" using p by (simp add: unat_div)
  then have "of_nat (unat ((of_nat i * ?p) div ?p)) = (of_nat i :: u64)" by simp
  then have "of_nat i * ?p div ?p = of_nat i" by (simp only: of_nat_unat ucast_id)
  then show ?thesis by (simp add: fixed_idx_def assms(1))
qed

section \<open>Handing over the disk\<close>

text \<open>
  Runs of an agent and its peer: the two calls of the agent, as far as they return, and steps of
  the peer between them.
\<close>

inductive disk_run :: "(string \<Rightarrow> int) \<Rightarrow> ('w \<Rightarrow> nat \<Rightarrow> (int \<times> 'w) result) \<Rightarrow> ('w \<Rightarrow> (int \<times> 'w) option result) \<Rightarrow> ('w \<Rightarrow> 'w \<Rightarrow> bool)
    \<Rightarrow> DiskAgent \<times> 'w \<times> disk_event list \<Rightarrow> DiskAgent \<times> 'w \<times> disk_event list \<Rightarrow> bool" for sys mnt umnt work s0 where
  start: "disk_run sys mnt umnt work s0 s0"
| mount: "disk_run sys mnt umnt work s0 s \<Longrightarrow> mount_on_dpu sys mnt s = Inr s' \<Longrightarrow> disk_run sys mnt umnt work s0 s'"
| umount: "disk_run sys mnt umnt work s0 s \<Longrightarrow> umount_on_dpu sys umnt s = Inr (Some s') \<Longrightarrow> disk_run sys mnt umnt work s0 s'"
| work: "disk_run sys mnt umnt work s0 (a, w, es) \<Longrightarrow> work w w' \<Longrightarrow> disk_run sys mnt umnt work s0 (a, w', es)"

text \<open>The commands of complete rounds, and of the round that is under way.\<close>

definition rounds :: "nat \<Rightarrow> disk_event list" where
  "rounds k = concat (replicate k [Host_umount, Dpu_mount, Dpu_umount, Host_mount])"

definition handed_over :: "bool \<Rightarrow> disk_event list" where
  "handed_over mounted = (if mounted then [] else [Host_umount, Dpu_mount])"

lemma rounds_Suc: "rounds (Suc k) = rounds k @ [Host_umount, Dpu_mount, Dpu_umount, Host_mount]"
  by (induction k) (simp_all add: rounds_def)

locale disk_peer =
  fixes mnt :: "'w \<Rightarrow> nat \<Rightarrow> (int \<times> 'w) result" and umnt :: "'w \<Rightarrow> (int \<times> 'w) option result"
    and work :: "'w \<Rightarrow> 'w \<Rightarrow> bool" and mounted :: "'w \<Rightarrow> bool"
  assumes mnt_mounted: "mnt w n = Inr (rc, w') \<Longrightarrow> \<not> mounted w \<and> mounted w'"
    and umnt_mounted: "umnt w = Inr (Some (rc, w')) \<Longrightarrow> mounted w \<and> \<not> mounted w'"
    and work_mounted: "work w w' \<Longrightarrow> mounted w' = mounted w"
begin

lemma run_exclusive:
  assumes "disk_run sys mnt umnt work (a0, w0, []) (a, w, es)" "da_mounted a0" "\<not> mounted w0"
  shows "mounted w = (\<not> da_mounted a) \<and> (\<exists>k. es = rounds k @ handed_over (da_mounted a))"
  using assms
proof (induction "(a, w, es)" arbitrary: a w es rule: disk_run.induct)
  case start
  then have "mounted w0 = (\<not> da_mounted a0) \<and> [] = rounds 0 @ handed_over (da_mounted a0)" by (simp add: rounds_def handed_over_def)
  then show ?case by blast
next
  case (mount s)
  obtain a1 w1 es1 where s: "s = (a1, w1, es1)" by (cases s)
  from mount(2) [OF s mount.prems] obtain k where k: "mounted w1 = (\<not> da_mounted a1)" "es1 = rounds k @ handed_over (da_mounted a1)" by blast
  show ?case
  proof (cases "da_mounted a1")
    case True
    then have "mounted w" "\<not> da_mounted a" "es = es1 @ [Host_umount, Dpu_mount]"
      using mount.hyps(3) s by (auto simp: mount_on_dpu_def dest: mnt_mounted)
    then show ?thesis using k True by (auto simp: handed_over_def)
  next
    case False
    then show ?thesis using mount.hyps(3) s k by (auto simp: mount_on_dpu_def)
  qed
next
  case (umount s)
  obtain a1 w1 es1 where s: "s = (a1, w1, es1)" by (cases s)
  from umount(2) [OF s umount.prems] obtain k where k: "mounted w1 = (\<not> da_mounted a1)" "es1 = rounds k @ handed_over (da_mounted a1)" by blast
  show ?case
  proof (cases "da_mounted a1")
    case True
    then show ?thesis using umount.hyps(3) s k by (auto simp: umount_on_dpu_def)
  next
    case False
    then have "\<not> mounted w" "da_mounted a" "es = es1 @ [Dpu_umount, Host_mount]"
      using umount.hyps(3) s by (auto simp: umount_on_dpu_def dest: umnt_mounted split: option.splits)
    then show ?thesis using k False rounds_Suc [of k] by (auto simp: handed_over_def intro!: exI [of _ "Suc k"])
  qed
next
  case (work a w es w')
  then show ?case using work_mounted by blast
qed

end

inductive dw_work :: "DirectSpillWorker \<Rightarrow> DirectSpillWorker \<Rightarrow> bool" where
  "dw_other w w' \<Longrightarrow> dw_work w w'"
| "dw_submit_direct_spill w = Inr w' \<Longrightarrow> dw_work w w'"
| "dw_work w (dw_progress_io w i res)"

lemma dw_work_mounted: "dw_work w w' \<Longrightarrow> dw_mounted w' = dw_mounted w"
proof (induction rule: dw_work.induct)
  case (1 w w')
  then show ?case by (induction rule: dw_other.induct) (auto simp: dw_pull_def split: list.splits)
qed (auto simp: dw_submit_direct_spill_def dw_progress_io_def split: option.splits if_splits prod.splits)

interpretation spill_disk: disk_peer "dw_do_mount sys opn" "dw_do_umount sys" dw_work dw_mounted for sys opn
  by unfold_locales (auto simp: dw_do_mount_def dw_do_umount_def Let_def check_def dw_work_mounted split: if_splits)


section \<open>Concrete runs\<close>

definition dw_state :: "bool \<Rightarrow> PartitionBuffer list \<Rightarrow> PartitionBuffer option \<Rightarrow> PartitionFile list \<Rightarrow> PartitionBuffer sqe list \<Rightarrow> u8 list \<Rightarrow> u64
    \<Rightarrow> u64 list \<Rightarrow> (PartitionBuffer \<times> u64) list \<Rightarrow> DirectSpillWorker" where
  "dw_state mounted q pulled files ring data issued fixed results =
    \<lparr>dw_running = True, dw_mounted = mounted, dw_spill_q = q, dw_pulled = pulled,
     dw_io = \<lparr>io_files = files, io_ring = ring, io_disk = (\<lambda>_. [])(3 := [], 4 := data)\<rparr>,
     dw_mount_point = ''d'', dw_output_device = ''e'', dw_max_n_partition = 2, dw_issued_io = issued,
     dw_iovecs = bp_q demo_bp, dw_base = 4096, dw_piece_size = 32, dw_fixed = fixed, dw_results = results\<rparr>"

definition dfiles :: "u64 \<Rightarrow> PartitionFile list" where
  "dfiles off = [\<lparr>pf_fd = 3, pf_partition_id = 0, pf_offset = 0\<rparr>, \<lparr>pf_fd = 4, pf_partition_id = 1, pf_offset = off\<rparr>]"

definition demo_q4 :: "PartitionBuffer sqe" where "demo_q4 = \<lparr>sq_fd = 4, sq_data = [7, 8], sq_off = 0, sq_task = demo_t2\<rparr>"

abbreviation demo_dw :: DirectSpillWorker where "demo_dw \<equiv> dw_new demo_bp ''d'' ''e'' 99 (\<lambda>_. [])"

lemmas dw_demo_defs = dw_state_def dfiles_def demo_q4_def demo_t2_def dw_do_mount_def dw_do_umount_def dw_new_def check_def Let_def upt_2 demo_opn_def
  stream_header_def dw_pull_def dw_submit_direct_spill_def dw_ready_def issue_write_def dw_progress_io_def ring_complete_def pwrite_def
  partition_id_def actual_size_def total_size_def fixed_idx_def demo_bp_def

lemma dw_demo_steps:
  "dw_do_mount (\<lambda>_. 0) demo_opn demo_dw 2 = Inr (0, dw_state True [] None (dfiles 0) [] [] 0 [] [])"
  "dw_pull (dw_state True [demo_t2] None (dfiles 0) [] [] 0 [] []) = dw_state True [] (Some demo_t2) (dfiles 0) [] [] 0 [] []"
  "dw_submit_direct_spill (dw_state True [] (Some demo_t2) (dfiles 0) [] [] 0 [] []) = Inr (dw_state True [] None (dfiles 2) [demo_q4] [] 1 [1] [])"
  "dw_progress_io (dw_state True [] None (dfiles 2) [demo_q4] [] 1 [1] []) 0 2 = dw_state True [] None (dfiles 2) [] [7, 8] 0 [1] [(demo_t2, 18)]"
  "dw_do_umount (\<lambda>_. 0) (dw_state True [] None (dfiles 2) [] [7, 8] 0 [1] [(demo_t2, 18)])
    = Inr (Some (0, dw_state False [] None (dfiles 2) [] [7, 8] 0 [1] [(demo_t2, 18)]))"
  "dw_do_umount (\<lambda>_. 0) (dw_state True [] None (dfiles 0) [] [] 0 [] []) = Inr (Some (0, dw_state False [] None (dfiles 0) [] [] 0 [] []))"
  "dw_do_mount (\<lambda>_. 0) demo_opn (dw_state False [] None (dfiles 0) [] [] 0 [] []) 2 = Inr (0, dw_state True [] None (dfiles 0 @ dfiles 0) [] [] 0 [] [])"
  by (simp_all add: dw_demo_defs)

lemma dw_demo_run:
  "spill_run dw_io dw_ready dw_written dw_submit_direct_spill dw_progress_io dw_other (dw_state True [] None (dfiles 0) [] [] 0 [] [])
    (dw_state True [] None (dfiles 2) [] [7, 8] 0 [1] [(demo_t2, 18)]) [(1, [7, 8])]"
proof -
  let ?s0 = "dw_state True [] None (dfiles 0) [] [] 0 [] []" and ?s2 = "dw_state True [] (Some demo_t2) (dfiles 0) [] [] 0 [] []"
  let ?run = "spill_run dw_io dw_ready dw_written dw_submit_direct_spill dw_progress_io dw_other ?s0"
  have w: "dw_ready ?s2" "dw_written ?s2 = (1, [7, 8])" by (simp_all add: dw_ready_def dw_state_def dfiles_def dw_written_def demo_t2_def partition_id_def payload_eq_chunk)
  have "?s0\<lparr>dw_spill_q := dw_spill_q ?s0 @ [demo_t2]\<rparr> = dw_state True [demo_t2] None (dfiles 0) [] [] 0 [] []" by (simp add: dw_state_def)
  then have 1: "?run (dw_state True [demo_t2] None (dfiles 0) [] [] 0 [] []) []"
    using spill_run.other [where other = dw_other, OF spill_run.start dw_other.intros(1)] by metis
  have 2: "?run ?s2 []" using spill_run.other [where other = dw_other, OF 1 dw_other.intros(2)] by (simp only: dw_demo_steps)
  have 3: "?run (dw_state True [] None (dfiles 2) [demo_q4] [] 1 [1] []) [(1, [7, 8])]" using spill_run.submit [OF 2 w(1) dw_demo_steps(3)] w(2) by simp
  show ?thesis using spill_run.progress [OF 3, of 0 2] by (simp only: dw_demo_steps) (simp add: dw_state_def demo_q4_def)
qed

theorem direct_umount_complete_witness:
  "io_disk (dw_io (dw_state False [] None (dfiles 2) [] [7, 8] 0 [1] [(demo_t2, 18)])) 4 = [7, 8]"
proof -
  have fit: "\<forall>p. length (file_data [] [(1, [7, 8])] p) < 2 ^ 64" "length [(1 :: nat, [7, 8 :: u8])] < 2 ^ 64" by (simp_all add: file_data_def)
  have "demo_opn ''d/p1'' = 4" by code_simp
  then show ?thesis using direct_umount_complete [where p = 1, OF demo_fds dw_demo_steps(1) dw_demo_run fit dw_demo_steps(5)] by simp
qed

theorem direct_remount_stuck_witness: "\<not> dw_ready (dw_state True [] (Some demo_t2) (dfiles 0 @ dfiles 0) [] [] 0 [] [])"
proof -
  let ?s = "dw_state True [] None (dfiles 0 @ dfiles 0) [] [] 0 [] []"
  have "dw_pull (?s\<lparr>dw_spill_q := dw_spill_q ?s @ [demo_t2]\<rparr>) = dw_state True [] (Some demo_t2) (dfiles 0 @ dfiles 0) [] [] 0 [] []"
    by (simp add: dw_pull_def dw_state_def)
  then show ?thesis
    using direct_remount_stuck [OF _ dw_demo_steps(1,6,7) spill_run.other [where other = dw_other,
        OF spill_run.other [where other = dw_other, OF spill_run.start dw_other.intros(1)] dw_other.intros(2)], of demo_t2] by simp
qed

theorem fixed_idx_correct_witness: "fixed_idx (dw_state True [] None (dfiles 0) [] [] 0 [] []) demo_t2 = 1"
  using fixed_idx_correct [of demo_t2 "dw_state True [] None (dfiles 0) [] [] 0 [] []" 1] by (simp add: dw_state_def demo_t2_def)


end
