(* ===== verification/Spill_Worker.thy ===== *)
theory Spill_Worker
  imports Partition_Buffer
begin

text \<open>
  \<^verbatim>\<open>SpillWorker\<close> and \<^verbatim>\<open>NaiveSpillWorker\<close> of \<^verbatim>\<open>lib/native/spill_worker.hxx\<close>, which receive partition
  buffers and queue them as tasks or send queued tasks on, and \<^verbatim>\<open>NaiveSpillAgent\<close> of
  \<^verbatim>\<open>lib/native/spill_agent.hxx\<close>. Handlers and transfer fibers are split where they wait; bytes and
  sizes that the transport reports are arguments.
\<close>

section \<open>Operations\<close>

record SpillWorker =
  sw_running :: bool
  sw_bp :: BufferPool
  sw_task_q :: "PartitionBuffer list"
  sw_transferring :: "PartitionBuffer list"
  sw_results :: "(PartitionBuffer \<times> u64) list"

definition sw_new :: "BufferPool \<Rightarrow> SpillWorker" where
  "sw_new bp = \<lparr>sw_running = True, sw_bp = bp, sw_task_q = [], sw_transferring = [], sw_results = []\<rparr>"

definition sw_handle_spill_request :: "SpillWorker \<Rightarrow> u8 list \<Rightarrow> u64 \<Rightarrow> SpillWorker result" where
  "sw_handle_spill_request w bytes n_read =
    (case acquire_one (sw_bp w) of
       (None, _) \<Rightarrow> Inl Die
     | (Some r, bp) \<Rightarrow>
         let task = pb_attach r bytes in
         bnd (check (total_size task = n_read) Die) (\<lambda>_.
           Inr (w\<lparr>sw_bp := bp, sw_task_q := sw_task_q w @ [task]\<rparr>)))"

definition sw_finish_request :: "SpillWorker \<Rightarrow> nat \<Rightarrow> (u64 \<times> SpillWorker) result" where
  "sw_finish_request w i =
    (case sw_results w ! i of (task, n_spill) \<Rightarrow>
       bnd (check (n_spill = total_size task) Die) (\<lambda>_.
       bnd (release_one (sw_bp w) (pb_region task)) (\<lambda>bp.
         Inr (total_size task, w\<lparr>sw_bp := bp, sw_results := take i (sw_results w) @ drop (Suc i) (sw_results w)\<rparr>))))"

text \<open>\<^verbatim>\<open>do_transfer\<close> of a consumer: take a task; pass on the size its transfer reports.\<close>

definition sw_take :: "SpillWorker \<Rightarrow> SpillWorker" where
  "sw_take w = (case sw_task_q w of [] \<Rightarrow> w
     | t # q \<Rightarrow> if sw_running w then w\<lparr>sw_task_q := q, sw_transferring := sw_transferring w @ [t]\<rparr> else w)"

definition sw_transferred :: "SpillWorker \<Rightarrow> nat \<Rightarrow> u64 \<Rightarrow> SpillWorker" where
  "sw_transferred w i n_bulk =
    w\<lparr>sw_transferring := take i (sw_transferring w) @ drop (Suc i) (sw_transferring w),
      sw_results := sw_results w @ [(sw_transferring w ! i, n_bulk)]\<rparr>"

text \<open>\<^verbatim>\<open>NaiveSpillWorker\<close>: a buffer of the size of the request, queued for the shuffle workers.\<close>

definition naive_handle_spill_request :: "u8 list list \<Rightarrow> u8 list \<Rightarrow> u8 list list" where
  "naive_handle_spill_request task_q buf = task_q @ [buf]"

definition naive_finish_request :: "u8 list \<Rightarrow> u64 \<Rightarrow> u64 \<Rightarrow> u64 result" where
  "naive_finish_request buf res n_read = bnd (check (res = of_nat (length buf)) Die) (\<lambda>_. Inr n_read)"

text \<open>\<^verbatim>\<open>NaiveSpillAgent::do_spill\<close>, one iteration of a fiber for which the pool has a buffer.\<close>

record NaiveSpillAgent =
  na_running :: bool
  na_q :: "u8 list list"
  na_bp :: BufferPool
  na_results :: "(u8 list \<times> u64) list"

definition na_do_spill :: "(u8 list \<Rightarrow> u64) \<Rightarrow> NaiveSpillAgent \<Rightarrow> NaiveSpillAgent result" where
  "na_do_spill bulk a =
    (case na_q a of [] \<Rightarrow> Inr a
     | task # q \<Rightarrow>
         if \<not> na_running a then Inr a
         else (case acquire_one (na_bp a) of (None, _) \<Rightarrow> Inr a
           | (Some r, bp) \<Rightarrow>
               bnd (check (length task \<le> unat (mr_len r)) Out_of_bounds) (\<lambda>_.
               bnd (check (bulk task = of_nat (length task)) Die) (\<lambda>_.
               bnd (release_one bp r) (\<lambda>bp.
                 Inr (a\<lparr>na_q := q, na_bp := bp, na_results := na_results a @ [(task, of_nat (length task))]\<rparr>))))))"

section \<open>The buffers of a worker\<close>

inductive sw_reach :: "SpillWorker \<Rightarrow> SpillWorker \<Rightarrow> bool" for w0 where
  start: "sw_reach w0 w0"
| request: "sw_reach w0 w \<Longrightarrow> sw_handle_spill_request w bytes n = Inr w' \<Longrightarrow> sw_reach w0 w'"
| finish: "sw_reach w0 w \<Longrightarrow> i < length (sw_results w) \<Longrightarrow> sw_finish_request w i = Inr (n, w') \<Longrightarrow> sw_reach w0 w'"
| take: "sw_reach w0 w \<Longrightarrow> sw_reach w0 (sw_take w)"
| transferred: "sw_reach w0 w \<Longrightarrow> i < length (sw_transferring w) \<Longrightarrow> sw_reach w0 (sw_transferred w i n)"

definition sw_tasks :: "SpillWorker \<Rightarrow> PartitionBuffer list" where
  "sw_tasks w = sw_task_q w @ sw_transferring w @ map fst (sw_results w)"

lemma sw_pool_inv:
  assumes "sw_reach w0 w"
  shows "mset (map pb_region (sw_tasks w)) + mset (bp_q (sw_bp w)) = mset (map pb_region (sw_tasks w0)) + mset (bp_q (sw_bp w0))
    \<and> bp_bs (sw_bp w) = bp_bs (sw_bp w0) \<and> bp_piece_size (sw_bp w) = bp_piece_size (sw_bp w0)"
  using assms
proof (induction rule: sw_reach.induct)
  case start
  then show ?case by simp
next
  case (request w bytes n w')
  then show ?case by (auto simp: sw_handle_spill_request_def acquire_one_def sw_tasks_def pb_attach_def Let_def split: list.splits)
next
  case (finish w i n w')
  obtain t k where r: "sw_results w ! i = (t, k)" by (cases "sw_results w ! i")
  from finish.hyps(3) r obtain bp where bp: "release_one (sw_bp w) (pb_region t) = Inr bp"
    "w' = w\<lparr>sw_bp := bp, sw_results := take i (sw_results w) @ drop (Suc i) (sw_results w)\<rparr>"
    by (auto simp: sw_finish_request_def)
  have "mset (sw_results w) = add_mset (t, k) (mset (take i (sw_results w) @ drop (Suc i) (sw_results w)))"
    using mset_remove_nth [OF finish.hyps(2)] r by simp
  moreover have "bp_q bp = bp_q (sw_bp w) @ [pb_region t]" "bp_bs bp = bp_bs (sw_bp w)" "bp_piece_size bp = bp_piece_size (sw_bp w)"
    using bp(1) by (auto simp: release_one_def)
  ultimately show ?case using finish.IH by (simp add: bp(2) sw_tasks_def image_mset.compositionality comp_def ac_simps)
next
  case (take w)
  then show ?case by (cases "sw_task_q w") (simp_all add: sw_take_def sw_tasks_def ac_simps)
next
  case (transferred w i n)
  have "mset (sw_transferring w) = add_mset (sw_transferring w ! i) (mset (take i (sw_transferring w) @ drop (Suc i) (sw_transferring w)))"
    using mset_remove_nth [OF transferred.hyps(2)] by simp
  then show ?case using transferred.IH by (simp add: sw_transferred_def sw_tasks_def ac_simps)
qed

text \<open>
  C16. The buffers of a receiving \<^verbatim>\<open>SpillWorker\<close> are never lost or shared, whatever the interleaving of
  requests and transfers, and a request is refused with \<^verbatim>\<open>Too fast\<close> exactly when as many requests
  are unanswered as the pool has buffers.
\<close>

theorem spill_worker_buffers:
  assumes "sw_reach (sw_new bp) w" and "n_read = header_length bytes"
  shows "mset (map pb_region (sw_tasks w)) + mset (bp_q (sw_bp w)) = mset (bp_q bp)
    \<and> (sw_handle_spill_request w bytes n_read = Inl Die \<longleftrightarrow> length (sw_tasks w) = length (bp_q bp))"
proof -
  have inv: "mset (map pb_region (sw_tasks w)) + mset (bp_q (sw_bp w)) = mset (bp_q bp)"
    using sw_pool_inv [OF assms(1)] by (simp add: sw_new_def sw_tasks_def)
  then have "size (mset (map pb_region (sw_tasks w)) + mset (bp_q (sw_bp w))) = size (mset (bp_q bp))" by (rule arg_cong)
  then have "length (sw_tasks w) + length (bp_q (sw_bp w)) = length (bp_q bp)" by simp
  then have "length (sw_tasks w) = length (bp_q bp) \<longleftrightarrow> bp_q (sw_bp w) = []" by (cases "bp_q (sw_bp w)") simp_all
  moreover have "sw_handle_spill_request w bytes n_read = Inl Die \<longleftrightarrow> bp_q (sw_bp w) = []"
    using assms(2) by (simp add: sw_handle_spill_request_def acquire_one_def pb_attach_def total_size_def check_def Let_def split: list.splits)
  ultimately show ?thesis using inv by simp
qed

definition demo_sw_pool :: BufferPool where
  "demo_sw_pool = \<lparr>bp_bs = \<lparr>mr_base = 4096, mr_len = 32\<rparr>, bp_piece_size = 32, bp_q = [\<lparr>mr_base = 4096, mr_len = 32\<rparr>], bp_mem = (\<lambda>_. 0), bp_mt = False\<rparr>"

definition demo_sw :: SpillWorker where
  "demo_sw = (sw_new demo_sw_pool)\<lparr>sw_bp := demo_sw_pool\<lparr>bp_q := []\<rparr>, sw_task_q := [pb_attach \<lparr>mr_base = 4096, mr_len = 32\<rparr> (replicate 32 0)]\<rparr>"

theorem spill_worker_buffers_witness: "sw_handle_spill_request demo_sw (replicate 32 0) 0 = Inl Die"
proof -
  have h: "header_length (replicate 32 0) = 0" by code_simp
  have "sw_handle_spill_request (sw_new demo_sw_pool) (replicate 32 0) 0 = Inr demo_sw"
    using h by (simp add: sw_handle_spill_request_def sw_new_def acquire_one_def demo_sw_pool_def demo_sw_def pb_attach_def total_size_def check_def Let_def)
  then have "sw_reach (sw_new demo_sw_pool) demo_sw" by (rule sw_reach.request [OF sw_reach.start])
  from spill_worker_buffers [OF this, of 0 "replicate 32 0"] h show ?thesis by (simp add: sw_tasks_def demo_sw_def sw_new_def demo_sw_pool_def)
qed

end
