(* ===== verification/Shuffle_Worker.thy ===== *)
theory Shuffle_Worker
  imports Spill_Worker
begin

text \<open>
  \<^verbatim>\<open>lib/native/shuffle_worker.hxx\<close>: the workers on the DPU between receiving and storing partition
  data. \<^verbatim>\<open>fn\<close> decides which partitions belong to the other node, \<^verbatim>\<open>pfn\<close> splits a buffer into
  partitions; both come from the caller, as do the sizes the transports report for a transfer.
\<close>

section \<open>\<open>ShuffleWorker\<close>\<close>

record ShuffleWorker =
  shw_running :: bool
  shw_local_task_q :: "PartitionBuffer list"
  shw_remote_task_q :: "PartitionBuffer list"
  shw_spill_q :: "PartitionBuffer list"
  shw_results :: "(PartitionBuffer \<times> u64) list"

text \<open>One iteration of \<^verbatim>\<open>handle_spill_task\<close> on a task that was taken from its queue.\<close>

definition redirect :: "(nat \<Rightarrow> bool) \<Rightarrow> (PartitionBuffer \<Rightarrow> u64 \<Rightarrow> u64) \<Rightarrow> ShuffleWorker \<Rightarrow> PartitionBuffer \<Rightarrow> ShuffleWorker result" where
  "redirect fn bulk w task =
    (if fn (unat (partition_id task))
     then let len = actual_size task in
          bnd (check (bulk task len = len) Die) (\<lambda>_. Inr (w\<lparr>shw_results := shw_results w @ [(task, len)]\<rparr>))
     else Inr (w\<lparr>shw_spill_q := shw_spill_q w @ [task]\<rparr>))"

definition handle_spill_task :: "(nat \<Rightarrow> bool) \<Rightarrow> (PartitionBuffer \<Rightarrow> u64 \<Rightarrow> u64) \<Rightarrow> ShuffleWorker \<Rightarrow> bool \<Rightarrow> ShuffleWorker result" where
  "handle_spill_task fn bulk w from_remote =
    (case (if from_remote then shw_remote_task_q w else shw_local_task_q w) of
       [] \<Rightarrow> Inr w
     | task # q \<Rightarrow>
         if \<not> shw_running w then Inr w
         else redirect fn bulk (if from_remote then w\<lparr>shw_remote_task_q := q\<rparr> else w\<lparr>shw_local_task_q := q\<rparr>) task)"

section \<open>\<open>NaiveShuffleWorkerPool\<close>\<close>

record NaiveShuffleWorkerPool =
  np_running :: bool
  np_ldq :: "u8 list list"
  np_rdq :: "u8 list list"
  np_n_rdma :: nat
  np_active_rdma_idx :: u64
  np_io_sent :: "u8 list list"
  np_rdma_sent :: "(nat \<times> u8 list) list"
  np_results :: "(u8 list \<times> u64) list"

definition np_new :: "nat \<Rightarrow> nat \<Rightarrow> NaiveShuffleWorkerPool result" where
  "np_new n_worker n_rdma = bnd (check (4 \<le> n_worker) Die) (\<lambda>_.
    Inr \<lparr>np_running = True, np_ldq = [], np_rdq = [], np_n_rdma = n_rdma, np_active_rdma_idx = 0, np_io_sent = [], np_rdma_sent = [], np_results = []\<rparr>)"

definition np_stop :: "NaiveShuffleWorkerPool \<Rightarrow> NaiveShuffleWorkerPool" where
  "np_stop p = p\<lparr>np_running := False\<rparr>"

definition submit_task :: "NaiveShuffleWorkerPool \<Rightarrow> u8 list \<Rightarrow> bool \<Rightarrow> NaiveShuffleWorkerPool" where
  "submit_task p t from_remote = (if from_remote then p\<lparr>np_rdq := np_rdq p @ [t]\<rparr> else p\<lparr>np_ldq := np_ldq p @ [t]\<rparr>)"

text \<open>
  A worker sleeps until \<open>np_wake\<close>; then it takes a task under the lock. \<open>None\<close> ends the worker; after a
  stop, \<^verbatim>\<open>front\<close> is also called on an empty queue, while the other queue is not.
\<close>

definition np_wake :: "NaiveShuffleWorkerPool \<Rightarrow> bool \<Rightarrow> bool" where
  "np_wake p serve_remote \<longleftrightarrow> \<not> np_running p \<or> (if serve_remote then np_rdq p else np_ldq p) \<noteq> []"

definition np_take :: "NaiveShuffleWorkerPool \<Rightarrow> bool \<Rightarrow> (u8 list \<times> NaiveShuffleWorkerPool) option result" where
  "np_take p serve_remote =
    (if \<not> np_running p \<and> np_ldq p = [] \<and> np_rdq p = [] then Inr None
     else case (if serve_remote then np_rdq p else np_ldq p) of
       [] \<Rightarrow> Inl Out_of_bounds
     | t # q \<Rightarrow> Inr (Some (t, if serve_remote then p\<lparr>np_rdq := q\<rparr> else p\<lparr>np_ldq := q\<rparr>)))"

text \<open>Joining the partitions to one buffer, with their offsets and lengths.\<close>

primrec scatter_partitions :: "u8 list list \<Rightarrow> u8 list \<times> nat list \<times> nat list \<Rightarrow> u8 list \<times> nat list \<times> nat list" where
  "scatter_partitions [] st = st"
| "scatter_partitions (p # ps) st =
    (case st of (scatter, offsets, lengths) \<Rightarrow> scatter_partitions ps (scatter @ p, offsets @ [length scatter], lengths @ [length p]))"

definition remote_ps :: "(nat \<Rightarrow> bool) \<Rightarrow> nat list \<Rightarrow> nat list" where
  "remote_ps fn lengths = filter fn [0..<length lengths]"
definition local_ps :: "(nat \<Rightarrow> bool) \<Rightarrow> nat list \<Rightarrow> nat list" where
  "local_ps fn lengths = filter (\<lambda>pid. \<not> fn pid) [0..<length lengths]"

text \<open>A transfer of some partitions of the joined buffer: every one must report the size of the whole.\<close>

definition send_partitions :: "(u8 list \<Rightarrow> u64) \<Rightarrow> u8 list \<Rightarrow> nat list \<Rightarrow> nat list \<Rightarrow> nat list \<Rightarrow> u8 list list result" where
  "send_partitions bulk scatter offsets lengths ps =
    (let datas = map (\<lambda>pid. chunk scatter (offsets ! pid) (lengths ! pid)) ps in
     bnd (check (\<forall>d \<in> set datas. bulk d = of_nat (length scatter)) Die) (\<lambda>_. Inr datas))"

definition do_shuffle_task :: "(nat \<Rightarrow> bool) \<Rightarrow> (u8 list \<Rightarrow> u8 list list) \<Rightarrow> (u8 list \<Rightarrow> u64) \<Rightarrow> NaiveShuffleWorkerPool \<Rightarrow> bool \<Rightarrow> u8 list
    \<Rightarrow> NaiveShuffleWorkerPool result" where
  "do_shuffle_task fn pfn bulk p serve_remote b =
    bnd (if serve_remote
         then bnd (check (bulk b = of_nat (length b)) Die) (\<lambda>_. Inr (p\<lparr>np_io_sent := np_io_sent p @ [b]\<rparr>))
         else case scatter_partitions (pfn b) ([], [], []) of (scatter, offsets, lengths) \<Rightarrow>
           bnd (send_partitions bulk scatter offsets lengths (local_ps fn lengths)) (\<lambda>sent.
           let p = p\<lparr>np_io_sent := np_io_sent p @ sent\<rparr>;
               idx = (if 1 < np_n_rdma p then unat (np_active_rdma_idx p) mod np_n_rdma p else 0);
               p = (if 1 < np_n_rdma p then p\<lparr>np_active_rdma_idx := np_active_rdma_idx p + 1\<rparr> else p) in
           bnd (check (idx < np_n_rdma p) Out_of_bounds) (\<lambda>_.
           bnd (send_partitions bulk scatter offsets lengths (local_ps fn lengths)) (\<lambda>sent.
             Inr (p\<lparr>np_rdma_sent := np_rdma_sent p @ map (Pair idx) sent\<rparr>)))))
      (\<lambda>p. Inr (p\<lparr>np_results := np_results p @ [(b, of_nat (length b))]\<rparr>))"

section \<open>\<open>PipelineShuffleWorkerPool\<close>\<close>

record PipelineShuffleWorkerPool =
  pl_lsqs :: "PartitionBuffer list list"
  pl_rsqs :: "PartitionBuffer list list"
  pl_trsqs_i :: u32
  pl_trsqs :: "PartitionBuffer list list"
  pl_dsq :: "PartitionBuffer list"

definition pl_new :: "nat \<Rightarrow> nat \<Rightarrow> nat \<Rightarrow> PipelineShuffleWorkerPool" where
  "pl_new n_l n_r n_t = \<lparr>pl_lsqs = replicate n_l [], pl_rsqs = replicate n_r [], pl_trsqs_i = 0, pl_trsqs = replicate n_t [], pl_dsq = []\<rparr>"

definition all_queue_empty :: "PipelineShuffleWorkerPool \<Rightarrow> bool" where
  "all_queue_empty p \<longleftrightarrow> list_all (\<lambda>q. q = []) (pl_lsqs p) \<and> list_all (\<lambda>q. q = []) (pl_rsqs p)"

text \<open>The next queue towards the other node: the index is taken modulo the number of \<^verbatim>\<open>rsqs\<close>.\<close>

definition choose_one_trsq :: "PipelineShuffleWorkerPool \<Rightarrow> (nat \<times> PipelineShuffleWorkerPool) result" where
  "choose_one_trsq p =
    (let i = pl_trsqs_i p + 1; n = length (pl_rsqs p) in
     bnd (check (n \<noteq> 0 \<and> unat i mod n < length (pl_trsqs p)) Out_of_bounds) (\<lambda>_. Inr (unat i mod n, p\<lparr>pl_trsqs_i := i\<rparr>)))"

definition dispatch_one :: "(nat \<Rightarrow> bool) \<Rightarrow> PartitionBuffer \<Rightarrow> PipelineShuffleWorkerPool \<Rightarrow> PipelineShuffleWorkerPool result" where
  "dispatch_one fn t p =
    (if fn (unat (partition_id t))
     then bnd (choose_one_trsq p) (\<lambda>(k, p). Inr (p\<lparr>pl_trsqs := (pl_trsqs p)[k := pl_trsqs p ! k @ [t]]\<rparr>))
     else Inr (p\<lparr>pl_dsq := pl_dsq p @ [t]\<rparr>))"

text \<open>The two loops of a round of \<^verbatim>\<open>do_dispatch\<close>: the queues \<open>i\<close>, \<open>i + 1\<close>, \<open>\<dots>\<close>, at most one task each.\<close>

primrec dispatch_lsqs :: "(nat \<Rightarrow> bool) \<Rightarrow> nat list \<Rightarrow> PipelineShuffleWorkerPool \<Rightarrow> PipelineShuffleWorkerPool result" where
  "dispatch_lsqs fn [] p = Inr p"
| "dispatch_lsqs fn (i # is) p =
    (case pl_lsqs p ! i of [] \<Rightarrow> dispatch_lsqs fn is p
     | t # q \<Rightarrow> bnd (dispatch_one fn t (p\<lparr>pl_lsqs := (pl_lsqs p)[i := q]\<rparr>)) (dispatch_lsqs fn is))"

primrec dispatch_rsqs :: "nat list \<Rightarrow> PipelineShuffleWorkerPool \<Rightarrow> PipelineShuffleWorkerPool" where
  "dispatch_rsqs [] p = p"
| "dispatch_rsqs (i # is) p =
    (case pl_rsqs p ! i of [] \<Rightarrow> dispatch_rsqs is p
     | t # q \<Rightarrow> dispatch_rsqs is (p\<lparr>pl_rsqs := (pl_rsqs p)[i := q], pl_dsq := pl_dsq p @ [t]\<rparr>))"

definition do_dispatch_round :: "(nat \<Rightarrow> bool) \<Rightarrow> PipelineShuffleWorkerPool \<Rightarrow> PipelineShuffleWorkerPool result" where
  "do_dispatch_round fn p =
    bnd (dispatch_lsqs fn [0..<length (pl_lsqs p)] p) (\<lambda>p. Inr (dispatch_rsqs [0..<length (pl_rsqs p)] p))"

section \<open>Naive shuffle\<close>

lemma scatter_partitions_acc:
  "scatter_partitions ps (sc, os, ls) = (sc @ concat ps, os @ map (\<lambda>i. length sc + length (concat (take i ps))) [0..<length ps], ls @ map length ps)"
proof (induction ps arbitrary: sc os ls)
  case Nil
  then show ?case by simp
next
  case (Cons p ps)
  have "map (\<lambda>i. length sc + length (concat (take i (p # ps)))) [0..<length (p # ps)]
    = length sc # map (\<lambda>i. length (sc @ p) + length (concat (take i ps))) [0..<length ps]"
    by (simp add: upt_conv_Cons map_Suc_upt [symmetric] del: upt_Suc)
  then show ?case using Cons.IH [of "sc @ p" "os @ [length sc]" "ls @ [length p]"] by simp
qed

lemma chunk_concat: "i < length ps \<Longrightarrow> chunk (concat ps) (length (concat (take i ps))) (length (ps ! i)) = ps ! i"
proof -
  assume "i < length ps"
  then have "concat ps = concat (take i ps) @ ps ! i @ concat (drop (Suc i) ps)" by (metis concat.simps(2) concat_append id_take_nth_drop)
  then show ?thesis by (simp add: chunk_def)
qed

text \<open>The transfers of some partitions carry exactly these partitions.\<close>

lemma send_partitions_scatter:
  assumes "scatter_partitions ps ([], [], []) = (scatter, offsets, lengths)" "\<forall>pid \<in> set ids. pid < length ps"
  shows "send_partitions bulk scatter offsets lengths ids
    = (if \<forall>pid \<in> set ids. bulk (ps ! pid) = of_nat (length (concat ps)) then Inr (map ((!) ps) ids) else Inl Die)"
proof -
  have "map (\<lambda>pid. chunk scatter (offsets ! pid) (lengths ! pid)) ids = map ((!) ps) ids"
    using assms by (auto simp: scatter_partitions_acc chunk_concat)
  moreover have "scatter = concat ps" using assms(1) by (simp add: scatter_partitions_acc)
  ultimately show ?thesis by (simp add: send_partitions_def check_def Let_def)
qed

lemma local_ps_bound: "lengths = map length ps \<Longrightarrow> pid \<in> set (local_ps fn lengths) \<longleftrightarrow> pid < length ps \<and> \<not> fn pid"
  by (auto simp: local_ps_def)

text \<open>
  C19. What a naive shuffle of a local buffer sends when it succeeds: over the channel to the host
  exactly the partitions that stay on this node, unchanged and in order, and the same partitions
  once more over RDMA. The partitions of the other node (\<^verbatim>\<open>remote_ps\<close>) are not sent at all.
\<close>

theorem naive_shuffle_sends:
  assumes "do_shuffle_task fn pfn bulk p False b = Inr p'"
  shows "\<exists>idx. np_io_sent p' = np_io_sent p @ map ((!) (pfn b)) (filter (\<lambda>pid. \<not> fn pid) [0..<length (pfn b)])
    \<and> np_rdma_sent p' = np_rdma_sent p @ map (\<lambda>pid. (idx, pfn b ! pid)) (filter (\<lambda>pid. \<not> fn pid) [0..<length (pfn b)])"
proof -
  obtain scatter offsets lengths where sc: "scatter_partitions (pfn b) ([], [], []) = (scatter, offsets, lengths)" by (cases "scatter_partitions (pfn b) ([], [], [])")
  have l: "lengths = map length (pfn b)" using sc by (simp add: scatter_partitions_acc)
  note send = send_partitions_scatter [OF sc, of "local_ps fn lengths" bulk]
  show ?thesis using assms sc send local_ps_bound [OF l, of _ fn]
    by (auto simp: do_shuffle_task_def Let_def local_ps_def l split: if_splits)
qed

text \<open>
  With transfers that report what they sent, a naive shuffle of a local buffer kills the process
  whenever a partition that stays on this node is not the whole data: the size of every transfer
  is compared with the size of all partitions together.
\<close>

theorem naive_shuffle_dies:
  assumes bulk: "\<forall>d. bulk d = of_nat (length d)" and pid: "pid < length (pfn b)" "\<not> fn pid"
    and l: "length (pfn b ! pid) \<noteq> length (concat (pfn b))" "length (concat (pfn b)) < 2 ^ 64"
  shows "do_shuffle_task fn pfn bulk p False b = Inl Die"
proof -
  obtain scatter offsets lengths where sc: "scatter_partitions (pfn b) ([], [], []) = (scatter, offsets, lengths)" by (cases "scatter_partitions (pfn b) ([], [], [])")
  have len: "lengths = map length (pfn b)" using sc by (simp add: scatter_partitions_acc)
  have "length (pfn b ! pid) \<le> length (concat (pfn b))" using arg_cong [OF chunk_concat [OF pid(1)], of length] by simp
  then have "(of_nat (length (pfn b ! pid)) :: u64) \<noteq> of_nat (length (concat (pfn b)))"
    using l unat_of_nat_u64 [of "length (pfn b ! pid)"] unat_of_nat_u64 [OF l(2)] by (metis le_less_trans)
  then have "send_partitions bulk scatter offsets lengths (local_ps fn lengths) = Inl Die"
    using send_partitions_scatter [OF sc, of "local_ps fn lengths" bulk] local_ps_bound [OF len] pid bulk by auto
  then show ?thesis by (simp add: do_shuffle_task_def sc)
qed

section \<open>Redirecting\<close>

text \<open>
  A buffer that \<^verbatim>\<open>ShuffleWorker\<close> has transferred to the other node always kills the worker that
  received it: the shuffle worker answers with the size without header, \<^verbatim>\<open>handle_spill_request\<close>
  expects the size with header.
\<close>

theorem redirect_result_rejected:
  assumes "pb_wf t" "fn (unat (partition_id t))" "bulk t (actual_size t) = actual_size t"
  shows "\<exists>w'. redirect fn bulk w t = Inr w' \<and> (sw_results v ! i = last (shw_results w') \<longrightarrow> sw_finish_request v i = Inl Die)"
proof -
  have "actual_size t \<noteq> total_size t" using actual_size_unat [OF assms(1)] assms(1) by (auto simp: pb_wf_def)
  then show ?thesis using assms by (auto simp: redirect_def check_def sw_finish_request_def Let_def)
qed

section \<open>Dispatching\<close>

abbreviation is_remote :: "(nat \<Rightarrow> bool) \<Rightarrow> PartitionBuffer \<Rightarrow> bool" where
  "is_remote fn t \<equiv> fn (unat (partition_id t))"

definition heads :: "'a list list \<Rightarrow> 'a list" where
  "heads qs = concat (map (take 1) qs)"

text \<open>There is a queue towards the other node for every queue from it.\<close>

definition pl_ok :: "PipelineShuffleWorkerPool \<Rightarrow> bool" where
  "pl_ok p \<longleftrightarrow> 0 < length (pl_rsqs p) \<and> length (pl_rsqs p) \<le> length (pl_trsqs p)"

lemma dispatch_one_ok:
  assumes "pl_ok p"
  obtains p' where "dispatch_one fn t p = Inr p'" "pl_lsqs p' = pl_lsqs p" "pl_rsqs p' = pl_rsqs p" "pl_ok p'"
    "pl_dsq p' = pl_dsq p @ (if is_remote fn t then [] else [t])"
    "mset (concat (pl_trsqs p')) = mset (concat (pl_trsqs p)) + mset (if is_remote fn t then [t] else [])"
proof (cases "is_remote fn t")
  case True
  let ?k = "unat (pl_trsqs_i p + 1) mod length (pl_rsqs p)"
  have k: "?k < length (pl_trsqs p)" using assms by (meson less_le_trans mod_less_divisor pl_ok_def)
  let ?p = "p\<lparr>pl_trsqs_i := pl_trsqs_i p + 1, pl_trsqs := (pl_trsqs p)[?k := pl_trsqs p ! ?k @ [t]]\<rparr>"
  have "dispatch_one fn t p = Inr ?p" using True k assms by (simp add: dispatch_one_def choose_one_trsq_def check_def pl_ok_def Let_def)
  moreover have "mset (concat ((pl_trsqs p)[?k := pl_trsqs p ! ?k @ [t]])) + mset (pl_trsqs p ! ?k) = mset (concat (pl_trsqs p)) + mset (pl_trsqs p ! ?k @ [t])"
    using k by (rule mset_concat_update)
  then have "mset (concat (pl_trsqs ?p)) = mset (concat (pl_trsqs p)) + mset [t]" by simp
  ultimately show ?thesis using True assms by (intro that [of ?p]) (simp_all add: pl_ok_def)
next
  case False
  then show ?thesis using assms by (intro that [of "p\<lparr>pl_dsq := pl_dsq p @ [t]\<rparr>"]) (simp_all add: dispatch_one_def pl_ok_def)
qed

lemma dispatch_lsqs_ok:
  assumes "pl_ok p" "distinct is" "\<forall>i \<in> set is. i < length (pl_lsqs p)"
  obtains p' where "dispatch_lsqs fn is p = Inr p'" "pl_rsqs p' = pl_rsqs p" "pl_ok p'" "length (pl_lsqs p') = length (pl_lsqs p)"
    "\<forall>j < length (pl_lsqs p). pl_lsqs p' ! j = (if j \<in> set is then tl (pl_lsqs p ! j) else pl_lsqs p ! j)"
    "pl_dsq p' = pl_dsq p @ filter (\<lambda>t. \<not> is_remote fn t) (heads (map ((!) (pl_lsqs p)) is))"
    "mset (concat (pl_trsqs p')) = mset (concat (pl_trsqs p)) + mset (filter (is_remote fn) (heads (map ((!) (pl_lsqs p)) is)))"
  using assms
proof (induction "is" arbitrary: p thesis)
  case Nil
  show ?case using Nil.prems(1) [of p] Nil.prems(2) by (simp add: heads_def)
next
  case (Cons i "is")
  show ?case
  proof (cases "pl_lsqs p ! i")
    case Nil
    obtain p' where p': "dispatch_lsqs fn is p = Inr p'" "pl_rsqs p' = pl_rsqs p" "pl_ok p'" "length (pl_lsqs p') = length (pl_lsqs p)"
      "\<forall>j < length (pl_lsqs p). pl_lsqs p' ! j = (if j \<in> set is then tl (pl_lsqs p ! j) else pl_lsqs p ! j)"
      "pl_dsq p' = pl_dsq p @ filter (\<lambda>t. \<not> is_remote fn t) (heads (map ((!) (pl_lsqs p)) is))"
      "mset (concat (pl_trsqs p')) = mset (concat (pl_trsqs p)) + mset (filter (is_remote fn) (heads (map ((!) (pl_lsqs p)) is)))"
      using Cons.IH [OF _ Cons.prems(2)] Cons.prems(3,4) by auto
    show ?thesis using Cons.prems(1) [of p'] p' Nil by (simp add: heads_def)
  next
    case (Cons t q)
    let ?p = "p\<lparr>pl_lsqs := (pl_lsqs p)[i := q]\<rparr>"
    obtain p1 where p1: "dispatch_one fn t ?p = Inr p1" "pl_lsqs p1 = (pl_lsqs p)[i := q]" "pl_rsqs p1 = pl_rsqs p" "pl_ok p1"
      "pl_dsq p1 = pl_dsq p @ (if is_remote fn t then [] else [t])"
      "mset (concat (pl_trsqs p1)) = mset (concat (pl_trsqs p)) + mset (if is_remote fn t then [t] else [])"
      using dispatch_one_ok [of ?p fn t] Cons.prems(2) by (auto simp: pl_ok_def)
    have i: "i \<notin> set is" "distinct is" "\<forall>j \<in> set is. j < length (pl_lsqs p1)" using Cons.prems(3,4) p1(2) by auto
    have m: "map ((!) (pl_lsqs p1)) is = map ((!) (pl_lsqs p)) is" using i(1) p1(2) by (intro map_cong) (simp_all, metis nth_list_update_neq)
    obtain p' where p': "dispatch_lsqs fn is p1 = Inr p'" "pl_rsqs p' = pl_rsqs p1" "pl_ok p'" "length (pl_lsqs p') = length (pl_lsqs p1)"
      "\<forall>j < length (pl_lsqs p1). pl_lsqs p' ! j = (if j \<in> set is then tl (pl_lsqs p1 ! j) else pl_lsqs p1 ! j)"
      "pl_dsq p' = pl_dsq p1 @ filter (\<lambda>t. \<not> is_remote fn t) (heads (map ((!) (pl_lsqs p1)) is))"
      "mset (concat (pl_trsqs p')) = mset (concat (pl_trsqs p1)) + mset (filter (is_remote fn) (heads (map ((!) (pl_lsqs p1)) is)))"
      using Cons.IH [OF _ p1(4) i(2,3)] by metis
    have lsqs: "\<forall>j < length (pl_lsqs p). pl_lsqs p' ! j = (if j \<in> set (i # is) then tl (pl_lsqs p ! j) else pl_lsqs p ! j)"
      using p'(5) p1(2) Cons i(1) Cons.prems(4) by (auto simp: nth_list_update)
    have h: "heads (map ((!) (pl_lsqs p)) (i # is)) = t # heads (map ((!) (pl_lsqs p)) is)" using Cons by (simp add: heads_def)
    have d: "pl_dsq p' = pl_dsq p @ filter (\<lambda>t. \<not> is_remote fn t) (heads (map ((!) (pl_lsqs p)) (i # is)))"
      unfolding h p'(6) m p1(5) by simp
    have r: "mset (concat (pl_trsqs p')) = mset (concat (pl_trsqs p)) + mset (filter (is_remote fn) (heads (map ((!) (pl_lsqs p)) (i # is))))"
      unfolding h p'(7) m p1(6) by simp
    show ?thesis by (rule Cons.prems(1) [OF _ _ p'(3) _ lsqs d r]) (use p1 p' Cons in simp_all)
  qed
qed

lemma dispatch_rsqs_ok:
  assumes "distinct is" "\<forall>i \<in> set is. i < length (pl_rsqs p)"
  shows "length (pl_rsqs (dispatch_rsqs is p)) = length (pl_rsqs p)
    \<and> (\<forall>j < length (pl_rsqs p). pl_rsqs (dispatch_rsqs is p) ! j = (if j \<in> set is then tl (pl_rsqs p ! j) else pl_rsqs p ! j))
    \<and> pl_dsq (dispatch_rsqs is p) = pl_dsq p @ heads (map ((!) (pl_rsqs p)) is)
    \<and> pl_lsqs (dispatch_rsqs is p) = pl_lsqs p \<and> pl_trsqs (dispatch_rsqs is p) = pl_trsqs p"
  using assms
proof (induction "is" arbitrary: p)
  case Nil
  then show ?case by (simp add: heads_def)
next
  case (Cons i "is")
  show ?case
  proof (cases "pl_rsqs p ! i")
    case Nil
    then show ?thesis using Cons.IH [of p] Cons.prems by (auto simp: heads_def)
  next
    case (Cons t q)
    let ?p = "p\<lparr>pl_rsqs := (pl_rsqs p)[i := q], pl_dsq := pl_dsq p @ [t]\<rparr>"
    have m: "map ((!) ((pl_rsqs p)[i := q])) is = map ((!) (pl_rsqs p)) is" using Cons.prems(1) by (intro map_cong) (simp_all, metis nth_list_update_neq)
    have ih: "length (pl_rsqs (dispatch_rsqs is ?p)) = length (pl_rsqs p)"
      "\<forall>j < length (pl_rsqs p). pl_rsqs (dispatch_rsqs is ?p) ! j = (if j \<in> set is then tl (pl_rsqs ?p ! j) else pl_rsqs ?p ! j)"
      "pl_dsq (dispatch_rsqs is ?p) = pl_dsq p @ t # heads (map ((!) (pl_rsqs p)) is)"
      "pl_lsqs (dispatch_rsqs is ?p) = pl_lsqs p" "pl_trsqs (dispatch_rsqs is ?p) = pl_trsqs p"
      using Cons.IH [of ?p] Cons.prems m by simp_all
    have "\<forall>j < length (pl_rsqs p). pl_rsqs (dispatch_rsqs is ?p) ! j = (if j \<in> set (i # is) then tl (pl_rsqs p ! j) else pl_rsqs p ! j)"
      using ih(2) Cons Cons.prems by (auto simp: nth_list_update)
    then show ?thesis using ih Cons by (simp add: heads_def)
  qed
qed

lemma dispatch_round_ok:
  assumes "pl_ok p"
  obtains p' where "do_dispatch_round fn p = Inr p'" "pl_ok p'" "pl_lsqs p' = map tl (pl_lsqs p)" "pl_rsqs p' = map tl (pl_rsqs p)"
    "pl_dsq p' = pl_dsq p @ filter (\<lambda>t. \<not> is_remote fn t) (heads (pl_lsqs p)) @ heads (pl_rsqs p)"
    "mset (concat (pl_trsqs p')) = mset (concat (pl_trsqs p)) + mset (filter (is_remote fn) (heads (pl_lsqs p)))"
proof -
  obtain p1 where p1: "dispatch_lsqs fn [0..<length (pl_lsqs p)] p = Inr p1" "pl_rsqs p1 = pl_rsqs p" "pl_ok p1" "length (pl_lsqs p1) = length (pl_lsqs p)"
    "\<forall>j < length (pl_lsqs p). pl_lsqs p1 ! j = tl (pl_lsqs p ! j)"
    "pl_dsq p1 = pl_dsq p @ filter (\<lambda>t. \<not> is_remote fn t) (heads (pl_lsqs p))"
    "mset (concat (pl_trsqs p1)) = mset (concat (pl_trsqs p)) + mset (filter (is_remote fn) (heads (pl_lsqs p)))"
    using dispatch_lsqs_ok [OF assms, of "[0..<length (pl_lsqs p)]" fn] by (auto simp: map_nth)
  let ?p = "dispatch_rsqs [0..<length (pl_rsqs p1)] p1"
  have r: "length (pl_rsqs ?p) = length (pl_rsqs p)" "\<forall>j < length (pl_rsqs p). pl_rsqs ?p ! j = tl (pl_rsqs p ! j)"
    "pl_dsq ?p = pl_dsq p1 @ heads (pl_rsqs p)" "pl_lsqs ?p = pl_lsqs p1" "pl_trsqs ?p = pl_trsqs p1"
    using dispatch_rsqs_ok [of "[0..<length (pl_rsqs p1)]" p1] p1(2) by (simp_all add: map_nth)
  have "pl_lsqs ?p = map tl (pl_lsqs p)" "pl_rsqs ?p = map tl (pl_rsqs p)" using p1(4,5) r by (auto intro!: nth_equalityI)
  then show ?thesis using p1 r by (intro that [of ?p]) (auto simp: do_dispatch_round_def pl_ok_def)
qed


text \<open>Rounds until the queues are drained.\<close>

primrec dispatch_rounds :: "(nat \<Rightarrow> bool) \<Rightarrow> nat \<Rightarrow> PipelineShuffleWorkerPool \<Rightarrow> PipelineShuffleWorkerPool result" where
  "dispatch_rounds fn 0 p = Inr p"
| "dispatch_rounds fn (Suc k) p = bnd (do_dispatch_round fn p) (dispatch_rounds fn k)"

lemma mset_heads: "mset (concat qs) = mset (heads qs) + mset (concat (map tl qs))"
proof (induction qs)
  case Nil
  then show ?case by (simp add: heads_def)
next
  case (Cons q qs)
  then show ?case by (cases q) (simp_all add: heads_def ac_simps)
qed

lemma mset_filter_heads: "mset (filter P (concat qs)) = mset (filter P (heads qs)) + mset (filter P (concat (map tl qs)))"
  using arg_cong [OF mset_heads [of qs], of "filter_mset P"] by simp

text \<open>
  C18. The dispatcher drains its queues: after as many rounds as the longest queue has tasks, all
  queues it serves are empty, and every task has been forwarded exactly once, to the disk queue or
  towards the other node as its partition demands.
\<close>

theorem dispatch_drains:
  assumes "0 < length (pl_rsqs p)" "length (pl_rsqs p) \<le> length (pl_trsqs p)" "\<forall>q \<in> set (pl_lsqs p @ pl_rsqs p). length q \<le> k"
  shows "\<exists>p'. dispatch_rounds fn k p = Inr p' \<and> all_queue_empty p'
    \<and> mset (pl_dsq p') = mset (pl_dsq p) + mset (filter (\<lambda>t. \<not> is_remote fn t) (concat (pl_lsqs p))) + mset (concat (pl_rsqs p))
    \<and> mset (concat (pl_trsqs p')) = mset (concat (pl_trsqs p)) + mset (filter (is_remote fn) (concat (pl_lsqs p)))"
  using assms
proof (induction k arbitrary: p)
  case 0
  then have "concat (pl_lsqs p) = []" "concat (pl_rsqs p) = []" by auto
  moreover have "all_queue_empty p" using 0 by (simp add: all_queue_empty_def list_all_iff)
  ultimately show ?case by (simp del: concat_eq_Nil_conv mset_concat)
next
  case (Suc k)
  then have "pl_ok p" by (simp add: pl_ok_def)
  then obtain p1 where p1: "do_dispatch_round fn p = Inr p1" "pl_ok p1" "pl_lsqs p1 = map tl (pl_lsqs p)" "pl_rsqs p1 = map tl (pl_rsqs p)"
    "pl_dsq p1 = pl_dsq p @ filter (\<lambda>t. \<not> is_remote fn t) (heads (pl_lsqs p)) @ heads (pl_rsqs p)"
    "mset (concat (pl_trsqs p1)) = mset (concat (pl_trsqs p)) + mset (filter (is_remote fn) (heads (pl_lsqs p)))"
    by (rule dispatch_round_ok)
  have "\<forall>q \<in> set (pl_lsqs p1 @ pl_rsqs p1). length q \<le> k" using Suc.prems(3) p1(3,4) by (fastforce simp: le_diff_conv)
  then obtain p' where p': "dispatch_rounds fn k p1 = Inr p'" "all_queue_empty p'"
    "mset (pl_dsq p') = mset (pl_dsq p1) + mset (filter (\<lambda>t. \<not> is_remote fn t) (concat (pl_lsqs p1))) + mset (concat (pl_rsqs p1))"
    "mset (concat (pl_trsqs p')) = mset (concat (pl_trsqs p1)) + mset (filter (is_remote fn) (concat (pl_lsqs p1)))"
    using Suc.IH [of p1] p1(2) by (auto simp: pl_ok_def simp del: mset_concat)
  have "mset (pl_dsq p') = mset (pl_dsq p) + mset (filter (\<lambda>t. \<not> is_remote fn t) (concat (pl_lsqs p))) + mset (concat (pl_rsqs p))"
    unfolding p'(3) p1(5) p1(3) p1(4) mset_filter_heads [of _ "pl_lsqs p"] mset_heads [of "pl_rsqs p"] by (simp only: mset_append ac_simps)
  moreover have "mset (concat (pl_trsqs p')) = mset (concat (pl_trsqs p)) + mset (filter (is_remote fn) (concat (pl_lsqs p)))"
    unfolding p'(4) p1(6) p1(3) mset_filter_heads [of _ "pl_lsqs p"] by (simp only: ac_simps)
  ultimately show ?case using p1(1) p'(1,2) by (simp del: mset_concat)
qed

section \<open>Concrete runs\<close>

definition demo_task :: "u64 \<Rightarrow> PartitionBuffer" where
  "demo_task pid = \<lparr>pb_region = \<lparr>mr_base = 4096, mr_len = 32\<rparr>, pb_bytes = u64_bytes pid @ u64_bytes 18 @ [1, 2]\<rparr>"

definition demo_pipeline :: PipelineShuffleWorkerPool where
  "demo_pipeline = \<lparr>pl_lsqs = [[demo_task 1, demo_task 0]], pl_rsqs = [[demo_task 2]], pl_trsqs_i = 0, pl_trsqs = [[]], pl_dsq = []\<rparr>"

lemma demo_task_id: "partition_id (demo_task pid) = pid" "header_length (pb_bytes (demo_task pid)) = 18"
  by (simp_all add: partition_id_def header_partition_id_def header_length_def demo_task_def chunk_def)


theorem dispatch_drains_witness:
  "\<exists>p'. dispatch_rounds (\<lambda>pid. pid = 1) 2 demo_pipeline = Inr p' \<and> all_queue_empty p' \<and> mset (pl_dsq p') = {#demo_task 0, demo_task 2#}"
  using dispatch_drains [of demo_pipeline 2 "\<lambda>pid. pid = 1"] by (auto simp: demo_pipeline_def demo_task_id)

definition demo_naive :: NaiveShuffleWorkerPool where
  "demo_naive = \<lparr>np_running = True, np_ldq = [], np_rdq = [], np_n_rdma = 1, np_active_rdma_idx = 0, np_io_sent = [], np_rdma_sent = [], np_results = []\<rparr>"

definition demo_pfn :: "u8 list \<Rightarrow> u8 list list" where
  "demo_pfn b = [filter (\<lambda>x. x < 128) b, filter (\<lambda>x. \<not> x < 128) b]"

theorem naive_shuffle_sends_witness:
  "\<exists>p'. do_shuffle_task (\<lambda>pid. pid = 1) demo_pfn (\<lambda>d. of_nat (length d)) demo_naive False [1, 2, 3] = Inr p'
     \<and> np_io_sent p' = [[1, 2, 3]] \<and> map snd (np_rdma_sent p') = [[1, 2, 3]]"
proof -
  obtain p' where p': "do_shuffle_task (\<lambda>pid. pid = 1) demo_pfn (\<lambda>d. of_nat (length d)) demo_naive False [1, 2, 3] = Inr p'"
  proof -
    have "\<not> isl (do_shuffle_task (\<lambda>pid. pid = 1) demo_pfn (\<lambda>d. of_nat (length d)) demo_naive False [1, 2, 3])" by code_simp
    then show ?thesis using that by (metis isl_def sumE)
  qed
  have "np_io_sent demo_naive = []" "np_rdma_sent demo_naive = []" by (simp_all add: demo_naive_def)
  with naive_shuffle_sends [OF p'] p' show ?thesis by (auto simp: demo_pfn_def)
qed

theorem naive_shuffle_dies_witness:
  "do_shuffle_task (\<lambda>pid. pid = 1) demo_pfn (\<lambda>d. of_nat (length d)) demo_naive False [1, 200] = Inl Die"
  by (rule naive_shuffle_dies [where pid = 0]) (simp_all add: demo_pfn_def)

theorem redirect_result_rejected_witness:
  "\<exists>w'. redirect (\<lambda>_. True) (\<lambda>_ n. n) \<lparr>shw_running = True, shw_local_task_q = [], shw_remote_task_q = [], shw_spill_q = [], shw_results = []\<rparr> (demo_task 1) = Inr w'
    \<and> (sw_results ((sw_new demo_sw_pool)\<lparr>sw_results := [(demo_task 1, 2)]\<rparr>) ! 0 = last (shw_results w')
        \<longrightarrow> sw_finish_request ((sw_new demo_sw_pool)\<lparr>sw_results := [(demo_task 1, 2)]\<rparr>) 0 = Inl Die)"
proof -
  have "pb_wf (demo_task 1)" using demo_task_id(2) [of 1] by (simp add: pb_wf_def total_size_def) (simp add: demo_task_def)
  then show ?thesis by (intro redirect_result_rejected) simp_all
qed

end
