(* ===== verification/Offload_Cluster.thy ===== *)
theory Offload_Cluster
  imports Spill_Records Direct_Spill Shuffle_Worker
begin

text \<open>
  \<^verbatim>\<open>app/offload_server/offload_server.cxx\<close>: the workers of a DPU put together, for the two nodes that
  serve each other, with the spill agents of their hosts. A node reads the buffers its host sends and
  those the other node forwards into buffers of \<^verbatim>\<open>spill_bp\<close>; the dispatcher passes a buffer on to the
  disk worker if its partition belongs to the node, and towards the other node if not.

  The queues that the C++ workers share by reference are kept once, in the node, and handed to the
  operations of the workers. Every operation of a worker thread or fiber, on the hosts and on the
  nodes, is a step; the steps of all of them interleave.
\<close>

section \<open>A node\<close>

record node =
  nd_host :: arun
  nd_wire :: "PartitionBuffer list"
  nd_bp :: BufferPool
  nd_q :: PipelineShuffleWorkerPool
  nd_fwd :: "PartitionBuffer list"
  nd_unacked :: "PartitionBuffer list"
  nd_finished :: "nat list"
  nd_disk :: DirectSpillWorker
  nd_log :: "(nat \<times> u8 list) list"

text \<open>
  The server with its host's agent: \<open>nd_wire\<close> are the buffers whose transfer the agent has started,
  \<open>nd_fwd\<close> and \<open>nd_unacked\<close> those a consumer transfers to the other node before and after they were read
  there, \<open>nd_finished\<close> the results of the disk worker whose handlers have returned, and \<open>nd_log\<close> what the
  disk worker has submitted.
\<close>

definition server_main :: "arun \<Rightarrow> BufferPool \<Rightarrow> nat \<Rightarrow> nat \<Rightarrow> DirectSpillWorker \<Rightarrow> node" where
  "server_main host spill_bp n_l_worker n_r_worker dsw =
    \<lparr>nd_host = host, nd_wire = [], nd_bp = enable_mt spill_bp, nd_q = pl_new n_l_worker n_r_worker n_r_worker,
     nd_fwd = [], nd_unacked = [], nd_finished = [], nd_disk = dsw, nd_log = []\<rparr>"

text \<open>A worker over the shared pool and one of the queues.\<close>

definition worker_on :: "BufferPool \<Rightarrow> PartitionBuffer list \<Rightarrow> SpillWorker" where
  "worker_on bp q = (sw_new bp)\<lparr>sw_task_q := q\<rparr>"

text \<open>What \<^verbatim>\<open>bulk_read\<close> leaves in a buffer that held \<open>old\<close>; the device refuses a buffer that is too small.\<close>

definition received :: "PartitionBuffer \<Rightarrow> u8 list \<Rightarrow> u8 list" where
  "received b old = patch old 0 (take (unat (total_size b)) (pb_bytes b))"

definition read_into :: "BufferPool \<Rightarrow> PartitionBuffer list \<Rightarrow> PartitionBuffer \<Rightarrow> u8 list \<Rightarrow> SpillWorker result" where
  "read_into bp q b old =
    bnd (check (unat (total_size b) \<le> length old) Die) (\<lambda>_.
      sw_handle_spill_request (worker_on bp q) (received b old) (total_size b))"

text \<open>Producer \<open>i\<close> of the host reads the \<open>k\<close>-th buffer on the wire; producer \<open>i\<close> of the other node reads \<open>b\<close>.\<close>

definition nd_receive :: "node \<Rightarrow> nat \<Rightarrow> nat \<Rightarrow> u8 list \<Rightarrow> node result" where
  "nd_receive nd k i old =
    bnd (read_into (nd_bp nd) (pl_lsqs (nd_q nd) ! i) (nd_wire nd ! k) old) (\<lambda>w.
      Inr (nd\<lparr>nd_wire := take k (nd_wire nd) @ drop (Suc k) (nd_wire nd), nd_bp := sw_bp w,
              nd_q := (nd_q nd)\<lparr>pl_lsqs := (pl_lsqs (nd_q nd))[i := sw_task_q w]\<rparr>\<rparr>))"

definition nd_receive_remote :: "node \<Rightarrow> PartitionBuffer \<Rightarrow> nat \<Rightarrow> u8 list \<Rightarrow> node result" where
  "nd_receive_remote nd b i old =
    bnd (read_into (nd_bp nd) (pl_rsqs (nd_q nd) ! i) b old) (\<lambda>w.
      Inr (nd\<lparr>nd_bp := sw_bp w, nd_q := (nd_q nd)\<lparr>pl_rsqs := (pl_rsqs (nd_q nd))[i := sw_task_q w]\<rparr>\<rparr>))"

text \<open>A round of the dispatcher; consumer \<open>k\<close> takes a task and starts its transfer, which is read by the other node.\<close>

definition nd_dispatch :: "(nat \<Rightarrow> bool) \<Rightarrow> node \<Rightarrow> node result" where
  "nd_dispatch fn nd =
    bnd (do_dispatch_round fn ((nd_q nd)\<lparr>pl_dsq := dw_spill_q (nd_disk nd)\<rparr>)) (\<lambda>q.
      Inr (nd\<lparr>nd_q := q\<lparr>pl_dsq := []\<rparr>, nd_disk := (nd_disk nd)\<lparr>dw_spill_q := pl_dsq q\<rparr>\<rparr>))"

definition nd_consume :: "node \<Rightarrow> nat \<Rightarrow> node" where
  "nd_consume nd k =
    (let w = sw_take (worker_on (nd_bp nd) (pl_trsqs (nd_q nd) ! k)) in
     nd\<lparr>nd_q := (nd_q nd)\<lparr>pl_trsqs := (pl_trsqs (nd_q nd))[k := sw_task_q w]\<rparr>, nd_fwd := nd_fwd nd @ sw_transferring w\<rparr>)"

definition nd_read_by_peer :: "node \<Rightarrow> nat \<Rightarrow> node" where
  "nd_read_by_peer nd k = nd\<lparr>nd_fwd := take k (nd_fwd nd) @ drop (Suc k) (nd_fwd nd), nd_unacked := nd_unacked nd @ [nd_fwd nd ! k]\<rparr>"

text \<open>The handler of a task resumes when the disk worker or a consumer has set its result.\<close>

definition nd_finish :: "node \<Rightarrow> nat \<Rightarrow> node result" where
  "nd_finish nd i =
    bnd (sw_finish_request ((sw_new (nd_bp nd))\<lparr>sw_results := [dw_results (nd_disk nd) ! i]\<rparr>) 0) (\<lambda>(_, w).
      Inr (nd\<lparr>nd_bp := sw_bp w, nd_finished := i # nd_finished nd\<rparr>))"

definition nd_forwarded :: "node \<Rightarrow> nat \<Rightarrow> u64 \<Rightarrow> node result" where
  "nd_forwarded nd i n_bulk =
    bnd (sw_finish_request (sw_transferred ((sw_new (nd_bp nd))\<lparr>sw_transferring := [nd_unacked nd ! i]\<rparr>) 0 n_bulk) 0) (\<lambda>(_, w).
      Inr (nd\<lparr>nd_bp := sw_bp w, nd_unacked := take i (nd_unacked nd) @ drop (Suc i) (nd_unacked nd)\<rparr>))"

section \<open>Steps\<close>

inductive node_step :: "(nat \<Rightarrow> bool) \<Rightarrow> (PartitionBuffer \<Rightarrow> u64) \<Rightarrow> node \<Rightarrow> node \<Rightarrow> bool" for fn bulk where
  host: "agent_step bulk (nd_host nd) s \<Longrightarrow>
    node_step fn bulk nd (nd\<lparr>nd_host := s, nd_wire := nd_wire nd @ drop (length (ar_sent (nd_host nd))) (ar_sent s)\<rparr>)"
| receive: "k < length (nd_wire nd) \<Longrightarrow> i < length (pl_lsqs (nd_q nd)) \<Longrightarrow> nd_receive nd k i old = Inr nd' \<Longrightarrow> node_step fn bulk nd nd'"
| dispatch: "nd_dispatch fn nd = Inr nd' \<Longrightarrow> node_step fn bulk nd nd'"
| consume: "k < length (pl_trsqs (nd_q nd)) \<Longrightarrow> node_step fn bulk nd (nd_consume nd k)"
| pull: "node_step fn bulk nd (nd\<lparr>nd_disk := dw_pull (nd_disk nd)\<rparr>)"
| submit: "dw_ready (nd_disk nd) \<Longrightarrow> dw_submit_direct_spill (nd_disk nd) = Inr w \<Longrightarrow>
    node_step fn bulk nd (nd\<lparr>nd_disk := w, nd_log := nd_log nd @ [dw_written (nd_disk nd)]\<rparr>)"
| progress: "i < length (io_ring (dw_io (nd_disk nd))) \<Longrightarrow> nat res = length (sq_data (io_ring (dw_io (nd_disk nd)) ! i)) \<Longrightarrow>
    node_step fn bulk nd (nd\<lparr>nd_disk := dw_progress_io (nd_disk nd) i res\<rparr>)"
| finish: "i < length (dw_results (nd_disk nd)) \<Longrightarrow> i \<notin> set (nd_finished nd) \<Longrightarrow> nd_finish nd i = Inr nd' \<Longrightarrow> node_step fn bulk nd nd'"
| forwarded: "i < length (nd_unacked nd) \<Longrightarrow> nd_forwarded nd i n = Inr nd' \<Longrightarrow> node_step fn bulk nd nd'"

text \<open>
  The nodes \<^verbatim>\<open>dpu21\<close> (\<open>True\<close>) and \<^verbatim>\<open>dpu20\<close> (\<open>False\<close>): the even partitions are remote for the first, the
  odd ones for the second.
\<close>

type_synonym cluster = "bool \<Rightarrow> node"

definition remote_fn :: "bool \<Rightarrow> nat \<Rightarrow> bool" where
  "remote_fn dpu21 pid = (if dpu21 then pid mod 2 = 0 else pid mod 2 = 1)"

inductive cluster_step :: "(PartitionBuffer \<Rightarrow> u64) \<Rightarrow> cluster \<Rightarrow> cluster \<Rightarrow> bool" for bulk where
  local: "node_step (remote_fn y) bulk (c y) nd \<Longrightarrow> cluster_step bulk c (c(y := nd))"
| remote: "k < length (nd_fwd (c y)) \<Longrightarrow> i < length (pl_rsqs (nd_q (c (\<not> y)))) \<Longrightarrow>
    nd_receive_remote (c (\<not> y)) (nd_fwd (c y) ! k) i old = Inr nd \<Longrightarrow>
    cluster_step bulk c (c(y := nd_read_by_peer (c y) k, (\<not> y) := nd))"

inductive cluster_reach :: "(PartitionBuffer \<Rightarrow> u64) \<Rightarrow> cluster \<Rightarrow> cluster \<Rightarrow> bool" for bulk c0 where
  start: "cluster_reach bulk c0 c0"
| step: "cluster_reach bulk c0 c \<Longrightarrow> cluster_step bulk c c' \<Longrightarrow> cluster_reach bulk c0 c'"

section \<open>Where a buffer can be\<close>

text \<open>
  What counts of a buffer is its partition and its data. On the way to the dispatcher (\<open>unsorted\<close>) it may
  belong to either node, behind it either to the other one (\<open>away\<close>) or to this one (\<open>home\<close>).
\<close>

definition item :: "PartitionBuffer \<Rightarrow> nat \<times> u8 list" where
  "item b = (unat (partition_id b), payload b)"

definition filled :: "PartitionBuffer \<Rightarrow> bool" where
  "filled b \<longleftrightarrow> 16 \<le> unat (total_size b) \<and> unat (total_size b) \<le> length (pb_bytes b)"

definition unsorted :: "node \<Rightarrow> PartitionBuffer multiset" where
  "unsorted nd = mset (nd_wire nd) + mset (concat (pl_lsqs (nd_q nd)))"

definition away :: "node \<Rightarrow> PartitionBuffer multiset" where
  "away nd = mset (concat (pl_trsqs (nd_q nd))) + mset (nd_fwd nd)"

definition home :: "node \<Rightarrow> PartitionBuffer multiset" where
  "home nd = mset (concat (pl_rsqs (nd_q nd))) + mset (dw_spill_q (nd_disk nd)) + (case dw_pulled (nd_disk nd) of None \<Rightarrow> {#} | Some t \<Rightarrow> {#t#})"

definition node_items :: "node \<Rightarrow> (nat \<times> u8 list) multiset" where
  "node_items nd = image_mset item (unsorted nd + away nd + home nd) + mset (nd_log nd)"

definition sent_items :: "node \<Rightarrow> (nat \<times> u8 list) multiset" where
  "sent_items nd = image_mset item (mset (ar_sent (nd_host nd)))"

definition node_inv :: "(nat \<Rightarrow> bool) \<Rightarrow> (PartitionBuffer \<Rightarrow> u64) \<Rightarrow> arun \<Rightarrow> DirectSpillWorker \<Rightarrow> node \<Rightarrow> bool" where
  "node_inv fn bulk s0 w0 nd \<longleftrightarrow> pl_ok (nd_q nd) \<and> agent_wf (ar_agent (nd_host nd)) \<and> agent_reach bulk s0 (nd_host nd)
    \<and> spill_run dw_io dw_ready dw_written dw_submit_direct_spill dw_progress_io dw_other w0 (nd_disk nd) (nd_log nd)
    \<and> (\<forall>b \<in># unsorted nd + away nd + home nd. filled b) \<and> (\<forall>b \<in># away nd. is_remote fn b) \<and> (\<forall>b \<in># home nd. \<not> is_remote fn b)
    \<and> (\<forall>x \<in> set (nd_log nd). \<not> fn (fst x))"

text \<open>A buffer that is read keeps its partition and its data.\<close>

lemma received_item:
  assumes "filled b" "unat (total_size b) \<le> length old"
  shows "filled (pb_attach r (received b old))" "item (pb_attach r (received b old)) = item b" "total_size (pb_attach r (received b old)) = total_size b"
proof -
  let ?n = "unat (total_size b)" and ?b = "pb_attach r (received b old)"
  have l: "16 \<le> ?n" "?n \<le> length (pb_bytes b)" using assms(1) by (simp_all add: filled_def)
  have t: "take ?n (received b old) = take ?n (pb_bytes b)" using assms(2) l by (simp add: received_def patch_def)
  have c: "chunk (received b old) off k = chunk (pb_bytes b) off k" if "off + k \<le> ?n" for off k
    using arg_cong [OF t, of "\<lambda>xs. take k (drop off xs)"] that by (simp add: chunk_def take_drop min_def)
  have h: "header_length (received b old) = header_length (pb_bytes b)" "header_partition_id (received b old) = header_partition_id (pb_bytes b)"
    using c [of 8 8] c [of 0 8] l by (simp_all add: header_length_def header_partition_id_def)
  then show ts: "total_size ?b = total_size b" by (simp add: total_size_def pb_attach_def)
  have "length (received b old) = length old" using assms(2) l by (simp add: received_def)
  then show "filled ?b" using assms(2) l ts by (simp add: filled_def) (simp add: pb_attach_def)
  have a: "unat (actual_size b) = ?n - 16" using l(1) by (simp add: actual_size_def total_size_def unat_sub word_le_nat_alt)
  have "chunk (received b old) 16 (?n - 16) = chunk (pb_bytes b) 16 (?n - 16)" using l by (intro c) simp
  then have "payload ?b = payload b" using a h by (simp add: payload_def actual_data_def actual_size_def pb_attach_def chunk_def)
  then show "item ?b = item b" using h by (simp add: item_def partition_id_def pb_attach_def)
qed

lemma read_into_ok:
  assumes "read_into bp q b old = Inr w" "filled b"
  obtains b' where "sw_task_q w = q @ [b']" "filled b'" "item b' = item b"
proof -
  from assms(1) obtain r where l: "unat (total_size b) \<le> length old" and w: "sw_task_q w = q @ [pb_attach r (received b old)]"
    by (auto simp: read_into_def sw_handle_spill_request_def worker_on_def sw_new_def acquire_one_def Let_def split: list.splits)
  show ?thesis using that [OF w received_item(1,2) [OF assms(2) l]] .
qed

lemma item_remote: "item b' = item b \<Longrightarrow> is_remote fn b' \<longleftrightarrow> is_remote fn b"
  by (simp add: item_def)

text \<open>What the agent of the host sends in a step was filled by it.\<close>

lemma agent_step_sends:
  assumes "agent_step bulk s s'" "agent_wf (ar_agent s)"
  obtains bs where "ar_sent s' = ar_sent s @ bs" "\<forall>b \<in> set bs. filled b"
proof -
  have "\<exists>bs. ar_sent s' = ar_sent s @ bs \<and> (\<forall>b \<in> set bs. filled b)" using assms
  proof (induction rule: agent_step.induct)
    case (start i s bs a)
    have "\<forall>b \<in> set bs. b \<in># mset (in_use (ar_agent s))" using start.hyps by (auto simp: start_transfers_def in_use_def)
    then have "\<forall>b \<in> set bs. filled b" using start.prems by (auto simp: agent_wf_def pb_wf_def filled_def)
    then show ?case by simp
  qed simp_all
  then show ?thesis using that by blast
qed

section \<open>Every step keeps the items\<close>

definition moves :: "(nat \<Rightarrow> bool) \<Rightarrow> (PartitionBuffer \<Rightarrow> u64) \<Rightarrow> arun \<Rightarrow> DirectSpillWorker \<Rightarrow> node \<Rightarrow> node \<Rightarrow> bool" where
  "moves fn bulk s0 w0 nd nd' \<longleftrightarrow> node_inv fn bulk s0 w0 nd' \<and> node_items nd' + sent_items nd = node_items nd + sent_items nd'"

lemmas place_defs = unsorted_def away_def home_def

lemma mset_queue_snoc: "i < length qs \<Longrightarrow> mset (concat (qs[i := qs ! i @ [t]])) = add_mset t (mset (concat qs))"
  using mset_concat_update [of i qs "qs ! i @ [t]"] by (simp del: mset_concat)

lemma mset_queue_tl: "i < length qs \<Longrightarrow> qs ! i = t # q \<Longrightarrow> add_mset t (mset (concat (qs[i := q]))) = mset (concat qs)"
  using mset_concat_update [of i qs q] by (simp del: mset_concat)

lemma host_moves:
  assumes inv: "node_inv fn bulk s0 w0 nd" and st: "agent_step bulk (nd_host nd) s"
  shows "moves fn bulk s0 w0 nd (nd\<lparr>nd_host := s, nd_wire := nd_wire nd @ drop (length (ar_sent (nd_host nd))) (ar_sent s)\<rparr>)"
proof -
  have wf: "agent_wf (ar_agent (nd_host nd))" and r: "agent_reach bulk s0 (nd_host nd)" using inv by (simp_all add: node_inv_def)
  obtain bs where bs: "ar_sent s = ar_sent (nd_host nd) @ bs" "\<forall>b \<in> set bs. filled b" by (rule agent_step_sends [OF st wf])
  have "agent_wf (ar_agent s)" using agent_step_keeps [OF st wf] by (simp add: keeps_def)
  then show ?thesis using inv bs agent_reach.step [OF r st]
    by (auto simp: moves_def node_inv_def node_items_def sent_items_def place_defs ac_simps)
qed

lemma receive_moves:
  assumes inv: "node_inv fn bulk s0 w0 nd" and k: "k < length (nd_wire nd)" "i < length (pl_lsqs (nd_q nd))" and re: "nd_receive nd k i old = Inr nd'"
  shows "moves fn bulk s0 w0 nd nd'"
proof -
  let ?b = "nd_wire nd ! k" and ?wire = "take k (nd_wire nd) @ drop (Suc k) (nd_wire nd)"
  from re obtain w where w: "read_into (nd_bp nd) (pl_lsqs (nd_q nd) ! i) ?b old = Inr w"
    "nd' = nd\<lparr>nd_wire := ?wire, nd_bp := sw_bp w, nd_q := (nd_q nd)\<lparr>pl_lsqs := (pl_lsqs (nd_q nd))[i := sw_task_q w]\<rparr>\<rparr>"
    by (auto simp: nd_receive_def)
  have "?b \<in># unsorted nd" using k by (simp add: unsorted_def)
  then have f: "filled ?b" using inv by (simp add: node_inv_def)
  obtain b' where b': "sw_task_q w = pl_lsqs (nd_q nd) ! i @ [b']" "filled b'" "item b' = item ?b" by (rule read_into_ok [OF w(1) f])
  have u: "unsorted nd' = add_mset b' (mset ?wire + mset (concat (pl_lsqs (nd_q nd))))"
    using k(2) by (simp add: unsorted_def w(2) b'(1) mset_queue_snoc del: mset_concat mset_append)
  have o: "unsorted nd = add_mset ?b (mset ?wire + mset (concat (pl_lsqs (nd_q nd))))"
    by (simp add: unsorted_def flip: mset_remove_nth [OF k(1)] del: mset_concat mset_append)
  have "away nd' = away nd" "home nd' = home nd" "nd_log nd' = nd_log nd" "nd_host nd' = nd_host nd" "nd_disk nd' = nd_disk nd"
    by (simp_all add: place_defs w(2))
  moreover have "pl_ok (nd_q nd')" using inv by (simp add: node_inv_def pl_ok_def w(2))
  ultimately show ?thesis using inv b'(2,3) by (simp add: moves_def node_inv_def node_items_def sent_items_def u o)
qed

text \<open>The dispatcher sorts the buffers by their partitions.\<close>

lemma spill_run_push:
  assumes "spill_run dw_io dw_ready dw_written dw_submit_direct_spill dw_progress_io dw_other w0 w log"
  shows "spill_run dw_io dw_ready dw_written dw_submit_direct_spill dw_progress_io dw_other w0 (w\<lparr>dw_spill_q := dw_spill_q w @ ts\<rparr>) log"
  using assms
proof (induction ts arbitrary: w)
  case (Cons t ts)
  from Cons.IH [OF spill_run.other [OF Cons.prems dw_other.intros(1) [of w t]]] show ?case by simp
qed simp

lemma dispatch_moves:
  assumes inv: "node_inv fn bulk s0 w0 nd" and di: "nd_dispatch fn nd = Inr nd'"
  shows "moves fn bulk s0 w0 nd nd'"
proof -
  let ?q = "(nd_q nd)\<lparr>pl_dsq := dw_spill_q (nd_disk nd)\<rparr>" and ?ls = "pl_lsqs (nd_q nd)" and ?rs = "pl_rsqs (nd_q nd)"
  have sel: "pl_lsqs ?q = ?ls" "pl_rsqs ?q = ?rs" "pl_trsqs ?q = pl_trsqs (nd_q nd)" "pl_dsq ?q = dw_spill_q (nd_disk nd)" by simp_all
  have "pl_ok ?q" using inv by (simp add: node_inv_def pl_ok_def)
  then obtain q where q: "do_dispatch_round fn ?q = Inr q" "pl_ok q" "pl_lsqs q = map tl ?ls" "pl_rsqs q = map tl ?rs"
    "pl_dsq q = dw_spill_q (nd_disk nd) @ filter (\<lambda>t. \<not> is_remote fn t) (heads ?ls) @ heads ?rs"
    "mset (concat (pl_trsqs q)) = mset (concat (pl_trsqs (nd_q nd))) + mset (filter (is_remote fn) (heads ?ls))"
    by (rule dispatch_round_ok [of ?q fn, unfolded sel])
  let ?w = "nd_disk nd"
  have nd': "nd' = nd\<lparr>nd_q := q\<lparr>pl_dsq := []\<rparr>, nd_disk := ?w\<lparr>dw_spill_q := dw_spill_q ?w @ filter (\<lambda>t. \<not> is_remote fn t) (heads ?ls) @ heads ?rs\<rparr>\<rparr>"
    using di q(1,5) by (simp add: nd_dispatch_def)
  define H L R where "H = mset (heads ?ls)" and "L = filter_mset (\<lambda>t. \<not> is_remote fn t) H" and "R = filter_mset (is_remote fn) H"
  have H: "H = L + R" unfolding L_def R_def by (metis multiset_partition union_commute)
  have "mset (concat ?ls) = L + R + mset (concat (map tl ?ls))" using mset_heads [of ?ls] by (simp only: H [symmetric] H_def)
  then have u: "unsorted nd = unsorted nd' + L + R" by (simp add: unsorted_def nd' q(3) ac_simps del: mset_concat)
  have a: "away nd' = away nd + R" by (simp add: away_def nd' q(6) R_def H_def ac_simps del: mset_concat)
  have h: "home nd' = home nd + L" using mset_heads [of ?rs] by (simp add: home_def nd' q(4) L_def H_def ac_simps del: mset_concat)
  have "pl_ok (nd_q nd')" using q(2) by (simp add: nd' pl_ok_def)
  moreover have "nd_log nd' = nd_log nd" "nd_host nd' = nd_host nd" by (simp_all add: nd')
  moreover have "spill_run dw_io dw_ready dw_written dw_submit_direct_spill dw_progress_io dw_other w0 (nd_disk nd') (nd_log nd)"
    using inv spill_run_push by (simp add: nd' node_inv_def)
  moreover have "\<forall>t \<in># L. \<not> is_remote fn t" "\<forall>t \<in># R. is_remote fn t" by (simp_all add: L_def R_def)
  ultimately show ?thesis using inv by (auto simp: moves_def node_inv_def node_items_def sent_items_def u a h)
qed

text \<open>The other steps move a buffer inside its group or hand it to the disk.\<close>

lemma consume_moves:
  assumes inv: "node_inv fn bulk s0 w0 nd" and k: "k < length (pl_trsqs (nd_q nd))"
  shows "moves fn bulk s0 w0 nd (nd_consume nd k)"
proof -
  have a: "away (nd_consume nd k) = away nd"
  proof (cases "pl_trsqs (nd_q nd) ! k")
    case Nil
    then show ?thesis using list_update_id [of "pl_trsqs (nd_q nd)" k] by (simp add: away_def nd_consume_def worker_on_def sw_new_def sw_take_def)
  next
    case (Cons t q)
    then show ?thesis using mset_queue_tl [OF k Cons]
      by (simp add: away_def nd_consume_def worker_on_def sw_new_def sw_take_def Let_def del: mset_concat)
  qed
  have "unsorted (nd_consume nd k) = unsorted nd" "home (nd_consume nd k) = home nd" "nd_log (nd_consume nd k) = nd_log nd"
    "nd_host (nd_consume nd k) = nd_host nd" "nd_disk (nd_consume nd k) = nd_disk nd"
    by (simp_all add: place_defs nd_consume_def Let_def)
  moreover have "pl_ok (nd_q (nd_consume nd k))" using inv by (simp add: node_inv_def pl_ok_def nd_consume_def Let_def)
  ultimately show ?thesis using inv by (simp add: moves_def node_inv_def node_items_def sent_items_def a)
qed

lemma pull_moves:
  assumes "node_inv fn bulk s0 w0 nd"
  shows "moves fn bulk s0 w0 nd (nd\<lparr>nd_disk := dw_pull (nd_disk nd)\<rparr>)"
proof -
  let ?nd = "nd\<lparr>nd_disk := dw_pull (nd_disk nd)\<rparr>"
  have "home ?nd = home nd" by (auto simp: home_def dw_pull_def split: list.splits)
  moreover have "unsorted ?nd = unsorted nd" "away ?nd = away nd" by (simp_all add: place_defs)
  moreover have "spill_run dw_io dw_ready dw_written dw_submit_direct_spill dw_progress_io dw_other w0 (dw_pull (nd_disk nd)) (nd_log nd)"
    using assms spill_run.other [where other = dw_other, OF _ dw_other.intros(2)] by (auto simp: node_inv_def)
  ultimately show ?thesis using assms by (simp add: moves_def node_inv_def node_items_def sent_items_def)
qed

lemma submit_moves:
  assumes inv: "node_inv fn bulk s0 w0 nd" and re: "dw_ready (nd_disk nd)" and su: "dw_submit_direct_spill (nd_disk nd) = Inr w"
  shows "moves fn bulk s0 w0 nd (nd\<lparr>nd_disk := w, nd_log := nd_log nd @ [dw_written (nd_disk nd)]\<rparr>)"
proof -
  let ?nd = "nd\<lparr>nd_disk := w, nd_log := nd_log nd @ [dw_written (nd_disk nd)]\<rparr>"
  from re su obtain t where t: "dw_pulled (nd_disk nd) = Some t" "dw_pulled w = None" "dw_spill_q w = dw_spill_q (nd_disk nd)"
    by (auto simp: dw_submit_direct_spill_def dw_ready_def)
  have h: "home nd = add_mset t (home ?nd)" by (simp add: home_def t)
  have wr: "dw_written (nd_disk nd) = item t" by (simp add: dw_written_def item_def t(1))
  have "unsorted ?nd = unsorted nd" "away ?nd = away nd" by (simp_all add: place_defs)
  moreover have "spill_run dw_io dw_ready dw_written dw_submit_direct_spill dw_progress_io dw_other w0 w (nd_log nd @ [dw_written (nd_disk nd)])"
    using inv re su by (auto simp: node_inv_def intro: spill_run.submit)
  ultimately show ?thesis using inv by (simp add: moves_def node_inv_def node_items_def sent_items_def h wr) (simp add: item_def)
qed

lemma progress_moves:
  assumes "node_inv fn bulk s0 w0 nd" "i < length (io_ring (dw_io (nd_disk nd)))" "nat res = length (sq_data (io_ring (dw_io (nd_disk nd)) ! i))"
  shows "moves fn bulk s0 w0 nd (nd\<lparr>nd_disk := dw_progress_io (nd_disk nd) i res\<rparr>)"
proof -
  let ?nd = "nd\<lparr>nd_disk := dw_progress_io (nd_disk nd) i res\<rparr>"
  have "unsorted ?nd = unsorted nd" "away ?nd = away nd" "home ?nd = home nd" by (simp_all add: place_defs dw_progress_io_def split: prod.splits)
  moreover have "spill_run dw_io dw_ready dw_written dw_submit_direct_spill dw_progress_io dw_other w0 (nd_disk ?nd) (nd_log nd)"
    using assms by (auto simp: node_inv_def intro: spill_run.progress)
  ultimately show ?thesis using assms(1) by (simp add: moves_def node_inv_def node_items_def sent_items_def)
qed

lemma moves_pool:
  assumes "node_inv fn bulk s0 w0 nd"
  shows "moves fn bulk s0 w0 nd (nd\<lparr>nd_bp := bp, nd_finished := fin\<rparr>)" "moves fn bulk s0 w0 nd (nd\<lparr>nd_bp := bp, nd_unacked := un\<rparr>)"
  using assms by (simp_all add: moves_def node_inv_def node_items_def sent_items_def place_defs)

lemma node_step_moves: "node_step fn bulk nd nd' \<Longrightarrow> node_inv fn bulk s0 w0 nd \<Longrightarrow> moves fn bulk s0 w0 nd nd'"
proof (induction rule: node_step.induct)
  case (finish i nd nd')
  then show ?case by (auto simp: nd_finish_def intro: moves_pool)
next
  case (forwarded i nd n nd')
  then show ?case by (auto simp: nd_forwarded_def intro: moves_pool)
qed (blast intro: host_moves receive_moves dispatch_moves consume_moves pull_moves submit_moves progress_moves)+

text \<open>A buffer changes the node: it leaves those the first node forwards and is one of the second node's own.\<close>

lemma remote_fn_other: "remote_fn (\<not> y) pid \<longleftrightarrow> \<not> remote_fn y pid"
  by (auto simp: remote_fn_def)

lemma read_by_peer_moves:
  assumes inv: "node_inv fn bulk s0 w0 nd" and k: "k < length (nd_fwd nd)"
  shows "node_inv fn bulk s0 w0 (nd_read_by_peer nd k)" "node_items nd = add_mset (item (nd_fwd nd ! k)) (node_items (nd_read_by_peer nd k))"
    "sent_items (nd_read_by_peer nd k) = sent_items nd" "filled (nd_fwd nd ! k)" "is_remote fn (nd_fwd nd ! k)"
proof -
  let ?b = "nd_fwd nd ! k" and ?nd = "nd_read_by_peer nd k"
  have a: "away nd = add_mset ?b (away ?nd)"
    by (simp add: away_def nd_read_by_peer_def flip: mset_remove_nth [OF k] del: mset_concat mset_append)
  have "unsorted ?nd = unsorted nd" "home ?nd = home nd" "nd_log ?nd = nd_log nd" "nd_host ?nd = nd_host nd" "nd_disk ?nd = nd_disk nd" "nd_q ?nd = nd_q nd"
    by (simp_all add: place_defs nd_read_by_peer_def)
  then show "node_inv fn bulk s0 w0 ?nd" "node_items nd = add_mset (item ?b) (node_items ?nd)" "sent_items ?nd = sent_items nd" "filled ?b" "is_remote fn ?b"
    using inv by (simp_all add: node_inv_def node_items_def sent_items_def a)
qed

lemma receive_remote_moves:
  assumes inv: "node_inv fn bulk s0 w0 nd" and b: "filled b" "\<not> is_remote fn b" and i: "i < length (pl_rsqs (nd_q nd))"
    and re: "nd_receive_remote nd b i old = Inr nd'"
  shows "node_inv fn bulk s0 w0 nd'" "node_items nd' = add_mset (item b) (node_items nd)" "sent_items nd' = sent_items nd"
proof -
  from re obtain w where w: "read_into (nd_bp nd) (pl_rsqs (nd_q nd) ! i) b old = Inr w"
    "nd' = nd\<lparr>nd_bp := sw_bp w, nd_q := (nd_q nd)\<lparr>pl_rsqs := (pl_rsqs (nd_q nd))[i := sw_task_q w]\<rparr>\<rparr>"
    by (auto simp: nd_receive_remote_def)
  obtain b' where b': "sw_task_q w = pl_rsqs (nd_q nd) ! i @ [b']" "filled b'" "item b' = item b" by (rule read_into_ok [OF w(1) b(1)])
  have nr: "\<not> is_remote fn b'" using b(2) unfolding item_remote [OF b'(3)] .
  have h: "home nd' = add_mset b' (home nd)" using i by (simp add: home_def w(2) b'(1) mset_queue_snoc del: mset_concat)
  have "unsorted nd' = unsorted nd" "away nd' = away nd" "nd_log nd' = nd_log nd" "nd_host nd' = nd_host nd" "nd_disk nd' = nd_disk nd"
    by (simp_all add: place_defs w(2))
  moreover have "pl_ok (nd_q nd')" using inv by (simp add: node_inv_def pl_ok_def w(2))
  ultimately show "node_inv fn bulk s0 w0 nd'" "node_items nd' = add_mset (item b) (node_items nd)" "sent_items nd' = sent_items nd"
    using inv b'(2,3) nr by (simp_all add: node_inv_def node_items_def sent_items_def h)
qed

section \<open>From the records to the files\<close>

definition cluster_inv :: "(PartitionBuffer \<Rightarrow> u64) \<Rightarrow> (bool \<Rightarrow> arun) \<Rightarrow> (bool \<Rightarrow> DirectSpillWorker) \<Rightarrow> cluster \<Rightarrow> bool" where
  "cluster_inv bulk s0 w0 c \<longleftrightarrow> (\<forall>y. node_inv (remote_fn y) bulk (s0 y) (w0 y) (c y))
    \<and> node_items (c True) + node_items (c False) = sent_items (c True) + sent_items (c False)"

text \<open>The sums over both nodes, seen from node \<open>y\<close>.\<close>

lemma cluster_items:
  "node_items (c True) + node_items (c False) = sent_items (c True) + sent_items (c False)
    \<longleftrightarrow> node_items (c y) + node_items (c (\<not> y)) = sent_items (c y) + sent_items (c (\<not> y))"
  by (cases y) (simp_all add: add.commute)

lemma cluster_step_inv: "cluster_step bulk c c' \<Longrightarrow> cluster_inv bulk s0 w0 c \<Longrightarrow> cluster_inv bulk s0 w0 c'"
proof (induction rule: cluster_step.induct)
  case (local y c nd)
  have m: "moves (remote_fn y) bulk (s0 y) (w0 y) (c y) nd" using node_step_moves [OF local.hyps] local.prems by (simp add: cluster_inv_def)
  have i: "node_items (c y) + node_items (c (\<not> y)) = sent_items (c y) + sent_items (c (\<not> y))"
    using local.prems cluster_items [of c y] by (simp add: cluster_inv_def)
  have j: "node_items nd + sent_items (c y) = node_items (c y) + sent_items nd" using m by (simp add: moves_def)
  have "(node_items nd + sent_items (c y)) + (node_items (c y) + node_items (c (\<not> y)))
    = (node_items (c y) + sent_items nd) + (sent_items (c y) + sent_items (c (\<not> y)))" by (simp only: i j)
  then have "node_items nd + node_items (c (\<not> y)) = sent_items nd + sent_items (c (\<not> y))" by (simp add: ac_simps)
  then show ?case using m local.prems cluster_items [of "c(y := nd)" y] by (auto simp: cluster_inv_def moves_def)
next
  case (remote k c y i old nd)
  let ?b = "nd_fwd (c y) ! k"
  have inv: "node_inv (remote_fn z) bulk (s0 z) (w0 z) (c z)" for z using remote.prems by (simp add: cluster_inv_def)
  note p = read_by_peer_moves [OF inv remote.hyps(1)]
  have "\<not> is_remote (remote_fn (\<not> y)) ?b" using p(5) by (simp add: remote_fn_other)
  note r = receive_remote_moves [OF inv p(4) this remote.hyps(2,3)]
  have "node_items (c y) + node_items (c (\<not> y)) = sent_items (c y) + sent_items (c (\<not> y))"
    using remote.prems cluster_items [of c y] by (simp add: cluster_inv_def)
  then show ?case using inv p(1-3) r cluster_items [of "c(y := nd_read_by_peer (c y) k, (\<not> y) := nd)" y]
    by (auto simp: cluster_inv_def)
qed

lemma cluster_reach_inv: "cluster_reach bulk c0 c \<Longrightarrow> cluster_inv bulk s0 w0 c0 \<Longrightarrow> cluster_inv bulk s0 w0 c"
  by (induction rule: cluster_reach.induct) (blast intro: cluster_step_inv)+

lemma server_main_inv:
  assumes "agent_wf (ar_agent s0)" "ar_sent s0 = []" "0 < n_r" "dw_spill_q w0 = []" "dw_pulled w0 = None"
  shows "node_inv fn bulk s0 w0 (server_main s0 bp n_l n_r w0)" "node_items (server_main s0 bp n_l n_r w0) = {#}" "sent_items (server_main s0 bp n_l n_r w0) = {#}"
proof -
  have e: "concat (replicate n []) = []" for n by (induction n) simp_all
  show "node_inv fn bulk s0 w0 (server_main s0 bp n_l n_r w0)" "node_items (server_main s0 bp n_l n_r w0) = {#}" "sent_items (server_main s0 bp n_l n_r w0) = {#}"
    using assms by (simp_all add: node_inv_def node_items_def sent_items_def place_defs server_main_def pl_new_def pl_ok_def e agent_reach.refl spill_run.start
      del: mset_concat concat_replicate_trivial)
qed

text \<open>Nothing of partition \<open>p\<close> is on its way.\<close>

definition arrived :: "cluster \<Rightarrow> nat \<Rightarrow> bool" where
  "arrived c p \<longleftrightarrow> (\<forall>y \<in> {True, False}. unsent (nd_host (c y)) p = [] \<and> filter_mset (\<lambda>b. unat (partition_id b) = p) (unsorted (c y) + away (c y) + home (c y)) = {#})"

definition all_records :: "cluster \<Rightarrow> nat \<Rightarrow> u8 list multiset" where
  "all_records c p = mset (records_given (nd_host (c True)) p) + mset (records_given (nd_host (c False)) p)"

lemma filter_items: "filter_mset (\<lambda>x. fst x = p) (image_mset item B) = image_mset item (filter_mset (\<lambda>b. unat (partition_id b) = p) B)"
  by (simp add: filter_mset_image_mset item_def)

lemma arrived_items:
  assumes "arrived c p"
  shows "filter_mset (\<lambda>x. fst x = p) (node_items (c y)) = filter_mset (\<lambda>x. fst x = p) (mset (nd_log (c y)))"
proof -
  have "filter_mset (\<lambda>b. unat (partition_id b) = p) (unsorted (c y) + away (c y) + home (c y)) = {#}" using assms unfolding arrived_def by (cases y) blast+
  then have "filter_mset (\<lambda>x. fst x = p) (image_mset item (unsorted (c y) + away (c y) + home (c y))) = {#}" by (simp only: filter_items image_mset_empty)
  then show ?thesis by (simp only: node_items_def filter_union_mset add_0)
qed

lemma owner_log:
  assumes inv: "cluster_inv bulk s0 w0 c" and p: "arrived c p" "\<not> remote_fn y p"
  shows "filter_mset (\<lambda>x. fst x = p) (mset (nd_log (c y))) = filter_mset (\<lambda>x. fst x = p) (sent_items (c True) + sent_items (c False))"
proof -
  have "\<forall>x \<in> set (nd_log (c (\<not> y))). \<not> remote_fn (\<not> y) (fst x)" using inv by (simp add: cluster_inv_def node_inv_def)
  then have e: "filter_mset (\<lambda>x. fst x = p) (mset (nd_log (c (\<not> y)))) = {#}"
    using p(2) by (subst set_mset_eq_empty_iff [symmetric]) (auto simp: remote_fn_other)
  have "node_items (c y) + node_items (c (\<not> y)) = sent_items (c y) + sent_items (c (\<not> y))"
    using inv cluster_items [of c y] by (simp add: cluster_inv_def)
  from arg_cong [OF this, of "filter_mset (\<lambda>x. fst x = p)"]
  have "filter_mset (\<lambda>x. fst x = p) (mset (nd_log (c y))) = filter_mset (\<lambda>x. fst x = p) (sent_items (c y) + sent_items (c (\<not> y)))"
    by (simp only: filter_union_mset arrived_items [OF p(1)] e add_0_right)
  then show ?thesis by (cases y) (simp_all add: add.commute)
qed

lemma sent_payloads:
  assumes "list_all2 (\<lambda>b rs. payload b = concat rs) bs rss" "p < 2 ^ 64"
  shows "image_mset snd (filter_mset (\<lambda>x. fst x = p) (image_mset item (mset bs)))
    = mset (map concat (map snd (filter (\<lambda>x. partition_id (fst x) = of_nat p) (zip bs rss))))"
  using assms(1)
proof (induction rule: list_all2_induct)
  case (Cons b bs rs rss)
  have "unat (partition_id b) = p \<longleftrightarrow> partition_id b = of_nat p" using assms(2)
    by (auto dest: arg_cong [of _ _ "of_nat :: nat \<Rightarrow> u64"] simp: unat_of_nat_u64)
  then show ?case using Cons by (simp add: item_def)
qed simp

text \<open>The data a host has sent for a partition, as the records it was made of.\<close>

lemma host_data:
  assumes pool: "pool_usable pool" and n: "n \<le> 2 ^ 64" "p < n" and inv: "node_inv fn bulk (run_new n_worker n pool) w0 nd" and u: "unsent (nd_host nd) p = []"
  obtains rss where "image_mset snd (filter_mset (\<lambda>x. fst x = p) (sent_items nd)) = mset (map concat rss)"
    "filter_mset (\<lambda>r. r \<noteq> []) (mset (concat rss)) = filter_mset (\<lambda>r. r \<noteq> []) (mset (records_given (nd_host nd) p))"
proof -
  have "agent_reach bulk (run_new n_worker n pool) (nd_host nd)" using inv by (simp add: node_inv_def)
  from agent_runs_split [OF pool n(1) this] obtain rss where rss: "list_all2 (\<lambda>b rs. payload b = concat rs) (ar_sent (nd_host nd)) rss"
    "filter_mset (\<lambda>r. r \<noteq> []) (mset (records_sent (zip (ar_sent (nd_host nd)) rss) p)) = filter_mset (\<lambda>r. r \<noteq> []) (mset (records_given (nd_host nd) p))"
    using n(2) u by blast
  have "p < 2 ^ 64" using n by (rule less_le_trans [rotated])
  from that [OF _ rss(2) [unfolded records_sent_def]] sent_payloads [OF rss(1) this] show ?thesis by (simp only: sent_items_def)
qed

lemma mset_concat_perm: "mset xss = mset yss \<Longrightarrow> mset (concat xss) = mset (concat yss)"
proof -
  have "mset (concat zss) = sum_mset (image_mset mset (mset zss))" for zss :: "'a list list" by (induction zss) simp_all
  then show "mset xss = mset yss \<Longrightarrow> ?thesis" by simp
qed

lemma concat_map_concat: "concat (map concat xss) = concat (concat xss)"
  by (induction xss) simp_all

lemma do_mount_queues:
  "dw_do_mount sys opn w n = Inr (rc, w') \<Longrightarrow> dw_spill_q w' = dw_spill_q w" "dw_do_mount sys opn w n = Inr (rc, w') \<Longrightarrow> dw_pulled w' = dw_pulled w"
  by (auto simp: dw_do_mount_def Let_def)

lemma partition_contents:
  assumes pool: "\<And>y. pool_usable (pool y)" and n: "n \<le> 2 ^ 64" "p < n" and inv: "cluster_inv bulk (\<lambda>y. run_new (n_worker y) n (pool y)) w0 c"
    and p: "arrived c p" "\<not> remote_fn y p"
  obtains rs where "concat (map snd (filter (\<lambda>x. fst x = p) (nd_log (c y)))) = concat rs"
    "filter_mset (\<lambda>r. r \<noteq> []) (mset rs) = filter_mset (\<lambda>r. r \<noteq> []) (all_records c p)"
proof -
  have h: "\<exists>rss. image_mset snd (filter_mset (\<lambda>x. fst x = p) (sent_items (c z))) = mset (map concat rss)
      \<and> filter_mset (\<lambda>r. r \<noteq> []) (mset (concat rss)) = filter_mset (\<lambda>r. r \<noteq> []) (mset (records_given (nd_host (c z)) p))" for z
  proof -
    have "node_inv (remote_fn z) bulk (run_new (n_worker z) n (pool z)) (w0 z) (c z)" "unsent (nd_host (c z)) p = []"
      using inv p(1) unfolding cluster_inv_def arrived_def by (blast, cases z) blast+
    from host_data [OF pool n this] show ?thesis by blast
  qed
  from h [of True] h [of False] obtain A B where ab:
    "image_mset snd (filter_mset (\<lambda>x. fst x = p) (sent_items (c True))) = mset (map concat A)"
    "filter_mset (\<lambda>r. r \<noteq> []) (mset (concat A)) = filter_mset (\<lambda>r. r \<noteq> []) (mset (records_given (nd_host (c True)) p))"
    "image_mset snd (filter_mset (\<lambda>x. fst x = p) (sent_items (c False))) = mset (map concat B)"
    "filter_mset (\<lambda>r. r \<noteq> []) (mset (concat B)) = filter_mset (\<lambda>r. r \<noteq> []) (mset (records_given (nd_host (c False)) p))" by blast
  let ?ds = "map snd (filter (\<lambda>x. fst x = p) (nd_log (c y)))"
  have "mset ?ds = image_mset snd (filter_mset (\<lambda>x. fst x = p) (sent_items (c True) + sent_items (c False)))"
    using owner_log [OF inv p] by simp
  also have "\<dots> = mset (map concat A) + mset (map concat B)" by (simp only: filter_union_mset image_mset_union ab(1,3))
  finally have "image_mset concat (mset (A @ B)) = mset ?ds" by simp
  from image_mset_list [OF this] obtain xs where xs: "mset xs = mset (A @ B)" "map concat xs = ?ds" by blast
  have "filter_mset (\<lambda>r. r \<noteq> []) (mset (concat xs)) = filter_mset (\<lambda>r. r \<noteq> []) (mset (concat A) + mset (concat B))"
    by (simp only: mset_concat_perm [OF xs(1)] concat_append mset_append)
  also have "\<dots> = filter_mset (\<lambda>r. r \<noteq> []) (all_records c p)" by (simp only: filter_union_mset ab all_records_def)
  finally show ?thesis using that [of "concat xs"] by (simp only: xs(2) [symmetric]) (simp only: concat_map_concat)
qed

text \<open>
  C8. The records of all callers on both hosts reach the partition files: whatever the number of
  spill workers and the interleaving of both hosts, all workers of both nodes and the completions of
  the disks, once nothing of a partition is on its way and the node that owns the partition has
  unmounted its disk, the file of the partition there is the concatenation of all the partition's
  records of both hosts, each of them once and in one piece (empty records leave no trace).
\<close>

theorem records_reach_files:
  assumes pool: "\<And>y. pool_usable (pool y)" and n: "max_n_partition \<le> 2 ^ 64" "0 < n_r_worker"
    and fds: "\<And>y. fds_ok (opn y) (mount_point y) max_n_partition"
    and mount: "\<And>y. dw_do_mount sys (opn y) (dw_new (spill_bp y) (mount_point y) (output_device y) (uninit y) (disk y)) max_n_partition = Inr (rc y, dsw y)"
    and run: "cluster_reach bulk (\<lambda>y. server_main (run_new (n_worker y) max_n_partition (pool y)) (spill_bp y) n_l_worker n_r_worker (dsw y)) c"
    and fit: "\<forall>p. length (file_data [] (nd_log (c y)) p) < 2 ^ 64" "length (nd_log (c y)) < 2 ^ 64"
    and p: "p < max_n_partition" "arrived c p" "\<not> remote_fn y p" and umount: "dw_do_umount sys (nd_disk (c y)) = Inr (Some (rc', w'))"
  shows "\<exists>rs. io_disk (dw_io w') (opn y (partition_fname (mount_point y) p)) = concat rs
    \<and> filter_mset (\<lambda>r. r \<noteq> []) (mset rs) = filter_mset (\<lambda>r. r \<noteq> []) (all_records c p)"
proof -
  let ?s = "\<lambda>y. run_new (n_worker y) max_n_partition (pool y)"
  have q: "dw_spill_q (dsw z) = []" "dw_pulled (dsw z) = None" for z
    using do_mount_queues [OF mount [of z]] by (simp_all add: dw_new_def)
  have s: "agent_wf (ar_agent (?s z))" "ar_sent (?s z) = []" for z using agent_new_wf(1) [OF pool] by (simp_all add: run_new_def)
  note new = server_main_inv [OF s n(2) q]
  have "cluster_inv bulk ?s dsw (\<lambda>y. server_main (?s y) (spill_bp y) n_l_worker n_r_worker (dsw y))"
    by (simp add: cluster_inv_def new)
  from cluster_reach_inv [OF run this] have inv: "cluster_inv bulk ?s dsw c" .
  obtain rs where rs: "concat (map snd (filter (\<lambda>x. fst x = p) (nd_log (c y)))) = concat rs"
    "filter_mset (\<lambda>r. r \<noteq> []) (mset rs) = filter_mset (\<lambda>r. r \<noteq> []) (all_records c p)"
    by (rule partition_contents [OF pool n(1) p(1) inv p(2,3)])
  have "spill_run dw_io dw_ready dw_written dw_submit_direct_spill dw_progress_io dw_other (dsw y) (nd_disk (c y)) (nd_log (c y))"
    using inv by (simp add: cluster_inv_def node_inv_def)
  from direct_umount_complete [OF fds mount this fit umount p(1)] rs show ?thesis by auto
qed

section \<open>The pipeline server\<close>

text \<open>
  \<^verbatim>\<open>app/pipeline_offload_server/pipeline_offload_server.cxx\<close> puts the same workers together but gives both
  nodes the same predicate. Each of them sends its own buffers of an even partition to the other one
  and keeps those it gets from there: the data of the partition is split over both nodes.
\<close>

definition pipeline_fn :: "nat \<Rightarrow> bool" where
  "pipeline_fn pid \<longleftrightarrow> pid mod 2 = 0"

lemma pipeline_partition_split:
  assumes "pl_ok p" "pl_lsqs p = [[t]]" "pl_rsqs p = [[u]]" "pl_dsq p = []" "unat (partition_id t) mod 2 = 0" "partition_id u = partition_id t"
  shows "\<exists>p'. do_dispatch_round pipeline_fn p = Inr p' \<and> pl_dsq p' = [u] \<and> mset (concat (pl_trsqs p')) = add_mset t (mset (concat (pl_trsqs p)))"
proof -
  obtain p' where "do_dispatch_round pipeline_fn p = Inr p'"
    "pl_dsq p' = pl_dsq p @ filter (\<lambda>t. \<not> is_remote pipeline_fn t) (heads (pl_lsqs p)) @ heads (pl_rsqs p)"
    "mset (concat (pl_trsqs p')) = mset (concat (pl_trsqs p)) + mset (filter (is_remote pipeline_fn) (heads (pl_lsqs p)))"
    by (rule dispatch_round_ok [OF assms(1)])
  then show ?thesis using assms(2-5) by (auto simp: heads_def pipeline_fn_def)
qed

section \<open>A concrete run\<close>

text \<open>
  A record of partition 1 on the host of \<^verbatim>\<open>dpu20\<close>: its node forwards the buffer to \<^verbatim>\<open>dpu21\<close>, which
  writes it to its file.
\<close>

definition demo_dsw :: DirectSpillWorker where "demo_dsw = dw_state True [] None (dfiles 0) [] [] 0 [] []"
definition demo_host0 :: arun where "demo_host0 = run_new 1 2 demo_pool"
definition demo_server :: node where "demo_server = server_main demo_host0 demo_bp 1 1 demo_dsw"
definition demo_c1 :: SpillAgent where "demo_c1 = ok (append_or_spill (agent_new 1 2 demo_pool) 1 [1, 2] [3])"
definition demo_c2 :: SpillAgent where "demo_c2 = ok (resume demo_c1 1)"
definition demo_c3 :: SpillAgent where "demo_c3 = take_queue (ok (force_spill demo_c2 1)) 0"
definition demo_host :: arun where
  "demo_host = \<lparr>ar_agent = snd (start_transfers demo_c3 0), ar_records = [(1, [1, 2, 3])], ar_sent = fst (start_transfers demo_c3 0)\<rparr>"

lemma demo_c_steps:
  "append_or_spill (agent_new 1 2 demo_pool) 1 [1, 2] [3] = Inr demo_c1" "resume demo_c1 1 = Inr demo_c2"
  "force_spill demo_c2 1 = Inr (ok (force_spill demo_c2 1))"
  unfolding demo_c1_def demo_c2_def by (rule ok_Inr; code_simp)+

lemma demo_c_enabled:
  "1 < length (ag_active (agent_new 1 2 demo_pool))" "ag_waiting (agent_new 1 2 demo_pool) ! 1 = Idle"
  "1 < length (ag_active demo_c1)" "ag_waiting demo_c1 ! 1 \<noteq> Idle" "1 < length (ag_active demo_c2)" "ag_waiting demo_c2 ! 1 = Idle"
  "0 < length (ag_taken (ok (force_spill demo_c2 1)))" "ag_taken (ok (force_spill demo_c2 1)) ! 0 = []" "ag_inflight (ok (force_spill demo_c2 1)) ! 0 = []"
  "ag_spill_q (ok (force_spill demo_c2 1)) \<noteq> []" "0 < length (ag_taken demo_c3)" "ag_taken demo_c3 ! 0 \<noteq> []"
  by code_simp+

lemma demo_host_reach: "agent_reach bulk demo_host0 demo_host"
proof -
  let ?s = "\<lambda>a bs. \<lparr>ar_agent = a, ar_records = [(1, [1, 2, 3])], ar_sent = bs\<rparr>"
  have 1: "agent_step bulk demo_host0 (?s demo_c1 [])"
    using agent_step.append [of 1 demo_host0 "[1, 2]" "[3]" demo_c1 bulk] demo_c_steps(1) demo_c_enabled(1,2) by (simp add: demo_host0_def run_new_def)
  have 2: "agent_step bulk (?s demo_c1 []) (?s demo_c2 [])"
    using agent_step.resume [of 1 "?s demo_c1 []" demo_c2 bulk] demo_c_steps(2) demo_c_enabled by simp
  have 3: "agent_step bulk (?s demo_c2 []) (?s (ok (force_spill demo_c2 1)) [])"
    using agent_step.force [of 1 "?s demo_c2 []" "ok (force_spill demo_c2 1)" bulk] demo_c_steps(3) demo_c_enabled by simp
  have 4: "agent_step bulk (?s (ok (force_spill demo_c2 1)) []) (?s demo_c3 [])"
    using agent_step.take [of 0 "?s (ok (force_spill demo_c2 1)) []" bulk] demo_c_enabled by (simp add: demo_c3_def)
  have 5: "agent_step bulk (?s demo_c3 []) demo_host"
    using agent_step.start [of 0 "?s demo_c3 []" "fst (start_transfers demo_c3 0)" "snd (start_transfers demo_c3 0)" bulk] demo_c_enabled
    by (simp add: demo_host_def)
  note r = agent_reach.step [OF agent_reach.step [OF agent_reach_one [OF 1] 2] 3]
  show ?thesis by (rule agent_reach.step [OF agent_reach.step [OF r 4] 5])
qed

text \<open>The steps of a host are steps of the cluster.\<close>

lemma agent_step_sent: "agent_step bulk s s' \<Longrightarrow> \<exists>bs. ar_sent s' = ar_sent s @ bs"
  by (induction rule: agent_step.induct) simp_all

lemma host_reach_cluster:
  assumes "agent_reach bulk s0 s" "ar_sent s0 = []"
  shows "cluster_reach bulk (c(y := nd\<lparr>nd_host := s0, nd_wire := []\<rparr>)) (c(y := nd\<lparr>nd_host := s, nd_wire := ar_sent s\<rparr>))"
  using assms
proof (induction rule: agent_reach.induct)
  case (refl s)
  then show ?case by (simp add: cluster_reach.start)
next
  case (step s0 s s')
  let ?nd = "nd\<lparr>nd_host := s, nd_wire := ar_sent s\<rparr>"
  obtain bs where bs: "ar_sent s' = ar_sent s @ bs" using agent_step_sent [OF step.hyps(2)] by blast
  have "node_step (remote_fn y) bulk ?nd (nd\<lparr>nd_host := s', nd_wire := ar_sent s'\<rparr>)"
    using node_step.host [of bulk ?nd s'] step.hyps(2) bs by simp
  then have "cluster_step bulk (c(y := ?nd)) (c(y := nd\<lparr>nd_host := s', nd_wire := ar_sent s'\<rparr>))"
    using cluster_step.local [of y bulk "c(y := ?nd)"] by simp
  with step show ?case by (blast intro: cluster_reach.step)
qed

text \<open>The buffer on the wire, the states of the nodes, and the steps of the buffer through them.\<close>

definition demo_data :: "u8 list" where "demo_data = u64_bytes 1 @ u64_bytes 19 @ [1, 2, 3] @ replicate 13 0"
definition demo_b :: PartitionBuffer where "demo_b = \<lparr>pb_region = \<lparr>mr_base = 4096, mr_len = 32\<rparr>, pb_bytes = demo_data\<rparr>"

lemma demo_sent: "ar_sent demo_host = [demo_b]" "unsent demo_host 1 = []" "records_given demo_host 1 = [[1, 2, 3]]"
  "unsent demo_host0 1 = []" "records_given demo_host0 1 = []"
  by code_simp+

lemma demo_b_fields: "total_size demo_b = 19" "partition_id demo_b = 1" "payload demo_b = [1, 2, 3]" "actual_size demo_b = 3" "length (pb_bytes demo_b) = 32"
  "received demo_b (replicate 32 0) = demo_data" "pb_attach \<lparr>mr_base = 4096, mr_len = 32\<rparr> demo_data = demo_b" "chunk (pb_bytes demo_b) 16 3 = [1, 2, 3]"
  "pb_region demo_b = \<lparr>mr_base = 4096, mr_len = 32\<rparr>"
  by code_simp+

definition demo_nd :: "arun \<Rightarrow> PartitionBuffer list \<Rightarrow> MemoryRegion list \<Rightarrow> PartitionBuffer list \<Rightarrow> u32 \<Rightarrow> PartitionBuffer list \<Rightarrow> PartitionBuffer list
    \<Rightarrow> PartitionBuffer list \<Rightarrow> PartitionBuffer list \<Rightarrow> DirectSpillWorker \<Rightarrow> (nat \<times> u8 list) list \<Rightarrow> node" where
  "demo_nd host wire free lsq i trsq rsq fwd un dsw lg =
    \<lparr>nd_host = host, nd_wire = wire, nd_bp = (enable_mt demo_bp)\<lparr>bp_q := free\<rparr>,
     nd_q = \<lparr>pl_lsqs = [lsq], pl_rsqs = [rsq], pl_trsqs_i = i, pl_trsqs = [trsq], pl_dsq = []\<rparr>,
     nd_fwd = fwd, nd_unacked = un, nd_finished = [], nd_disk = dsw, nd_log = lg\<rparr>"

abbreviation demo_free :: "MemoryRegion list" where "demo_free \<equiv> [\<lparr>mr_base = 4128, mr_len = 32\<rparr>]"
abbreviation demo_disk_at :: "PartitionBuffer list \<Rightarrow> DirectSpillWorker" where "demo_disk_at q \<equiv> dw_state True q None (dfiles 0) [] [] 0 [] []"

lemma demo_server_nd: "demo_server = demo_nd demo_host0 [] (bp_q demo_bp) [] 0 [] [] [] [] (demo_disk_at []) []"
  by (simp add: demo_server_def server_main_def demo_nd_def demo_dsw_def pl_new_def enable_mt_def)

lemma demo_read: "bp_q bp = bp_q demo_bp \<Longrightarrow> read_into bp q demo_b (replicate 32 0) = Inr ((worker_on bp q)\<lparr>sw_bp := bp\<lparr>bp_q := demo_free\<rparr>, sw_task_q := q @ [demo_b]\<rparr>)"
  by (simp add: read_into_def demo_b_fields sw_handle_spill_request_def worker_on_def sw_new_def acquire_one_def check_def demo_b_fields demo_bp_def)

lemma demo_f_steps:
  "nd_receive (demo_nd s [demo_b] (bp_q demo_bp) [] 0 [] [] [] [] d []) 0 0 (replicate 32 0) = Inr (demo_nd s [] demo_free [demo_b] 0 [] [] [] [] d [])"
  "nd_dispatch (remote_fn False) (demo_nd s [] demo_free [demo_b] 0 [] [] [] [] (demo_disk_at []) []) = Inr (demo_nd s [] demo_free [] 1 [demo_b] [] [] [] (demo_disk_at []) [])"
  "nd_consume (demo_nd s [] demo_free [] 1 [demo_b] [] [] [] d []) 0 = demo_nd s [] demo_free [] 1 [] [] [demo_b] [] d []"
  "nd_read_by_peer (demo_nd s [] demo_free [] 1 [] [] [demo_b] [] d []) 0 = demo_nd s [] demo_free [] 1 [] [] [] [demo_b] d []"
  subgoal by (simp add: nd_receive_def demo_nd_def demo_read enable_mt_def worker_on_def)
  subgoal by (simp add: nd_dispatch_def demo_nd_def do_dispatch_round_def dispatch_one_def choose_one_trsq_def remote_fn_def demo_b_fields check_def Let_def dw_state_def)
  subgoal by (simp add: nd_consume_def demo_nd_def worker_on_def sw_new_def sw_take_def Let_def)
  subgoal by (simp add: nd_read_by_peer_def demo_nd_def)
  done

lemma demo_t_steps:
  "nd_receive_remote (demo_nd s [] (bp_q demo_bp) [] 0 [] [] [] [] d []) demo_b 0 (replicate 32 0) = Inr (demo_nd s [] demo_free [] 0 [] [demo_b] [] [] d [])"
  "nd_dispatch (remote_fn True) (demo_nd s [] demo_free [] 0 [] [demo_b] [] [] (demo_disk_at []) []) = Inr (demo_nd s [] demo_free [] 0 [] [] [] [] (demo_disk_at [demo_b]) [])"
  subgoal by (simp add: nd_receive_remote_def demo_nd_def demo_read enable_mt_def worker_on_def)
  subgoal by (simp add: nd_dispatch_def demo_nd_def do_dispatch_round_def Let_def dw_state_def)
  done

definition demo_sqe :: "PartitionBuffer sqe" where "demo_sqe = \<lparr>sq_fd = 4, sq_data = [1, 2, 3], sq_off = 0, sq_task = demo_b\<rparr>"

lemma demo_d_steps:
  "dw_pull (demo_disk_at [demo_b]) = dw_state True [] (Some demo_b) (dfiles 0) [] [] 0 [] []"
  "dw_ready (dw_state True [] (Some demo_b) (dfiles 0) [] [] 0 [] [])" "dw_written (dw_state True [] (Some demo_b) (dfiles 0) [] [] 0 [] []) = (1, [1, 2, 3])"
  "dw_submit_direct_spill (dw_state True [] (Some demo_b) (dfiles 0) [] [] 0 [] []) = Inr (dw_state True [] None (dfiles 3) [demo_sqe] [] 1 [0] [])"
  "dw_progress_io (dw_state True [] None (dfiles 3) [demo_sqe] [] 1 [0] []) 0 3 = dw_state True [] None (dfiles 3) [] [1, 2, 3] 0 [0] [(demo_b, 19)]"
  "dw_do_umount (\<lambda>_. 0) (dw_state True [] None (dfiles 3) [] [1, 2, 3] 0 [0] [(demo_b, 19)])
    = Inr (Some (0, dw_state False [] None (dfiles 3) [] [1, 2, 3] 0 [0] [(demo_b, 19)]))"
  by (simp_all add: dw_state_def dfiles_def demo_sqe_def dw_do_umount_def check_def Let_def dw_pull_def dw_submit_direct_spill_def dw_ready_def issue_write_def
      dw_progress_io_def ring_complete_def pwrite_def fixed_idx_def demo_bp_def dw_written_def demo_b_fields)

definition demo_f5 :: node where "demo_f5 = demo_nd demo_host [] demo_free [] 1 [] [] [] [demo_b] (demo_disk_at []) []"
definition demo_w5 :: DirectSpillWorker where "demo_w5 = dw_state True [] None (dfiles 3) [] [1, 2, 3] 0 [0] [(demo_b, 19)]"
definition demo_t5 :: node where "demo_t5 = demo_nd demo_host0 [] demo_free [] 0 [] [] [] [] demo_w5 [(1, [1, 2, 3])]"

text \<open>A cluster of two nodes, and the steps of each.\<close>

definition pair :: "node \<Rightarrow> node \<Rightarrow> cluster" where
  "pair t f = (\<lambda>y. if y then t else f)"

lemma pair_steps:
  "node_step (remote_fn True) bulk t t' \<Longrightarrow> cluster_step bulk (pair t f) (pair t' f)"
  "node_step (remote_fn False) bulk f f' \<Longrightarrow> cluster_step bulk (pair t f) (pair t f')"
  "k < length (nd_fwd f) \<Longrightarrow> i < length (pl_rsqs (nd_q t)) \<Longrightarrow> nd_receive_remote t (nd_fwd f ! k) i old = Inr t' \<Longrightarrow>
    cluster_step bulk (pair t f) (pair t' (nd_read_by_peer f k))"
proof -
  have upd: "(pair t f)(True := x) = pair x f" "(pair t f)(False := x) = pair t x" for t f x by (auto simp: pair_def)
  show "node_step (remote_fn True) bulk t t' \<Longrightarrow> cluster_step bulk (pair t f) (pair t' f)"
    using cluster_step.local [of True bulk "pair t f" t'] by (simp add: upd) (simp add: pair_def)
  show "node_step (remote_fn False) bulk f f' \<Longrightarrow> cluster_step bulk (pair t f) (pair t f')"
    using cluster_step.local [of False bulk "pair t f" f'] by (simp add: upd) (simp add: pair_def)
  show "k < length (nd_fwd f) \<Longrightarrow> i < length (pl_rsqs (nd_q t)) \<Longrightarrow> nd_receive_remote t (nd_fwd f ! k) i old = Inr t' \<Longrightarrow>
    cluster_step bulk (pair t f) (pair t' (nd_read_by_peer f k))"
    using cluster_step.remote [of k "pair t f" False i old t' bulk] by (simp add: upd) (simp add: pair_def)
qed

lemma demo_cluster_reach: "cluster_reach bulk (pair demo_server demo_server) (pair demo_t5 demo_f5)"
proof -
  let ?f = "\<lambda>wire free lsq i trsq fwd un. demo_nd demo_host wire free lsq i trsq [] fwd un (demo_disk_at []) []"
  let ?t = "\<lambda>rsq d lg. demo_nd demo_host0 [] demo_free [] 0 [] rsq [] [] d lg"
  let ?f1 = "?f [demo_b] (bp_q demo_bp) [] 0 [] [] []"
  have "(pair demo_server demo_server)(False := x) = pair demo_server x" for x by (auto simp: pair_def)
  then have 1: "cluster_reach bulk (pair demo_server demo_server) (pair demo_server ?f1)"
    using host_reach_cluster [where bulk = bulk and c = "pair demo_server demo_server" and y = False and nd = demo_server, OF demo_host_reach]
    by (simp add: demo_sent demo_server_nd) (simp add: demo_nd_def demo_host0_def run_new_def)
  have 2: "cluster_step bulk (pair demo_server ?f1) (pair demo_server (?f [] demo_free [demo_b] 0 [] [] []))"
    by (rule pair_steps(2) [OF node_step.receive [OF _ _ demo_f_steps(1)]]) (simp_all add: demo_nd_def)
  have 3: "cluster_step bulk (pair demo_server (?f [] demo_free [demo_b] 0 [] [] [])) (pair demo_server (?f [] demo_free [] 1 [demo_b] [] []))"
    by (rule pair_steps(2) [OF node_step.dispatch [OF demo_f_steps(2)]])
  have 4: "cluster_step bulk (pair demo_server (?f [] demo_free [] 1 [demo_b] [] [])) (pair demo_server (?f [] demo_free [] 1 [] [demo_b] []))"
    using pair_steps(2) [OF node_step.consume [of 0 "?f [] demo_free [] 1 [demo_b] [] []"]] demo_f_steps(3) by (simp add: demo_nd_def)
  have 5: "cluster_step bulk (pair demo_server (?f [] demo_free [] 1 [] [demo_b] [])) (pair (?t [demo_b] (demo_disk_at []) []) demo_f5)"
    using pair_steps(3) [of 0 "?f [] demo_free [] 1 [] [demo_b] []" 0 demo_server "replicate 32 0" "?t [demo_b] (demo_disk_at []) []"] demo_f_steps(4) demo_t_steps(1)
    unfolding demo_server_nd demo_f5_def by (simp add: demo_nd_def)
  have 6: "cluster_step bulk (pair (?t [demo_b] (demo_disk_at []) []) f) (pair (?t [] (demo_disk_at [demo_b]) []) f)" for f
    by (rule pair_steps(1) [OF node_step.dispatch [OF demo_t_steps(2)]])
  let ?w3 = "dw_state True [] (Some demo_b) (dfiles 0) [] [] 0 [] []" and ?w4 = "dw_state True [] None (dfiles 3) [demo_sqe] [] 1 [0] []"
  have 7: "cluster_step bulk (pair (?t [] (demo_disk_at [demo_b]) []) f) (pair (?t [] ?w3 []) f)" for f
    using pair_steps(1) [OF node_step.pull [of _ _ "?t [] (demo_disk_at [demo_b]) []"]] demo_d_steps(1) by (simp add: demo_nd_def)
  have 8: "cluster_step bulk (pair (?t [] ?w3 []) f) (pair (?t [] ?w4 [(1, [1, 2, 3])]) f)" for f
    using pair_steps(1) [OF node_step.submit [of "?t [] ?w3 []" ?w4]] demo_d_steps(2-4) by (simp add: demo_nd_def)
  have 9: "cluster_step bulk (pair (?t [] ?w4 [(1, [1, 2, 3])]) f) (pair demo_t5 f)" for f
    using pair_steps(1) [OF node_step.progress [of 0 "?t [] ?w4 [(1, [1, 2, 3])]" 3]] demo_d_steps(5)
    by (simp add: demo_nd_def demo_t5_def demo_w5_def) (simp add: dw_state_def demo_sqe_def)
  note r = cluster_reach.step [OF cluster_reach.step [OF cluster_reach.step [OF 1 2] 3] 4]
  note r = cluster_reach.step [OF cluster_reach.step [OF cluster_reach.step [OF r 5] 6] 7]
  show ?thesis by (rule cluster_reach.step [OF cluster_reach.step [OF r 8] 9])
qed

lemma demo_arrived: "arrived (pair demo_t5 demo_f5) 1" "all_records (pair demo_t5 demo_f5) 1 = {#[1, 2, 3]#}"
  using demo_sent by (simp_all add: arrived_def all_records_def pair_def demo_t5_def demo_f5_def demo_nd_def demo_w5_def place_defs dw_state_def)

theorem records_reach_files_witness:
  "\<exists>rs. io_disk (dw_io (dw_state False [] None (dfiles 3) [] [1, 2, 3] 0 [0] [(demo_b, 19)])) 4 = concat rs \<and> filter_mset (\<lambda>r. r \<noteq> []) (mset rs) = {#[1, 2, 3]#}"
proof -
  have run: "cluster_reach total_size (\<lambda>_. server_main (run_new 1 2 demo_pool) demo_bp 1 1 demo_dsw) (pair demo_t5 demo_f5)"
    using demo_cluster_reach [of total_size] by (simp add: demo_server_def demo_host0_def pair_def)
  have f: "nd_log (pair demo_t5 demo_f5 True) = [(1, [1, 2, 3])]" "nd_disk (pair demo_t5 demo_f5 True) = demo_w5"
    by (simp_all add: pair_def demo_t5_def demo_nd_def)
  have fit: "\<forall>p. length (file_data [] (nd_log (pair demo_t5 demo_f5 True)) p) < 2 ^ 64" "length (nd_log (pair demo_t5 demo_f5 True)) < 2 ^ 64"
    by (simp_all add: f file_data_def)
  have "demo_opn ''d/p1'' = 4" by code_simp
  then show ?thesis
    using records_reach_files [where y = True and p = 1, OF demo_pool_usable(1) _ _ demo_fds dw_demo_steps(1) [folded demo_dsw_def] run fit _ demo_arrived(1) _ demo_d_steps(6) [folded demo_w5_def f(2)]]
    by (simp add: demo_arrived(2) [simplified] remote_fn_def)
qed

end
