(* ===== verification/Doca_Buffers.thy ===== *)
theory Doca_Buffers
  imports Memory_Pool
begin

text \<open>
  \<^verbatim>\<open>lib/doca/buffer.hxx\<close>: memory registered with a device, and the pieces a buffer pool of DOCA divides it
  into. The allocator, the exports and the pool of DOCA are parameters; of the pool it is only used
  that its buffers are the elements of the memory, each handed out once.
\<close>

section \<open>Registered memory\<close>

record OwnedBuffer =
  ob_region :: MemoryRegion
  ob_aligned_len :: u64
  ob_pci_desc :: string
  ob_rdma_desc :: string

definition OwnedBuffer_new :: "(u64 \<Rightarrow> u64) \<Rightarrow> u64 \<Rightarrow> OwnedBuffer" where
  "OwnedBuffer_new alloc len =
    \<lparr>ob_region = \<lparr>mr_base = alloc (upper_align len 64), mr_len = len\<rparr>, ob_aligned_len = upper_align len 64, ob_pci_desc = [], ob_rdma_desc = []\<rparr>"

text \<open>\<^verbatim>\<open>MappedRegion\<close> registers memory that is already there, with the same exports.\<close>

definition MappedRegion_new :: "u64 \<Rightarrow> u64 \<Rightarrow> OwnedBuffer" where
  "MappedRegion_new ptr len = \<lparr>ob_region = \<lparr>mr_base = ptr, mr_len = len\<rparr>, ob_aligned_len = len, ob_pci_desc = [], ob_rdma_desc = []\<rparr>"

text \<open>The descriptor is asked for once and kept.\<close>

definition export_pci :: "('d \<Rightarrow> MemoryRegion \<Rightarrow> string) \<Rightarrow> OwnedBuffer \<Rightarrow> 'd \<Rightarrow> string \<times> OwnedBuffer" where
  "export_pci doca_mmap_export_pci b dev =
    (let b = (if ob_pci_desc b = [] then b\<lparr>ob_pci_desc := doca_mmap_export_pci dev (ob_region b)\<rparr> else b) in (ob_pci_desc b, b))"

definition export_rdma :: "('d \<Rightarrow> MemoryRegion \<Rightarrow> string) \<Rightarrow> OwnedBuffer \<Rightarrow> 'd \<Rightarrow> string \<times> OwnedBuffer" where
  "export_rdma doca_mmap_export_rdma b dev =
    (let b = (if ob_rdma_desc b = [] then b\<lparr>ob_rdma_desc := doca_mmap_export_rdma dev (ob_region b)\<rparr> else b) in (ob_rdma_desc b, b))"

section \<open>Pieces\<close>

record Buffers = OwnedBuffer +
  bs_piece_len :: u64
  bs_handles :: "MemoryRegion list"

text \<open>A borrowed buffer takes its address and length from the buffer of DOCA.\<close>

definition BorrowedBuffer_new :: "u64 \<Rightarrow> u64 \<Rightarrow> MemoryRegion" where
  "BorrowedBuffer_new data len = \<lparr>mr_base = data, mr_len = len\<rparr>"

definition Buffers_new :: "(u64 \<Rightarrow> u64) \<Rightarrow> (u64 \<Rightarrow> u64 \<Rightarrow> u64 \<Rightarrow> nat \<Rightarrow> u64) \<Rightarrow> u64 \<Rightarrow> u64 \<Rightarrow> Buffers" where
  "Buffers_new alloc buf_alloc n piece_len =
    (let b = OwnedBuffer_new alloc (n * piece_len) in
     OwnedBuffer.extend b
       \<lparr>bs_piece_len = piece_len,
        bs_handles = map (\<lambda>i. BorrowedBuffer_new (buf_alloc (mr_base (ob_region b)) n piece_len i) piece_len) [0..<unat n]\<rparr>)"

definition n_elements :: "Buffers \<Rightarrow> nat" where "n_elements b = length (bs_handles b)"

text \<open>What the pool of DOCA promises for memory at \<open>base\<close>: its allocations are the \<open>n\<close> elements, in some order.\<close>

definition buf_alloc_ok :: "(u64 \<Rightarrow> u64 \<Rightarrow> u64 \<Rightarrow> nat \<Rightarrow> u64) \<Rightarrow> u64 \<Rightarrow> u64 \<Rightarrow> u64 \<Rightarrow> bool" where
  "buf_alloc_ok buf_alloc base n piece_len \<longleftrightarrow>
    mset (map (buf_alloc base n piece_len) [0..<unat n]) = mset (map (\<lambda>k. base + of_nat k * piece_len) [0..<unat n])"

section \<open>The memory of a pool\<close>

lemma aligned_len_covers:
  assumes "unat len + 63 < 2 ^ 64"
  shows "unat (ob_aligned_len (OwnedBuffer_new alloc len)) mod 64 = 0" "unat len \<le> unat (ob_aligned_len (OwnedBuffer_new alloc len))"
    "unat (ob_aligned_len (OwnedBuffer_new alloc len)) < unat len + 64"
proof -
  have "unat (upper_align len 64) = upper_align (unat len) 64" using unat_upper_align [of 64 len] assms by simp
  then show "unat (ob_aligned_len (OwnedBuffer_new alloc len)) mod 64 = 0" "unat len \<le> unat (ob_aligned_len (OwnedBuffer_new alloc len))"
    "unat (ob_aligned_len (OwnedBuffer_new alloc len)) < unat len + 64"
    using upper_align_nat [of 64 "unat len"] by (simp_all add: OwnedBuffer_new_def)
qed

text \<open>A second export gives the descriptor of the first one, even for another device.\<close>

lemma export_first_device:
  assumes "ex dev (ob_region b) \<noteq> []" "ob_pci_desc b = []"
  shows "fst (export_pci ex (snd (export_pci ex b dev)) dev') = ex dev (ob_region b)"
  using assms by (simp add: export_pci_def Let_def)

lemma unat_piece:
  fixes base piece :: u64
  assumes "unat base + n * unat piece < 2 ^ 64" "k \<le> n"
  shows "unat (base + of_nat k * piece) = unat base + k * unat piece"
proof (cases "unat piece = 0")
  case True
  then have "piece = 0" by (simp add: unat_eq_zero)
  then show ?thesis by simp
next
  case False
  have kp: "k * unat piece \<le> n * unat piece" using assms(2) by simp
  then have "k * unat piece < 2 ^ 64" using assms(1) by linarith
  moreover have "k \<le> k * unat piece" using False by (cases "unat piece") simp_all
  ultimately have k: "unat (of_nat k :: u64) = k" by (intro unat_of_nat_u64) linarith
  have "unat (of_nat k * piece) = k * unat piece" using \<open>k * unat piece < 2 ^ 64\<close> by (simp add: unat_word_ariths k)
  moreover have "unat base + k * unat piece < 2 ^ 64" using assms(1) kp by linarith
  ultimately show ?thesis by (simp add: unat_word_ariths(1))
qed

lemma piece_handles:
  assumes "buf_alloc_ok buf_alloc base n piece_len"
  shows "mset (map (\<lambda>i. BorrowedBuffer_new (buf_alloc base n piece_len i) piece_len) [0..<unat n])
    = mset (map (\<lambda>k. \<lparr>mr_base = base + of_nat k * piece_len, mr_len = piece_len\<rparr>) [0..<unat n])"
  using arg_cong [OF assms [unfolded buf_alloc_ok_def], of "image_mset (\<lambda>d. BorrowedBuffer_new d piece_len)"]
  by (simp add: image_mset.compositionality comp_def) (simp add: BorrowedBuffer_new_def)

lemma pieces_disjoint:
  assumes ok: "buf_alloc_ok buf_alloc (alloc (upper_align (n * piece_len) 64)) n piece_len"
    and fit: "unat (alloc (upper_align (n * piece_len) 64)) + unat n * unat piece_len < 2 ^ 64" and pos: "0 < unat piece_len"
  shows "let b = Buffers_new alloc buf_alloc n piece_len in n_elements b = unat n \<and> distinct (bs_handles b)
    \<and> (\<forall>h \<in> set (bs_handles b). bp_owns (ob_region b) (bs_piece_len b) h)
    \<and> (\<forall>h \<in> set (bs_handles b). \<forall>h' \<in> set (bs_handles b). h \<noteq> h' \<longrightarrow>
         unat (mr_base h) + unat (mr_len h) \<le> unat (mr_base h') \<or> unat (mr_base h') + unat (mr_len h') \<le> unat (mr_base h))"
proof -
  let ?base = "alloc (upper_align (n * piece_len) 64)" and ?b = "Buffers_new alloc buf_alloc n piece_len" and ?p = "unat piece_len"
  let ?piece = "\<lambda>k. \<lparr>mr_base = ?base + of_nat k * piece_len, mr_len = piece_len\<rparr>"
  have f: "ob_region ?b = \<lparr>mr_base = ?base, mr_len = n * piece_len\<rparr>" "bs_piece_len ?b = piece_len"
    "bs_handles ?b = map (\<lambda>i. BorrowedBuffer_new (buf_alloc ?base n piece_len i) piece_len) [0..<unat n]"
    by (simp_all add: Buffers_new_def OwnedBuffer_new_def OwnedBuffer.extend_def Let_def)
  have m: "mset (bs_handles ?b) = mset (map ?piece [0..<unat n])" unfolding f by (rule piece_handles [OF ok])
  have at: "unat (?base + of_nat k * piece_len) = unat ?base + k * ?p" if "k \<le> unat n" for k using fit that by (rule unat_piece)
  have sep: "unat ?base + j * ?p + ?p \<le> unat ?base + k * ?p" if "j < k" for j k
    using mult_le_mono1 [of "Suc j" k ?p] that by simp
  have "inj_on ?piece {0..<unat n}"
  proof (rule inj_onI)
    fix j k assume jk: "j \<in> {0..<unat n}" "k \<in> {0..<unat n}" "?piece j = ?piece k"
    have "j \<le> unat n" "k \<le> unat n" using jk(1,2) by simp_all
    moreover have "unat (?base + of_nat j * piece_len) = unat (?base + of_nat k * piece_len)" using arg_cong [OF jk(3), of mr_base] by (simp only: MemoryRegion.select_convs)
    ultimately have "j * ?p = k * ?p" using at [of j] at [of k] by linarith
    then show "j = k" using pos by (simp only: mult_right_cancel nat_mult_eq_cancel_disj mult.commute [of _ ?p]) simp
  qed
  then have "distinct (map ?piece [0..<unat n])" by (simp add: distinct_map)
  then have d: "distinct (bs_handles ?b)" using m by (metis distinct_count_atmost_1 set_mset_mset)
  have h: "\<exists>k < unat n. h = ?piece k" if "h \<in> set (bs_handles ?b)" for h
    using that arg_cong [OF m, of set_mset] by auto
  have e: "unat (?base + n * piece_len) = unat ?base + unat n * ?p" using at [of "unat n"] by simp
  have o: "bp_owns (ob_region ?b) (bs_piece_len ?b) (?piece k)" if "k < unat n" for k
  proof -
    have "unat (?base + of_nat k * piece_len + piece_len) = unat ?base + Suc k * ?p"
      using at [of "Suc k"] that by (simp add: algebra_simps)
    then show ?thesis using at [of k] e that mult_le_mono1 [of "Suc k" "unat n" ?p]
      by (simp add: bp_owns_def f word_le_nat_alt)
  qed
  have s: "unat (mr_base (?piece j)) + unat (mr_len (?piece j)) \<le> unat (mr_base (?piece k))" if "j < k" "k < unat n" for j k
    using that at [of j] at [of k] sep [of j k] by simp
  have "unat (mr_base x) + unat (mr_len x) \<le> unat (mr_base y) \<or> unat (mr_base y) + unat (mr_len y) \<le> unat (mr_base x)"
    if xy: "x \<in> set (bs_handles ?b)" "y \<in> set (bs_handles ?b)" "x \<noteq> y" for x y
  proof -
    from h [OF xy(1)] h [OF xy(2)] obtain j k where jk: "j < unat n" "x = ?piece j" "k < unat n" "y = ?piece k" by blast
    then have "j \<noteq> k" using xy(3) by blast
    then consider "j < k" | "k < j" by (rule linorder_neqE_nat)
    then show ?thesis using s [of j k] s [of k j] jk by cases blast+
  qed
  moreover have "n_elements ?b = unat n" by (simp add: n_elements_def f(3))
  moreover have "\<forall>h \<in> set (bs_handles ?b). bp_owns (ob_region ?b) (bs_piece_len ?b) h" using h o by blast
  ultimately show ?thesis using d unfolding Let_def by blast
qed

text \<open>
  C22. The handles of \<^verbatim>\<open>doca::Buffers\<close> are what a buffer pool needs: as many as asked for, all different, each
  inside the memory, and no two of them share a byte.
\<close>

theorem doca_Buffers_pieces:
  assumes ok: "buf_alloc_ok buf_alloc (alloc (upper_align (n * piece_len) 64)) n piece_len"
    and fit: "unat (alloc (upper_align (n * piece_len) 64)) + unat n * unat piece_len < 2 ^ 64" and pos: "0 < unat piece_len"
  shows "let b = Buffers_new alloc buf_alloc n piece_len in n_elements b = unat n \<and> distinct (bs_handles b)
    \<and> (\<forall>h \<in> set (bs_handles b). bp_owns (ob_region b) (bs_piece_len b) h)
    \<and> (\<forall>h \<in> set (bs_handles b). \<forall>h' \<in> set (bs_handles b). h \<noteq> h' \<longrightarrow>
         unat (mr_base h) + unat (mr_len h) \<le> unat (mr_base h') \<or> unat (mr_base h') + unat (mr_len h') \<le> unat (mr_base h))"
  by (rule pieces_disjoint [of buf_alloc alloc n piece_len, OF assms])

definition in_sequence :: "u64 \<Rightarrow> u64 \<Rightarrow> u64 \<Rightarrow> nat \<Rightarrow> u64" where
  "in_sequence base n piece_len i = base + of_nat i * piece_len"

theorem doca_Buffers_pieces_witness:
  "distinct (bs_handles (Buffers_new (\<lambda>_. 4096) in_sequence 256 (MB 8))) \<and> n_elements (Buffers_new (\<lambda>_. 4096) in_sequence 256 (MB 8)) = 256"
proof -
  have "buf_alloc_ok in_sequence 4096 n p" for n p by (simp add: buf_alloc_ok_def in_sequence_def [abs_def])
  then show ?thesis using doca_Buffers_pieces [of in_sequence "\<lambda>_. 4096" 256 "MB 8"] by (simp add: MB_def KB_def Let_def)
qed

section \<open>Buffer pools\<close>

definition doca_pool :: "(u64 \<Rightarrow> u64) \<Rightarrow> (u64 \<Rightarrow> u64 \<Rightarrow> u64 \<Rightarrow> nat \<Rightarrow> u64) \<Rightarrow> mem \<Rightarrow> u64 \<Rightarrow> u64 \<Rightarrow> BufferPool" where
  "doca_pool alloc buf_alloc m n piece_len =
    (let b = Buffers_new alloc buf_alloc n piece_len in bp_new (ob_region b) (bs_piece_len b) (bs_handles b) m)"

end
