(* ===== verification/Trans_Env.thy ===== *)
theory Trans_Env
  imports Offload_Cluster Doca_Buffers
begin

text \<open>
  The entry points through which a Java task spills: \<^verbatim>\<open>lib/native/trans_native.cxx\<close> (a spill agent, and a
  disk agent for the disk of the DPU), \<^verbatim>\<open>pipeline_trans_native.cxx\<close> (a spill agent and a host spill worker)
  and \<^verbatim>\<open>naive_trans_native.cxx\<close> (whole arrays instead of records). The arrays of the JVM are their
  contents; \<^verbatim>\<open>Destroy\<close> stops the agent and deletes the objects. A pool is created by a function of the number
  and size of its buffers, \<open>doca_pool\<close> for the pools the program has.
\<close>

section \<open>Entry points\<close>

text \<open>A partition number arrives as \<^verbatim>\<open>jint\<close> and is used as \<^verbatim>\<open>size_t\<close>.\<close>

definition jint_index :: "32 word \<Rightarrow> nat" where
  "jint_index i = unat (scast i :: u64)"

record TransEnv =
  te_sa :: SpillAgent
  te_da :: DiskAgent

definition TransEnv_Initialize :: "(u64 \<Rightarrow> u64 \<Rightarrow> BufferPool) \<Rightarrow> string \<Rightarrow> string \<Rightarrow> TransEnv" where
  "TransEnv_Initialize new_pool mount_point output_device =
    \<lparr>te_sa = agent_new 2 192 (new_pool 256 (MB 8)), te_da = da_new mount_point output_device 192\<rparr>"

definition TransEnv_TriggerSpillStart :: "(string \<Rightarrow> int) \<Rightarrow> ('w \<Rightarrow> nat \<Rightarrow> (int \<times> 'w) result) \<Rightarrow> TransEnv \<Rightarrow> 'w \<Rightarrow> disk_event list \<Rightarrow> (TransEnv \<times> 'w \<times> disk_event list) result" where
  "TransEnv_TriggerSpillStart sys call env w es = bnd (mount_on_dpu sys call (te_da env, w, es)) (\<lambda>(da, w, es). Inr (env\<lparr>te_da := da\<rparr>, w, es))"

text \<open>\<open>None\<close>: the unmount request is not answered yet.\<close>

definition TransEnv_WaitForSpillDone :: "(string \<Rightarrow> int) \<Rightarrow> ('w \<Rightarrow> (int \<times> 'w) option result) \<Rightarrow> TransEnv \<Rightarrow> 'w \<Rightarrow> disk_event list \<Rightarrow> (TransEnv \<times> 'w \<times> disk_event list) option result" where
  "TransEnv_WaitForSpillDone sys call env w es =
    bnd (umount_on_dpu sys call (te_da env, w, es)) (\<lambda>r. Inr (map_option (\<lambda>(da, w, es). (env\<lparr>te_da := da\<rparr>, w, es)) r))"

text \<open>
  \<^verbatim>\<open>Append\<close>, the same in two of the environments. A call runs while other threads and the workers make
  steps: it appends, is done when its partition no longer waits for a buffer, and goes on to force the
  buffer out if the record is the last one.
\<close>

inductive Append :: "(PartitionBuffer \<Rightarrow> u64) \<Rightarrow> 32 word \<Rightarrow> u8 list \<Rightarrow> u8 list \<Rightarrow> bool \<Rightarrow> arun \<Rightarrow> arun \<Rightarrow> bool" for bulk partition_id key val where
  one: "ag_waiting (ar_agent s) ! jint_index partition_id = Idle \<Longrightarrow> append_or_spill (ar_agent s) (jint_index partition_id) key val = Inr a \<Longrightarrow>
    agent_reach bulk (s\<lparr>ar_agent := a, ar_records := ar_records s @ [(jint_index partition_id, key @ val)]\<rparr>) s' \<Longrightarrow>
    ag_waiting (ar_agent s') ! jint_index partition_id = Idle \<Longrightarrow> Append bulk partition_id key val False s s'"
| final: "Append bulk partition_id key val False s s1 \<Longrightarrow> force_spill (ar_agent s1) (jint_index partition_id) = Inr a \<Longrightarrow>
    agent_reach bulk (s1\<lparr>ar_agent := a\<rparr>) s' \<Longrightarrow> ag_waiting (ar_agent s') ! jint_index partition_id = Idle \<Longrightarrow>
    Append bulk partition_id key val True s s'"

inductive_cases Append_lastE: "Append bulk pid key val True s s'"
inductive_cases Append_recordE: "Append bulk pid key val False s s'"

text \<open>\<^verbatim>\<open>PipelineTransEnv\<close>: the wait polls a flag of the worker (\<open>None\<close>: it is still set) and closes the files.\<close>

record PipelineTransEnv =
  pe_sa :: SpillAgent
  pe_sw :: BufferredHostSpillWorker

definition PipelineTransEnv_Initialize :: "(u64 \<Rightarrow> u64 \<Rightarrow> BufferPool) \<Rightarrow> (u64 \<Rightarrow> u64 \<Rightarrow> BufferPool) \<Rightarrow> string \<Rightarrow> (int \<Rightarrow> u8 list) \<Rightarrow> PipelineTransEnv" where
  "PipelineTransEnv_Initialize new_pool new_bp spill_dir disk =
    \<lparr>pe_sa = agent_new 1 32 (new_pool 64 (MB 32)), pe_sw = bw_new (new_bp 32 (MB 32)) spill_dir 32 disk\<rparr>"

definition PipelineTransEnv_TriggerSpillStart :: "(string \<Rightarrow> int) \<Rightarrow> PipelineTransEnv \<Rightarrow> PipelineTransEnv result" where
  "PipelineTransEnv_TriggerSpillStart opn env = bnd (bw_create_partition_files opn (pe_sw env) False) (\<lambda>sw. Inr (env\<lparr>pe_sw := sw\<rparr>))"

definition PipelineTransEnv_WaitForSpillDone :: "PipelineTransEnv \<Rightarrow> PipelineTransEnv option" where
  "PipelineTransEnv_WaitForSpillDone env =
    (if bw_is_spilling (pe_sw env) then None else Some (env\<lparr>pe_sw := bw_close_partition_files (pe_sw env)\<rparr>))"

text \<open>\<^verbatim>\<open>NaiveTransEnv\<close>: \<^verbatim>\<open>Spill\<close> queues the array, up to the wait for its result, and from there.\<close>

record NaiveTransEnv =
  ne_sa :: NaiveSpillAgent
  ne_sw :: HostSpillWorker

definition NaiveTransEnv_Initialize :: "(u64 \<Rightarrow> u64 \<Rightarrow> BufferPool) \<Rightarrow> string \<Rightarrow> (int \<Rightarrow> u8 list) \<Rightarrow> NaiveTransEnv" where
  "NaiveTransEnv_Initialize new_bp spill_dir disk =
    \<lparr>ne_sa = \<lparr>na_running = True, na_q = [], na_bp = new_bp 16 (MB 512), na_results = []\<rparr>, ne_sw = hw_new spill_dir 192 disk\<rparr>"

definition NaiveTransEnv_TriggerSpillStart :: "(string \<Rightarrow> int) \<Rightarrow> NaiveTransEnv \<Rightarrow> bool \<Rightarrow> NaiveTransEnv result" where
  "NaiveTransEnv_TriggerSpillStart opn env need_header = bnd (hw_create_partition_files opn (ne_sw env) need_header) (\<lambda>sw. Inr (env\<lparr>ne_sw := sw\<rparr>))"

definition NaiveTransEnv_Spill :: "NaiveTransEnv \<Rightarrow> u8 list \<Rightarrow> NaiveTransEnv" where
  "NaiveTransEnv_Spill env data = env\<lparr>ne_sa := (ne_sa env)\<lparr>na_q := na_q (ne_sa env) @ [data]\<rparr>\<rparr>"

definition NaiveTransEnv_Spill_done :: "NaiveTransEnv \<Rightarrow> u8 list \<Rightarrow> nat \<Rightarrow> NaiveTransEnv result" where
  "NaiveTransEnv_Spill_done env data i =
    (case na_results (ne_sa env) ! i of (_, n_spill) \<Rightarrow>
       bnd (check (n_spill = of_nat (length data)) Die) (\<lambda>_.
         Inr (env\<lparr>ne_sa := (ne_sa env)\<lparr>na_results := take i (na_results (ne_sa env)) @ drop (Suc i) (na_results (ne_sa env))\<rparr>\<rparr>)))"

definition NaiveTransEnv_WaitForSpillDone :: "NaiveTransEnv \<Rightarrow> NaiveTransEnv option" where
  "NaiveTransEnv_WaitForSpillDone env =
    (if hw_is_spilling (ne_sw env) then None else Some (env\<lparr>ne_sw := hw_close_partition_files (ne_sw env)\<rparr>))"

text \<open>\<^verbatim>\<open>Destroy\<close>: the agent's workers leave when the queue is empty, the naive agent's at once.\<close>

definition TransEnv_Destroy :: "TransEnv \<Rightarrow> TransEnv" where
  "TransEnv_Destroy env = env\<lparr>te_sa := agent_stop (te_sa env)\<rparr>"

definition PipelineTransEnv_Destroy :: "PipelineTransEnv \<Rightarrow> PipelineTransEnv" where
  "PipelineTransEnv_Destroy env = \<lparr>pe_sa = agent_stop (pe_sa env), pe_sw = (pe_sw env)\<lparr>bw_running := False\<rparr>\<rparr>"

definition NaiveTransEnv_Destroy :: "NaiveTransEnv \<Rightarrow> NaiveTransEnv" where
  "NaiveTransEnv_Destroy env = \<lparr>ne_sa = (ne_sa env)\<lparr>na_running := False\<rparr>, ne_sw = (ne_sw env)\<lparr>hw_running := False\<rparr>\<rparr>"

section \<open>The last record of a partition\<close>

text \<open>The pools meet what the theorems about the agent ask for.\<close>

lemma doca_pool_usable:
  assumes "buf_alloc_ok buf_alloc (alloc (upper_align (n * piece_len) 64)) n piece_len"
    "unat (alloc (upper_align (n * piece_len) 64)) + unat n * unat piece_len < 2 ^ 64" "16 \<le> unat piece_len" "unat piece_len < 2 ^ 63"
  shows "pool_usable (doca_pool alloc buf_alloc m n piece_len)" "distinct (bp_q (doca_pool alloc buf_alloc m n piece_len))"
    "length (bp_q (doca_pool alloc buf_alloc m n piece_len)) = unat n"
proof -
  have p: "0 < unat piece_len" using assms(3) by simp
  have "bs_piece_len (Buffers_new alloc buf_alloc n piece_len) = piece_len" by (simp add: Buffers_new_def OwnedBuffer.extend_def Let_def)
  then show "pool_usable (doca_pool alloc buf_alloc m n piece_len)" "distinct (bp_q (doca_pool alloc buf_alloc m n piece_len))"
    "length (bp_q (doca_pool alloc buf_alloc m n piece_len)) = unat n"
    using pieces_disjoint [of buf_alloc alloc n piece_len, OF assms(1,2) p] assms(3,4) by (auto simp: pool_usable_def doca_pool_def bp_new_def bp_owns_def n_elements_def Let_def)
qed

text \<open>The buffers a spill worker has or has sent: they only get more.\<close>

definition submitted :: "arun \<Rightarrow> PartitionBuffer list" where
  "submitted s = ar_sent s @ concat (ag_taken (ar_agent s)) @ ag_spill_q (ar_agent s)"

lemma mset_submitted: "mset (submitted s) = mset (ar_sent s) + mset (concat (ag_taken (ar_agent s))) + mset (ag_spill_q (ar_agent s))"
  by (simp add: submitted_def)

lemma agent_step_submitted: "agent_step bulk s s' \<Longrightarrow> mset (submitted s) \<subseteq># mset (submitted s')"
proof (induction rule: agent_step.induct)
  case (append pid s key val a)
  then show ?case by (cases "ag_active (ar_agent s) ! pid")
      (auto simp: append_or_spill_def mset_submitted submit_spill_buffer_def simp del: mset_concat split: if_splits)
next
  case (force pid s a)
  then show ?case by (cases "ag_active (ar_agent s) ! pid") (auto simp: force_spill_def mset_submitted submit_spill_buffer_def simp del: mset_concat)
next
  case (resume pid s a)
  then have "submitted (s\<lparr>ar_agent := a\<rparr>) = submitted s"
    by (auto simp: resume_def agent_acquire_one_def submitted_def split: option.splits prod.splits)
  then show ?case by simp
next
  case (take i s)
  then show ?case using mset_concat_update [OF take.hyps(1), of "ag_spill_q (ar_agent s)"] by (simp add: mset_submitted take_queue_def del: mset_concat)
next
  case (start i s bs a)
  then show ?case using mset_concat_update [OF start.hyps(1), of "[]"]
    by (auto simp: mset_submitted start_transfers_def ac_simps simp del: mset_concat)
next
  case (complete i s a)
  then have "submitted (s\<lparr>ar_agent := a\<rparr>) = submitted s" by (auto simp: complete_transfers_def submitted_def elim!: complete_each_ok)
  then show ?case by simp
next
  case (stop s)
  then show ?case by (simp add: submitted_def agent_stop_def)
qed

lemma agent_reach_submitted: "agent_reach bulk s s' \<Longrightarrow> mset (submitted s) \<subseteq># mset (submitted s')"
  by (induction rule: agent_reach.induct) (auto dest: agent_step_submitted)

lemma agent_reach_records: "agent_reach bulk s s' \<Longrightarrow> \<exists>rs. ar_records s' = ar_records s @ rs"
proof (induction rule: agent_reach.induct)
  case (step s s' s'')
  from step.hyps(2) have "\<exists>rs. ar_records s'' = ar_records s' @ rs" by (induction rule: agent_step.induct) simp_all
  then show ?case using step.IH by auto
qed simp

text \<open>A partition that neither has an active buffer nor a waiting record has submitted all its records.\<close>

lemma waiting_record_pid:
  "(x, r) \<in> set (waiting_record (q, w)) \<Longrightarrow> x = of_nat q" "(x, r) \<in> set (waiting_record (q, w)) \<Longrightarrow> \<exists>k v. w = Wait_append k v"
  by (cases w; simp)+

lemma all_submitted:
  assumes wf: "agent_wf (ar_agent s)" and M: "records_split s M" and n: "length (ag_active (ar_agent s)) = n" "n \<le> 2 ^ 64" "p < n"
    and rs: "\<forall>r \<in> set (ar_records s). fst r < n"
    and e: "owned (ag_waiting (ar_agent s) ! p, ag_active (ar_agent s) ! p) = []" "waited (ag_waiting (ar_agent s) ! p) = []" "\<forall>k v. ag_waiting (ar_agent s) ! p \<noteq> Wait_append k v"
  obtains xs where "map fst xs = submitted s" "\<forall>x \<in> set xs. payload (fst x) = concat (snd x)" "mset (records_sent xs p) = mset (records_given s p)"
proof -
  let ?a = "ar_agent s"
  have l: "length (ag_waiting ?a) = n" using wf n by (simp add: agent_wf_def)
  have pid: "p = q" if "(of_nat q :: u64) = of_nat p" "q < n" for q using of_nat_u64_eq [OF that(2) n(3,2)] that(1) by blast
  obtain ys zs where yz: "ar_sent s = map fst ys" "map fst zs = concat (ag_taken ?a) @ ag_spill_q ?a @ concat (map owned (slots ?a))"
    "\<forall>x \<in> set (ys @ zs). payload (fst x) = concat (snd x)"
    "\<forall>pid. mset (records_sent ys pid) + mset (records_sent zs pid) + only pid (waiting_records ?a)
       = only pid (image_mset (\<lambda>r. (of_nat (fst r), snd r)) (mset (ar_records s)))" by (rule split_sent [OF M])
  define k where "k = length (concat (ag_taken ?a) @ ag_spill_q ?a)"
  have zs: "map fst (take k zs) = concat (ag_taken ?a) @ ag_spill_q ?a" "map fst (drop k zs) = concat (map owned (slots ?a))"
    using yz(2) by (simp_all add: k_def take_map [symmetric] drop_map [symmetric])
  have "partition_id (fst x) \<noteq> of_nat p" if x: "x \<in> set (drop k zs)" for x
  proof
    assume i: "partition_id (fst x) = of_nat p"
    have "fst x \<in> set (concat (map owned (slots ?a)))" using x zs(2) by (metis image_eqI set_map)
    then obtain q where q: "q < length (ag_active ?a)" "fst x \<in> set (owned (ag_waiting ?a ! q, ag_active ?a ! q))" using l n(1) by (auto simp: slots_def set_zip)
    have "(of_nat q :: u64) = of_nat p" using owned_in_use(3) [OF wf q] i by (rule subst)
    then have "p = q" using q(1) [unfolded n(1)] by (rule pid)
    then show False using q(2) e(1) by simp
  qed
  then have d: "records_sent (drop k zs) p = []" by (auto simp: records_sent_def filter_empty_conv)
  have "records_sent zs p = records_sent (take k zs) p @ records_sent (drop k zs) p" by (simp add: records_sent_def flip: map_append filter_append concat_append)
  then have z: "records_sent (ys @ take k zs) p = records_sent ys p @ records_sent zs p" using d by (simp add: records_sent_def)
  have "(of_nat p, r) \<notin># waiting_records ?a" for r
  proof
    assume "(of_nat p, r) \<in># waiting_records ?a"
    then obtain q where q: "q < n" "(of_nat p, r) \<in> set (waiting_record (q, ag_waiting ?a ! q))" using l by (auto simp: waiting_records_def set_zip)
    have "(of_nat q :: u64) = of_nat p" by (rule waiting_record_pid(1) [OF q(2), symmetric])
    then have "p = q" using q(1) by (rule pid)
    then show False using waiting_record_pid(2) [OF q(2)] e(3) by simp
  qed
  then have w: "only p (waiting_records ?a) = {#}" by (subst set_mset_eq_empty_iff [symmetric]) (auto simp: only_def)
  have "mset (records_sent (ys @ take k zs) p) = mset (records_given s p)"
    using yz(4) [rule_format, of p] only_records_given [OF rs n(2,3)] by (simp add: z w records_given_def)
  then show ?thesis using that [of "ys @ take k zs"] yz(1,3) zs(1) by (auto simp: submitted_def dest: in_set_takeD)
qed

lemma forced_empty:
  assumes "force_spill a p = Inr a'" "p < length (ag_active a)" "agent_wf a" "ag_waiting a ! p = Idle"
  shows "owned (ag_waiting a' ! p, ag_active a' ! p) = []" "waited (ag_waiting a' ! p) = []" "\<forall>k v. ag_waiting a' ! p \<noteq> Wait_append k v"
  using assms by (auto simp: force_spill_def submit_spill_buffer_def agent_wf_def waited_def split: option.splits)

text \<open>
  C20. When \<^verbatim>\<open>Append\<close> returns for the last record of a partition, all records of the partition given before
  and the last one itself are in buffers that were handed to the spill workers, each in one piece,
  whatever other threads and the workers did in the meantime and however many workers there are.
\<close>

theorem last_append_submits:
  assumes pool: "pool_usable pool" and n: "max_n_partition \<le> 2 ^ 64" and reach: "agent_reach bulk (run_new n_worker max_n_partition pool) s"
    and call: "Append bulk pid key val True s s'"
  shows "\<exists>xs. mset (map fst xs) \<subseteq># mset (submitted s') \<and> (\<forall>x \<in> set xs. payload (fst x) = concat (snd x))
    \<and> mset (records_given s (jint_index pid) @ [key @ val]) \<subseteq># mset (records_sent xs (jint_index pid))"
proof -
  let ?p = "jint_index pid" and ?s0 = "run_new n_worker max_n_partition pool"
  from call obtain s1 a' where s1: "Append bulk pid key val False s s1" "force_spill (ar_agent s1) ?p = Inr a'" "agent_reach bulk (s1\<lparr>ar_agent := a'\<rparr>) s'"
    by (elim Append_lastE)
  from s1(1) obtain a where a: "ag_waiting (ar_agent s) ! ?p = Idle" "append_or_spill (ar_agent s) ?p key val = Inr a"
    "agent_reach bulk (s\<lparr>ar_agent := a, ar_records := ar_records s @ [(?p, key @ val)]\<rparr>) s1" "ag_waiting (ar_agent s1) ! ?p = Idle"
    by (elim Append_recordE)
  have wf0: "agent_wf (ar_agent ?s0)" using agent_new_wf(1) [OF pool] by (simp add: run_new_def)
  have len: "length (ag_active (ar_agent t)) = max_n_partition \<and> agent_wf (ar_agent t)" if "agent_reach bulk ?s0 t" for t
    using agent_reach_keeps [OF that wf0] by (simp add: keeps_def run_new_def agent_new_def)
  have p: "?p < max_n_partition" using a(2) len [OF reach] by (auto simp: append_or_spill_def split: if_splits)
  have "agent_step bulk s (s\<lparr>ar_agent := a, ar_records := ar_records s @ [(?p, key @ val)]\<rparr>)"
    using agent_step.append a(1,2) p len [OF reach] by simp
  then have r1: "agent_reach bulk ?s0 s1" using agent_reach_trans [OF a(3) agent_reach.step [OF reach]] by blast
  have "agent_step bulk s1 (s1\<lparr>ar_agent := a'\<rparr>)" using agent_step.force [OF _ a(4) s1(2)] p len [OF r1] by simp
  then have r2: "agent_reach bulk ?s0 (s1\<lparr>ar_agent := a'\<rparr>)" using r1 by (blast intro: agent_reach.step)
  obtain M where M: "records_split (s1\<lparr>ar_agent := a'\<rparr>) M" using agent_reach_split [OF r2 wf0] new_split by blast
  have rng: "\<forall>r \<in> set (ar_records (s1\<lparr>ar_agent := a'\<rparr>)). fst r < max_n_partition"
    using records_in_range [OF r2 wf0] len [OF r2] by (simp add: run_new_def)
  have e: "owned (ag_waiting a' ! ?p, ag_active a' ! ?p) = []" "waited (ag_waiting a' ! ?p) = []" "\<forall>k v. ag_waiting a' ! ?p \<noteq> Wait_append k v"
    using forced_empty [OF s1(2)] p len [OF r1] a(4) by blast+
  obtain xs where xs: "map fst xs = submitted (s1\<lparr>ar_agent := a'\<rparr>)" "\<forall>x \<in> set xs. payload (fst x) = concat (snd x)"
    "mset (records_sent xs ?p) = mset (records_given (s1\<lparr>ar_agent := a'\<rparr>) ?p)"
    by (rule all_submitted [OF _ M _ n p rng]) (use len [OF r2] e in simp_all)
  obtain rs where "ar_records s1 = ar_records s @ (?p, key @ val) # rs" using agent_reach_records [OF a(3)] by auto
  then have "mset (records_given s ?p @ [key @ val]) \<subseteq># mset (records_sent xs ?p)" using xs(3) by (simp add: records_given_def)
  moreover have "mset (map fst xs) \<subseteq># mset (submitted s')" unfolding xs(1) by (rule agent_reach_submitted [OF s1(3)])
  ultimately show ?thesis using xs(2) by blast
qed

definition demo_e4 :: SpillAgent where "demo_e4 = ok (resume (ok (force_spill demo_c2 1)) 1)"

lemma demo_e_steps: "resume (ok (force_spill demo_c2 1)) 1 = Inr demo_e4" "1 < length (ag_active (ok (force_spill demo_c2 1)))"
  "ag_waiting (ok (force_spill demo_c2 1)) ! 1 \<noteq> Idle" "ag_waiting demo_e4 ! 1 = Idle" "jint_index 1 = 1" "ag_waiting (ar_agent demo_host0) ! 1 = Idle"
  subgoal unfolding demo_e4_def by (rule ok_Inr) code_simp
  by code_simp+

lemma demo_append: "Append bulk 1 [1, 2] [3] True demo_host0 \<lparr>ar_agent = demo_e4, ar_records = [(1, [1, 2, 3])], ar_sent = []\<rparr>"
proof -
  let ?s = "\<lambda>a. \<lparr>ar_agent = a, ar_records = [(1, [1, 2, 3])], ar_sent = []\<rparr>"
  have "agent_reach bulk (?s demo_c1) (?s demo_c2)"
    using agent_reach_one [OF agent_step.resume [of 1 "?s demo_c1" demo_c2]] demo_c_steps(2) demo_c_enabled by simp
  moreover have "demo_host0\<lparr>ar_agent := demo_c1, ar_records := ar_records demo_host0 @ [(1, [1, 2] @ [3])]\<rparr> = ?s demo_c1"
    by (simp add: demo_host0_def run_new_def)
  moreover have "append_or_spill (ar_agent demo_host0) 1 [1, 2] [3] = Inr demo_c1" using demo_c_steps(1) by (simp add: demo_host0_def run_new_def)
  ultimately have 1: "Append bulk 1 [1, 2] [3] False demo_host0 (?s demo_c2)"
    using Append.one [of demo_host0 1 "[1, 2]" "[3]" demo_c1 bulk "?s demo_c2"] demo_c_enabled demo_e_steps(5,6) by simp
  have "agent_reach bulk (?s (ok (force_spill demo_c2 1))) (?s demo_e4)"
    using agent_reach_one [OF agent_step.resume [of 1 "?s (ok (force_spill demo_c2 1))" demo_e4]] demo_e_steps by simp
  then show ?thesis using Append.final [OF 1, of "ok (force_spill demo_c2 1)" "?s demo_e4"] demo_c_steps(3) demo_e_steps(4,5) by simp
qed

theorem last_append_submits_witness:
  "\<exists>xs. mset (map fst xs) \<subseteq># mset (submitted \<lparr>ar_agent = demo_e4, ar_records = [(1, [1, 2, 3])], ar_sent = []\<rparr>)
    \<and> (\<forall>x \<in> set xs. payload (fst x) = concat (snd x)) \<and> {#[1, 2, 3]#} \<subseteq># mset (records_sent xs 1)"
  using last_append_submits [OF demo_pool_usable(1) _ agent_reach.refl [of _ "run_new 1 2 demo_pool"], of _ 1 "[1, 2]" "[3]", OF _ demo_append [unfolded demo_host0_def]]
    demo_e_steps(5) by (auto simp: records_given_def run_new_def)

section \<open>What the waits do not wait for\<close>

text \<open>A negative partition number becomes a huge index, outside of the vectors of the agent.\<close>

lemma jint_index_mod: "jint_index i = nat (sint i mod 2 ^ 64)"
  unfolding jint_index_def unat_eq_nat_uint scast_eq uint_word_of_int by simp

lemma jint_index_negative:
  assumes "sint i < 0"
  shows "jint_index i = nat (2 ^ 64 + sint i)" "2 ^ 64 - 2 ^ 31 \<le> jint_index i"
proof -
  have r: "- (2 ^ 31) \<le> sint i" using sint_greater_eq [of i] by simp
  have "sint i mod 2 ^ 64 = (sint i + 2 ^ 64) mod 2 ^ 64" by simp
  also have "\<dots> = sint i + 2 ^ 64" using assms r by (intro mod_pos_pos_trivial) simp_all
  finally have m: "sint i mod 2 ^ 64 = 2 ^ 64 + sint i" by simp
  then show "jint_index i = nat (2 ^ 64 + sint i)" by (simp only: jint_index_mod)
  moreover have "nat (2 ^ 64 - 2 ^ 31) \<le> nat (2 ^ 64 + sint i)" using r by (intro nat_mono) simp
  ultimately show "2 ^ 64 - 2 ^ 31 \<le> jint_index i" by simp
qed

lemma jint_index_positive: "0 \<le> sint i \<Longrightarrow> jint_index i = nat (sint i)"
  using sint_less [of i] by (simp add: jint_index_mod)

lemma append_negative:
  assumes "sint i < 0" "length (ag_active a) \<le> 2 ^ 31"
  shows "append_or_spill a (jint_index i) key val = Inl Out_of_bounds" "force_spill a (jint_index i) = Inl Out_of_bounds"
proof -
  have "length (ag_active a) \<le> jint_index i" using jint_index_negative(2) [OF assms(1)] assms(2) by simp
  then show "append_or_spill a (jint_index i) key val = Inl Out_of_bounds" "force_spill a (jint_index i) = Inl Out_of_bounds"
    by (simp_all add: append_or_spill_def force_spill_def)
qed


text \<open>
  The flag a host worker reports is not set before the first write has completed, so that the other
  two waits close the files at once although a request has already arrived; its data then stays in
  the queue and goes to the files of the next job.
\<close>

lemma pipeline_wait_early:
  assumes "fds_ok opn spill_dir 32" "bp_q (new_bp 32 (MB 32)) = r # q" "n_read = header_length bytes"
  obtains sw sw' where "PipelineTransEnv_TriggerSpillStart opn (PipelineTransEnv_Initialize new_pool new_bp spill_dir disk) = Inr \<lparr>pe_sa = agent_new 1 32 (new_pool 64 (MB 32)), pe_sw = sw\<rparr>"
    "bw_handle_spill_request sw bytes n_read = Inr sw'" "bw_io_q sw' = [pb_attach r bytes]"
    "PipelineTransEnv_WaitForSpillDone \<lparr>pe_sa = agent_new 1 32 (new_pool 64 (MB 32)), pe_sw = sw'\<rparr> = Some \<lparr>pe_sa = agent_new 1 32 (new_pool 64 (MB 32)), pe_sw = bw_close_partition_files sw'\<rparr>"
proof -
  obtain io :: "PartitionBuffer spill_io" where io: "open_files opn spill_dir False [0..<32] \<lparr>io_files = [], io_ring = [], io_disk = disk\<rparr> = Inr io"
    using open_files_inv [OF assms(1), of "\<lparr>io_files = [], io_ring = [], io_disk = disk\<rparr>" False] by auto
  let ?sw = "(bw_new (new_bp 32 (MB 32)) spill_dir 32 disk)\<lparr>bw_io := io\<rparr>"
  let ?sw' = "?sw\<lparr>bw_bp := (new_bp 32 (MB 32))\<lparr>bp_q := q\<rparr>, bw_io_q := [pb_attach r bytes]\<rparr>"
  show ?thesis
    by (rule that [of ?sw ?sw'])
      (use assms(2,3) io in \<open>simp_all add: PipelineTransEnv_TriggerSpillStart_def PipelineTransEnv_Initialize_def bw_create_partition_files_def create_files_def
        bw_new_def bw_handle_spill_request_def acquire_one_def check_def pb_attach_def PipelineTransEnv_WaitForSpillDone_def bw_is_spilling_def\<close>)
qed

text \<open>\<^verbatim>\<open>Spill\<close> of the naive environment, in contrast, returns only after the array was transferred as a whole.\<close>

lemma naive_spill_returns:
  assumes "na_do_spill bulk (ne_sa (NaiveTransEnv_Spill env data)) = Inr a" "na_q (ne_sa env) = []" "na_running (ne_sa env)" "na_results (ne_sa env) = []"
    "bp_q (na_bp (ne_sa env)) \<noteq> []"
  shows "bulk data = of_nat (length data)" "na_q a = []"
    "NaiveTransEnv_Spill_done (env\<lparr>ne_sa := a\<rparr>) data 0 = Inr (env\<lparr>ne_sa := a\<lparr>na_results := []\<rparr>\<rparr>)"
  using assms by (auto simp: na_do_spill_def NaiveTransEnv_Spill_def NaiveTransEnv_Spill_done_def acquire_one_def split: list.splits if_splits)

end
