(* ===== verification/Transport.thy ===== *)
theory Transport
  imports Memory_Pool
begin

text \<open>
  \<^verbatim>\<open>lib/trans/common/rpc.hxx\<close>, \<^verbatim>\<open>lib/trans/concept/rpc.hxx\<close> and \<^verbatim>\<open>lib/trans/transport.hxx\<close>: remote
  procedure calls over an endpoint. A message is a payload header followed by the request or the
  response; a caller keeps the promise of an outstanding call under its sequence number.

  \<^verbatim>\<open>zpp_bits\<close> (serialization and the hash that gives a procedure its id) is a parameter, the record
  \<open>zpp_bits\<close>. The operations are cut where the source gives up the processor: a loop that acquires a
  buffer returns \<open>None\<close> where it yields, and waiting for the endpoint separates two definitions.
\<close>

section \<open>The payload header\<close>

record PayloadHeader =
  h_flags :: u32
  h_seq :: u32
  h_id :: u64

definition header_new :: PayloadHeader where
  "header_new = \<lparr>h_flags = 0, h_seq = 0, h_id = 0\<rparr>"

definition resp_bit :: u32 where "resp_bit = 0x80000000"
definition oneway_req_bit :: u32 where "oneway_req_bit = 0x40000000"

definition with_seq :: "u32 \<Rightarrow> PayloadHeader \<Rightarrow> PayloadHeader" where
  "with_seq seq h = h\<lparr>h_seq := seq\<rparr>"
definition with_id :: "u64 \<Rightarrow> PayloadHeader \<Rightarrow> PayloadHeader" where
  "with_id i h = h\<lparr>h_id := i\<rparr>"
definition as_resp :: "PayloadHeader \<Rightarrow> PayloadHeader" where
  "as_resp h = h\<lparr>h_flags := h_flags h OR resp_bit\<rparr>"
definition as_oneway_req :: "PayloadHeader \<Rightarrow> PayloadHeader" where
  "as_oneway_req h = h\<lparr>h_flags := h_flags h OR oneway_req_bit\<rparr>"
definition is_resp :: "PayloadHeader \<Rightarrow> bool" where
  "is_resp h \<longleftrightarrow> h_flags h AND resp_bit \<noteq> 0"
definition is_oneway_req :: "PayloadHeader \<Rightarrow> bool" where
  "is_oneway_req h \<longleftrightarrow> h_flags h AND oneway_req_bit \<noteq> 0"

section \<open>Remote procedures\<close>

text \<open>
  A procedure is a type derived from \<^verbatim>\<open>RpcBase\<close>: its name and whether its response is \<^verbatim>\<open>void\<close>. Requests
  and responses are values of one type \<open>'v\<close>; \<open>has_type\<close> says which of them belong to a payload type.
\<close>

record Rpc =
  rpc_name :: string
  is_oneway :: bool

datatype payload_type = Request string | Response string

record 'v zpp_bits =
  sha1_id :: "string \<Rightarrow> u64"
  ser_header :: "PayloadHeader \<Rightarrow> u8 list"
  des_header :: "u8 list \<Rightarrow> (PayloadHeader \<times> u8 list) option"
  ser :: "payload_type \<Rightarrow> 'v \<Rightarrow> u8 list"
  des :: "payload_type \<Rightarrow> u8 list \<Rightarrow> ('v \<times> u8 list) option"
  has_type :: "payload_type \<Rightarrow> 'v \<Rightarrow> bool"

definition rpc_id :: "'v zpp_bits \<Rightarrow> Rpc \<Rightarrow> u64" where
  "rpc_id z r = sha1_id z (rpc_name r)"

definition OnewayRpcFilter :: "Rpc list \<Rightarrow> Rpc list" where
  "OnewayRpcFilter rpcs = filter is_oneway rpcs"

definition NormalRpcFilter :: "Rpc list \<Rightarrow> Rpc list" where
  "NormalRpcFilter rpcs = filter (\<lambda>r. \<not> is_oneway r) rpcs"

text \<open>The private procedures of every transport.\<close>

definition Bulk :: Rpc where "Bulk = \<lparr>rpc_name = ''Bulk'', is_oneway = False\<rparr>"
definition RegisterMemory :: Rpc where "RegisterMemory = \<lparr>rpc_name = ''RegMem'', is_oneway = True\<rparr>"
definition UnregisterMemory :: Rpc where "UnregisterMemory = \<lparr>rpc_name = ''UnregMem'', is_oneway = True\<rparr>"

definition NormalRpcs :: "Rpc list \<Rightarrow> Rpc list" where
  "NormalRpcs rpcs = NormalRpcFilter (Bulk # rpcs)"

definition OnewayRpcs :: "Rpc list \<Rightarrow> Rpc list" where
  "OnewayRpcs rpcs = OnewayRpcFilter (RegisterMemory # UnregisterMemory # rpcs)"

section \<open>The transport\<close>

text \<open>
  A handler runs on the application's state \<open>'s\<close>. The handler tables map an id to a variant over the
  handler types of all procedures: the model keeps the procedure whose alternative is stored. The
  promises of the calls are numbered in the order of the calls; \<open>t_futures\<close> holds their values.
\<close>

type_synonym ('v, 's) normal_handler = "'s \<Rightarrow> 'v \<Rightarrow> ('v \<times> 's) result"
type_synonym ('v, 's) oneway_handler = "'s \<Rightarrow> 'v \<Rightarrow> 's result"

record ('v, 's) Transport =
  t_rpcs :: "Rpc list"
  normal_rpc_handler :: "u64 \<rightharpoonup> Rpc \<times> ('v, 's) normal_handler"
  oneway_rpc_handler :: "u64 \<rightharpoonup> Rpc \<times> ('v, 's) oneway_handler"
  send_bufs :: BufferPool
  recv_bufs :: BufferPool
  active_workers :: u32
  current_seq :: u32
  outstanding_rpcs :: "u32 \<rightharpoonup> Rpc \<times> nat"
  t_futures :: "'v option list"
  t_app :: 's

definition register_normal_handler :: "'v zpp_bits \<Rightarrow> Rpc \<Rightarrow> ('v, 's) normal_handler \<Rightarrow> ('v, 's) Transport \<Rightarrow> ('v, 's) Transport" where
  "register_normal_handler z r h t = t\<lparr>normal_rpc_handler := (normal_rpc_handler t)(rpc_id z r \<mapsto> (r, h))\<rparr>"

definition register_oneway_handler :: "'v zpp_bits \<Rightarrow> Rpc \<Rightarrow> ('v, 's) oneway_handler \<Rightarrow> ('v, 's) Transport \<Rightarrow> ('v, 's) Transport" where
  "register_oneway_handler z r h t = t\<lparr>oneway_rpc_handler := (oneway_rpc_handler t)(rpc_id z r \<mapsto> (r, h))\<rparr>"

text \<open>The default handler does nothing and answers with the default value of the response type.\<close>

definition register_handler :: "'v zpp_bits \<Rightarrow> (payload_type \<Rightarrow> 'v) \<Rightarrow> Rpc \<Rightarrow> ('v, 's) Transport \<Rightarrow> ('v, 's) Transport" where
  "register_handler z dflt r t =
    (if is_oneway r then register_oneway_handler z r (\<lambda>s _. Inr s) t
     else register_normal_handler z r (\<lambda>s _. Inr (dflt (Response (rpc_name r)), s)) t)"

definition transport_new :: "'v zpp_bits \<Rightarrow> (payload_type \<Rightarrow> 'v) \<Rightarrow> Rpc list \<Rightarrow> BufferPool \<Rightarrow> BufferPool \<Rightarrow> 's \<Rightarrow> ('v, 's) Transport" where
  "transport_new z dflt rpcs sbufs rbufs app =
    fold (register_handler z dflt) rpcs
      \<lparr>t_rpcs = rpcs, normal_rpc_handler = Map.empty, oneway_rpc_handler = Map.empty, send_bufs = sbufs, recv_bufs = rbufs,
       active_workers = 0, current_seq = 1, outstanding_rpcs = Map.empty, t_futures = [], t_app = app\<rparr>"

text \<open>\<open>reg\<close> and \<open>unreg\<close> are \<^verbatim>\<open>register_remote_memory\<close> and \<^verbatim>\<open>unregister_remote_memory\<close> of the endpoint.\<close>

definition register_related_bulk_handlers :: "'v zpp_bits \<Rightarrow> ('v, 's) oneway_handler \<Rightarrow> ('s \<Rightarrow> 's result) \<Rightarrow> ('v, 's) Transport \<Rightarrow> ('v, 's) Transport" where
  "register_related_bulk_handlers z reg unreg t =
    register_oneway_handler z UnregisterMemory (\<lambda>s _. unreg s) (register_oneway_handler z RegisterMemory reg t)"

definition register_bulk_handler :: "'v zpp_bits \<Rightarrow> ('v, 's) oneway_handler \<Rightarrow> ('s \<Rightarrow> 's result) \<Rightarrow> ('v, 's) normal_handler \<Rightarrow> ('v, 's) Transport \<Rightarrow> ('v, 's) Transport" where
  "register_bulk_handler z reg unreg h t = register_related_bulk_handlers z reg unreg (register_normal_handler z Bulk h t)"

subsection \<open>Buffers\<close>

definition acquire_recv_buffer :: "('v, 's) Transport \<Rightarrow> (MemoryRegion \<times> ('v, 's) Transport) option" where
  "acquire_recv_buffer t = (case acquire_one (recv_bufs t) of (None, _) \<Rightarrow> None | (Some b, p) \<Rightarrow> Some (b, t\<lparr>recv_bufs := p\<rparr>))"

definition acquire_send_buffer :: "('v, 's) Transport \<Rightarrow> (MemoryRegion \<times> ('v, 's) Transport) option" where
  "acquire_send_buffer t = (case acquire_one (send_bufs t) of (None, _) \<Rightarrow> None | (Some b, p) \<Rightarrow> Some (b, t\<lparr>send_bufs := p\<rparr>))"

definition release_recv_buffer :: "('v, 's) Transport \<Rightarrow> MemoryRegion \<Rightarrow> ('v, 's) Transport result" where
  "release_recv_buffer t b = bnd (release_one (recv_bufs t) b) (\<lambda>p. Inr (t\<lparr>recv_bufs := p\<rparr>))"

definition release_send_buffer :: "('v, 's) Transport \<Rightarrow> MemoryRegion \<Rightarrow> ('v, 's) Transport result" where
  "release_send_buffer t b = bnd (release_one (send_bufs t) b) (\<lambda>p. Inr (t\<lparr>send_bufs := p\<rparr>))"

text \<open>\<^verbatim>\<open>serializer(h, v).or_throw()\<close> into a buffer.\<close>

definition put_payload :: "'v zpp_bits \<Rightarrow> MemoryRegion \<Rightarrow> PayloadHeader \<Rightarrow> payload_type \<Rightarrow> 'v \<Rightarrow> u8 list result" where
  "put_payload z b h ty v =
    (let bytes = ser_header z h @ ser z ty v in bnd (check (length bytes \<le> unat (mr_len b)) Die) (\<lambda>_. Inr bytes))"

subsection \<open>Calling\<close>

text \<open>
  \<^verbatim>\<open>call\<close> posts the receive of the response (\<open>acquire_recv_buffer\<close>), sends the request
  (\<open>call_send\<close>), and releases the buffer when the endpoint reports the size sent (\<open>send_done\<close>).
\<close>

definition call_send :: "'v zpp_bits \<Rightarrow> ('v, 's) Transport \<Rightarrow> Rpc \<Rightarrow> 'v \<Rightarrow> (MemoryRegion \<times> u8 list \<times> ('v, 's) Transport) option result" where
  "call_send z t r req =
    (case acquire_send_buffer t of
       None \<Rightarrow> Inr None
     | Some (b, t) \<Rightarrow>
         let seq = current_seq t; h = with_id (rpc_id z r) (with_seq seq header_new); t = t\<lparr>current_seq := seq + 1\<rparr> in
         bnd (put_payload z b h (Request (rpc_name r)) req) (\<lambda>bytes.
         bnd (check (outstanding_rpcs t seq = None) Assert_fail) (\<lambda>_.
           Inr (Some (b, bytes, t\<lparr>outstanding_rpcs := (outstanding_rpcs t)(seq \<mapsto> (r, length (t_futures t))),
                                   t_futures := t_futures t @ [None]\<rparr>)))))"

definition oneway_send :: "'v zpp_bits \<Rightarrow> ('v, 's) Transport \<Rightarrow> Rpc \<Rightarrow> 'v \<Rightarrow> (MemoryRegion \<times> u8 list \<times> ('v, 's) Transport) option result" where
  "oneway_send z t r req =
    (case acquire_send_buffer t of
       None \<Rightarrow> Inr None
     | Some (b, t) \<Rightarrow>
         let seq = current_seq t; h = with_id (rpc_id z r) (with_seq seq (as_oneway_req header_new)); t = t\<lparr>current_seq := seq + 1\<rparr> in
         bnd (put_payload z b h (Request (rpc_name r)) req) (\<lambda>bytes. Inr (Some (b, bytes, t))))"

definition send_done :: "('v, 's) Transport \<Rightarrow> MemoryRegion \<Rightarrow> int \<Rightarrow> ('v, 's) Transport result" where
  "send_done t b n_send = bnd (check (0 < n_send) Die) (\<lambda>_. release_send_buffer t b)"

text \<open>\<^verbatim>\<open>(f<rpcs>(\<dots>) || \<dots>)\<close>: the first procedure that accepts.\<close>

primrec any_rpc :: "(Rpc \<Rightarrow> 'a option result) \<Rightarrow> Rpc list \<Rightarrow> 'a option result" where
  "any_rpc f [] = Inr None"
| "any_rpc f (r # rs) = bnd (f r) (\<lambda>res. case res of Some x \<Rightarrow> Inr (Some x) | None \<Rightarrow> any_rpc f rs)"

text \<open>
  The promise of the call is reached by a \<^verbatim>\<open>static_cast\<close> to the context of the procedure: for another
  procedure's context that is undefined behaviour. Setting a promise twice throws.
\<close>

definition dispatch_normal_resp :: "'v zpp_bits \<Rightarrow> ('v, 's) Transport \<Rightarrow> u32 \<Rightarrow> u64 \<Rightarrow> u8 list \<Rightarrow> Rpc \<Rightarrow> ('v, 's) Transport option result" where
  "dispatch_normal_resp z t seq i rest r =
    (if rpc_id z r = i
     then case des z (Response (rpc_name r)) rest of
            None \<Rightarrow> Inl Die
          | Some (resp, _) \<Rightarrow>
              (case outstanding_rpcs t seq of
                 None \<Rightarrow> Inl Assert_fail
               | Some (r', k) \<Rightarrow>
                   bnd (check (r' = r) Out_of_bounds) (\<lambda>_.
                   bnd (check (k < length (t_futures t) \<and> t_futures t ! k = None) Die) (\<lambda>_.
                     Inr (Some (t\<lparr>t_futures := (t_futures t)[k := Some resp], outstanding_rpcs := (outstanding_rpcs t)(seq := None)\<rparr>)))))
     else Inr None)"

definition dispatch_resp :: "'v zpp_bits \<Rightarrow> ('v, 's) Transport \<Rightarrow> u32 \<Rightarrow> u64 \<Rightarrow> u8 list \<Rightarrow> ('v, 's) Transport option result" where
  "dispatch_resp z t seq i rest = any_rpc (dispatch_normal_resp z t seq i rest) (NormalRpcs (t_rpcs t))"

text \<open>The fiber that \<^verbatim>\<open>post_recv_resp\<close> starts, when \<open>n_recv\<close> and the contents of its buffer arrive.\<close>

definition recv_resp :: "'v zpp_bits \<Rightarrow> ('v, 's) Transport \<Rightarrow> MemoryRegion \<Rightarrow> int \<Rightarrow> u8 list \<Rightarrow> ('v, 's) Transport result" where
  "recv_resp z t b n_recv contents =
    bnd (check (0 < n_recv) Die) (\<lambda>_.
      case des_header z contents of
        None \<Rightarrow> Inl Die
      | Some (h, rest) \<Rightarrow>
          bnd (check (is_resp h) Die) (\<lambda>_.
          bnd (dispatch_resp z t (h_seq h) (h_id h) rest) (\<lambda>res.
            case res of None \<Rightarrow> Inl Die | Some t \<Rightarrow> release_recv_buffer t b)))"

subsection \<open>Serving\<close>

text \<open>\<^verbatim>\<open>std::get\<close> of a handler that is missing, or of another procedure, throws.\<close>

definition dispatch_oneway_req :: "'v zpp_bits \<Rightarrow> ('v, 's) Transport \<Rightarrow> u64 \<Rightarrow> u8 list \<Rightarrow> Rpc \<Rightarrow> ('v, 's) Transport option result" where
  "dispatch_oneway_req z t i rest r =
    (if rpc_id z r = i
     then case des z (Request (rpc_name r)) rest of
            None \<Rightarrow> Inl Die
          | Some (req, _) \<Rightarrow>
              (case oneway_rpc_handler t (rpc_id z r) of
                 None \<Rightarrow> Inl Die
               | Some (r', f) \<Rightarrow> bnd (check (r' = r) Die) (\<lambda>_. bnd (f (t_app t) req) (\<lambda>s. Inr (Some (t\<lparr>t_app := s\<rparr>)))))
     else Inr None)"

definition dispatch_normal_req :: "'v zpp_bits \<Rightarrow> ('v, 's) Transport \<Rightarrow> MemoryRegion \<Rightarrow> u32 \<Rightarrow> u64 \<Rightarrow> u8 list \<Rightarrow> Rpc
    \<Rightarrow> (u8 list \<times> ('v, 's) Transport) option result" where
  "dispatch_normal_req z t b seq i rest r =
    (if rpc_id z r = i
     then case des z (Request (rpc_name r)) rest of
            None \<Rightarrow> Inl Die
          | Some (req, _) \<Rightarrow>
              (case normal_rpc_handler t (rpc_id z r) of
                 None \<Rightarrow> Inl Die
               | Some (r', f) \<Rightarrow> bnd (check (r' = r) Die) (\<lambda>_. bnd (f (t_app t) req) (\<lambda>(resp, s).
                   let h = with_id i (with_seq seq (as_resp header_new)) in
                   bnd (put_payload z b h (Response (rpc_name r)) resp) (\<lambda>bytes. Inr (Some (bytes, t\<lparr>t_app := s\<rparr>))))))
     else Inr None)"

definition dispatch_oneway_reqs :: "'v zpp_bits \<Rightarrow> ('v, 's) Transport \<Rightarrow> u64 \<Rightarrow> u8 list \<Rightarrow> ('v, 's) Transport option result" where
  "dispatch_oneway_reqs z t i rest = any_rpc (dispatch_oneway_req z t i rest) (OnewayRpcs (t_rpcs t))"

definition dispatch_normal_reqs :: "'v zpp_bits \<Rightarrow> ('v, 's) Transport \<Rightarrow> MemoryRegion \<Rightarrow> u32 \<Rightarrow> u64 \<Rightarrow> u8 list \<Rightarrow> (u8 list \<times> ('v, 's) Transport) option result" where
  "dispatch_normal_reqs z t b seq i rest = any_rpc (dispatch_normal_req z t b seq i rest) (NormalRpcs (t_rpcs t))"

text \<open>
  \<^verbatim>\<open>serve_once\<close> after its receive was posted: the received payload (\<open>serve_header\<close>; \<open>None\<close> ends the
  worker), a one-way request, a request with an answer from the acquisition of a send buffer to the
  posted send, and the end of that send.
\<close>

definition serve_header :: "'v zpp_bits \<Rightarrow> ('v, 's) Transport \<Rightarrow> MemoryRegion \<Rightarrow> bool \<Rightarrow> int \<Rightarrow> u8 list
    \<Rightarrow> ((PayloadHeader \<times> u8 list) option \<times> ('v, 's) Transport) result" where
  "serve_header z t b stop n_recv contents =
    (if stop then Inr (None, t)
     else if n_recv \<le> 0 then bnd (release_recv_buffer t b) (\<lambda>t. Inr (None, t))
     else case des_header z contents of
       None \<Rightarrow> Inl Die
     | Some (h, rest) \<Rightarrow> bnd (check (\<not> is_resp h) Die) (\<lambda>_. Inr (Some (h, rest), t)))"

definition serve_oneway :: "'v zpp_bits \<Rightarrow> ('v, 's) Transport \<Rightarrow> MemoryRegion \<Rightarrow> PayloadHeader \<Rightarrow> u8 list \<Rightarrow> ('v, 's) Transport result" where
  "serve_oneway z t b h rest =
    bnd (dispatch_oneway_reqs z t (h_id h) rest) (\<lambda>res. case res of None \<Rightarrow> Inl Die | Some t \<Rightarrow> release_recv_buffer t b)"

definition serve_normal :: "'v zpp_bits \<Rightarrow> ('v, 's) Transport \<Rightarrow> MemoryRegion \<Rightarrow> PayloadHeader \<Rightarrow> u8 list
    \<Rightarrow> (MemoryRegion \<times> u8 list \<times> ('v, 's) Transport) option result" where
  "serve_normal z t b h rest =
    (case acquire_send_buffer t of
       None \<Rightarrow> Inr None
     | Some (sb, t) \<Rightarrow>
         bnd (dispatch_normal_reqs z t sb (h_seq h) (h_id h) rest) (\<lambda>res.
           case res of None \<Rightarrow> Inl Die
           | Some (bytes, t) \<Rightarrow> bnd (release_recv_buffer t b) (\<lambda>t. Inr (Some (sb, bytes, t)))))"

definition serve_sent :: "('v, 's) Transport \<Rightarrow> MemoryRegion \<Rightarrow> bool \<Rightarrow> int \<Rightarrow> (bool \<times> ('v, 's) Transport) result" where
  "serve_sent t sb stop n_send =
    (if stop then Inr (False, t) else bnd (release_send_buffer t sb) (\<lambda>t. Inr (0 < n_send, t)))"

definition worker_enter :: "('v, 's) Transport \<Rightarrow> ('v, 's) Transport" where
  "worker_enter t = t\<lparr>active_workers := active_workers t + 1\<rparr>"

definition worker_exit :: "('v, 's) Transport \<Rightarrow> ('v, 's) Transport" where
  "worker_exit t = t\<lparr>active_workers := active_workers t - 1\<rparr>"

text \<open>When the poller stops.\<close>

definition progress_finished :: "('v, 's) Transport \<Rightarrow> bool \<Rightarrow> bool" where
  "progress_finished t stop \<longleftrightarrow> outstanding_rpcs t = Map.empty \<and> active_workers t = 0 \<and> stop"

subsection \<open>Memory registration and bulk transfers\<close>

datatype Backend = TCP | DOCA_Comch | DOCA_RDMA

text \<open>
  \<open>rb\<close> is the exported buffer, \<open>region\<close> makes a request of a region. \<^verbatim>\<open>bulk\<close> announces a buffer with a
  call; when the call was sent it writes, over TCP only, the buffer itself. The second component of
  the value is the region that is still to be written. The overload for a bare address has none to
  write and ends the process over TCP, after the call was sent.
\<close>

definition register_memory :: "'v zpp_bits \<Rightarrow> ('v, 's) Transport \<Rightarrow> 'v \<Rightarrow> (MemoryRegion \<times> u8 list \<times> ('v, 's) Transport) option result" where
  "register_memory z t rb = oneway_send z t RegisterMemory rb"

definition unregister_memory :: "'v zpp_bits \<Rightarrow> (MemoryRegion \<Rightarrow> 'v) \<Rightarrow> ('v, 's) Transport \<Rightarrow> MemoryRegion
    \<Rightarrow> (MemoryRegion \<times> u8 list \<times> ('v, 's) Transport) option result" where
  "unregister_memory z region t buffer = oneway_send z t UnregisterMemory (region buffer)"

definition bulk_length :: "'v zpp_bits \<Rightarrow> Backend \<Rightarrow> (MemoryRegion \<Rightarrow> 'v) \<Rightarrow> ('v, 's) Transport \<Rightarrow> MemoryRegion \<Rightarrow> u64
    \<Rightarrow> ((MemoryRegion \<times> u8 list \<times> ('v, 's) Transport) \<times> MemoryRegion option) option result" where
  "bulk_length z be region t buffer len =
    bnd (call_send z t Bulk (region (buffer\<lparr>mr_len := len\<rparr>))) (\<lambda>r.
      Inr (map_option (\<lambda>m. (m, if be = TCP then Some buffer else None)) r))"

definition bulk :: "'v zpp_bits \<Rightarrow> Backend \<Rightarrow> (MemoryRegion \<Rightarrow> 'v) \<Rightarrow> ('v, 's) Transport \<Rightarrow> MemoryRegion
    \<Rightarrow> ((MemoryRegion \<times> u8 list \<times> ('v, 's) Transport) \<times> MemoryRegion option) option result" where
  "bulk z be region t buffer =
    bnd (call_send z t Bulk (region buffer)) (\<lambda>r. Inr (map_option (\<lambda>m. (m, if be = TCP then Some buffer else None)) r))"

definition bulk_data :: "'v zpp_bits \<Rightarrow> Backend \<Rightarrow> (MemoryRegion \<Rightarrow> 'v) \<Rightarrow> ('v, 's) Transport \<Rightarrow> MemoryRegion
    \<Rightarrow> (MemoryRegion \<times> u8 list \<times> ('v, 's) Transport) option result" where
  "bulk_data z be region t data =
    bnd (call_send z t Bulk (region data)) (\<lambda>r. if be = TCP \<and> r \<noteq> None then Inl Die else Inr r)"

text \<open>The size an endpoint reports for a bulk transfer.\<close>

definition bulk_done :: "int \<Rightarrow> int result" where
  "bulk_done n = bnd (check (0 < n) Die) (\<lambda>_. Inr n)"

end
