(* ===== verification/Rpc_System.thy ===== *)
theory Rpc_System
  imports Transport
begin

text \<open>
  A client and a server transport that run against each other. The fibers of both sides interleave
  at the points where \<^verbatim>\<open>Transport\<close> waits; messages of one direction arrive in the order in which they
  were sent, at any receive that is posted there, and a receive buffer holds other bytes behind a
  message. The endpoints are healthy: sends and receives complete with the size of the message.
  What calls were made and in which order the server ran them is recorded as history.
\<close>

section \<open>The system\<close>

datatype worker = W_idle | W_posted MemoryRegion | W_got MemoryRegion PayloadHeader "u8 list" | W_sending MemoryRegion

type_synonym 'v request = "u32 \<times> Rpc \<times> 'v"

record ('v, 's) rpc_sys =
  cl :: "('v, 's) Transport"
  sv :: "('v, 's) Transport"
  cl_calls :: "(Rpc \<times> 'v) list"
  cl_recvs :: "MemoryRegion list"
  cl_sends :: "MemoryRegion list"
  to_sv :: "u8 list list"
  to_cl :: "u8 list list"
  workers :: "worker list"
  made :: "'v request list"
  oneways :: "'v request list"
  history :: "'v request list"

definition sys_init :: "('v, 's) Transport \<Rightarrow> ('v, 's) Transport \<Rightarrow> nat \<Rightarrow> ('v, 's) rpc_sys" where
  "sys_init c t n =
    \<lparr>cl = c, sv = (worker_enter ^^ n) t, cl_calls = [], cl_recvs = [], cl_sends = [], to_sv = [], to_cl = [],
     workers = replicate n W_idle, made = [], oneways = [], history = []\<rparr>"

definition remove_at :: "nat \<Rightarrow> 'a list \<Rightarrow> 'a list" where
  "remove_at i xs = take i xs @ drop (Suc i) xs"

text \<open>
  \<open>call\<close> and \<open>send\<close> are the two halves of \<^verbatim>\<open>call\<close> up to its wait for the send, \<open>sent\<close> is the end of a
  send, \<open>answer\<close> the fiber of \<^verbatim>\<open>post_recv_resp\<close>; the others are the parts of \<^verbatim>\<open>serve_once\<close>.
\<close>

inductive rpc_step :: "'v zpp_bits \<Rightarrow> ('v, 's) rpc_sys \<Rightarrow> ('v, 's) rpc_sys \<Rightarrow> bool" for z s where
  call: "acquire_recv_buffer (cl s) = Some (b, t) \<Longrightarrow> r \<in> set (NormalRpcs (t_rpcs (cl s))) \<Longrightarrow> has_type z (Request (rpc_name r)) req
    \<Longrightarrow> rpc_step z s (s\<lparr>cl := t, cl_calls := cl_calls s @ [(r, req)], cl_recvs := cl_recvs s @ [b]\<rparr>)"
| send: "i < length (cl_calls s) \<Longrightarrow> cl_calls s ! i = (r, req) \<Longrightarrow> call_send z (cl s) r req = Inr (Some (b, bytes, t))
    \<Longrightarrow> rpc_step z s (s\<lparr>cl := t, cl_calls := remove_at i (cl_calls s), cl_sends := cl_sends s @ [b], to_sv := to_sv s @ [bytes],
          made := made s @ [(current_seq (cl s), r, req)]\<rparr>)"
| oneway: "r \<in> set (OnewayRpcs (t_rpcs (cl s))) \<Longrightarrow> has_type z (Request (rpc_name r)) req \<Longrightarrow> oneway_send z (cl s) r req = Inr (Some (b, bytes, t))
    \<Longrightarrow> rpc_step z s (s\<lparr>cl := t, cl_sends := cl_sends s @ [b], to_sv := to_sv s @ [bytes],
          oneways := oneways s @ [(current_seq (cl s), r, req)]\<rparr>)"
| sent: "i < length (cl_sends s) \<Longrightarrow> 0 < n \<Longrightarrow> send_done (cl s) (cl_sends s ! i) n = Inr t
    \<Longrightarrow> rpc_step z s (s\<lparr>cl := t, cl_sends := remove_at i (cl_sends s)\<rparr>)"
| answer: "to_cl s = m # ms \<Longrightarrow> cl_recvs s = b # bs \<Longrightarrow> recv_resp z (cl s) b (int (length m)) (m @ junk) = Inr t
    \<Longrightarrow> rpc_step z s (s\<lparr>cl := t, to_cl := ms, cl_recvs := bs\<rparr>)"
| w_post: "i < length (workers s) \<Longrightarrow> workers s ! i = W_idle \<Longrightarrow> acquire_recv_buffer (sv s) = Some (b, t)
    \<Longrightarrow> rpc_step z s (s\<lparr>sv := t, workers := (workers s)[i := W_posted b]\<rparr>)"
| w_recv: "i < length (workers s) \<Longrightarrow> workers s ! i = W_posted b \<Longrightarrow> to_sv s = m # ms
    \<Longrightarrow> serve_header z (sv s) b False (int (length m)) (m @ junk) = Inr (Some (h, rest), t)
    \<Longrightarrow> rpc_step z s (s\<lparr>sv := t, workers := (workers s)[i := W_got b h rest], to_sv := ms\<rparr>)"
| w_oneway: "i < length (workers s) \<Longrightarrow> workers s ! i = W_got b h rest \<Longrightarrow> is_oneway_req h \<Longrightarrow> serve_oneway z (sv s) b h rest = Inr t
    \<Longrightarrow> r \<in> set (OnewayRpcs (t_rpcs (sv s))) \<Longrightarrow> rpc_id z r = h_id h \<Longrightarrow> des z (Request (rpc_name r)) rest = Some (req, rest')
    \<Longrightarrow> rpc_step z s (s\<lparr>sv := t, workers := (workers s)[i := W_idle], history := history s @ [(h_seq h, r, req)]\<rparr>)"
| w_serve: "i < length (workers s) \<Longrightarrow> workers s ! i = W_got b h rest \<Longrightarrow> \<not> is_oneway_req h \<Longrightarrow> serve_normal z (sv s) b h rest = Inr (Some (sb, bytes, t))
    \<Longrightarrow> r \<in> set (NormalRpcs (t_rpcs (sv s))) \<Longrightarrow> rpc_id z r = h_id h \<Longrightarrow> des z (Request (rpc_name r)) rest = Some (req, rest')
    \<Longrightarrow> rpc_step z s (s\<lparr>sv := t, workers := (workers s)[i := W_sending sb], to_cl := to_cl s @ [bytes],
          history := history s @ [(h_seq h, r, req)]\<rparr>)"
| w_sent: "i < length (workers s) \<Longrightarrow> workers s ! i = W_sending sb \<Longrightarrow> 0 < n \<Longrightarrow> serve_sent (sv s) sb False n = Inr (True, t)
    \<Longrightarrow> rpc_step z s (s\<lparr>sv := t, workers := (workers s)[i := W_idle]\<rparr>)"

text \<open>What is assumed of \<^verbatim>\<open>zpp_bits\<close> and of the handlers of a server.\<close>

definition codec_ok :: "'v zpp_bits \<Rightarrow> bool" where
  "codec_ok z \<longleftrightarrow> (\<forall>h rest. ser_header z h \<noteq> [] \<and> des_header z (ser_header z h @ rest) = Some (h, rest))
     \<and> (\<forall>ty v rest. has_type z ty v \<longrightarrow> des z ty (ser z ty v @ rest) = Some (v, rest))"

definition ids_distinct :: "'v zpp_bits \<Rightarrow> Rpc list \<Rightarrow> bool" where
  "ids_distinct z rpcs \<longleftrightarrow> inj_on (rpc_id z) (set (NormalRpcs rpcs)) \<and> inj_on (rpc_id z) (set (OnewayRpcs rpcs))"

definition answer_of :: "'v zpp_bits \<Rightarrow> ('v, 's) Transport \<Rightarrow> 's \<Rightarrow> Rpc \<Rightarrow> 'v \<Rightarrow> ('v \<times> 's) result" where
  "answer_of z t s r req = (case normal_rpc_handler t (rpc_id z r) of None \<Rightarrow> Inl Die | Some (_, f) \<Rightarrow> f s req)"

definition effect_of :: "'v zpp_bits \<Rightarrow> ('v, 's) Transport \<Rightarrow> 's \<Rightarrow> Rpc \<Rightarrow> 'v \<Rightarrow> 's result" where
  "effect_of z t s r req = (case oneway_rpc_handler t (rpc_id z r) of None \<Rightarrow> Inl Die | Some (_, f) \<Rightarrow> f s req)"

text \<open>The state after a request, and after the requests of a history one after the other.\<close>

definition run_request :: "'v zpp_bits \<Rightarrow> ('v, 's) Transport \<Rightarrow> 'v request \<Rightarrow> 's \<Rightarrow> 's" where
  "run_request z t q s = (case q of (_, r, req) \<Rightarrow>
    if is_oneway r then (case effect_of z t s r req of Inr s' \<Rightarrow> s' | Inl _ \<Rightarrow> s)
    else (case answer_of z t s r req of Inr (_, s') \<Rightarrow> s' | Inl _ \<Rightarrow> s))"

definition run_requests :: "'v zpp_bits \<Rightarrow> ('v, 's) Transport \<Rightarrow> 'v request list \<Rightarrow> 's \<Rightarrow> 's" where
  "run_requests z t = fold (run_request z t)"

definition answers_typed :: "'v zpp_bits \<Rightarrow> ('v, 's) Transport \<Rightarrow> bool" where
  "answers_typed z t \<longleftrightarrow> (\<forall>s r req resp s'. has_type z (Request (rpc_name r)) req \<longrightarrow> answer_of z t s r req = Inr (resp, s')
     \<longrightarrow> has_type z (Response (rpc_name r)) resp)"

definition n_ops :: "('v, 's) rpc_sys \<Rightarrow> nat" where
  "n_ops s = length (made s) + length (oneways s)"

section \<open>Headers and dispatch\<close>

lemma header_flags [simp]:
  "is_resp (with_id i (with_seq q (as_resp header_new)))"
  "\<not> is_resp (with_id i (with_seq q header_new))"
  "\<not> is_resp (with_id i (with_seq q (as_oneway_req header_new)))"
  "is_oneway_req (with_id i (with_seq q (as_oneway_req header_new)))"
  "\<not> is_oneway_req (with_id i (with_seq q header_new))"
  by (simp_all add: is_resp_def is_oneway_req_def as_resp_def as_oneway_req_def with_id_def with_seq_def header_new_def resp_bit_def oneway_req_bit_def)

lemma header_fields [simp]: "h_id (with_id i h) = i" "h_seq (with_id i (with_seq q h)) = q"
  by (simp_all add: with_id_def with_seq_def)

text \<open>The dispatch over the tuple of procedures reaches the one procedure with the id.\<close>

lemma any_rpc_id:
  assumes "inj_on (rpc_id z) (set rs)" "r \<in> set rs" "\<And>r'. rpc_id z r' \<noteq> rpc_id z r \<Longrightarrow> f r' = Inr None"
    and "f r \<noteq> Inr None"
  shows "any_rpc f rs = f r"
  using assms(1,2)
proof (induction rs)
  case Nil
  then show ?case by simp
next
  case (Cons a rs)
  show ?case
  proof (cases "a = r")
    case True
    with assms(4) show ?thesis by (cases "f r") (auto split: option.splits)
  next
    case False
    with Cons.prems have "rpc_id z a \<noteq> rpc_id z r" by (auto simp: inj_on_def)
    with False Cons show ?thesis by (simp add: assms(3))
  qed
qed

section \<open>What successful operations did\<close>

definition request_header :: "'v zpp_bits \<Rightarrow> u32 \<Rightarrow> Rpc \<Rightarrow> PayloadHeader" where
  "request_header z seq r = with_id (rpc_id z r) (with_seq seq (if is_oneway r then as_oneway_req header_new else header_new))"

definition request_bytes :: "'v zpp_bits \<Rightarrow> 'v request \<Rightarrow> u8 list" where
  "request_bytes z q = (case q of (seq, r, req) \<Rightarrow> ser_header z (request_header z seq r) @ ser z (Request (rpc_name r)) req)"

definition response_bytes :: "'v zpp_bits \<Rightarrow> 'v request \<Rightarrow> u8 list" where
  "response_bytes z q = (case q of (seq, r, resp) \<Rightarrow>
    ser_header z (with_id (rpc_id z r) (with_seq seq (as_resp header_new))) @ ser z (Response (rpc_name r)) resp)"

lemma request_header_simps [simp]:
  "h_seq (request_header z seq r) = seq" "h_id (request_header z seq r) = rpc_id z r"
  "\<not> is_resp (request_header z seq r)" "is_oneway_req (request_header z seq r) = is_oneway r"
  by (simp_all add: request_header_def)

lemma acquire_recv_bufferD:
  "acquire_recv_buffer t = Some (b, t') \<Longrightarrow> \<exists>p. acquire_one (recv_bufs t) = (Some b, p) \<and> t' = t\<lparr>recv_bufs := p\<rparr>"
  by (auto simp: acquire_recv_buffer_def split: prod.splits option.splits)

lemma acquire_send_bufferD:
  "acquire_send_buffer t = Some (b, t') \<Longrightarrow> \<exists>p. acquire_one (send_bufs t) = (Some b, p) \<and> t' = t\<lparr>send_bufs := p\<rparr>"
  by (auto simp: acquire_send_buffer_def split: prod.splits option.splits)

lemma call_sendD:
  assumes "call_send z t r req = Inr (Some (b, bytes, t'))" "\<not> is_oneway r"
  shows "bytes = request_bytes z (current_seq t, r, req) \<and> outstanding_rpcs t (current_seq t) = None
    \<and> (\<exists>p. acquire_one (send_bufs t) = (Some b, p) \<and> t' = t\<lparr>send_bufs := p, current_seq := current_seq t + 1,
        outstanding_rpcs := (outstanding_rpcs t)(current_seq t \<mapsto> (r, length (t_futures t))), t_futures := t_futures t @ [None]\<rparr>)"
  using assms
  by (auto simp: call_send_def Let_def put_payload_def request_bytes_def request_header_def split: option.splits dest!: acquire_send_bufferD)

lemma oneway_sendD:
  assumes "oneway_send z t r req = Inr (Some (b, bytes, t'))" "is_oneway r"
  shows "bytes = request_bytes z (current_seq t, r, req)
    \<and> (\<exists>p. acquire_one (send_bufs t) = (Some b, p) \<and> t' = t\<lparr>send_bufs := p, current_seq := current_seq t + 1\<rparr>)"
  using assms
  by (auto simp: oneway_send_def Let_def put_payload_def request_bytes_def request_header_def split: option.splits dest!: acquire_send_bufferD)

lemma release_recv_bufferD: "release_recv_buffer t b = Inr t' \<Longrightarrow> \<exists>p. release_one (recv_bufs t) b = Inr p \<and> t' = t\<lparr>recv_bufs := p\<rparr>"
  by (auto simp: release_recv_buffer_def)

lemma release_send_bufferD: "release_send_buffer t b = Inr t' \<Longrightarrow> \<exists>p. release_one (send_bufs t) b = Inr p \<and> t' = t\<lparr>send_bufs := p\<rparr>"
  by (auto simp: release_send_buffer_def)

lemma send_doneD: "send_done t b n = Inr t' \<Longrightarrow> \<exists>p. release_one (send_bufs t) b = Inr p \<and> t' = t\<lparr>send_bufs := p\<rparr>"
  by (auto simp: send_done_def dest: release_send_bufferD)

lemma serve_sentD: "serve_sent t b False n = Inr (True, t') \<Longrightarrow> \<exists>p. release_one (send_bufs t) b = Inr p \<and> t' = t\<lparr>send_bufs := p\<rparr>"
  by (auto simp: serve_sent_def dest: release_send_bufferD)

lemma serve_headerD:
  assumes "codec_ok z" "serve_header z t b False n (request_bytes z (seq, r, req) @ junk) = Inr (Some (h, rest), t')"
  shows "t' = t \<and> h = request_header z seq r \<and> rest = ser z (Request (rpc_name r)) req @ junk"
  using assms by (auto simp: serve_header_def request_bytes_def codec_ok_def split: if_splits)

lemma NormalRpcs_not_oneway: "r \<in> set (NormalRpcs rpcs) \<Longrightarrow> \<not> is_oneway r"
  by (auto simp: NormalRpcs_def NormalRpcFilter_def split: if_splits)

lemma OnewayRpcs_oneway: "r \<in> set (OnewayRpcs rpcs) \<Longrightarrow> is_oneway r"
  by (auto simp: OnewayRpcs_def OnewayRpcFilter_def split: if_splits)

lemma dispatch_resp_id:
  assumes "codec_ok z" "ids_distinct z (t_rpcs t)" "r \<in> set (NormalRpcs (t_rpcs t))" "has_type z (Response (rpc_name r)) resp"
    and "outstanding_rpcs t seq = Some (r, k)" "k < length (t_futures t)" "t_futures t ! k = None"
  shows "dispatch_resp z t seq (rpc_id z r) (ser z (Response (rpc_name r)) resp @ junk) =
    Inr (Some (t\<lparr>t_futures := (t_futures t)[k := Some resp], outstanding_rpcs := (outstanding_rpcs t)(seq := None)\<rparr>))"
proof -
  have "dispatch_resp z t seq (rpc_id z r) (ser z (Response (rpc_name r)) resp @ junk) =
      dispatch_normal_resp z t seq (rpc_id z r) (ser z (Response (rpc_name r)) resp @ junk) r"
    unfolding dispatch_resp_def using assms by (intro any_rpc_id) (auto simp: ids_distinct_def dispatch_normal_resp_def codec_ok_def)
  with assms show ?thesis by (simp add: dispatch_normal_resp_def codec_ok_def)
qed

lemma recv_resp_bytes:
  assumes "codec_ok z" "ids_distinct z (t_rpcs t)" "r \<in> set (NormalRpcs (t_rpcs t))" "has_type z (Response (rpc_name r)) resp"
    and "outstanding_rpcs t seq = Some (r, k)" "k < length (t_futures t)" "t_futures t ! k = None" "0 < n"
  shows "recv_resp z t b n (response_bytes z (seq, r, resp) @ junk) =
    release_recv_buffer (t\<lparr>t_futures := (t_futures t)[k := Some resp], outstanding_rpcs := (outstanding_rpcs t)(seq := None)\<rparr>) b"
  using assms by (simp add: recv_resp_def response_bytes_def codec_ok_def dispatch_resp_id)

text \<open>A handler that is missing, or stored for another procedure, kills the server.\<close>

definition handled :: "'v zpp_bits \<Rightarrow> ('v, 's) Transport \<Rightarrow> Rpc \<Rightarrow> bool" where
  "handled z t r \<longleftrightarrow> (if is_oneway r then \<exists>f. oneway_rpc_handler t (rpc_id z r) = Some (r, f)
     else \<exists>f. normal_rpc_handler t (rpc_id z r) = Some (r, f))"

lemma dispatch_normal_reqs_id:
  assumes "codec_ok z" "ids_distinct z (t_rpcs t)" "r \<in> set (NormalRpcs (t_rpcs t))" "has_type z (Request (rpc_name r)) req"
  shows "dispatch_normal_reqs z t b seq (rpc_id z r) (ser z (Request (rpc_name r)) req @ junk) =
    (if handled z t r
     then bnd (answer_of z t (t_app t) r req) (\<lambda>(resp, s).
       bnd (put_payload z b (with_id (rpc_id z r) (with_seq seq (as_resp header_new))) (Response (rpc_name r)) resp) (\<lambda>bytes.
         Inr (Some (bytes, t\<lparr>t_app := s\<rparr>))))
     else Inl Die)"
proof -
  let ?rest = "ser z (Request (rpc_name r)) req @ junk"
  have d: "des z (Request (rpc_name r)) ?rest = Some (req, junk)" using assms by (simp add: codec_ok_def)
  have f: "dispatch_normal_req z t b seq (rpc_id z r) ?rest r = (if handled z t r
     then bnd (answer_of z t (t_app t) r req) (\<lambda>(resp, s).
       bnd (put_payload z b (with_id (rpc_id z r) (with_seq seq (as_resp header_new))) (Response (rpc_name r)) resp) (\<lambda>bytes.
         Inr (Some (bytes, t\<lparr>t_app := s\<rparr>))))
     else Inl Die)"
    using NormalRpcs_not_oneway [OF assms(3)]
    by (auto simp: dispatch_normal_req_def d handled_def answer_of_def Let_def check_def split: option.splits)
  then show ?thesis
    unfolding dispatch_normal_reqs_def using assms
    by (subst any_rpc_id [of z _ r]) (auto simp: ids_distinct_def dispatch_normal_req_def bnd_def put_payload_def Let_def check_def split: sum.splits if_splits)
qed

lemma dispatch_oneway_reqs_id:
  assumes "codec_ok z" "ids_distinct z (t_rpcs t)" "r \<in> set (OnewayRpcs (t_rpcs t))" "has_type z (Request (rpc_name r)) req"
  shows "dispatch_oneway_reqs z t (rpc_id z r) (ser z (Request (rpc_name r)) req @ junk) =
    (if handled z t r then bnd (effect_of z t (t_app t) r req) (\<lambda>s. Inr (Some (t\<lparr>t_app := s\<rparr>))) else Inl Die)"
proof -
  let ?rest = "ser z (Request (rpc_name r)) req @ junk"
  have d: "des z (Request (rpc_name r)) ?rest = Some (req, junk)" using assms by (simp add: codec_ok_def)
  have f: "dispatch_oneway_req z t (rpc_id z r) ?rest r =
      (if handled z t r then bnd (effect_of z t (t_app t) r req) (\<lambda>s. Inr (Some (t\<lparr>t_app := s\<rparr>))) else Inl Die)"
    using OnewayRpcs_oneway [OF assms(3)]
    by (auto simp: dispatch_oneway_req_def d handled_def effect_of_def check_def split: option.splits)
  then show ?thesis
    unfolding dispatch_oneway_reqs_def using assms
    by (subst any_rpc_id [of z _ r]) (auto simp: ids_distinct_def dispatch_oneway_req_def bnd_def split: sum.splits if_splits)
qed

lemma serve_normalD:
  assumes ok: "codec_ok z" "ids_distinct z (t_rpcs t)" "r \<in> set (NormalRpcs (t_rpcs t))" "has_type z (Request (rpc_name r)) req"
    and s: "serve_normal z t b (request_header z seq r) (ser z (Request (rpc_name r)) req @ junk) = Inr (Some (sb, bytes, t'))"
  shows "\<exists>resp s ps pr. answer_of z t (t_app t) r req = Inr (resp, s) \<and> bytes = response_bytes z (seq, r, resp)
    \<and> acquire_one (send_bufs t) = (Some sb, ps) \<and> release_one (recv_bufs t) b = Inr pr
    \<and> t' = t\<lparr>send_bufs := ps, t_app := s, recv_bufs := pr\<rparr>"
proof -
  from s obtain ps where a: "acquire_one (send_bufs t) = (Some sb, ps)"
    and "bnd (dispatch_normal_reqs z (t\<lparr>send_bufs := ps\<rparr>) sb seq (rpc_id z r) (ser z (Request (rpc_name r)) req @ junk)) (\<lambda>res.
      case res of None \<Rightarrow> Inl Die | Some (bytes, t) \<Rightarrow> bnd (release_recv_buffer t b) (\<lambda>t. Inr (Some (sb, bytes, t)))) = Inr (Some (sb, bytes, t'))"
    by (auto simp: serve_normal_def split: option.splits dest!: acquire_send_bufferD)
  then obtain resp s where "answer_of z (t\<lparr>send_bufs := ps\<rparr>) (t_app t) r req = Inr (resp, s)" "bytes = response_bytes z (seq, r, resp)"
    "release_recv_buffer (t\<lparr>send_bufs := ps, t_app := s\<rparr>) b = Inr t'"
    using ok by (auto simp: dispatch_normal_reqs_id put_payload_def response_bytes_def Let_def check_def split: if_splits sum.splits)
  with a show ?thesis by (auto simp: answer_of_def dest!: release_recv_bufferD)
qed

lemma serve_onewayD:
  assumes ok: "codec_ok z" "ids_distinct z (t_rpcs t)" "r \<in> set (OnewayRpcs (t_rpcs t))" "has_type z (Request (rpc_name r)) req"
    and s: "serve_oneway z t b (request_header z seq r) (ser z (Request (rpc_name r)) req @ junk) = Inr t'"
  shows "\<exists>s pr. effect_of z t (t_app t) r req = Inr s \<and> release_one (recv_bufs t) b = Inr pr \<and> t' = t\<lparr>t_app := s, recv_bufs := pr\<rparr>"
  using assms by (auto simp: serve_oneway_def dispatch_oneway_reqs_id split: if_splits dest!: release_recv_bufferD)

section \<open>Safety\<close>

text \<open>
  The invariant of a run from a fresh system. \<open>qs\<close> are the requests on their way to the server,
  \<open>gs\<close> those its workers hold, \<open>ps\<close> the responses on their way back.
\<close>

definition holds :: "'v zpp_bits \<Rightarrow> worker \<Rightarrow> 'v request option \<Rightarrow> bool" where
  "holds z w g \<longleftrightarrow> (case w of
     W_got b h rest \<Rightarrow> (\<exists>seq r req junk. g = Some (seq, r, req) \<and> h = request_header z seq r \<and> rest = ser z (Request (rpc_name r)) req @ junk)
   | _ \<Rightarrow> g = None)"

definition opt_list :: "'a option \<Rightarrow> 'a list" where
  "opt_list x = (case x of None \<Rightarrow> [] | Some y \<Rightarrow> [y])"

definition somes :: "'a option list \<Rightarrow> 'a list" where
  "somes xs = concat (map opt_list xs)"

definition answered :: "'v zpp_bits \<Rightarrow> ('v, 's) Transport \<Rightarrow> 's \<Rightarrow> 'v request list \<Rightarrow> 'v request \<Rightarrow> 'v \<Rightarrow> bool" where
  "answered z t app hist q resp \<longleftrightarrow> (\<exists>j < length hist. hist ! j = q
     \<and> (\<exists>s'. answer_of z t (run_requests z t (take j hist) app) (fst (snd q)) (snd (snd q)) = Inr (resp, s')))"

definition rpcs_of :: "Rpc list \<Rightarrow> Rpc \<Rightarrow> bool" where
  "rpcs_of rpcs r \<longleftrightarrow> r \<in> set (if is_oneway r then OnewayRpcs rpcs else NormalRpcs rpcs)"

text \<open>The calls and their promises.\<close>

definition promises_ok :: "(u32 \<rightharpoonup> Rpc \<times> nat) \<Rightarrow> 'v option list \<Rightarrow> 'v request list \<Rightarrow> bool" where
  "promises_ok outs futs qs \<longleftrightarrow> length futs = length qs
     \<and> (\<forall>seq r k. outs seq = Some (r, k) \<longleftrightarrow> k < length qs \<and> futs ! k = None \<and> (\<exists>req. qs ! k = (seq, r, req)))"

lemma promises_ok_new:
  assumes "promises_ok outs futs qs" "seq \<notin> fst ` set qs"
  shows "promises_ok (outs(seq \<mapsto> (r, length futs))) (futs @ [None]) (qs @ [(seq, r, req)])"
proof -
  have "(outs(seq \<mapsto> (r, length futs))) seq' = Some (r', k) \<longleftrightarrow>
      k < length (qs @ [(seq, r, req)]) \<and> (futs @ [None]) ! k = None \<and> (\<exists>req'. (qs @ [(seq, r, req)]) ! k = (seq', r', req'))" for seq' r' k
  proof (cases "k < length qs")
    case True
    then have "qs ! k \<in> set qs" by simp
    then have "fst (qs ! k) \<noteq> seq" using assms(2) by blast
    then show ?thesis using True assms(1) by (auto simp: promises_ok_def nth_append)
  next
    case False
    then show ?thesis using assms(1) by (auto simp: promises_ok_def nth_append)
  qed
  with assms(1) show ?thesis by (simp add: promises_ok_def)
qed

lemma promises_ok_answer:
  assumes "promises_ok outs futs qs" "distinct (map fst qs)" "outs seq = Some (r, k)"
  shows "promises_ok (outs(seq := None)) (futs[k := Some resp]) qs"
proof -
  from assms obtain req where k: "k < length qs" "k < length futs" "qs ! k = (seq, r, req)" by (auto simp: promises_ok_def)
  have "(outs(seq := None)) seq' = Some (r', k') \<longleftrightarrow>
      k' < length qs \<and> futs[k := Some resp] ! k' = None \<and> (\<exists>req'. qs ! k' = (seq', r', req'))" for seq' r' k'
  proof (cases "k' = k")
    case True
    then show ?thesis using assms(1) k by (auto simp: promises_ok_def)
  next
    case False
    then have "k' < length qs \<Longrightarrow> fst (qs ! k') \<noteq> seq"
      using assms(2) k by (metis distinct_map distinct_conv_nth fst_conv inj_on_eq_iff nth_mem)
    then show ?thesis using False assms(1) by (auto simp: promises_ok_def)
  qed
  with assms(1) show ?thesis by (simp add: promises_ok_def)
qed

definition calls_ok :: "'v zpp_bits \<Rightarrow> ('v, 's) Transport \<Rightarrow> 's \<Rightarrow> ('v, 's) rpc_sys \<Rightarrow> bool" where
  "calls_ok z t0 app s \<longleftrightarrow>
     promises_ok (outstanding_rpcs (cl s)) (t_futures (cl s)) (made s)
   \<and> (\<forall>k < length (made s). \<forall>resp. t_futures (cl s) ! k = Some resp \<longrightarrow> answered z t0 app (history s) (made s ! k) resp)"

text \<open>Sequence numbers are used once, while they do not wrap.\<close>

definition seqs_ok :: "('v, 's) rpc_sys \<Rightarrow> 'v request list \<Rightarrow> bool" where
  "seqs_ok s pend \<longleftrightarrow>
     current_seq (cl s) = of_nat (n_ops s + 1)
   \<and> distinct (map fst (made s @ oneways s))
   \<and> (\<forall>q \<in> set (made s @ oneways s). unat (fst q) \<le> n_ops s)
   \<and> distinct (map fst (history s @ pend))
   \<and> set (history s @ pend) \<subseteq> set (made s @ oneways s)"

definition server_ok :: "'v zpp_bits \<Rightarrow> ('v, 's) Transport \<Rightarrow> 's \<Rightarrow> ('v, 's) rpc_sys \<Rightarrow> bool" where
  "server_ok z t0 app s \<longleftrightarrow>
     t_rpcs (cl s) = t_rpcs t0 \<and> t_rpcs (sv s) = t_rpcs t0
   \<and> normal_rpc_handler (sv s) = normal_rpc_handler t0 \<and> oneway_rpc_handler (sv s) = oneway_rpc_handler t0
   \<and> t_app (sv s) = run_requests z t0 (history s) app"

definition flow_ok :: "'v zpp_bits \<Rightarrow> ('v, 's) rpc_sys \<Rightarrow> 'v request list \<Rightarrow> 'v request option list \<Rightarrow> 'v request list \<Rightarrow> bool" where
  "flow_ok z s qs gs ps \<longleftrightarrow>
     to_sv s = map (request_bytes z) qs \<and> list_all2 (holds z) (workers s) gs \<and> to_cl s = map (response_bytes z) ps"

definition pending_seqs :: "'v request list \<Rightarrow> u32 set" where
  "pending_seqs pend = {seq. \<exists>r req. (seq, r, req) \<in> set pend \<and> \<not> is_oneway r}"

definition calls_typed :: "'v zpp_bits \<Rightarrow> Rpc list \<Rightarrow> (Rpc \<times> 'v) list \<Rightarrow> bool" where
  "calls_typed z rpcs cs \<longleftrightarrow> (\<forall>(r, req) \<in> set cs. r \<in> set (NormalRpcs rpcs) \<and> has_type z (Request (rpc_name r)) req)"

definition tokens_ok :: "'v zpp_bits \<Rightarrow> ('v, 's) Transport \<Rightarrow> 's \<Rightarrow> ('v, 's) rpc_sys \<Rightarrow> 'v request list \<Rightarrow> 'v request list \<Rightarrow> bool" where
  "tokens_ok z t0 app s pend ps \<longleftrightarrow>
     calls_typed z (t_rpcs t0) (cl_calls s)
   \<and> (\<forall>(seq, r, req) \<in> set (made s). \<not> is_oneway r) \<and> (\<forall>(seq, r, req) \<in> set (oneways s). is_oneway r)
   \<and> (\<forall>(seq, r, req) \<in> set pend. rpcs_of (t_rpcs t0) r \<and> has_type z (Request (rpc_name r)) req)
   \<and> distinct (map fst ps)
   \<and> (\<forall>(seq, r, resp) \<in> set ps. r \<in> set (NormalRpcs (t_rpcs t0)) \<and> has_type z (Response (rpc_name r)) resp
        \<and> (\<exists>req. (seq, r, req) \<in> set (made s) \<and> answered z t0 app (history s) (seq, r, req) resp))
   \<and> dom (outstanding_rpcs (cl s)) = pending_seqs pend \<union> fst ` set ps"

definition rpc_inv :: "'v zpp_bits \<Rightarrow> ('v, 's) Transport \<Rightarrow> 's \<Rightarrow> ('v, 's) rpc_sys \<Rightarrow> bool" where
  "rpc_inv z t0 app s \<longleftrightarrow> (\<exists>qs gs ps. flow_ok z s qs gs ps \<and> tokens_ok z t0 app s (qs @ somes gs) ps
     \<and> seqs_ok s (qs @ somes gs) \<and> server_ok z t0 app s \<and> calls_ok z t0 app s)"

lemma distinct_map_mset: "mset xs = mset ys \<Longrightarrow> distinct (map f xs) = distinct (map f ys)"
  by (metis mset_eq_imp_distinct_iff mset_map)

lemma rpc_invE:
  assumes "rpc_inv z t0 app s"
  obtains qs gs ps where "to_sv s = map (request_bytes z) qs" "list_all2 (holds z) (workers s) gs" "to_cl s = map (response_bytes z) ps"
    "tokens_ok z t0 app s (qs @ somes gs) ps" "seqs_ok s (qs @ somes gs)" "server_ok z t0 app s" "calls_ok z t0 app s"
  using assms unfolding rpc_inv_def flow_ok_def by blast

lemma rpc_invI:
  assumes "to_sv s = map (request_bytes z) qs" "list_all2 (holds z) (workers s) gs" "to_cl s = map (response_bytes z) ps"
    "mset pend = mset (qs @ somes gs)" "tokens_ok z t0 app s pend ps" "seqs_ok s pend" "server_ok z t0 app s" "calls_ok z t0 app s"
  shows "rpc_inv z t0 app s"
proof -
  have "set pend = set (qs @ somes gs)" using mset_eq_setD [OF assms(4)] .
  then have "tokens_ok z t0 app s (qs @ somes gs) ps" using assms(5) by (simp add: tokens_ok_def pending_seqs_def)
  moreover have "seqs_ok s (qs @ somes gs)"
    using assms(4,6) \<open>set pend = _\<close> distinct_map_mset [of "history s @ pend" "history s @ qs @ somes gs" fst] by (simp add: seqs_ok_def)
  ultimately show ?thesis using assms unfolding rpc_inv_def flow_ok_def by blast
qed

lemmas inv_defs = server_ok_def calls_ok_def seqs_ok_def tokens_ok_def n_ops_def

lemma mset_somes_update:
  assumes "i < length gs"
  shows "mset (somes (gs[i := x])) + mset (opt_list (gs ! i)) = mset (somes gs) + mset (opt_list x)"
  using mset_concat_update [of i "map opt_list gs" "opt_list x"] assms by (simp add: somes_def map_update del: mset_concat)

lemma opt_list_simps [simp]: "opt_list None = []" "opt_list (Some x) = [x]"
  by (simp_all add: opt_list_def)

lemma answered_mono: "answered z t app hist q resp \<Longrightarrow> answered z t app (hist @ xs) q resp"
proof -
  assume "answered z t app hist q resp"
  then obtain j s' where "j < length hist" "hist ! j = q"
    "answer_of z t (run_requests z t (take j hist) app) (fst (snd q)) (snd (snd q)) = Inr (resp, s')" by (auto simp: answered_def)
  then show ?thesis unfolding answered_def by (intro exI [of _ j]) (simp add: nth_append)
qed

lemma answered_in_history: "answered z t app hist q resp \<Longrightarrow> q \<in> set hist"
  by (auto simp: answered_def)

lemma holds_worker:
  assumes "list_all2 (holds z) ws gs" "i < length ws"
  shows "i < length gs" "holds z (ws ! i) (gs ! i)"
  using assms by (auto simp: list_all2_conv_all_nth)

lemma holds_simps [simp]:
  "holds z W_idle g \<longleftrightarrow> g = None" "holds z (W_posted b) g \<longleftrightarrow> g = None" "holds z (W_sending b) g \<longleftrightarrow> g = None"
  by (simp_all add: holds_def)

lemma somes_None_update: "i < length gs \<Longrightarrow> gs ! i = None \<Longrightarrow> somes (gs[i := None]) = somes gs"
  by (metis list_update_id)

text \<open>Which parts of the state each conjunct depends on.\<close>

lemma tokens_ok_frame [simp]:
  "tokens_ok z t0 app (s\<lparr>sv := t\<rparr>) pend ps = tokens_ok z t0 app s pend ps"
  "tokens_ok z t0 app (s\<lparr>workers := ws\<rparr>) pend ps = tokens_ok z t0 app s pend ps"
  "tokens_ok z t0 app (s\<lparr>to_sv := ms\<rparr>) pend ps = tokens_ok z t0 app s pend ps"
  "tokens_ok z t0 app (s\<lparr>to_cl := ms\<rparr>) pend ps = tokens_ok z t0 app s pend ps"
  "tokens_ok z t0 app (s\<lparr>cl_recvs := bs\<rparr>) pend ps = tokens_ok z t0 app s pend ps"
  "tokens_ok z t0 app (s\<lparr>cl_sends := bs\<rparr>) pend ps = tokens_ok z t0 app s pend ps"
  by (simp_all add: tokens_ok_def)

lemma seqs_ok_frame [simp]:
  "seqs_ok (s\<lparr>sv := t\<rparr>) pend = seqs_ok s pend" "seqs_ok (s\<lparr>workers := ws\<rparr>) pend = seqs_ok s pend"
  "seqs_ok (s\<lparr>to_sv := ms\<rparr>) pend = seqs_ok s pend" "seqs_ok (s\<lparr>to_cl := ms\<rparr>) pend = seqs_ok s pend"
  "seqs_ok (s\<lparr>cl_recvs := bs\<rparr>) pend = seqs_ok s pend" "seqs_ok (s\<lparr>cl_sends := bs\<rparr>) pend = seqs_ok s pend"
  "seqs_ok (s\<lparr>cl_calls := cs\<rparr>) pend = seqs_ok s pend"
  by (simp_all add: seqs_ok_def n_ops_def)

lemma server_ok_frame [simp]:
  "server_ok z t0 app (s\<lparr>workers := ws\<rparr>) = server_ok z t0 app s"
  "server_ok z t0 app (s\<lparr>to_sv := ms\<rparr>) = server_ok z t0 app s" "server_ok z t0 app (s\<lparr>to_cl := ms\<rparr>) = server_ok z t0 app s"
  "server_ok z t0 app (s\<lparr>cl_recvs := bs\<rparr>) = server_ok z t0 app s" "server_ok z t0 app (s\<lparr>cl_sends := bs\<rparr>) = server_ok z t0 app s"
  "server_ok z t0 app (s\<lparr>cl_calls := cs\<rparr>) = server_ok z t0 app s" "server_ok z t0 app (s\<lparr>made := qs\<rparr>) = server_ok z t0 app s"
  "server_ok z t0 app (s\<lparr>oneways := qs\<rparr>) = server_ok z t0 app s"
  by (simp_all add: server_ok_def)

lemma calls_ok_frame [simp]:
  "calls_ok z t0 app (s\<lparr>sv := t\<rparr>) = calls_ok z t0 app s" "calls_ok z t0 app (s\<lparr>workers := ws\<rparr>) = calls_ok z t0 app s"
  "calls_ok z t0 app (s\<lparr>to_sv := ms\<rparr>) = calls_ok z t0 app s" "calls_ok z t0 app (s\<lparr>to_cl := ms\<rparr>) = calls_ok z t0 app s"
  "calls_ok z t0 app (s\<lparr>cl_recvs := bs\<rparr>) = calls_ok z t0 app s" "calls_ok z t0 app (s\<lparr>cl_sends := bs\<rparr>) = calls_ok z t0 app s"
  "calls_ok z t0 app (s\<lparr>cl_calls := cs\<rparr>) = calls_ok z t0 app s" "calls_ok z t0 app (s\<lparr>oneways := qs\<rparr>) = calls_ok z t0 app s"
  by (simp_all add: calls_ok_def)

lemma client_frame:
  "outstanding_rpcs t = outstanding_rpcs (cl s) \<Longrightarrow> tokens_ok z t0 app (s\<lparr>cl := t\<rparr>) pend ps = tokens_ok z t0 app s pend ps"
  "current_seq t = current_seq (cl s) \<Longrightarrow> seqs_ok (s\<lparr>cl := t\<rparr>) pend = seqs_ok s pend"
  "t_rpcs t = t_rpcs (cl s) \<Longrightarrow> server_ok z t0 app (s\<lparr>cl := t\<rparr>) = server_ok z t0 app s"
  "outstanding_rpcs t = outstanding_rpcs (cl s) \<Longrightarrow> t_futures t = t_futures (cl s) \<Longrightarrow> calls_ok z t0 app (s\<lparr>cl := t\<rparr>) = calls_ok z t0 app s"
  by (simp_all add: tokens_ok_def seqs_ok_def n_ops_def server_ok_def calls_ok_def)

lemma tokens_ok_calls:
  "tokens_ok z t0 app s pend ps \<Longrightarrow> calls_typed z (t_rpcs t0) cs
    \<Longrightarrow> tokens_ok z t0 app (s\<lparr>cl_calls := cs\<rparr>) pend ps"
  unfolding tokens_ok_def by simp

text \<open>Steps that move no message.\<close>

lemma inv_quiet_client:
  assumes inv: "rpc_inv z t0 app s" and "current_seq t = current_seq (cl s)" "outstanding_rpcs t = outstanding_rpcs (cl s)"
    "t_futures t = t_futures (cl s)" "t_rpcs t = t_rpcs (cl s)"
    and c: "calls_typed z (t_rpcs (cl s)) (cl_calls s) \<Longrightarrow> calls_typed z (t_rpcs (cl s)) cs"
  shows "rpc_inv z t0 app (s\<lparr>cl := t, cl_calls := cs, cl_recvs := rs, cl_sends := ss\<rparr>)"
proof -
  from inv obtain qs gs ps where 1: "to_sv s = map (request_bytes z) qs" "list_all2 (holds z) (workers s) gs" "to_cl s = map (response_bytes z) ps"
    "tokens_ok z t0 app s (qs @ somes gs) ps" "seqs_ok s (qs @ somes gs)" "server_ok z t0 app s" "calls_ok z t0 app s" by (rule rpc_invE)
  have "calls_typed z (t_rpcs t0) cs" using c 1(4,6) by (simp add: tokens_ok_def server_ok_def)
  with 1(4) have "tokens_ok z t0 app (s\<lparr>cl := t, cl_calls := cs\<rparr>) (qs @ somes gs) ps"
    using assms(3) by (intro tokens_ok_calls) (simp_all add: client_frame)
  with 1 assms(2-5) show ?thesis by (intro rpc_invI [OF _ _ _ refl]) (simp_all add: client_frame)
qed

lemma inv_quiet_worker:
  assumes inv: "rpc_inv z t0 app s" and t: "t_rpcs t = t_rpcs (sv s)" "normal_rpc_handler t = normal_rpc_handler (sv s)"
    "oneway_rpc_handler t = oneway_rpc_handler (sv s)" "t_app t = t_app (sv s)"
    and w: "i < length (workers s)" "\<And>g. holds z (workers s ! i) g \<Longrightarrow> g = None" "holds z w None"
  shows "rpc_inv z t0 app (s\<lparr>sv := t, workers := (workers s)[i := w]\<rparr>)"
proof -
  from inv obtain qs gs ps where 1: "to_sv s = map (request_bytes z) qs" "list_all2 (holds z) (workers s) gs" "to_cl s = map (response_bytes z) ps"
    "tokens_ok z t0 app s (qs @ somes gs) ps" "seqs_ok s (qs @ somes gs)" "server_ok z t0 app s" "calls_ok z t0 app s" by (rule rpc_invE)
  from holds_worker [OF 1(2) w(1)] w have "i < length gs" "gs ! i = None" by auto
  then have "list_all2 (holds z) ((workers s)[i := w]) gs"
    using list_all2_update_cong [OF 1(2) w(3), of i] by (metis list_update_id)
  with 1 t show ?thesis by (intro rpc_invI [OF _ _ _ refl]) (simp_all, simp add: server_ok_def)
qed

lemma inv_recv:
  assumes inv: "rpc_inv z t0 app s" and z: "codec_ok z"
    and i: "i < length (workers s)" "workers s ! i = W_posted b" "to_sv s = m # ms"
    and h: "serve_header z (sv s) b False n (m @ junk) = Inr (Some (h, rest), t)"
  shows "rpc_inv z t0 app (s\<lparr>sv := t, workers := (workers s)[i := W_got b h rest], to_sv := ms\<rparr>)"
proof -
  from inv obtain qs gs ps where 1: "to_sv s = map (request_bytes z) qs" "list_all2 (holds z) (workers s) gs" "to_cl s = map (response_bytes z) ps"
    "tokens_ok z t0 app s (qs @ somes gs) ps" "seqs_ok s (qs @ somes gs)" "server_ok z t0 app s" "calls_ok z t0 app s" by (rule rpc_invE)
  from holds_worker [OF 1(2) i(1)] i have g: "i < length gs" "gs ! i = None" by auto
  from 1(1) i(3) obtain seq r req qs' where q: "qs = (seq, r, req) # qs'" "m = request_bytes z (seq, r, req)" "ms = map (request_bytes z) qs'"
    by auto
  from serve_headerD [OF z, of "sv s" b n seq r req junk h rest t] h q
  have t: "t = sv s" "h = request_header z seq r" "rest = ser z (Request (rpc_name r)) req @ junk" by auto
  let ?gs = "gs[i := Some (seq, r, req)]"
  have m: "mset (qs @ somes gs) = mset (qs' @ somes ?gs)"
    using mset_somes_update [OF g(1), of "Some (seq, r, req)"] g q by simp
  have "list_all2 (holds z) ((workers s)[i := W_got b h rest]) ?gs"
    using 1(2) by (rule list_all2_update_cong) (auto simp: holds_def t)
  with 1 t(1) q(3) m show ?thesis by (intro rpc_invI [of _ z qs' ?gs ps "qs @ somes gs"]) simp_all
qed

text \<open>A request enters the system under a number that no earlier one has.\<close>

lemma fresh_seq:
  assumes "seqs_ok s pend" "n_ops s + 1 < 2 ^ 32"
  shows "unat (current_seq (cl s)) = n_ops s + 1" "current_seq (cl s) \<notin> fst ` set (made s @ oneways s)"
    "current_seq (cl s) \<notin> fst ` set (history s @ pend)"
proof -
  from assms show u: "unat (current_seq (cl s)) = n_ops s + 1"
    by (simp add: seqs_ok_def unat_of_nat take_bit_eq_mod del: of_nat_add of_nat_Suc)
  have "\<forall>q \<in> set (made s @ oneways s). unat (fst q) \<le> n_ops s" and sub: "set (history s @ pend) \<subseteq> set (made s @ oneways s)"
    using assms(1) unfolding seqs_ok_def by blast+
  with u have "\<forall>q \<in> set (made s @ oneways s). fst q \<noteq> current_seq (cl s)" by (metis Suc_eq_plus1 Suc_n_not_le_n)
  then show n: "current_seq (cl s) \<notin> fst ` set (made s @ oneways s)" by (metis imageE)
  with sub show "current_seq (cl s) \<notin> fst ` set (history s @ pend)" by (metis image_mono subsetD)
qed

lemma seqs_ok_new:
  assumes "seqs_ok s pend" "n_ops s + 1 < 2 ^ 32" "fst q = current_seq (cl s)" "current_seq (cl s') = current_seq (cl s) + 1"
    "history s' = history s" "made s' = made s @ [q] \<and> oneways s' = oneways s \<or> made s' = made s \<and> oneways s' = oneways s @ [q]"
  shows "seqs_ok s' (q # pend)"
proof -
  note f = fresh_seq [OF assms(1,2)]
  have n: "n_ops s' = n_ops s + 1" using assms(6) by (auto simp: n_ops_def)
  have m: "mset (made s' @ oneways s') = mset (q # made s @ oneways s)" using assms(6) by auto
  have "current_seq (cl s') = of_nat (n_ops s' + 1)" using assms(1,4) n by (simp add: seqs_ok_def)
  moreover have "distinct (map fst (made s' @ oneways s'))"
    using distinct_map_mset [OF m, of fst] assms(1,3) f(2) by (simp add: seqs_ok_def image_Un)
  moreover have s: "set (made s' @ oneways s') = insert q (set (made s @ oneways s))" using mset_eq_setD [OF m] by simp
  moreover have "\<forall>x \<in> set (made s @ oneways s). unat (fst x) \<le> n_ops s'"
    using assms(1) unfolding seqs_ok_def n by (meson le_add1 le_trans)
  moreover have "distinct (map fst (history s' @ q # pend))" using assms(1,3,5) f(3) by (auto simp: seqs_ok_def)
  moreover have "set (history s' @ q # pend) \<subseteq> insert q (set (made s @ oneways s))" using assms(1,5) by (auto simp: seqs_ok_def)
  moreover have "unat (fst q) \<le> n_ops s'" using f(1) n assms(3) by simp
  ultimately show ?thesis unfolding seqs_ok_def s by (simp only: ball_simps simp_thms)
qed

lemma inv_send:
  assumes inv: "rpc_inv z t0 app s" and n: "n_ops s + 1 < 2 ^ 32" and i: "i < length (cl_calls s)" "cl_calls s ! i = (r, req)"
    and c: "call_send z (cl s) r req = Inr (Some (b, bytes, t))"
  shows "rpc_inv z t0 app (s\<lparr>cl := t, cl_calls := remove_at i (cl_calls s), cl_sends := ss, to_sv := to_sv s @ [bytes],
      made := made s @ [(current_seq (cl s), r, req)]\<rparr>)" (is "rpc_inv z t0 app ?s")
proof -
  from inv obtain qs gs ps where 1: "to_sv s = map (request_bytes z) qs" "list_all2 (holds z) (workers s) gs" "to_cl s = map (response_bytes z) ps"
    "tokens_ok z t0 app s (qs @ somes gs) ps" "seqs_ok s (qs @ somes gs)" "server_ok z t0 app s" "calls_ok z t0 app s" by (rule rpc_invE)
  let ?q = "(current_seq (cl s), r, req)" and ?seq = "current_seq (cl s)"
  have "(r, req) \<in> set (cl_calls s)" using i by (metis nth_mem)
  with 1(4) have r: "r \<in> set (NormalRpcs (t_rpcs t0))" "has_type z (Request (rpc_name r)) req" "\<not> is_oneway r"
    by (auto simp: tokens_ok_def calls_typed_def dest: NormalRpcs_not_oneway)
  from call_sendD [OF c r(3)] obtain p where b: "bytes = request_bytes z ?q" and t: "t = (cl s)\<lparr>send_bufs := p, current_seq := ?seq + 1,
        outstanding_rpcs := (outstanding_rpcs (cl s))(?seq \<mapsto> (r, length (t_futures (cl s)))), t_futures := t_futures (cl s) @ [None]\<rparr>" by auto
  note f = fresh_seq [OF 1(5) n]
  have seqs: "seqs_ok ?s (?q # qs @ somes gs)" using 1(5) n by (rule seqs_ok_new) (simp_all add: t)
  have "calls_typed z (t_rpcs t0) (remove_at i (cl_calls s))"
    using 1(4) by (auto simp: tokens_ok_def calls_typed_def remove_at_def dest: in_set_takeD in_set_dropD)
  moreover have "pending_seqs (?q # qs @ somes gs) = insert ?seq (pending_seqs (qs @ somes gs))" using r(3) by (auto simp: pending_seqs_def)
  moreover have "\<forall>(seq, r, resp) \<in> set ps. r \<in> set (NormalRpcs (t_rpcs t0)) \<and> has_type z (Response (rpc_name r)) resp
        \<and> (\<exists>req. (seq, r, req) \<in> set (made ?s) \<and> answered z t0 app (history ?s) (seq, r, req) resp)"
    using 1(4) by (fastforce simp: tokens_ok_def)
  ultimately have tok: "tokens_ok z t0 app ?s (?q # qs @ somes gs) ps"
    using 1(4) r by (auto simp: tokens_ok_def t rpcs_of_def)
  have pr: "promises_ok (outstanding_rpcs (cl s)) (t_futures (cl s)) (made s)" using 1(7) by (simp add: calls_ok_def)
  then have "length (t_futures (cl s)) = length (made s)" by (simp add: promises_ok_def)
  then have calls: "calls_ok z t0 app ?s"
    using 1(7) promises_ok_new [OF pr, of ?seq r req] f(2) by (simp add: calls_ok_def t nth_append less_Suc_eq image_Un)
  have "server_ok z t0 app ?s" using 1(6) by (simp add: server_ok_def t)
  with 1 tok seqs calls b show ?thesis by (intro rpc_invI [of _ z "qs @ [?q]" gs ps "?q # qs @ somes gs"]) simp_all
qed

lemma inv_oneway:
  assumes inv: "rpc_inv z t0 app s" and n: "n_ops s + 1 < 2 ^ 32" and r: "r \<in> set (OnewayRpcs (t_rpcs (cl s)))" "has_type z (Request (rpc_name r)) req"
    and c: "oneway_send z (cl s) r req = Inr (Some (b, bytes, t))"
  shows "rpc_inv z t0 app (s\<lparr>cl := t, cl_sends := ss, to_sv := to_sv s @ [bytes], oneways := oneways s @ [(current_seq (cl s), r, req)]\<rparr>)"
    (is "rpc_inv z t0 app ?s")
proof -
  from inv obtain qs gs ps where 1: "to_sv s = map (request_bytes z) qs" "list_all2 (holds z) (workers s) gs" "to_cl s = map (response_bytes z) ps"
    "tokens_ok z t0 app s (qs @ somes gs) ps" "seqs_ok s (qs @ somes gs)" "server_ok z t0 app s" "calls_ok z t0 app s" by (rule rpc_invE)
  let ?q = "(current_seq (cl s), r, req)"
  note o = OnewayRpcs_oneway [OF r(1)]
  from oneway_sendD [OF c o] obtain p where b: "bytes = request_bytes z ?q" and t: "t = (cl s)\<lparr>send_bufs := p, current_seq := current_seq (cl s) + 1\<rparr>"
    by auto
  have seqs: "seqs_ok ?s (?q # qs @ somes gs)" using 1(5) n by (rule seqs_ok_new) (simp_all add: t)
  have "pending_seqs (?q # qs @ somes gs) = pending_seqs (qs @ somes gs)" using o by (auto simp: pending_seqs_def)
  then have tok: "tokens_ok z t0 app ?s (?q # qs @ somes gs) ps"
    using 1(4,6) r o by (auto simp: tokens_ok_def t rpcs_of_def server_ok_def)
  have "calls_ok z t0 app ?s" "server_ok z t0 app ?s" using 1(6,7) by (simp_all add: calls_ok_def server_ok_def t)
  with 1 tok seqs b show ?thesis by (intro rpc_invI [of _ z "qs @ [?q]" gs ps "?q # qs @ somes gs"]) simp_all
qed

text \<open>A request is run: it moves from the pending requests to the history.\<close>

lemma seqs_ok_run:
  assumes "seqs_ok s pend" "mset pend = add_mset q (mset pend')"
    and "made s' = made s" "oneways s' = oneways s" "current_seq (cl s') = current_seq (cl s)" "history s' = history s @ [q]"
  shows "seqs_ok s' pend'"
proof -
  have m: "mset (history s' @ pend') = mset (history s @ pend)" using assms by simp
  show ?thesis using assms(1,3-5) distinct_map_mset [OF m, of fst] mset_eq_setD [OF m] by (simp add: seqs_ok_def n_ops_def)
qed

lemma held_request:
  assumes "tokens_ok z t0 app s (qs @ somes gs) ps" "list_all2 (holds z) (workers s) gs" "i < length (workers s)" "workers s ! i = W_got b h rest"
  obtains seq r req junk where "i < length gs" "gs ! i = Some (seq, r, req)" "h = request_header z seq r" "rest = ser z (Request (rpc_name r)) req @ junk"
    "rpcs_of (t_rpcs t0) r" "has_type z (Request (rpc_name r)) req"
    "mset (qs @ somes gs) = add_mset (seq, r, req) (mset (qs @ somes (gs[i := None])))"
proof -
  note h = holds_worker [OF assms(2,3)]
  from h(2) assms(4) obtain seq r req junk where g: "gs ! i = Some (seq, r, req)" "h = request_header z seq r" "rest = ser z (Request (rpc_name r)) req @ junk"
    by (auto simp: holds_def)
  have m: "mset (qs @ somes gs) = add_mset (seq, r, req) (mset (qs @ somes (gs[i := None])))"
    using mset_somes_update [OF h(1), of None] g(1) by simp
  then have "(seq, r, req) \<in> set (qs @ somes gs)" by (metis insert_iff set_mset_add_mset_insert set_mset_mset)
  with assms(1) have "rpcs_of (t_rpcs t0) r" "has_type z (Request (rpc_name r)) req" unfolding tokens_ok_def by fast+
  with that [OF h(1) g _ _ m] show ?thesis by blast
qed

lemma run_requests_snoc: "run_requests z t (qs @ [q]) app = run_request z t q (run_requests z t qs app)"
  by (simp add: run_requests_def)

lemma calls_ok_history:
  "calls_ok z t0 app s \<Longrightarrow> calls_ok z t0 app (s\<lparr>history := history s @ xs\<rparr>)"
  unfolding calls_ok_def using answered_mono by fastforce

lemma pending_seqs_mset: "mset pend = add_mset (seq, r, req) (mset pend') \<Longrightarrow>
    pending_seqs pend = (if is_oneway r then pending_seqs pend' else insert seq (pending_seqs pend'))"
proof -
  assume "mset pend = add_mset (seq, r, req) (mset pend')"
  then have "set pend = insert (seq, r, req) (set pend')" by (metis set_mset_add_mset_insert set_mset_mset)
  then show ?thesis by (auto simp: pending_seqs_def)
qed

lemma tokens_ok_run:
  assumes "tokens_ok z t0 app s pend ps" "mset pend = add_mset (seq, r, req) (mset pend')" "is_oneway r"
  shows "tokens_ok z t0 app (s\<lparr>history := history s @ xs\<rparr>) pend' ps"
proof -
  have s: "set pend' \<subseteq> set pend" using assms(2) by (metis set_mset_add_mset_insert set_mset_mset subset_insertI)
  have "\<forall>(seq, r, resp) \<in> set ps. r \<in> set (NormalRpcs (t_rpcs t0)) \<and> has_type z (Response (rpc_name r)) resp
        \<and> (\<exists>req. (seq, r, req) \<in> set (made s) \<and> answered z t0 app (history s @ xs) (seq, r, req) resp)"
    using assms(1) answered_mono [of z t0 app "history s" _ _ xs] unfolding tokens_ok_def by fast
  then show ?thesis using assms(1,3) s pending_seqs_mset [OF assms(2)] unfolding tokens_ok_def by auto
qed

lemma inv_served_oneway:
  assumes inv: "rpc_inv z t0 app s" and z: "codec_ok z" "ids_distinct z (t_rpcs t0)"
    and i: "i < length (workers s)" "workers s ! i = W_got b h rest" "is_oneway_req h" "serve_oneway z (sv s) b h rest = Inr t"
    and r: "r \<in> set (OnewayRpcs (t_rpcs (sv s)))" "rpc_id z r = h_id h" "des z (Request (rpc_name r)) rest = Some (req, rest')"
  shows "rpc_inv z t0 app (s\<lparr>sv := t, workers := (workers s)[i := W_idle], history := history s @ [(h_seq h, r, req)]\<rparr>)"
proof -
  from inv obtain qs gs ps where 1: "to_sv s = map (request_bytes z) qs" "list_all2 (holds z) (workers s) gs" "to_cl s = map (response_bytes z) ps"
    "tokens_ok z t0 app s (qs @ somes gs) ps" "seqs_ok s (qs @ somes gs)" "server_ok z t0 app s" "calls_ok z t0 app s" by (rule rpc_invE)
  from held_request [OF 1(4,2) i(1,2)] obtain seq r' req' junk where g: "i < length gs" "gs ! i = Some (seq, r', req')"
    "h = request_header z seq r'" "rest = ser z (Request (rpc_name r')) req' @ junk" "rpcs_of (t_rpcs t0) r'" "has_type z (Request (rpc_name r')) req'"
    and m: "mset (qs @ somes gs) = add_mset (seq, r', req') (mset (qs @ somes (gs[i := None])))" .
  have rp: "t_rpcs (sv s) = t_rpcs t0" using 1(6) by (simp add: server_ok_def)
  have o: "is_oneway r'" "r' \<in> set (OnewayRpcs (t_rpcs t0))" using g(3,5) i(3) by (simp_all add: rpcs_of_def)
  have "r' = r" using z(2) r(1,2) o g(3) rp by (auto simp: ids_distinct_def inj_on_def)
  moreover have "req' = req" using calculation r(3) g z(1) by (simp add: codec_ok_def)
  ultimately have q: "(h_seq h, r, req) = (seq, r', req')" using g by simp
  from serve_onewayD [of z "sv s" r' req' b seq junk t] z o g i(4) rp obtain s' pr where
    e: "effect_of z (sv s) (t_app (sv s)) r' req' = Inr s'" "t = (sv s)\<lparr>t_app := s', recv_bufs := pr\<rparr>" by auto
  have "server_ok z t0 app (s\<lparr>sv := t, history := history s @ [(seq, r', req')]\<rparr>)"
    using 1(6) e o by (simp add: server_ok_def run_requests_snoc run_request_def effect_of_def)
  moreover have "seqs_ok (s\<lparr>history := history s @ [(seq, r', req')]\<rparr>) (qs @ somes (gs[i := None]))" using 1(5) m by (rule seqs_ok_run) simp_all
  moreover have "list_all2 (holds z) ((workers s)[i := W_idle]) (gs[i := None])" using 1(2) by (rule list_all2_update_cong) simp
  ultimately show ?thesis
    unfolding q using 1 tokens_ok_run [OF 1(4) m o(1)] calls_ok_history [OF 1(7)]
    by (intro rpc_invI [of _ z qs "gs[i := None]" ps "qs @ somes (gs[i := None])"]) (simp_all add: server_ok_def seqs_ok_def n_ops_def tokens_ok_def calls_ok_def)
qed

lemma tokens_ok_answer:
  assumes tok: "tokens_ok z t0 app s pend ps" and seqs: "seqs_ok s pend" and m: "mset pend = add_mset (seq, r, req) (mset pend')"
    and r: "\<not> is_oneway r" "r \<in> set (NormalRpcs (t_rpcs t0))" "has_type z (Response (rpc_name r)) resp"
    and a: "answered z t0 app (history s @ [(seq, r, req)]) (seq, r, req) resp"
  shows "tokens_ok z t0 app (s\<lparr>history := history s @ [(seq, r, req)]\<rparr>) pend' (ps @ [(seq, r, resp)])"
proof -
  let ?h = "history s @ [(seq, r, req)]"
  have s: "set pend = insert (seq, r, req) (set pend')" using m by (metis set_mset_add_mset_insert set_mset_mset)
  have "(seq, r, req) \<in> set (made s @ oneways s)" using seqs s by (auto simp: seqs_ok_def)
  then have made: "(seq, r, req) \<in> set (made s)" using tok r(1) unfolding tokens_ok_def by fastforce
  have ps: "\<forall>(seq, r, resp) \<in> set ps. r \<in> set (NormalRpcs (t_rpcs t0)) \<and> has_type z (Response (rpc_name r)) resp
        \<and> (\<exists>req. (seq, r, req) \<in> set (made s) \<and> answered z t0 app ?h (seq, r, req) resp)"
    using tok answered_mono [of z t0 app "history s" _ _ "[(seq, r, req)]"] unfolding tokens_ok_def by fast
  have "seq \<notin> fst ` set ps"
  proof
    assume "seq \<in> fst ` set ps"
    then obtain r' resp' where "(seq, r', resp') \<in> set ps" by auto
    with tok obtain req' where "(seq, r', req') \<in> set (history s)" unfolding tokens_ok_def by (fast dest: answered_in_history)
    moreover have "fst ` set (history s) \<inter> fst ` set pend = {}" using seqs by (simp add: seqs_ok_def)
    ultimately show False using s by force
  qed
  then show ?thesis using tok ps a r made s pending_seqs_mset [OF m] unfolding tokens_ok_def by auto
qed

lemma inv_served:
  assumes inv: "rpc_inv z t0 app s" and z: "codec_ok z" "ids_distinct z (t_rpcs t0)" "answers_typed z t0"
    and i: "i < length (workers s)" "workers s ! i = W_got b h rest" "\<not> is_oneway_req h" "serve_normal z (sv s) b h rest = Inr (Some (sb, bytes, t))"
    and r: "r \<in> set (NormalRpcs (t_rpcs (sv s)))" "rpc_id z r = h_id h" "des z (Request (rpc_name r)) rest = Some (req, rest')"
  shows "rpc_inv z t0 app (s\<lparr>sv := t, workers := (workers s)[i := W_sending sb], to_cl := to_cl s @ [bytes], history := history s @ [(h_seq h, r, req)]\<rparr>)"
proof -
  from inv obtain qs gs ps where 1: "to_sv s = map (request_bytes z) qs" "list_all2 (holds z) (workers s) gs" "to_cl s = map (response_bytes z) ps"
    "tokens_ok z t0 app s (qs @ somes gs) ps" "seqs_ok s (qs @ somes gs)" "server_ok z t0 app s" "calls_ok z t0 app s" by (rule rpc_invE)
  from held_request [OF 1(4,2) i(1,2)] obtain seq r' req' junk where g: "i < length gs" "gs ! i = Some (seq, r', req')"
    "h = request_header z seq r'" "rest = ser z (Request (rpc_name r')) req' @ junk" "rpcs_of (t_rpcs t0) r'" "has_type z (Request (rpc_name r')) req'"
    and m: "mset (qs @ somes gs) = add_mset (seq, r', req') (mset (qs @ somes (gs[i := None])))" .
  have rp: "t_rpcs (sv s) = t_rpcs t0" "t_app (sv s) = run_requests z t0 (history s) app" using 1(6) by (simp_all add: server_ok_def)
  have o: "\<not> is_oneway r'" "r' \<in> set (NormalRpcs (t_rpcs t0))" using g(3,5) i(3) by (simp_all add: rpcs_of_def)
  have "r' = r" using z(2) r(1,2) o g(3) rp by (auto simp: ids_distinct_def inj_on_def)
  moreover have "req' = req" using calculation r(3) g z(1) by (simp add: codec_ok_def)
  ultimately have q: "(h_seq h, r, req) = (seq, r', req')" using g by simp
  from serve_normalD [of z "sv s" r' req' b seq junk sb bytes t] z o g i(4) rp obtain resp s' ps' pr where
    e: "answer_of z (sv s) (t_app (sv s)) r' req' = Inr (resp, s')" "bytes = response_bytes z (seq, r', resp)"
      "t = (sv s)\<lparr>send_bufs := ps', t_app := s', recv_bufs := pr\<rparr>" by auto
  have a: "answer_of z t0 (run_requests z t0 (history s) app) r' req' = Inr (resp, s')"
    using e(1) 1(6) unfolding rp(2) by (simp add: server_ok_def answer_of_def)
  have ty: "has_type z (Response (rpc_name r')) resp" using z(3) g(6) a unfolding answers_typed_def by blast
  have "answered z t0 app (history s @ [(seq, r', req')]) (seq, r', req') resp"
    unfolding answered_def using a by (intro exI [of _ "length (history s)"]) simp
  note tok = tokens_ok_answer [OF 1(4,5) m o ty this]
  have "server_ok z t0 app (s\<lparr>sv := t, history := history s @ [(seq, r', req')]\<rparr>)"
    using 1(6) e(3) a o by (simp add: server_ok_def run_requests_snoc run_request_def)
  moreover have "seqs_ok (s\<lparr>history := history s @ [(seq, r', req')]\<rparr>) (qs @ somes (gs[i := None]))" using 1(5) m by (rule seqs_ok_run) simp_all
  moreover have "list_all2 (holds z) ((workers s)[i := W_sending sb]) (gs[i := None])" using 1(2) by (rule list_all2_update_cong) simp
  ultimately show ?thesis
    unfolding q using 1 tok calls_ok_history [OF 1(7)] e(2)
    by (intro rpc_invI [of _ z qs "gs[i := None]" "ps @ [(seq, r', resp)]" "qs @ somes (gs[i := None])"])
      (simp_all add: server_ok_def seqs_ok_def n_ops_def tokens_ok_def calls_ok_def)
qed

text \<open>A response reaches its caller.\<close>

lemma outstanding_response:
  assumes tok: "tokens_ok z t0 app s pend ((seq, r, resp) # ps)" and seqs: "seqs_ok s pend" and calls: "calls_ok z t0 app s"
  obtains req k where "outstanding_rpcs (cl s) seq = Some (r, k)" "k < length (t_futures (cl s))" "k < length (made s)" "t_futures (cl s) ! k = None"
    "made s ! k = (seq, r, req)" "answered z t0 app (history s) (seq, r, req) resp"
proof -
  from tok obtain req where q: "(seq, r, req) \<in> set (made s)" "answered z t0 app (history s) (seq, r, req) resp" unfolding tokens_ok_def by auto
  have "seq \<in> dom (outstanding_rpcs (cl s))" using tok unfolding tokens_ok_def by auto
  then obtain r' k where k: "outstanding_rpcs (cl s) seq = Some (r', k)" by auto
  with calls obtain req' where k': "k < length (made s)" "k < length (t_futures (cl s))" "t_futures (cl s) ! k = None" "made s ! k = (seq, r', req')"
    by (auto simp: calls_ok_def promises_ok_def)
  have "distinct (map fst (made s))" using seqs by (simp add: seqs_ok_def)
  moreover have "(seq, r', req') \<in> set (made s)" using k' by (metis nth_mem)
  ultimately have "(r', req') = (r, req)" using q(1) by (metis eq_key_imp_eq_value)
  with that [of k req] k k' q show ?thesis by simp
qed

lemma inv_answer:
  assumes inv: "rpc_inv z t0 app s" and z: "codec_ok z" "ids_distinct z (t_rpcs t0)"
    and c: "to_cl s = m # ms" "recv_resp z (cl s) b n (m @ junk) = Inr t"
  shows "rpc_inv z t0 app (s\<lparr>cl := t, to_cl := ms, cl_recvs := bs\<rparr>)" (is "rpc_inv z t0 app ?s")
proof -
  from inv obtain qs gs ps0 where 0: "to_sv s = map (request_bytes z) qs" "list_all2 (holds z) (workers s) gs" "to_cl s = map (response_bytes z) ps0"
    "tokens_ok z t0 app s (qs @ somes gs) ps0" "seqs_ok s (qs @ somes gs)" "server_ok z t0 app s" "calls_ok z t0 app s" by (rule rpc_invE)
  from 0(3) c(1) obtain seq r resp ps where p: "ps0 = (seq, r, resp) # ps" "m = response_bytes z (seq, r, resp)" "ms = map (response_bytes z) ps" by auto
  let ?pend = "qs @ somes gs"
  note 1 = 0 [unfolded p(1)]
  from outstanding_response [OF 1(4,5,7)] obtain req k where k: "outstanding_rpcs (cl s) seq = Some (r, k)" "k < length (t_futures (cl s))"
    "k < length (made s)" "t_futures (cl s) ! k = None" "made s ! k = (seq, r, req)" "answered z t0 app (history s) (seq, r, req) resp" .
  have rp: "t_rpcs (cl s) = t_rpcs t0" using 1(6) by (simp add: server_ok_def)
  have n: "0 < n" using c(2) by (auto simp: recv_resp_def)
  have r: "r \<in> set (NormalRpcs (t_rpcs t0))" "has_type z (Response (rpc_name r)) resp" using 1(4) unfolding tokens_ok_def by auto
  from c(2) recv_resp_bytes [of z "cl s" r resp seq k n b junk] z rp r k n p(2) obtain pr where
    t: "t = (cl s)\<lparr>t_futures := (t_futures (cl s))[k := Some resp], outstanding_rpcs := (outstanding_rpcs (cl s))(seq := None), recv_bufs := pr\<rparr>"
    by (auto dest!: release_recv_bufferD)
  have dist: "distinct (map fst (made s))" and hp: "fst ` set (history s) \<inter> fst ` set ?pend = {}" using 1(5) by (simp_all add: seqs_ok_def image_Un)
  have "seq \<notin> pending_seqs ?pend"
    using hp answered_in_history [OF k(6)] by (force simp: pending_seqs_def)
  then have tok: "tokens_ok z t0 app ?s ?pend ps" using 1(4) unfolding tokens_ok_def by (auto simp: t)
  have "promises_ok (outstanding_rpcs (cl s)) (t_futures (cl s)) (made s)" using 1(7) by (simp add: calls_ok_def)
  from promises_ok_answer [OF this dist k(1)] have "calls_ok z t0 app ?s"
    using 1(7) k by (simp add: calls_ok_def t nth_list_update)
  moreover have "seqs_ok ?s ?pend" "server_ok z t0 app ?s" using 1(5,6) by (simp_all add: seqs_ok_def n_ops_def server_ok_def t)
  ultimately show ?thesis using 1 tok p(3) by (intro rpc_invI [OF _ _ _ refl]) simp_all
qed

lemma rpc_step_inv:
  assumes "rpc_step z s s'" "rpc_inv z t0 app s" "codec_ok z" "ids_distinct z (t_rpcs t0)" "answers_typed z t0" "n_ops s' < 2 ^ 32"
  shows "rpc_inv z t0 app s'"
  using assms
proof (cases rule: rpc_step.cases)
  case (call b t r req)
  then obtain p where "t = (cl s)\<lparr>recv_bufs := p\<rparr>" by (auto dest: acquire_recv_bufferD)
  with call show ?thesis
    using inv_quiet_client [OF assms(2), where t = t and cs = "cl_calls s @ [(r, req)]" and rs = "cl_recvs s @ [b]" and ss = "cl_sends s"] by (simp add: calls_typed_def)
next
  case (send i r req b bytes t)
  with assms(2,6) show ?thesis using inv_send [of z t0 app s i r req b bytes t "cl_sends s @ [b]"] by (simp add: n_ops_def)
next
  case (oneway r req b bytes t)
  with assms(2,6) show ?thesis using inv_oneway [of z t0 app s r req b bytes t "cl_sends s @ [b]"] by (simp add: n_ops_def)
next
  case (sent i n t)
  then obtain p where "t = (cl s)\<lparr>send_bufs := p\<rparr>" by (auto dest: send_doneD)
  with sent show ?thesis
    using inv_quiet_client [OF assms(2), where t = t and cs = "cl_calls s" and rs = "cl_recvs s" and ss = "remove_at i (cl_sends s)"] by simp
next
  case (answer m ms b bs junk t)
  show ?thesis using inv_answer [OF assms(2-4) answer(2,4)] answer(1) by simp
next
  case (w_post i b t)
  then obtain p where "t = (sv s)\<lparr>recv_bufs := p\<rparr>" by (auto dest: acquire_recv_bufferD)
  with w_post show ?thesis using inv_quiet_worker [OF assms(2), of t i "W_posted b"] by simp
next
  case (w_recv i b m ms junk h rest t)
  show ?thesis using inv_recv [OF assms(2,3) w_recv(2-5)] w_recv(1) by simp
next
  case (w_oneway i b h rest t r req rest')
  show ?thesis using inv_served_oneway [OF assms(2-4) w_oneway(2-8)] w_oneway(1) by simp
next
  case (w_serve i b h rest sb bytes t r req rest')
  show ?thesis using inv_served [OF assms(2-5) w_serve(2-8)] w_serve(1) by simp
next
  case (w_sent i sb n t)
  then obtain p where "t = (sv s)\<lparr>send_bufs := p\<rparr>" by (auto dest: serve_sentD)
  with w_sent show ?thesis using inv_quiet_worker [OF assms(2), of t i W_idle] by simp
qed

lemma rpc_step_ops: "rpc_step z s s' \<Longrightarrow> n_ops s \<le> n_ops s'"
  by (induction rule: rpc_step.induct) (auto simp: n_ops_def)

lemma worker_enter_simps [simp]:
  "t_rpcs ((worker_enter ^^ n) t) = t_rpcs t" "normal_rpc_handler ((worker_enter ^^ n) t) = normal_rpc_handler t"
  "oneway_rpc_handler ((worker_enter ^^ n) t) = oneway_rpc_handler t" "t_app ((worker_enter ^^ n) t) = t_app t"
  "recv_bufs ((worker_enter ^^ n) t) = recv_bufs t" "send_bufs ((worker_enter ^^ n) t) = send_bufs t"
  by (induction n) (simp_all add: worker_enter_def)

text \<open>A client transport without calls.\<close>

definition fresh_client :: "('v, 's) Transport \<Rightarrow> bool" where
  "fresh_client c \<longleftrightarrow> current_seq c = 1 \<and> outstanding_rpcs c = Map.empty \<and> t_futures c = []"

lemma rpc_inv_init:
  assumes "fresh_client c" "t_rpcs c = t_rpcs t"
  shows "rpc_inv z t (t_app t) (sys_init c t n)"
proof (rule rpc_invI [where qs = "[]" and gs = "replicate n None" and ps = "[]" and pend = "[]"])
  show "list_all2 (holds z) (workers (sys_init c t n)) (replicate n None)" by (simp add: sys_init_def list_all2_conv_all_nth)
qed (use assms in \<open>simp_all add: sys_init_def fresh_client_def somes_def tokens_ok_def calls_typed_def pending_seqs_def seqs_ok_def n_ops_def
  server_ok_def run_requests_def calls_ok_def promises_ok_def\<close>)

lemma rpc_run_inv:
  assumes "(rpc_step z)\<^sup>*\<^sup>* s0 s" "rpc_inv z t0 app s0" "codec_ok z" "ids_distinct z (t_rpcs t0)" "answers_typed z t0" "n_ops s < 2 ^ 32"
  shows "rpc_inv z t0 app s"
  using assms(1,6)
proof (induction rule: rtranclp_induct)
  case base
  then show ?case using assms by simp
next
  case (step s s')
  from rpc_step_ops [OF step(2)] step(4) have "n_ops s < 2 ^ 32" by simp
  then have "rpc_inv z t0 app s" by (rule step(3))
  then show ?case by (rule rpc_step_inv [OF step(2) _ assms(3-5) step(4)])
qed

section \<open>Progress\<close>

text \<open>\<open>n\<close> buffers of a pool are free or among the held ones.\<close>

definition pool_ok :: "BufferPool \<Rightarrow> MemoryRegion multiset \<Rightarrow> nat \<Rightarrow> bool" where
  "pool_ok p held n \<longleftrightarrow> (\<forall>b \<in># mset (bp_q p) + held. bp_owns (bp_bs p) (bp_piece_size p) b) \<and> length (bp_q p) + size held = n"

lemma pool_acquire:
  assumes "pool_ok p held n" "acquire_one p = (Some b, p')"
  shows "pool_ok p' (add_mset b held) n"
  using assms by (auto simp: pool_ok_def acquire_one_def split: list.splits)

lemma pool_release:
  assumes "pool_ok p (add_mset b held) n" "release_one p b = Inr p'"
  shows "pool_ok p' held n"
  using assms by (auto simp: pool_ok_def release_one_def)

lemma pool_can_release:
  assumes "pool_ok p (add_mset b held) n"
  obtains p' where "release_one p b = Inr p'"
  using assms that by (auto simp: pool_ok_def release_one_def)

lemma pool_can_acquire:
  assumes "pool_ok p held n" "size held < n"
  obtains b p' where "acquire_one p = (Some b, p')" "mr_len b = bp_piece_size p"
proof -
  from assms have "bp_q p \<noteq> []" by (auto simp: pool_ok_def)
  then obtain b q where "bp_q p = b # q" by (cases "bp_q p") auto
  with assms that show ?thesis by (auto simp: acquire_one_def pool_ok_def bp_owns_def)
qed

lemma piece_size_const: "acquire_one p = (x, p') \<Longrightarrow> bp_piece_size p' = bp_piece_size p"
  "release_one p b = Inr p' \<Longrightarrow> bp_piece_size p' = bp_piece_size p"
  by (auto simp: acquire_one_def release_one_def split: list.splits)

definition recv_held :: "worker \<Rightarrow> MemoryRegion list" where
  "recv_held w = (case w of W_posted b \<Rightarrow> [b] | W_got b _ _ \<Rightarrow> [b] | _ \<Rightarrow> [])"

definition send_held :: "worker \<Rightarrow> MemoryRegion list" where
  "send_held w = (case w of W_sending b \<Rightarrow> [b] | _ \<Rightarrow> [])"

definition held_by :: "(worker \<Rightarrow> MemoryRegion list) \<Rightarrow> worker list \<Rightarrow> MemoryRegion multiset" where
  "held_by f ws = mset (concat (map f ws))"

lemma held_by_update:
  assumes "i < length ws"
  shows "held_by f (ws[i := w]) + mset (f (ws ! i)) = held_by f ws + mset (f w)"
  using mset_concat_update [of i "map f ws" "f w"] assms by (simp add: held_by_def map_update del: mset_concat)

lemma size_held_by: "(\<And>w. length (f w) \<le> 1) \<Longrightarrow> size (held_by f ws) \<le> length ws"
proof (induction ws)
  case Nil
  then show ?case by (simp add: held_by_def)
next
  case (Cons w ws)
  have "size (held_by f (w # ws)) = length (f w) + size (held_by f ws)" by (simp add: held_by_def)
  with Cons show ?case by (metis add_mono length_Cons plus_1_eq_Suc)
qed

lemma size_held_by_less:
  assumes "\<And>w. length (f w) \<le> 1" "i < length ws" "f (ws ! i) = []"
  shows "size (held_by f ws) < length ws"
proof -
  have "held_by f ws = held_by f (take i ws) + held_by f (drop (Suc i) ws)"
    using assms id_take_nth_drop [OF assms(2)] by (metis append_Cons append_Nil concat_append held_by_def list.simps(9) map_append mset_append concat.simps(2))
  then show ?thesis using size_held_by [where f = f and ws = "take i ws"] size_held_by [where f = f and ws = "drop (Suc i) ws"] assms(1) assms(2) by simp
qed

lemma held_length [simp]: "length (recv_held w) \<le> 1" "length (send_held w) \<le> 1"
  by (simp_all add: recv_held_def send_held_def split: worker.splits)

definition unanswered :: "'v option list \<Rightarrow> nat" where
  "unanswered fs = length (filter (\<lambda>f. f = None) fs)"

definition pools_ok :: "nat \<Rightarrow> u64 \<Rightarrow> nat \<Rightarrow> u64 \<Rightarrow> ('v, 's) rpc_sys \<Rightarrow> bool" where
  "pools_ok depth csize n ssize s \<longleftrightarrow>
     pool_ok (recv_bufs (cl s)) (mset (cl_recvs s)) depth \<and> pool_ok (send_bufs (cl s)) (mset (cl_sends s)) depth
   \<and> pool_ok (recv_bufs (sv s)) (held_by recv_held (workers s)) n \<and> pool_ok (send_bufs (sv s)) (held_by send_held (workers s)) n
   \<and> length (workers s) = n \<and> bp_piece_size (send_bufs (cl s)) = csize \<and> bp_piece_size (send_bufs (sv s)) = ssize
   \<and> length (cl_recvs s) = length (cl_calls s) + unanswered (t_futures (cl s))"

lemma length_remove_at: "i < length xs \<Longrightarrow> Suc (length (remove_at i xs)) = length xs"
  by (simp add: remove_at_def)

lemma mset_remove_at: "i < length xs \<Longrightarrow> add_mset (xs ! i) (mset (remove_at i xs)) = mset xs"
  unfolding remove_at_def by (rule mset_remove_nth)

lemma unanswered_update: "k < length fs \<Longrightarrow> fs ! k = None \<Longrightarrow> Suc (unanswered (fs[k := Some v])) = unanswered fs"
proof (induction fs arbitrary: k)
  case Nil
  then show ?case by simp
next
  case (Cons f fs)
  then show ?case by (cases k) (auto simp: unanswered_def)
qed

lemma held_by_idle:
  assumes "i < length ws" "ws ! i = w"
  shows "f w = [] \<Longrightarrow> f w' = [] \<Longrightarrow> held_by f (ws[i := w']) = held_by f ws"
    and "f w = [] \<Longrightarrow> f w' = [b] \<Longrightarrow> held_by f (ws[i := w']) = add_mset b (held_by f ws)"
    and "f w = [b] \<Longrightarrow> f w' = [] \<Longrightarrow> add_mset b (held_by f (ws[i := w'])) = held_by f ws"
    and "f w = [b] \<Longrightarrow> f w' = [b] \<Longrightarrow> held_by f (ws[i := w']) = held_by f ws"
  using held_by_update [OF assms(1), of f w'] assms(2) by auto

lemma held_simps [simp]:
  "recv_held W_idle = []" "recv_held (W_posted b) = [b]" "recv_held (W_got b h rest) = [b]" "recv_held (W_sending b) = []"
  "send_held W_idle = []" "send_held (W_posted b) = []" "send_held (W_got b h rest) = []" "send_held (W_sending b) = [b]"
  by (simp_all add: recv_held_def send_held_def)

lemma answer_client:
  assumes inv: "rpc_inv z t0 app s" and z: "codec_ok z" "ids_distinct z (t_rpcs t0)"
    and c: "to_cl s = m # ms" "0 < n"
  shows "\<exists>k seq resp. k < length (t_futures (cl s)) \<and> t_futures (cl s) ! k = None \<and> recv_resp z (cl s) b n (m @ junk) =
    release_recv_buffer ((cl s)\<lparr>t_futures := (t_futures (cl s))[k := Some resp], outstanding_rpcs := (outstanding_rpcs (cl s))(seq := None)\<rparr>) b"
proof -
  from inv obtain qs gs ps0 where 1: "to_cl s = map (response_bytes z) ps0"
    "tokens_ok z t0 app s (qs @ somes gs) ps0" "seqs_ok s (qs @ somes gs)" "server_ok z t0 app s" "calls_ok z t0 app s" by (auto elim: rpc_invE)
  from 1(1) c(1) obtain seq r resp ps where p: "ps0 = (seq, r, resp) # ps" "m = response_bytes z (seq, r, resp)" by auto
  from outstanding_response [OF 1(2) [unfolded p(1)] 1(3,5)] obtain req k where
    k: "outstanding_rpcs (cl s) seq = Some (r, k)" "k < length (t_futures (cl s))" "t_futures (cl s) ! k = None" .
  have "r \<in> set (NormalRpcs (t_rpcs t0))" "has_type z (Response (rpc_name r)) resp" using 1(2) unfolding tokens_ok_def p(1) by auto
  with z 1(4) k c(2) p(2) recv_resp_bytes [of z "cl s" r resp seq k n b junk] show ?thesis by (auto simp: server_ok_def)
qed

lemma serve_header_same: "serve_header z t b False n c = Inr (Some (h, rest), t') \<Longrightarrow> t' = t"
  by (auto simp: serve_header_def split: if_splits option.splits)

lemma any_rpc_Some: "any_rpc f rs = Inr (Some x) \<Longrightarrow> \<exists>r. f r = Inr (Some x)"
  by (induction rs) (auto split: option.splits)

lemma serve_normal_pools:
  assumes "serve_normal z t b h rest = Inr (Some (sb, bytes, t'))"
  shows "\<exists>ps pr s. acquire_one (send_bufs t) = (Some sb, ps) \<and> release_one (recv_bufs t) b = Inr pr \<and> t' = t\<lparr>send_bufs := ps, t_app := s, recv_bufs := pr\<rparr>"
proof -
  from assms obtain ps t1 where a: "acquire_one (send_bufs t) = (Some sb, ps)" and
    d: "dispatch_normal_reqs z (t\<lparr>send_bufs := ps\<rparr>) sb (h_seq h) (h_id h) rest = Inr (Some (bytes, t1))" "release_recv_buffer t1 b = Inr t'"
    by (auto simp: serve_normal_def split: option.splits dest!: acquire_send_bufferD)
  from any_rpc_Some [OF d(1) [unfolded dispatch_normal_reqs_def]] obtain s where "t1 = t\<lparr>send_bufs := ps, t_app := s\<rparr>"
    by (auto simp: dispatch_normal_req_def Let_def split: if_splits option.splits)
  with a d(2) show ?thesis by (auto dest!: release_recv_bufferD)
qed

lemma serve_oneway_pools:
  assumes "serve_oneway z t b h rest = Inr t'"
  shows "\<exists>pr s. release_one (recv_bufs t) b = Inr pr \<and> t' = t\<lparr>t_app := s, recv_bufs := pr\<rparr>"
proof -
  from assms obtain t1 where d: "dispatch_oneway_reqs z t (h_id h) rest = Inr (Some t1)" "release_recv_buffer t1 b = Inr t'"
    by (auto simp: serve_oneway_def split: option.splits)
  from any_rpc_Some [OF d(1) [unfolded dispatch_oneway_reqs_def]] obtain s where "t1 = t\<lparr>t_app := s\<rparr>"
    by (auto simp: dispatch_oneway_req_def split: if_splits option.splits)
  with d(2) show ?thesis by (auto dest!: release_recv_bufferD)
qed

lemma call_send_pools:
  "call_send z t r req = Inr (Some (b, bytes, t')) \<Longrightarrow> \<exists>p sq o'. acquire_one (send_bufs t) = (Some b, p)
    \<and> t' = t\<lparr>send_bufs := p, current_seq := sq, outstanding_rpcs := o', t_futures := t_futures t @ [None]\<rparr>"
  by (auto simp: call_send_def Let_def split: option.splits dest!: acquire_send_bufferD) blast

lemma oneway_send_pools:
  "oneway_send z t r req = Inr (Some (b, bytes, t')) \<Longrightarrow> \<exists>p sq. acquire_one (send_bufs t) = (Some b, p) \<and> t' = t\<lparr>send_bufs := p, current_seq := sq\<rparr>"
  by (auto simp: oneway_send_def Let_def split: option.splits dest!: acquire_send_bufferD)

lemma pools_ok_step:
  assumes "rpc_step z s s'" "pools_ok d cs n ss s" and inv: "rpc_inv z t0 app s" "codec_ok z" "ids_distinct z (t_rpcs t0)"
  shows "pools_ok d cs n ss s'"
  using assms(1)
proof (cases rule: rpc_step.cases)
  case (call b t r req)
  from acquire_recv_bufferD [OF call(2)] obtain p where p: "acquire_one (recv_bufs (cl s)) = (Some b, p)" "t = (cl s)\<lparr>recv_bufs := p\<rparr>" by blast
  with call(1) assms(2) show ?thesis by (auto simp: pools_ok_def dest: pool_acquire)
next
  case (send i r req b bytes t)
  from call_send_pools [OF send(4)] obtain p sq o' where p: "acquire_one (send_bufs (cl s)) = (Some b, p)"
    "t = (cl s)\<lparr>send_bufs := p, current_seq := sq, outstanding_rpcs := o', t_futures := t_futures (cl s) @ [None]\<rparr>" by blast
  with send(1,2) assms(2) length_remove_at [OF send(2)] show ?thesis
    by (auto simp: pools_ok_def unanswered_def piece_size_const dest: pool_acquire)
next
  case (oneway r req b bytes t)
  from oneway_send_pools [OF oneway(4)] obtain p sq where p: "acquire_one (send_bufs (cl s)) = (Some b, p)"
    "t = (cl s)\<lparr>send_bufs := p, current_seq := sq\<rparr>" by blast
  with oneway(1) assms(2) show ?thesis by (auto simp: pools_ok_def piece_size_const dest: pool_acquire)
next
  case (sent i k t)
  from send_doneD [OF sent(4)] obtain p where p: "release_one (send_bufs (cl s)) (cl_sends s ! i) = Inr p" "t = (cl s)\<lparr>send_bufs := p\<rparr>" by blast
  have "pool_ok (send_bufs (cl s)) (add_mset (cl_sends s ! i) (mset (remove_at i (cl_sends s)))) d"
    using assms(2) by (simp add: pools_ok_def mset_remove_at [OF sent(2)])
  from pool_release [OF this p(1)] sent(1) p assms(2) show ?thesis by (auto simp: pools_ok_def piece_size_const)
next
  case (answer m ms b bs junk t)
  have "0 < int (length m)" using answer(4) by (auto simp: recv_resp_def)
  from answer_client [OF inv answer(2) this, of b junk] answer(4) obtain k seq resp where
    k: "k < length (t_futures (cl s))" "t_futures (cl s) ! k = None" and "release_recv_buffer ((cl s)\<lparr>t_futures := (t_futures (cl s))[k := Some resp],
        outstanding_rpcs := (outstanding_rpcs (cl s))(seq := None)\<rparr>) b = Inr t" by auto
  from release_recv_bufferD [OF this(3)] obtain p where p: "release_one (recv_bufs (cl s)) b = Inr p"
      "t = (cl s)\<lparr>t_futures := (t_futures (cl s))[k := Some resp], outstanding_rpcs := (outstanding_rpcs (cl s))(seq := None), recv_bufs := p\<rparr>"
    by auto
  have "pool_ok (recv_bufs (cl s)) (add_mset b (mset bs)) d" using assms(2) answer(3) by (simp add: pools_ok_def)
  from pool_release [OF this p(1)] unanswered_update [OF k, of resp] answer(1,3) p(2) assms(2) show ?thesis
    by (simp add: pools_ok_def)
next
  case (w_post i b t)
  from acquire_recv_bufferD [OF w_post(4)] obtain p where p: "acquire_one (recv_bufs (sv s)) = (Some b, p)" "t = (sv s)\<lparr>recv_bufs := p\<rparr>" by blast
  with w_post(1) assms(2) show ?thesis by (auto simp: pools_ok_def held_by_idle [OF w_post(2,3)] dest: pool_acquire)
next
  case (w_recv i b m ms junk h rest t)
  with serve_header_same [OF w_recv(5)] assms(2) show ?thesis by (simp add: pools_ok_def held_by_idle [OF w_recv(2,3)])
next
  case (w_oneway i b h rest t r req rest')
  from serve_oneway_pools [OF w_oneway(5)] obtain pr s' where p: "release_one (recv_bufs (sv s)) b = Inr pr" "t = (sv s)\<lparr>t_app := s', recv_bufs := pr\<rparr>" by blast
  have "pool_ok (recv_bufs (sv s)) (add_mset b (held_by recv_held ((workers s)[i := W_idle]))) n"
    using assms(2) held_by_idle(3) [OF w_oneway(2,3), of recv_held b W_idle] by (simp add: pools_ok_def)
  from pool_release [OF this p(1)] w_oneway(1) p assms(2) show ?thesis by (simp add: pools_ok_def held_by_idle(1) [OF w_oneway(2,3), of send_held])
next
  case (w_serve i b h rest sb bytes t r req rest')
  from serve_normal_pools [OF w_serve(5)] obtain ps pr s' where p: "acquire_one (send_bufs (sv s)) = (Some sb, ps)" "release_one (recv_bufs (sv s)) b = Inr pr"
    "t = (sv s)\<lparr>send_bufs := ps, t_app := s', recv_bufs := pr\<rparr>" by blast
  have "pool_ok (recv_bufs (sv s)) (add_mset b (held_by recv_held ((workers s)[i := W_sending sb]))) n"
    using assms(2) held_by_idle(3) [OF w_serve(2,3), of recv_held b "W_sending sb"] by (simp add: pools_ok_def)
  from pool_release [OF this p(2)] w_serve(1) p assms(2) show ?thesis
    by (auto simp: pools_ok_def piece_size_const held_by_idle(2) [OF w_serve(2,3), of send_held _ sb] dest: pool_acquire)
next
  case (w_sent i sb k t)
  from serve_sentD [OF w_sent(5)] obtain p where p: "release_one (send_bufs (sv s)) sb = Inr p" "t = (sv s)\<lparr>send_bufs := p\<rparr>" by blast
  have "pool_ok (send_bufs (sv s)) (add_mset sb (held_by send_held ((workers s)[i := W_idle]))) n"
    using assms(2) held_by_idle(3) [OF w_sent(2,3), of send_held sb W_idle] by (simp add: pools_ok_def)
  from pool_release [OF this p(1)] w_sent(1) p assms(2) show ?thesis
    by (auto simp: pools_ok_def piece_size_const held_by_idle(1) [OF w_sent(2,3), of recv_held])
qed

text \<open>What a run needs to complete: handlers that always answer, and messages that fit into a buffer.\<close>

definition handlers_total :: "'v zpp_bits \<Rightarrow> ('v, 's) Transport \<Rightarrow> bool" where
  "handlers_total z t \<longleftrightarrow> (\<forall>r s req. rpcs_of (t_rpcs t) r \<longrightarrow> has_type z (Request (rpc_name r)) req \<longrightarrow> handled z t r
     \<and> (if is_oneway r then \<exists>s'. effect_of z t s r req = Inr s' else \<exists>x. answer_of z t s r req = Inr x))"

definition messages_fit :: "'v zpp_bits \<Rightarrow> u64 \<Rightarrow> u64 \<Rightarrow> bool" where
  "messages_fit z csize ssize \<longleftrightarrow>
     (\<forall>seq r req. has_type z (Request (rpc_name r)) req \<longrightarrow> length (request_bytes z (seq, r, req)) \<le> unat csize)
   \<and> (\<forall>seq r resp. has_type z (Response (rpc_name r)) resp \<longrightarrow> length (response_bytes z (seq, r, resp)) \<le> unat ssize)"

definition settled :: "('v, 's) rpc_sys \<Rightarrow> bool" where
  "settled s \<longleftrightarrow> cl_calls s = [] \<and> None \<notin> set (t_futures (cl s))"

definition weight :: "worker \<Rightarrow> nat" where
  "weight w = (case w of W_idle \<Rightarrow> 1 | W_posted _ \<Rightarrow> 0 | W_got _ _ _ \<Rightarrow> 4 | W_sending _ \<Rightarrow> 2)"

definition work :: "('v, 's) rpc_sys \<Rightarrow> nat" where
  "work s = 8 * length (cl_calls s) + length (cl_sends s) + 6 * length (to_sv s) + length (to_cl s) + sum_list (map weight (workers s))"

text \<open>All calls that were begun.\<close>

definition begun :: "('v, 's) rpc_sys \<Rightarrow> nat" where
  "begun s = length (made s) + length (cl_calls s)"

lemma weight_update:
  "i < length ws \<Longrightarrow> sum_list (map weight (ws[i := w])) + weight (ws ! i) = sum_list (map weight ws) + weight w"
  by (induction ws arbitrary: i) (auto split: nat.splits)

lemma can_finish_send:
  assumes "pools_ok d cs n ss s" "cl_sends s \<noteq> []"
  shows "\<exists>s'. rpc_step z s s' \<and> work s' < work s \<and> begun s' = begun s \<and> oneways s' = oneways s"
proof -
  have l: "0 < length (cl_sends s)" using assms(2) by simp
  have "pool_ok (send_bufs (cl s)) (add_mset (cl_sends s ! 0) (mset (remove_at 0 (cl_sends s)))) d"
    using assms(1) by (simp add: pools_ok_def mset_remove_at [OF l])
  then obtain p where "release_one (send_bufs (cl s)) (cl_sends s ! 0) = Inr p" by (rule pool_can_release)
  then have "send_done (cl s) (cl_sends s ! 0) 1 = Inr ((cl s)\<lparr>send_bufs := p\<rparr>)" by (simp add: send_done_def release_send_buffer_def)
  from rpc_step.sent [OF l _ this, of z] length_remove_at [OF l] show ?thesis by (fastforce simp: work_def begun_def)
qed

lemma can_send:
  assumes "pools_ok d cs n ss s" "rpc_inv z t0 app s" "messages_fit z cs ss" "n_ops s + 1 < 2 ^ 32"
    and "0 < d" "cl_sends s = []" "cl_calls s \<noteq> []"
  shows "\<exists>s'. rpc_step z s s' \<and> work s' < work s \<and> begun s' = begun s \<and> oneways s' = oneways s"
proof -
  have l: "0 < length (cl_calls s)" using assms(7) by simp
  obtain r req where c: "cl_calls s ! 0 = (r, req)" by fastforce
  from assms(1,5,6) obtain b p where b: "acquire_one (send_bufs (cl s)) = (Some b, p)" "mr_len b = cs"
    using pool_can_acquire [of "send_bufs (cl s)" "mset (cl_sends s)" d] by (auto simp: pools_ok_def)
  from assms(2) obtain qs gs ps where 1: "tokens_ok z t0 app s (qs @ somes gs) ps" "seqs_ok s (qs @ somes gs)" "calls_ok z t0 app s" by (auto elim: rpc_invE)
  have "(r, req) \<in> set (cl_calls s)" using c l by (metis nth_mem)
  with 1(1) have r: "has_type z (Request (rpc_name r)) req" "\<not> is_oneway r"
    by (auto simp: tokens_ok_def calls_typed_def dest: NormalRpcs_not_oneway)
  have "current_seq (cl s) \<notin> fst ` set (made s)" using fresh_seq(2) [OF 1(2) assms(4)] by (simp add: image_Un)
  then have o: "outstanding_rpcs (cl s) (current_seq (cl s)) = None"
    using 1(3) unfolding calls_ok_def promises_ok_def by (metis fst_conv image_eqI nth_mem option.exhaust prod.exhaust)
  have "length (request_bytes z (current_seq (cl s), r, req)) \<le> unat cs" using assms(3) r(1) unfolding messages_fit_def by blast
  then obtain bytes t where "call_send z (cl s) r req = Inr (Some (b, bytes, t))"
    using b o r(2) by (auto simp: call_send_def acquire_send_buffer_def put_payload_def Let_def request_bytes_def request_header_def)
  from rpc_step.send [OF l c this] length_remove_at [OF l] show ?thesis by (intro exI conjI) (assumption, simp_all add: work_def begun_def)
qed

lemma can_answer:
  assumes "pools_ok d cs n ss s" "rpc_inv z t0 app s" "codec_ok z" "ids_distinct z (t_rpcs t0)" "to_cl s \<noteq> []"
  shows "\<exists>s'. rpc_step z s s' \<and> work s' < work s \<and> begun s' = begun s \<and> oneways s' = oneways s"
proof -
  obtain m ms where m: "to_cl s = m # ms" using assms(5) by (cases "to_cl s") auto
  have "m \<noteq> []" using assms(2,3) m unfolding rpc_inv_def flow_ok_def codec_ok_def by (auto simp: response_bytes_def)
  then have "0 < int (length m)" by simp
  from answer_client [OF assms(2-4) m this] obtain k seq resp where k: "k < length (t_futures (cl s))" "t_futures (cl s) ! k = None" by blast
  then have "0 < unanswered (t_futures (cl s))" by (metis unanswered_update zero_less_Suc)
  then obtain b bs where b: "cl_recvs s = b # bs" using assms(1) by (cases "cl_recvs s") (auto simp: pools_ok_def)
  have "pool_ok (recv_bufs (cl s)) (add_mset b (mset bs)) d" using assms(1) b by (simp add: pools_ok_def)
  then obtain p where "release_one (recv_bufs (cl s)) b = Inr p" by (rule pool_can_release)
  with answer_client [OF assms(2-4) m \<open>0 < int (length m)\<close>, of b "[]"] obtain t where "recv_resp z (cl s) b (int (length m)) (m @ []) = Inr t"
    by (auto simp: release_recv_buffer_def)
  from rpc_step.answer [OF m b this] m show ?thesis by (intro exI conjI) (assumption, simp_all add: work_def begun_def)
qed

lemma can_finish_answer:
  assumes "pools_ok d cs n ss s" "i < length (workers s)" "workers s ! i = W_sending sb"
  shows "\<exists>s'. rpc_step z s s' \<and> work s' < work s \<and> begun s' = begun s \<and> oneways s' = oneways s"
proof -
  have "pool_ok (send_bufs (sv s)) (add_mset sb (held_by send_held ((workers s)[i := W_idle]))) n"
    using assms(1) held_by_idle(3) [OF assms(2,3), of send_held sb W_idle] by (simp add: pools_ok_def)
  then obtain p where "release_one (send_bufs (sv s)) sb = Inr p" by (rule pool_can_release)
  then have "serve_sent (sv s) sb False 1 = Inr (True, (sv s)\<lparr>send_bufs := p\<rparr>)" by (simp add: serve_sent_def release_send_buffer_def)
  from rpc_step.w_sent [OF assms(2,3) _ this, of z] weight_update [OF assms(2), of W_idle] assms(3) show ?thesis
    by (intro exI conjI) (assumption | simp add: work_def weight_def begun_def)+
qed

lemma can_serve:
  assumes pools: "pools_ok d cs n ss s" and inv: "rpc_inv z t0 app s" and z: "codec_ok z" "ids_distinct z (t_rpcs t0)" "answers_typed z t0"
    and total: "handlers_total z t0" "messages_fit z cs ss" and i: "i < length (workers s)" "workers s ! i = W_got b h rest"
  shows "\<exists>s'. rpc_step z s s' \<and> work s' < work s \<and> begun s' = begun s \<and> oneways s' = oneways s"
proof -
  from inv obtain qs gs ps where 1: "list_all2 (holds z) (workers s) gs"
    "tokens_ok z t0 app s (qs @ somes gs) ps" "server_ok z t0 app s" by (auto elim: rpc_invE)
  from held_request [OF 1(2,1) i] obtain seq r req junk where g: "h = request_header z seq r" "rest = ser z (Request (rpc_name r)) req @ junk"
    "rpcs_of (t_rpcs t0) r" "has_type z (Request (rpc_name r)) req" .
  have sv: "t_rpcs (sv s) = t_rpcs t0" "normal_rpc_handler (sv s) = normal_rpc_handler t0" "oneway_rpc_handler (sv s) = oneway_rpc_handler t0"
    using 1(3) by (simp_all add: server_ok_def)
  then have same: "handled z (sv s) r = handled z t0 r" "answer_of z (sv s) = answer_of z t0" "effect_of z (sv s) = effect_of z t0"
    by (auto simp: handled_def answer_of_def effect_of_def fun_eq_iff)
  have des: "des z (Request (rpc_name r)) rest = Some (req, junk)" using z(1) g(2,4) by (simp add: codec_ok_def)
  have "pool_ok (recv_bufs (sv s)) (add_mset b (held_by recv_held ((workers s)[i := W_idle]))) n"
    using pools held_by_idle(3) [OF i, of recv_held b W_idle] by (simp add: pools_ok_def)
  then obtain p where p: "release_one (recv_bufs (sv s)) b = Inr p" by (rule pool_can_release)
  show ?thesis
  proof (cases "is_oneway r")
    case True
    then have r: "r \<in> set (OnewayRpcs (t_rpcs (sv s)))" using g(3) sv by (simp add: rpcs_of_def)
    from total(1) g(3,4) True obtain s' where "effect_of z t0 (t_app (sv s)) r req = Inr s'" "handled z t0 r" unfolding handlers_total_def by metis
    then have "serve_oneway z (sv s) b h rest = Inr ((sv s)\<lparr>t_app := s', recv_bufs := p\<rparr>)"
      using dispatch_oneway_reqs_id [of z "sv s" r req junk] z sv r g p same by (simp add: serve_oneway_def release_recv_buffer_def)
    from rpc_step.w_oneway [OF i _ this r _ des] True g weight_update [OF i(1), of W_idle] i(2) show ?thesis
      by (intro exI conjI) (assumption | simp add: work_def weight_def begun_def)+
  next
    case False
    then have r: "r \<in> set (NormalRpcs (t_rpcs (sv s)))" using g(3) sv by (simp add: rpcs_of_def)
    from total(1) g(3,4) False obtain resp s' where a: "answer_of z t0 (t_app (sv s)) r req = Inr (resp, s')" "handled z t0 r"
      unfolding handlers_total_def by (metis prod.exhaust)
    have "size (held_by send_held (workers s)) < length (workers s)" by (rule size_held_by_less [OF held_length(2) i(1)]) (simp add: i)
    then obtain sb q where sb: "acquire_one (send_bufs (sv s)) = (Some sb, q)" "mr_len sb = ss"
      using pool_can_acquire [of "send_bufs (sv s)" "held_by send_held (workers s)" n] pools by (auto simp: pools_ok_def)
    have "has_type z (Response (rpc_name r)) resp" using z(3) g(4) a(1) unfolding answers_typed_def by blast
    then have "length (response_bytes z (seq, r, resp)) \<le> unat ss" using total(2) unfolding messages_fit_def by blast
    then have "serve_normal z (sv s) b h rest = Inr (Some (sb, response_bytes z (seq, r, resp), (sv s)\<lparr>send_bufs := q, t_app := s', recv_bufs := p\<rparr>))"
      using dispatch_normal_reqs_id [of z "(sv s)\<lparr>send_bufs := q\<rparr>" r req sb seq junk] z sv r g p same a sb
      by (simp add: serve_normal_def acquire_send_buffer_def handled_def answer_of_def put_payload_def response_bytes_def Let_def release_recv_buffer_def)
    from rpc_step.w_serve [OF i _ this r _ des] False g weight_update [OF i(1), of "W_sending sb"] i(2) show ?thesis
      by (intro exI conjI) (assumption | simp add: work_def weight_def begun_def)+
  qed
qed

lemma can_receive:
  assumes pools: "pools_ok d cs n ss s" and inv: "rpc_inv z t0 app s" and z: "codec_ok z" and m: "to_sv s \<noteq> []"
    and i: "i < length (workers s)" "workers s ! i = W_posted b"
  shows "\<exists>s'. rpc_step z s s' \<and> work s' < work s \<and> begun s' = begun s \<and> oneways s' = oneways s"
proof -
  from inv obtain qs where qs: "to_sv s = map (request_bytes z) qs" by (auto elim: rpc_invE)
  with m obtain seq r req qs' where q: "to_sv s = request_bytes z (seq, r, req) # map (request_bytes z) qs'" by (cases qs) auto
  have "request_bytes z (seq, r, req) \<noteq> []" using z by (simp add: codec_ok_def request_bytes_def)
  then have "0 < int (length (request_bytes z (seq, r, req)))" by simp
  then have "serve_header z (sv s) b False (int (length (request_bytes z (seq, r, req)))) (request_bytes z (seq, r, req) @ []) =
      Inr (Some (request_header z seq r, ser z (Request (rpc_name r)) req), sv s)"
    using z by (auto simp: serve_header_def request_bytes_def codec_ok_def)
  from rpc_step.w_recv [OF i q this] weight_update [OF i(1), of "W_got b (request_header z seq r) (ser z (Request (rpc_name r)) req)"] i(2) q show ?thesis
    by (intro exI conjI) (assumption | simp add: work_def weight_def begun_def)+
qed

lemma can_post:
  assumes pools: "pools_ok d cs n ss s" and i: "i < length (workers s)" "workers s ! i = W_idle"
  shows "\<exists>s'. rpc_step z s s' \<and> work s' < work s \<and> begun s' = begun s \<and> oneways s' = oneways s"
proof -
  have "size (held_by recv_held (workers s)) < length (workers s)" by (rule size_held_by_less [OF held_length(1) i(1)]) (simp add: i)
  moreover have "pool_ok (recv_bufs (sv s)) (held_by recv_held (workers s)) (length (workers s))" using pools by (simp add: pools_ok_def)
  ultimately obtain b p where b: "acquire_one (recv_bufs (sv s)) = (Some b, p)" using pool_can_acquire by blast
  then have "acquire_recv_buffer (sv s) = Some (b, (sv s)\<lparr>recv_bufs := p\<rparr>)" by (simp add: acquire_recv_buffer_def)
  from rpc_step.w_post [OF i this, of z] weight_update [OF i(1), of "W_posted b"] i(2) show ?thesis
    by (intro exI conjI) (assumption | simp add: work_def weight_def begun_def)+
qed

lemma unsettled_token:
  assumes "rpc_inv z t0 app s" "\<not> settled s" "cl_calls s = []" "to_cl s = []" "to_sv s = []"
  obtains i b h rest where "i < length (workers s)" "workers s ! i = W_got b h rest"
proof -
  from assms(1) obtain qs gs ps where 1: "to_sv s = map (request_bytes z) qs" "list_all2 (holds z) (workers s) gs" "to_cl s = map (response_bytes z) ps"
    "tokens_ok z t0 app s (qs @ somes gs) ps" "calls_ok z t0 app s" by (auto elim: rpc_invE)
  from assms(2,3) obtain k where k: "k < length (t_futures (cl s))" "t_futures (cl s) ! k = None" by (auto simp: settled_def in_set_conv_nth)
  obtain seq r req where m: "made s ! k = (seq, r, req)" by (metis prod.exhaust)
  have "outstanding_rpcs (cl s) seq = Some (r, k)" using 1(5) k m unfolding calls_ok_def promises_ok_def by (metis k(1))
  then have "seq \<in> pending_seqs (somes gs)" using 1 assms(4,5) unfolding tokens_ok_def by (auto simp: domI)
  then obtain q where "q \<in> set (somes gs)" by (auto simp: pending_seqs_def)
  then obtain i where i: "i < length gs" "gs ! i \<noteq> None" by (auto simp: somes_def opt_list_def in_set_conv_nth split: option.splits)
  with 1(2) have "i < length (workers s)" "holds z (workers s ! i) (gs ! i)" by (auto simp: list_all2_conv_all_nth)
  with that i(2) show ?thesis by (cases "workers s ! i") auto
qed

lemma rpc_progress:
  assumes pools: "pools_ok d cs n ss s" and inv: "rpc_inv z t0 app s" and z: "codec_ok z" "ids_distinct z (t_rpcs t0)" "answers_typed z t0"
    and total: "handlers_total z t0" "messages_fit z cs ss" "0 < d" "0 < n" and ops: "begun s + length (oneways s) < 2 ^ 32"
    and u: "\<not> settled s"
  shows "\<exists>s'. rpc_step z s s' \<and> work s' < work s \<and> begun s' = begun s \<and> oneways s' = oneways s"
proof -
  consider (a) "cl_sends s \<noteq> []" | (b) "cl_sends s = []" "cl_calls s \<noteq> []" | (c) "to_cl s \<noteq> []"
    | (d) i b where "i < length (workers s)" "workers s ! i = W_sending b"
    | (e) i b h rest where "i < length (workers s)" "workers s ! i = W_got b h rest"
    | (f) i b where "i < length (workers s)" "workers s ! i = W_posted b" "to_sv s \<noteq> []"
    | (g) i where "i < length (workers s)" "workers s ! i = W_idle"
    | (h) "cl_calls s = []" "to_cl s = []" "to_sv s = []"
  proof -
    have "0 < length (workers s)" using pools total(4) by (simp add: pools_ok_def)
    then show thesis using that by (cases "workers s ! 0") blast+
  qed
  then show ?thesis
  proof cases
    case a
    with can_finish_send [OF pools] show ?thesis by blast
  next
    case b
    then have "0 < length (cl_calls s)" by simp
    with ops have "n_ops s + 1 < 2 ^ 32" unfolding n_ops_def begun_def by linarith
    from can_send [OF pools inv total(2) this total(3) b] show ?thesis by blast
  next
    case c
    with can_answer [OF pools inv z(1,2)] show ?thesis by blast
  next
    case d
    with can_finish_answer [OF pools] show ?thesis by blast
  next
    case e
    with can_serve [OF pools inv z total(1,2)] show ?thesis by blast
  next
    case f
    with can_receive [OF pools inv z(1)] show ?thesis by blast
  next
    case g
    with can_post [OF pools] show ?thesis by blast
  next
    case h
    from unsettled_token [OF inv u h] obtain i b hd rest where "i < length (workers s)" "workers s ! i = W_got b hd rest" .
    with can_serve [OF pools inv z total(1,2)] show ?thesis by blast
  qed
qed

lemma rpc_completes:
  assumes "pools_ok d cs n ss s" "rpc_inv z t0 app s" and z: "codec_ok z" "ids_distinct z (t_rpcs t0)" "answers_typed z t0"
    and total: "handlers_total z t0" "messages_fit z cs ss" "0 < d" "0 < n" and "begun s + length (oneways s) < 2 ^ 32"
  shows "\<exists>s'. (rpc_step z)\<^sup>*\<^sup>* s s' \<and> settled s' \<and> begun s' = begun s \<and> oneways s' = oneways s"
  using assms(1,2,10)
proof (induction s rule: measure_induct_rule [of work])
  case (less s)
  show ?case
  proof (cases "settled s")
    case True
    then show ?thesis by blast
  next
    case False
    from rpc_progress [OF less.prems(1,2) z total less.prems(3) False] obtain s1 where
      1: "rpc_step z s s1" "work s1 < work s" "begun s1 = begun s" "oneways s1 = oneways s" by blast
    have "n_ops s1 < 2 ^ 32" using less.prems(3) 1(3,4) by (simp add: n_ops_def begun_def)
    note p = pools_ok_step [OF 1(1) less.prems(1,2) z(1,2)] rpc_step_inv [OF 1(1) less.prems(2) z this]
    from less.IH [OF 1(2) p] less.prems(3) 1(3,4) obtain s2 where
      "(rpc_step z)\<^sup>*\<^sup>* s1 s2" "settled s2" "begun s2 = begun s" "oneways s2 = oneways s" by auto
    with 1(1) show ?thesis by (metis converse_rtranclp_into_rtranclp)
  qed
qed

text \<open>The pools of a transport before any buffer is taken.\<close>

definition full_pools :: "('v, 's) Transport \<Rightarrow> nat \<Rightarrow> bool" where
  "full_pools t d \<longleftrightarrow> bp_invar (send_bufs t) [] \<and> bp_invar (recv_bufs t) [] \<and> length (bp_q (send_bufs t)) = d \<and> length (bp_q (recv_bufs t)) = d"

lemma pools_ok_init:
  assumes "fresh_client c" "full_pools c d" "full_pools t n"
  shows "pools_ok d (bp_piece_size (send_bufs c)) n (bp_piece_size (send_bufs t)) (sys_init c t n)"
proof -
  have e: "held_by f (replicate n W_idle) = {#}" if "f W_idle = []" for f n
    by (induction n) (simp_all add: held_by_def that)
  show ?thesis
    using assms by (simp add: pools_ok_def sys_init_def pool_ok_def bp_invar_def e full_pools_def fresh_client_def unanswered_def)
qed

lemma pools_ok_run:
  assumes "(rpc_step z)\<^sup>*\<^sup>* s0 s" "rpc_inv z t0 app s0" "codec_ok z" "ids_distinct z (t_rpcs t0)" "answers_typed z t0" "n_ops s < 2 ^ 32"
    and "pools_ok d cs n ss s0"
  shows "pools_ok d cs n ss s"
  using assms(1,6)
proof (induction rule: rtranclp_induct)
  case base
  then show ?case using assms by simp
next
  case (step s s')
  from rpc_step_ops [OF step(2)] step(4) have n: "n_ops s < 2 ^ 32" by simp
  from rpc_run_inv [OF step(1) assms(2-5) n] step(3) [OF n] show ?case by (intro pools_ok_step [OF step(2) _ _ assms(3,4)])
qed

section \<open>The properties\<close>

text \<open>
  C23. Remote procedure calls are linearizable and run at most once. In every run of a client against a server
  (fewer than $2^{32}$ requests, so that sequence numbers do not repeat) there is one order, the
  history, of the requests the server has run: each is a request that was made and none occurs
  twice, the server's state is what the handlers give in that order, and the answer that a caller
  receives is the one its handler gave to exactly its request at its place in the history.
\<close>

theorem rpc_linearizable:
  assumes "codec_ok z" "ids_distinct z (t_rpcs t)" "answers_typed z t" "fresh_client c" "t_rpcs c = t_rpcs t"
    and "(rpc_step z)\<^sup>*\<^sup>* (sys_init c t n) s" "n_ops s < 2 ^ 32"
  shows "distinct (map fst (history s)) \<and> set (history s) \<subseteq> set (made s) \<union> set (oneways s)
    \<and> t_app (sv s) = run_requests z t (history s) (t_app t)
    \<and> (\<forall>k < length (made s). \<forall>resp. t_futures (cl s) ! k = Some resp \<longrightarrow> answered z t (t_app t) (history s) (made s ! k) resp)"
proof -
  from rpc_run_inv [OF assms(6) rpc_inv_init [OF assms(4,5)] assms(1-3,7)] obtain qs gs ps where
    "seqs_ok s (qs @ somes gs)" "server_ok z t (t_app t) s" "calls_ok z t (t_app t) s" by (auto elim: rpc_invE)
  then show ?thesis by (auto simp: seqs_ok_def server_ok_def calls_ok_def)
qed


section \<open>An instance\<close>

text \<open>A small concrete serializer, and a service that increments a number and counts its calls.\<close>

definition plain_codec :: "u8 zpp_bits" where
  "plain_codec =
    \<lparr>sha1_id = (\<lambda>name. of_nat (length name)),
     ser_header = (\<lambda>h. u32_bytes (h_flags h) @ u32_bytes (h_seq h) @ u64_bytes (h_id h)),
     des_header = (\<lambda>bs. if length bs < 16 then None
       else Some (\<lparr>h_flags = bytes_u32 (take 4 bs), h_seq = bytes_u32 (take 4 (drop 4 bs)), h_id = bytes_u64 (take 8 (drop 8 bs))\<rparr>, drop 16 bs)),
     ser = (\<lambda>ty v. [v]), des = (\<lambda>ty bs. case bs of [] \<Rightarrow> None | b # bs \<Rightarrow> Some (b, bs)), has_type = (\<lambda>ty v. True)\<rparr>"

definition Incr :: Rpc where "Incr = \<lparr>rpc_name = ''inc'', is_oneway = False\<rparr>"

definition one_buffer :: BufferPool where
  "one_buffer = bp_new \<lparr>mr_base = 64, mr_len = 64\<rparr> 64 [\<lparr>mr_base = 64, mr_len = 64\<rparr>] (\<lambda>_. 0)"

definition incr_client :: "(u8, nat) Transport" where
  "incr_client = transport_new plain_codec (\<lambda>_. 0) [Incr] one_buffer one_buffer 0"

definition incr_server :: "(u8, nat) Transport" where
  "incr_server = register_normal_handler plain_codec Incr (\<lambda>s v. Inr (v + 1, s + 1))
    (register_bulk_handler plain_codec (\<lambda>s _. Inr s) Inr (\<lambda>s v. Inr (v, s)) incr_client)"

lemma plain_codec_ok: "codec_ok plain_codec"
proof -
  have "u32_bytes x \<noteq> []" for x by (metis length_0_conv length_word_bytes(2) zero_neq_numeral)
  then show ?thesis by (simp add: codec_ok_def plain_codec_def)
qed

lemma Incr_rpcs: "set (NormalRpcs [Incr]) = {Bulk, Incr}" "set (OnewayRpcs [Incr]) = {RegisterMemory, UnregisterMemory}"
  by (auto simp: NormalRpcs_def OnewayRpcs_def NormalRpcFilter_def OnewayRpcFilter_def Incr_def Bulk_def RegisterMemory_def UnregisterMemory_def)

lemmas incr_defs = incr_server_def incr_client_def transport_new_def register_handler_def register_normal_handler_def register_oneway_handler_def
  register_bulk_handler_def register_related_bulk_handlers_def rpc_id_def plain_codec_def Incr_def Bulk_def RegisterMemory_def UnregisterMemory_def

lemma incr_rpcs [simp]: "t_rpcs incr_server = [Incr]" "t_rpcs incr_client = [Incr]"
  by (simp_all add: incr_defs)

lemma incr_ids: "ids_distinct plain_codec [Incr]"
  unfolding ids_distinct_def Incr_rpcs by (simp add: incr_defs)

lemma incr_fresh: "fresh_client incr_client"
  by (simp add: fresh_client_def incr_defs)

lemma incr_typed: "answers_typed plain_codec incr_server"
  by (simp add: answers_typed_def plain_codec_def)

lemma incr_total: "handlers_total plain_codec incr_server"
proof -
  have "r = Bulk \<or> r = Incr \<or> r = RegisterMemory \<or> r = UnregisterMemory" if "rpcs_of [Incr] r" for r
    using that Incr_rpcs by (auto simp: rpcs_of_def split: if_splits)
  then show ?thesis unfolding handlers_total_def incr_rpcs
    by (fastforce simp: handled_def answer_of_def effect_of_def incr_defs)
qed

lemma incr_fit: "messages_fit plain_codec 64 64"
  by (simp add: messages_fit_def request_bytes_def response_bytes_def plain_codec_def)

lemma incr_pools: "full_pools incr_client 1" "full_pools incr_server 1"
  by (simp_all add: full_pools_def incr_defs one_buffer_def bp_new_def bp_invar_def bp_owns_def)

lemma incr_sizes: "bp_piece_size (send_bufs incr_client) = 64" "bp_piece_size (send_bufs incr_server) = 64"
  by (simp_all add: incr_defs one_buffer_def bp_new_def)

lemma incr_sent:
  "\<exists>s. (rpc_step plain_codec)\<^sup>*\<^sup>* (sys_init incr_client incr_server 1) s \<and> cl_calls s = [] \<and> made s = [(1, Incr, 5)] \<and> oneways s = []"
proof -
  let ?s0 = "sys_init incr_client incr_server 1"
  obtain b p where "acquire_one (recv_bufs incr_client) = (Some b, p)" by (auto simp: incr_defs one_buffer_def bp_new_def acquire_one_def)
  then have a: "acquire_recv_buffer (cl ?s0) = Some (b, incr_client\<lparr>recv_bufs := p\<rparr>)"
    by (simp add: acquire_recv_buffer_def sys_init_def)
  let ?s1 = "?s0\<lparr>cl := incr_client\<lparr>recv_bufs := p\<rparr>, cl_calls := cl_calls ?s0 @ [(Incr, 5)], cl_recvs := cl_recvs ?s0 @ [b]\<rparr>"
  have 1: "rpc_step plain_codec ?s0 ?s1"
    by (rule rpc_step.call [OF a]) (simp_all add: sys_init_def Incr_rpcs plain_codec_def)
  obtain sb bytes t where "call_send plain_codec (cl ?s1) Incr 5 = Inr (Some (sb, bytes, t))"
    by (auto simp: call_send_def acquire_send_buffer_def put_payload_def Let_def incr_defs one_buffer_def bp_new_def acquire_one_def)
  from rpc_step.send [OF _ _ this, of 0] 1 show ?thesis
    by (intro exI conjI, elim converse_rtranclp_into_rtranclp) (rule r_into_rtranclp, assumption | simp add: sys_init_def remove_at_def incr_defs)+
qed

lemma rpc_run_made: "(rpc_step z)\<^sup>*\<^sup>* s s' \<Longrightarrow> \<exists>xs. made s' = made s @ xs"
proof (induction rule: rtranclp_induct)
  case base
  then show ?case by simp
next
  case (step s' s'')
  from step(2) have "\<exists>xs. made s'' = made s' @ xs" by cases simp_all
  with step(3) show ?case by auto
qed


theorem rpc_linearizable_witness:
  "\<exists>s. (rpc_step plain_codec)\<^sup>*\<^sup>* (sys_init incr_client incr_server 1) s \<and> t_futures (cl s) = [Some 6] \<and> t_app (sv s) = 1"
proof -
  note z = plain_codec_ok incr_ids [folded incr_rpcs(1)] incr_typed
  from incr_sent obtain s where s: "(rpc_step plain_codec)\<^sup>*\<^sup>* (sys_init incr_client incr_server 1) s" "cl_calls s = []" "made s = [(1, Incr, 5)]" "oneways s = []"
    by blast
  have init: "rpc_inv plain_codec incr_server (t_app incr_server) (sys_init incr_client incr_server 1)" by (rule rpc_inv_init [OF incr_fresh]) simp
  have n: "n_ops s < 2 ^ 32" using s by (simp add: n_ops_def)
  have inv: "rpc_inv plain_codec incr_server (t_app incr_server) s" using z init n by (intro rpc_run_inv [OF s(1)]) simp_all
  have pools: "pools_ok 1 64 1 64 s"
    using pools_ok_run [OF s(1) init z n pools_ok_init [OF incr_fresh incr_pools]] by (simp add: incr_sizes)
  obtain s' where s': "(rpc_step plain_codec)\<^sup>*\<^sup>* s s'" "settled s'" "begun s' = 1" "oneways s' = []"
    using rpc_completes [OF pools inv z incr_total incr_fit] s(2-4) by (auto simp: begun_def)
  from rpc_run_made [OF s'(1)] s(3) s'(2,3) have made: "made s' = [(1, Incr, 5)]" by (auto simp: begun_def settled_def)
  have n': "n_ops s' < 2 ^ 32" using made s'(4) by (simp add: n_ops_def)
  have run: "(rpc_step plain_codec)\<^sup>*\<^sup>* (sys_init incr_client incr_server 1) s'" using s(1) s'(1) by simp
  from rpc_run_inv [OF s'(1) inv z n'] have "length (t_futures (cl s')) = 1" using made by (auto simp: calls_ok_def promises_ok_def elim: rpc_invE)
  with s'(2) obtain v where v: "t_futures (cl s') = [Some v]" by (cases "t_futures (cl s')"; cases "hd (t_futures (cl s'))") (auto simp: settled_def)
  from rpc_linearizable [OF z incr_fresh _ run n'] have l: "distinct (map fst (history s'))" "set (history s') \<subseteq> {(1, Incr, 5)}"
    "t_app (sv s') = run_requests plain_codec incr_server (history s') (t_app incr_server)"
    "answered plain_codec incr_server (t_app incr_server) (history s') (1, Incr, 5) v"
    using made s'(4) v by simp_all
  have h: "history s' = [(1, Incr, 5)]"
  proof -
    from l(4) obtain xs where "history s' = (1, Incr, 5) # xs" using l(2) by (cases "history s'") (auto simp: answered_def)
    with l(1,2) show ?thesis by (cases xs) auto
  qed
  have "v = 6" using l(4) unfolding h by (simp add: answered_def run_requests_def answer_of_def incr_defs)
  moreover have "t_app (sv s') = 1" using l(3) unfolding h by (simp add: run_requests_def run_request_def answer_of_def incr_defs)
  ultimately show ?thesis using run v by blast
qed

end
