(* ===== verification/Endpoint.thy ===== *)
theory Endpoint
  imports Memory_Pool
begin

text \<open>
  The endpoints of \<^verbatim>\<open>lib/trans\<close>: the life cycle of \<^verbatim>\<open>EndpointBase\<close> (\<^verbatim>\<open>common/endpoint.hxx\<close>), the
  contexts of posted operations (\<^verbatim>\<open>common/context.hxx\<close>, \<^verbatim>\<open>lib/common/context_base.hxx\<close>), the TCP endpoint
  over io\_uring (\<^verbatim>\<open>priv/tcp/endpoint.cxx\<close>), and the DOCA endpoints for the Comch and RDMA back ends
  (\<^verbatim>\<open>priv/doca/comch/endpoint.cxx\<close>, \<^verbatim>\<open>priv/doca/rdma/endpoint.cxx\<close>). Sizes of buffers are numbers. The
  kernel side of io\_uring and the DOCA engines are the environment: they complete what was submitted,
  in any order, in pieces of any size for a socket; submitting succeeds.
\<close>

section \<open>The life cycle\<close>

datatype Status = Status_Idle | Status_Ready | Status_Running | Status_Stopping | Status_Exited

definition ep_prepare :: "Status \<Rightarrow> Status result" where
  "ep_prepare s = bnd (check (s = Status_Idle) Assert_fail) (\<lambda>_. Inr Status_Ready)"
definition ep_run :: "Status \<Rightarrow> Status result" where
  "ep_run s = bnd (check (s = Status_Ready) Assert_fail) (\<lambda>_. Inr Status_Running)"
definition ep_stop :: "Status \<Rightarrow> Status result" where
  "ep_stop s = bnd (check (s = Status_Running) Assert_fail) (\<lambda>_. Inr Status_Stopping)"
definition ep_shutdown :: "Status \<Rightarrow> Status result" where
  "ep_shutdown s = bnd (check (s = Status_Stopping) Assert_fail) (\<lambda>_. Inr Status_Exited)"

lemmas ep_defs = ep_prepare_def ep_run_def ep_stop_def ep_shutdown_def

section \<open>Contexts of operations\<close>

datatype Op = Op_Send | Op_Recv | Op_Read | Op_Write

text \<open>\<open>oc_op_res\<close> is the promise behind the future that \<^verbatim>\<open>post_*\<close> returns; setting it twice throws.\<close>

record OpContext =
  oc_op :: Op
  oc_l_buf :: MemoryRegion
  oc_len :: nat
  oc_tx_size :: nat
  oc_op_res :: "int option"

record BulkContext = OpContext +
  bc_r_buf :: MemoryRegion

definition op_context :: "Op \<Rightarrow> MemoryRegion \<Rightarrow> OpContext" where
  "op_context op b = \<lparr>oc_op = op, oc_l_buf = b, oc_len = unat (mr_len b), oc_tx_size = 0, oc_op_res = None\<rparr>"

definition bulk_context :: "Op \<Rightarrow> MemoryRegion \<Rightarrow> MemoryRegion \<Rightarrow> BulkContext" where
  "bulk_context op l r = \<lparr>oc_op = op, oc_l_buf = l, oc_len = unat (mr_len r), oc_tx_size = 0, oc_op_res = None, bc_r_buf = r\<rparr>"

definition set_op_res :: "int \<Rightarrow> 'a OpContext_scheme \<Rightarrow> 'a OpContext_scheme result" where
  "set_op_res v c = (case oc_op_res c of None \<Rightarrow> Inr (c\<lparr>oc_op_res := Some v\<rparr>) | Some _ \<Rightarrow> Inl Die)"

section \<open>The TCP endpoint\<close>

text \<open>
  The ring holds the requests that were submitted; user data is the context's address, here the
  index under which \<open>te_ctxs\<close> holds it. \<^verbatim>\<open>post\<close> always sends or receives the whole buffer; a bulk
  write continues where an earlier part ended.
\<close>

record tcp_sqe =
  sq_op :: Op
  sq_ctx :: nat
  sq_sock :: int
  sq_addr :: u64
  sq_len :: nat

record tcp_Endpoint =
  te_status :: Status
  te_rpc_sock :: int
  te_bulk_sock :: int
  te_closed :: "int list"
  te_ring :: "tcp_sqe list"
  te_ctxs :: "nat \<rightharpoonup> OpContext"

definition tcp_new :: "tcp_Endpoint result" where
  "tcp_new = bnd (ep_prepare Status_Idle) (\<lambda>st.
    Inr \<lparr>te_status = st, te_rpc_sock = - 1, te_bulk_sock = - 1, te_closed = [], te_ring = [], te_ctxs = Map.empty\<rparr>)"

definition tcp_post :: "Op \<Rightarrow> nat \<Rightarrow> OpContext \<Rightarrow> tcp_Endpoint \<Rightarrow> tcp_Endpoint" where
  "tcp_post op k ctx e =
    (let b = oc_l_buf ctx; tx = oc_tx_size ctx;
         sqe = (case op of
            Op_Send \<Rightarrow> \<lparr>sq_op = op, sq_ctx = k, sq_sock = te_rpc_sock e, sq_addr = mr_base b, sq_len = unat (mr_len b)\<rparr>
          | Op_Recv \<Rightarrow> \<lparr>sq_op = op, sq_ctx = k, sq_sock = te_rpc_sock e, sq_addr = mr_base b, sq_len = unat (mr_len b)\<rparr>
          | Op_Read \<Rightarrow> \<lparr>sq_op = op, sq_ctx = k, sq_sock = te_bulk_sock e, sq_addr = mr_base b, sq_len = unat (mr_len b)\<rparr>
          | Op_Write \<Rightarrow> \<lparr>sq_op = op, sq_ctx = k, sq_sock = te_bulk_sock e, sq_addr = mr_base b + of_nat tx, sq_len = unat (mr_len b) - tx\<rparr>) in
     e\<lparr>te_ring := te_ring e @ [sqe], te_ctxs := (te_ctxs e)(k \<mapsto> ctx)\<rparr>)"

definition tcp_post_send :: "nat \<Rightarrow> OpContext \<Rightarrow> tcp_Endpoint \<Rightarrow> tcp_Endpoint" where "tcp_post_send = tcp_post Op_Send"
definition tcp_post_recv :: "nat \<Rightarrow> OpContext \<Rightarrow> tcp_Endpoint \<Rightarrow> tcp_Endpoint" where "tcp_post_recv = tcp_post Op_Recv"
definition tcp_post_write :: "nat \<Rightarrow> OpContext \<Rightarrow> tcp_Endpoint \<Rightarrow> tcp_Endpoint" where "tcp_post_write = tcp_post Op_Write"
definition tcp_post_read :: "nat \<Rightarrow> OpContext \<Rightarrow> tcp_Endpoint \<Rightarrow> tcp_Endpoint" where "tcp_post_read = tcp_post Op_Read"

text \<open>One call of \<^verbatim>\<open>progress\<close>: the completion it finds, if any, is the context and the result.\<close>

definition tcp_progress :: "(nat \<times> int) option \<Rightarrow> tcp_Endpoint \<Rightarrow> (bool \<times> tcp_Endpoint) result" where
  "tcp_progress cqe e =
    (case cqe of
       None \<Rightarrow> Inr (False, e)
     | Some (k, res) \<Rightarrow>
         (case te_ctxs e k of
            None \<Rightarrow> Inl Out_of_bounds
          | Some ctx \<Rightarrow>
              if 0 < res
              then let ctx = ctx\<lparr>oc_tx_size := oc_tx_size ctx + nat res\<rparr> in
                if oc_op ctx = Op_Write \<and> oc_tx_size ctx < unat (mr_len (oc_l_buf ctx))
                then Inr (True, tcp_post Op_Write k ctx e)
                else bnd (set_op_res (int (oc_tx_size ctx)) ctx) (\<lambda>ctx. Inr (True, e\<lparr>te_ctxs := (te_ctxs e)(k \<mapsto> ctx)\<rparr>))
              else bnd (set_op_res res ctx) (\<lambda>ctx. Inr (True, e\<lparr>te_ctxs := (te_ctxs e)(k \<mapsto> ctx)\<rparr>))))"

definition close_socket :: "int \<Rightarrow> int list \<Rightarrow> int list" where
  "close_socket s closed = (if 0 < s then closed @ [s] else closed)"

definition tcp_stop :: "tcp_Endpoint \<Rightarrow> tcp_Endpoint result" where
  "tcp_stop e =
    (let e = e\<lparr>te_closed := close_socket (te_bulk_sock e) (close_socket (te_rpc_sock e) (te_closed e))\<rparr> in
     bnd (ep_stop (te_status e)) (\<lambda>st. Inr (e\<lparr>te_status := st\<rparr>)))"

text \<open>
  The kernel's side: it takes a submitted write and appends up to \<open>n\<close> of its bytes, at least one if
  there are any, to what the socket has sent.
\<close>

definition kernel_write :: "mem \<Rightarrow> nat \<Rightarrow> tcp_Endpoint \<times> (int \<Rightarrow> u8 list) \<Rightarrow> ((nat \<times> int) option \<times> tcp_Endpoint \<times> (int \<Rightarrow> u8 list))" where
  "kernel_write m n st = (case st of (e, out) \<Rightarrow>
    (case te_ring e of
       [] \<Rightarrow> (None, e, out)
     | sqe # rest \<Rightarrow>
         let k = min (Suc n) (sq_len sqe) in
         (Some (sq_ctx sqe, int k), e\<lparr>te_ring := rest\<rparr>, out(sq_sock sqe := out (sq_sock sqe) @ rd m (sq_addr sqe) k))))"

primrec tcp_write_run :: "mem \<Rightarrow> nat list \<Rightarrow> tcp_Endpoint \<times> (int \<Rightarrow> u8 list) \<Rightarrow> (tcp_Endpoint \<times> (int \<Rightarrow> u8 list)) result" where
  "tcp_write_run m [] st = Inr st"
| "tcp_write_run m (n # ns) st = (case kernel_write m n st of (cqe, e, out) \<Rightarrow>
    bnd (tcp_progress cqe e) (\<lambda>(_, e). tcp_write_run m ns (e, out)))"

section \<open>The DOCA endpoints\<close>

datatype TaskType = Task_Send | Task_Recv | Task_Memcpy

text \<open>How a task ended; \<^verbatim>\<open>DOCA_ERROR_BAD_STATE\<close> is treated apart from the other error codes.\<close>

datatype task_result = Task_success | Task_bad_state | Task_failure nat

text \<open>
  \<^verbatim>\<open>task_cb\<close> of both endpoints. \<open>data_len\<close> is the length in the task's buffer, also of a task that
  failed. \<open>whole\<close> says that the task is a whole operation (send and receive) and not a part of one.
\<close>

definition doca_task_cb :: "bool \<Rightarrow> bool \<Rightarrow> task_result \<Rightarrow> nat \<Rightarrow> 'a OpContext_scheme \<Rightarrow> 'a OpContext_scheme result" where
  "doca_task_cb running whole r data_len ctx =
    (if \<not> running then Inr ctx
     else let ctx = ctx\<lparr>oc_tx_size := oc_tx_size ctx + data_len\<rparr> in
       (case r of
          Task_bad_state \<Rightarrow> set_op_res 0 ctx
        | Task_failure status \<Rightarrow>
            if whole \<or> oc_tx_size ctx = oc_len ctx then set_op_res (- int status) ctx else Inr ctx
        | Task_success \<Rightarrow>
            if whole \<or> oc_tx_size ctx = oc_len ctx then set_op_res (int (oc_tx_size ctx)) ctx else Inr ctx))"

definition comch_task_cb :: "Status \<Rightarrow> TaskType \<Rightarrow> task_result \<Rightarrow> nat \<Rightarrow> 'a OpContext_scheme \<Rightarrow> 'a OpContext_scheme result" where
  "comch_task_cb st type = doca_task_cb (st = Status_Running) (type \<noteq> Task_Memcpy)"

text \<open>
  The loop of \<^verbatim>\<open>Endpoint::post\<close> of the Comch endpoint: the parts of a transfer, as offset and length.
  With a maximum of 0 the loop does not end.
\<close>

partial_function (option) bulk_parts :: "nat \<Rightarrow> nat \<Rightarrow> nat \<Rightarrow> (nat \<times> nat) list option" where
  "bulk_parts mx len off =
    (if off < len then Option.bind (bulk_parts mx len (off + mx)) (\<lambda>ps. Some ((off, min mx (len - off)) # ps)) else Some [])"

record comch_Endpoint =
  ce_status :: Status
  ce_consumer_id :: u32
  ce_con_running :: bool
  ce_pro_running :: bool
  ce_dma_running :: bool
  ce_r_mmap :: "MemoryRegion option"
  ce_max_bulk_task_size :: nat

text \<open>Posting returns the context and the tasks submitted; \<open>Inr None\<close> is a call that does not return.\<close>

definition comch_post_ctrl :: "bool \<Rightarrow> OpContext \<Rightarrow> (OpContext \<times> nat list) result" where
  "comch_post_ctrl ctx_running ctx =
    (if \<not> ctx_running then bnd (set_op_res 0 ctx) (\<lambda>ctx. Inr (ctx, [])) else Inr (ctx, [oc_len ctx]))"

definition comch_post_recv :: "comch_Endpoint \<Rightarrow> OpContext \<Rightarrow> (OpContext \<times> nat list) result" where
  "comch_post_recv e = comch_post_ctrl (ce_con_running e)"
definition comch_post_send :: "comch_Endpoint \<Rightarrow> OpContext \<Rightarrow> (OpContext \<times> nat list) result" where
  "comch_post_send e = comch_post_ctrl (ce_pro_running e)"

definition registered :: "MemoryRegion option \<Rightarrow> MemoryRegion \<Rightarrow> bool" where
  "registered mmap r = (case mmap of None \<Rightarrow> False | Some m \<Rightarrow> contain m r)"

definition comch_post :: "comch_Endpoint \<Rightarrow> BulkContext \<Rightarrow> (BulkContext \<times> (nat \<times> nat) list) option result" where
  "comch_post e ctx =
    (if \<not> ce_dma_running e then bnd (set_op_res 0 ctx) (\<lambda>ctx. Inr (Some (ctx, [])))
     else bnd (check (registered (ce_r_mmap e) (bc_r_buf ctx)) Assert_fail) (\<lambda>_.
          bnd (check (oc_len ctx \<le> unat (mr_len (oc_l_buf ctx))) Assert_fail) (\<lambda>_.
            Inr (map_option (Pair ctx) (bulk_parts (ce_max_bulk_task_size e) (oc_len ctx) 0)))))"

text \<open>The engine's copy of a part between the local and the remote memory.\<close>

definition dma_copy :: "BulkContext \<Rightarrow> nat \<times> nat \<Rightarrow> mem \<times> mem \<Rightarrow> mem \<times> mem" where
  "dma_copy ctx p ms = (case (p, ms) of ((off, n), lm, rm) \<Rightarrow>
    let l = mr_base (oc_l_buf ctx) + of_nat off; r = mr_base (bc_r_buf ctx) + of_nat off in
    if oc_op ctx = Op_Write then (lm, wr rm r (rd lm l n)) else (wr lm l (rd rm r n), rm))"

text \<open>\<^verbatim>\<open>RemoteBuffer\<close>s are compared as regions; a different one must be unregistered first.\<close>

definition register_remote_memory :: "MemoryRegion \<Rightarrow> MemoryRegion option \<Rightarrow> MemoryRegion option result" where
  "register_remote_memory r mmap = (case mmap of None \<Rightarrow> Inr (Some r) | Some m \<Rightarrow> if r = m then Inr mmap else Inl Die)"

definition unregister_remote_memory :: "MemoryRegion option \<Rightarrow> MemoryRegion option" where
  "unregister_remote_memory mmap = None"

definition comch_prepare :: "u32 \<Rightarrow> nat \<Rightarrow> comch_Endpoint \<Rightarrow> comch_Endpoint result" where
  "comch_prepare cid max_buf_size e = bnd (ep_prepare (ce_status e)) (\<lambda>st.
    Inr (e\<lparr>ce_status := st, ce_consumer_id := cid, ce_con_running := True, ce_pro_running := True, ce_dma_running := True,
           ce_max_bulk_task_size := max_buf_size\<rparr>))"

definition comch_run :: "u32 \<Rightarrow> comch_Endpoint \<Rightarrow> comch_Endpoint result" where
  "comch_run remote_consumer_id e = bnd (check (ce_consumer_id e = remote_consumer_id) Assert_fail) (\<lambda>_.
    bnd (ep_run (ce_status e)) (\<lambda>st. Inr (e\<lparr>ce_status := st\<rparr>)))"

definition comch_stop :: "comch_Endpoint \<Rightarrow> comch_Endpoint result" where
  "comch_stop e = bnd (ep_stop (ce_status e)) (\<lambda>st.
    Inr (e\<lparr>ce_status := st, ce_pro_running := False, ce_consumer_id := 0, ce_con_running := False, ce_dma_running := False\<rparr>))"

text \<open>The consumer's state change to idle.\<close>

definition consumer_state_change_cb :: "bool \<Rightarrow> comch_Endpoint \<Rightarrow> comch_Endpoint result" where
  "consumer_state_change_cb idle e = (if idle then bnd (ep_shutdown (ce_status e)) (\<lambda>st. Inr (e\<lparr>ce_status := st\<rparr>)) else Inr e)"

subsection \<open>RDMA\<close>

text \<open>A connection is known by the descriptor of the peer it was made with.\<close>

record rdma_Endpoint =
  re_status :: Status
  re_enable_data_path :: bool
  re_ctrl_path_running :: bool
  re_data_path_running :: bool
  re_cp_conn :: "u8 list option"
  re_dp_conn :: "u8 list option"
  re_r_mmap :: "MemoryRegion option"

definition rdma_new :: "bool \<Rightarrow> rdma_Endpoint" where
  "rdma_new enable = \<lparr>re_status = Status_Idle, re_enable_data_path = enable, re_ctrl_path_running = False, re_data_path_running = False,
    re_cp_conn = None, re_dp_conn = None, re_r_mmap = None\<rparr>"

definition rdma_task_cb :: "Status \<Rightarrow> TaskType \<Rightarrow> task_result \<Rightarrow> nat \<Rightarrow> 'a OpContext_scheme \<Rightarrow> 'a OpContext_scheme result" where
  "rdma_task_cb st type = doca_task_cb (st = Status_Running) (type \<noteq> Task_Memcpy)"

definition rdma_post_ctrl :: "rdma_Endpoint \<Rightarrow> OpContext \<Rightarrow> (OpContext \<times> nat list) result" where
  "rdma_post_ctrl e ctx = (if \<not> re_ctrl_path_running e then bnd (set_op_res 0 ctx) (\<lambda>ctx. Inr (ctx, [])) else Inr (ctx, [oc_len ctx]))"

definition rdma_post :: "rdma_Endpoint \<Rightarrow> BulkContext \<Rightarrow> (BulkContext \<times> (nat \<times> nat) list) result" where
  "rdma_post e ctx =
    bnd (check (re_enable_data_path e) Assert_fail) (\<lambda>_.
    (if \<not> (re_enable_data_path e \<and> re_data_path_running e) then bnd (set_op_res 0 ctx) (\<lambda>ctx. Inr (ctx, []))
     else bnd (check (registered (re_r_mmap e) (bc_r_buf ctx)) Assert_fail) (\<lambda>_.
          bnd (check (oc_len ctx \<le> unat (mr_len (oc_l_buf ctx))) Assert_fail) (\<lambda>_. Inr (ctx, [(0, oc_len ctx)])))))"

definition rdma_prepare :: "rdma_Endpoint \<Rightarrow> rdma_Endpoint result" where
  "rdma_prepare e = bnd (ep_prepare (re_status e)) (\<lambda>st.
    Inr (e\<lparr>re_status := st, re_ctrl_path_running := True, re_data_path_running := re_enable_data_path e\<rparr>))"

definition rdma_stop :: "rdma_Endpoint \<Rightarrow> rdma_Endpoint result" where
  "rdma_stop e =
    (let e = e\<lparr>re_ctrl_path_running := False, re_data_path_running := False\<rparr> in
     bnd (ep_stop (re_status e)) (\<lambda>st. Inr (e\<lparr>re_status := st\<rparr>)))"

definition rdma_register_remote_memory :: "MemoryRegion \<Rightarrow> MemoryRegion option \<Rightarrow> MemoryRegion option result" where
  "rdma_register_remote_memory r mmap = (case mmap of None \<Rightarrow> Inr (Some r) | Some m \<Rightarrow> if r = m then Inr mmap else Inl Die)"

definition rdma_unregister_remote_memory :: "MemoryRegion option \<Rightarrow> MemoryRegion option" where
  "rdma_unregister_remote_memory mmap = None"

section \<open>Bulk transfers in parts\<close>

text \<open>The completions of a bulk transfer, in the order in which they come.\<close>

primrec dma_run :: "(task_result \<Rightarrow> nat \<Rightarrow> BulkContext \<Rightarrow> BulkContext result) \<Rightarrow> ((nat \<times> nat) \<times> task_result) list
    \<Rightarrow> BulkContext \<times> mem \<times> mem \<Rightarrow> (BulkContext \<times> mem \<times> mem) result" where
  "dma_run cb [] st = Inr st"
| "dma_run cb (x # xs) st = (case (x, st) of ((p, r), ctx, ms) \<Rightarrow>
    let ms = (if r = Task_success then dma_copy ctx p ms else ms) in
    bnd (cb r (snd p) ctx) (\<lambda>ctx. dma_run cb xs (ctx, ms)))"

definition dma_copies :: "BulkContext \<Rightarrow> ((nat \<times> nat) \<times> task_result) list \<Rightarrow> mem \<times> mem \<Rightarrow> mem \<times> mem" where
  "dma_copies c xs = fold (\<lambda>(p, r) ms. if r = Task_success then dma_copy c p ms else ms) xs"

text \<open>Parts that follow each other from \<open>off\<close> to \<open>end\<close>, none of them empty.\<close>

primrec tiles :: "nat \<Rightarrow> (nat \<times> nat) list \<Rightarrow> nat \<Rightarrow> bool" where
  "tiles off [] lim \<longleftrightarrow> off = lim"
| "tiles off (p # ps) lim \<longleftrightarrow> fst p = off \<and> 0 < snd p \<and> tiles (off + snd p) ps lim"

definition result_value :: "task_result \<Rightarrow> nat \<Rightarrow> int" where
  "result_value r len = (case r of Task_success \<Rightarrow> int len | Task_bad_state \<Rightarrow> 0 | Task_failure st \<Rightarrow> - int st)"

lemma tiles_sum: "tiles off ps lim \<Longrightarrow> off + sum_list (map snd ps) = lim"
  by (induction ps arbitrary: off) fastforce+

lemma tiles_pos: "tiles off ps lim \<Longrightarrow> p \<in> set ps \<Longrightarrow> 0 < snd p \<and> off \<le> fst p \<and> fst p + snd p \<le> lim"
proof (induction ps arbitrary: off)
  case Nil
  then show ?case by simp
next
  case (Cons q ps)
  have "off + snd q + sum_list (map snd ps) = lim" using Cons.prems(1) tiles_sum [of "off + snd q" ps lim] by simp
  with Cons show ?case by fastforce
qed

lemma tiles_cover: "tiles off ps lim \<Longrightarrow> off \<le> x \<Longrightarrow> x < lim \<Longrightarrow> \<exists>p \<in> set ps. fst p \<le> x \<and> x < fst p + snd p"
proof (induction ps arbitrary: off)
  case Nil
  then show ?case by simp
next
  case (Cons q ps)
  then show ?case by (cases "x < off + snd q") fastforce+
qed

lemma dma_copy_ctx [simp]: "dma_copy (c\<lparr>oc_tx_size := t\<rparr>) = dma_copy c"
  by (simp add: fun_eq_iff dma_copy_def)

lemma dma_copies_ctx [simp]: "dma_copies (c\<lparr>oc_tx_size := t\<rparr>) = dma_copies c"
  unfolding dma_copies_def dma_copy_ctx by (rule refl)

text \<open>A copy of a part moves the bytes of the transfer at its offsets.\<close>

lemma wr_part:
  assumes "off + n \<le> len" "len \<le> 2 ^ 64"
  shows "wr rm (r + of_nat off) (rd lm (l + of_nat off) n) a =
    (if off \<le> unat (a - r) \<and> unat (a - r) < off + n then lm (l + of_nat (unat (a - r))) else rm a)"
proof -
  let ?i = "unat (a - r)"
  have "n = 0 \<or> off < 2 ^ 64" using assms by auto
  then consider "n = 0" | "unat (of_nat off :: u64) = off" using unat_of_nat_u64 by blast
  then show ?thesis
  proof cases
    case 2
    have "a - (r + of_nat off) = (a - r) - of_nat off" by simp
    then have u: "unat (a - (r + of_nat off)) = (if off \<le> ?i then ?i - off else 2 ^ 64 + ?i - off)"
      using unat_sub_u64 [of "a - r" "of_nat off"] by (simp only: 2)
    show ?thesis
    proof (cases "off \<le> ?i")
      case True
      have "l + of_nat off + of_nat (?i - off) = l + of_nat ?i" using True by (simp add: of_nat_diff)
      with u True show ?thesis by (auto simp: wr_def)
    next
      case False
      with u assms have "\<not> unat (a - (r + of_nat off)) < n" by auto
      with False show ?thesis by (simp add: wr_def)
    qed
  qed auto
qed

lemma wr_parts:
  assumes "\<forall>p \<in> set ps. fst p + snd p \<le> len" "len \<le> 2 ^ 64"
  shows "fold (\<lambda>(off, n) rm. wr rm (r + of_nat off) (rd lm (l + of_nat off) n)) ps rm a =
    (if \<exists>p \<in> set ps. fst p \<le> unat (a - r) \<and> unat (a - r) < fst p + snd p then lm (l + of_nat (unat (a - r))) else rm a)"
  using assms(1)
proof (induction ps arbitrary: rm)
  case Nil
  then show ?case by simp
next
  case (Cons p ps)
  then show ?case using assms(2) by (cases p) (auto simp: wr_part)
qed

lemma wr_tiles:
  assumes "tiles 0 ps len" "mset qs = mset ps" "len \<le> 2 ^ 64"
  shows "fold (\<lambda>(off, n) rm. wr rm (r + of_nat off) (rd lm (l + of_nat off) n)) qs rm = wr rm r (rd lm l len)"
proof
  fix a
  have s: "set qs = set ps" using assms(2) by (rule mset_eq_setD)
  have b: "\<forall>p \<in> set qs. fst p + snd p \<le> len" using tiles_pos [OF assms(1)] s by auto
  have "(\<exists>p \<in> set qs. fst p \<le> unat (a - r) \<and> unat (a - r) < fst p + snd p) \<longleftrightarrow> unat (a - r) < len"
    using tiles_cover [OF assms(1), of "unat (a - r)"] b s by fastforce
  then show "fold (\<lambda>(off, n) rm. wr rm (r + of_nat off) (rd lm (l + of_nat off) n)) qs rm a = wr rm r (rd lm l len) a"
    using wr_parts [OF b assms(3)] by (simp add: wr_def)
qed

text \<open>All parts copied, in any order.\<close>

definition transferred :: "BulkContext \<Rightarrow> mem \<times> mem \<Rightarrow> mem \<times> mem" where
  "transferred c ms = (case ms of (lm, rm) \<Rightarrow>
    if oc_op c = Op_Write then (lm, wr rm (mr_base (bc_r_buf c)) (rd lm (mr_base (oc_l_buf c)) (oc_len c)))
    else (wr lm (mr_base (oc_l_buf c)) (rd rm (mr_base (bc_r_buf c)) (oc_len c)), rm))"

lemma dma_copies_tiles:
  assumes "tiles 0 ps (oc_len c)" "mset (map fst xs) = mset ps" "oc_len c \<le> 2 ^ 64" "\<forall>x \<in> set xs. snd x = Task_success"
  shows "dma_copies c xs ms = transferred c ms"
proof -
  obtain lm rm where ms: "ms = (lm, rm)" by (cases ms)
  let ?l = "mr_base (oc_l_buf c)" and ?r = "mr_base (bc_r_buf c)"
  have w: "dma_copies c xs (lm, rm) = (lm, fold (\<lambda>(off, n) rm. wr rm (?r + of_nat off) (rd lm (?l + of_nat off) n)) (map fst xs) rm)"
    if "oc_op c = Op_Write" for lm rm
    using assms(4) that by (induction xs arbitrary: rm) (auto simp: dma_copies_def dma_copy_def split: prod.splits)
  have r: "dma_copies c xs (lm, rm) = (fold (\<lambda>(off, n) lm. wr lm (?l + of_nat off) (rd rm (?r + of_nat off) n)) (map fst xs) lm, rm)"
    if "oc_op c \<noteq> Op_Write" for lm rm
    using assms(4) that by (induction xs arbitrary: lm) (auto simp: dma_copies_def dma_copy_def split: prod.splits)
  show ?thesis
    unfolding ms transferred_def
    using w r wr_tiles [OF assms(1,2,3)] by (cases "oc_op c = Op_Write") simp_all
qed

text \<open>
  What a user of an engine relies on: a transfer is cut into parts that cover it, a part's
  completion adds its length, and the promise is set by the completion that makes the sum whole.
\<close>

locale bulk_engine =
  fixes parts :: "nat \<Rightarrow> (nat \<times> nat) list option"
    and cb :: "task_result \<Rightarrow> nat \<Rightarrow> BulkContext \<Rightarrow> BulkContext result"
  assumes parts_tile: "0 < len \<Longrightarrow> \<exists>ps. parts len = Some ps \<and> tiles 0 ps len"
    and cb_part: "oc_tx_size c + n \<noteq> oc_len c \<Longrightarrow> r \<noteq> Task_bad_state \<Longrightarrow> cb r n c = Inr (c\<lparr>oc_tx_size := oc_tx_size c + n\<rparr>)"
    and cb_last: "oc_op_res c = None \<Longrightarrow> oc_tx_size c + n = oc_len c \<Longrightarrow> r \<noteq> Task_bad_state
      \<Longrightarrow> cb r n c = Inr (c\<lparr>oc_tx_size := oc_len c, oc_op_res := Some (result_value r (oc_len c))\<rparr>)"
begin

lemma run_part:
  assumes "\<forall>x \<in> set xs. snd x \<noteq> Task_bad_state \<and> 0 < snd (fst x)" "oc_tx_size c + sum_list (map (snd \<circ> fst) xs) < oc_len c"
  shows "dma_run cb xs (c, ms) = Inr (c\<lparr>oc_tx_size := oc_tx_size c + sum_list (map (snd \<circ> fst) xs)\<rparr>, dma_copies c xs ms)"
  using assms
proof (induction xs arbitrary: c ms)
  case Nil
  then show ?case by (simp add: dma_copies_def)
next
  case (Cons x xs)
  obtain p r where x: "x = (p, r)" by (cases x)
  have "cb r (snd p) c = Inr (c\<lparr>oc_tx_size := oc_tx_size c + snd p\<rparr>)" using Cons.prems x by (intro cb_part) auto
  with Cons.IH [of "c\<lparr>oc_tx_size := oc_tx_size c + snd p\<rparr>"] Cons.prems x show ?case
    by (simp add: Let_def add.assoc) (simp add: dma_copies_def)
qed

lemma run_all:
  assumes "tiles 0 ps (oc_len c)" "mset (map fst xs) = mset ps" "0 < oc_len c"
    and "\<forall>x \<in> set xs. snd x \<noteq> Task_bad_state" and c: "oc_op_res c = None" "oc_tx_size c = 0"
  shows "dma_run cb xs (c, ms) = Inr (c\<lparr>oc_tx_size := oc_len c, oc_op_res := Some (result_value (snd (last xs)) (oc_len c))\<rparr>, dma_copies c xs ms)"
    and "k < length xs \<Longrightarrow> \<exists>c' ms'. dma_run cb (take k xs) (c, ms) = Inr (c', ms') \<and> oc_op_res c' = None"
proof -
  have pos: "\<forall>x \<in> set xs. 0 < snd (fst x)"
  proof
    fix x
    assume "x \<in> set xs"
    then have "fst x \<in> set ps" using mset_eq_setD [OF assms(2)] by (metis image_eqI list.set_map)
    with tiles_pos [OF assms(1)] show "0 < snd (fst x)" by blast
  qed
  have "sum_list (map snd (map fst xs)) = sum_list (map snd ps)" using assms(2) by (metis mset_map sum_mset_sum_list)
  then have sum: "sum_list (map (snd \<circ> fst) xs) = oc_len c" using tiles_sum [OF assms(1)] by simp
  then have ne: "xs \<noteq> []" using assms(3) by auto
  have less: "sum_list (map (snd \<circ> fst) (take k xs)) < oc_len c" if "k < length xs" for k
  proof -
    have "0 < sum_list (map (snd \<circ> fst) (drop k xs))"
      using that pos by (simp add: Cons_nth_drop_Suc [symmetric])
    moreover have "sum_list (map (snd \<circ> fst) (take k xs)) + sum_list (map (snd \<circ> fst) (drop k xs)) = oc_len c"
      using sum by (metis append_take_drop_id map_append sum_list_append)
    ultimately show ?thesis by linarith
  qed
  have part: "dma_run cb (take k xs) (c, ms) = Inr (c\<lparr>oc_tx_size := sum_list (map (snd \<circ> fst) (take k xs))\<rparr>, dma_copies c (take k xs) ms)"
    if "k < length xs" for k
    using run_part [of "take k xs" c ms] less [OF that] assms(4) pos c by (auto dest: in_set_takeD)
  then show "k < length xs \<Longrightarrow> \<exists>c' ms'. dma_run cb (take k xs) (c, ms) = Inr (c', ms') \<and> oc_op_res c' = None" using c by simp
  let ?k = "length xs - 1"
  obtain p r where l: "last xs = (p, r)" by (cases "last xs")
  have xs: "xs = take ?k xs @ [(p, r)]" using ne l by (metis append_butlast_last_id butlast_conv_take)
  have run: "dma_run cb (ys @ zs) st = bnd (dma_run cb ys st) (dma_run cb zs)" for ys zs st
    by (induction ys arbitrary: st) (simp_all add: bnd_assoc Let_def split: prod.splits)
  have "sum_list (map (snd \<circ> fst) (take ?k xs)) + snd p = oc_len c"
    using arg_cong [OF xs, of "\<lambda>xs. sum_list (map (snd \<circ> fst) xs)"] sum by simp
  moreover have "r \<noteq> Task_bad_state" using assms(4) ne l by (metis last_in_set snd_conv)
  ultimately have "cb r (snd p) (c\<lparr>oc_tx_size := sum_list (map (snd \<circ> fst) (take ?k xs))\<rparr>) =
      Inr (c\<lparr>oc_tx_size := oc_len c, oc_op_res := Some (result_value r (oc_len c))\<rparr>)"
    using cb_last [of "c\<lparr>oc_tx_size := sum_list (map (snd \<circ> fst) (take ?k xs))\<rparr>" "snd p" r] c by simp
  then show "dma_run cb xs (c, ms) = Inr (c\<lparr>oc_tx_size := oc_len c, oc_op_res := Some (result_value (snd (last xs)) (oc_len c))\<rparr>, dma_copies c xs ms)"
    using part [of ?k] ne unfolding l by (subst (1 2) xs) (simp add: run, simp add: dma_copies_def)
qed

lemma transfer_any_order:
  assumes "0 < oc_len c" "oc_op_res c = None" "oc_tx_size c = 0"
  obtains ps where "parts (oc_len c) = Some ps" "tiles 0 ps (oc_len c)"
    "\<And>xs ms. mset (map fst xs) = mset ps \<Longrightarrow> \<forall>x \<in> set xs. snd x \<noteq> Task_bad_state \<Longrightarrow>
      dma_run cb xs (c, ms) = Inr (c\<lparr>oc_tx_size := oc_len c, oc_op_res := Some (result_value (snd (last xs)) (oc_len c))\<rparr>, dma_copies c xs ms)"
  using parts_tile [OF assms(1)] run_all(1) assms that by blast

end

lemma bulk_parts_tiles: "off \<le> len \<Longrightarrow> 0 < mx \<Longrightarrow> \<exists>ps. bulk_parts mx len off = Some ps \<and> tiles off ps len"
proof (induction "len - off" arbitrary: off rule: less_induct)
  case less
  show ?case
  proof (cases "off < len")
    case False
    with less.prems show ?thesis by (subst bulk_parts.simps) simp
  next
    case True
    show ?thesis
    proof (cases "off + mx \<le> len")
      case True
      moreover have "len - (off + mx) < len - off" using \<open>off < len\<close> less.prems by simp
      ultimately obtain ps where "bulk_parts mx len (off + mx) = Some ps" "tiles (off + mx) ps len"
        using less.hyps [of "off + mx"] less.prems by blast
      with \<open>off < len\<close> True less.prems show ?thesis by (subst bulk_parts.simps) (simp add: min_def)
    next
      case False
      then have "bulk_parts mx len (off + mx) = Some []" by (subst bulk_parts.simps) simp
      with \<open>off < len\<close> False show ?thesis by (subst bulk_parts.simps) (simp add: min_def)
    qed
  qed
qed

text \<open>A device that reports a maximum of 0 makes the loop run forever.\<close>

lemma bulk_parts_Some: "bulk_parts mx len off = Some ps \<Longrightarrow> mx = 0 \<longrightarrow> len \<le> off"
proof (erule bulk_parts.raw_induct [of "\<lambda>mx len off ps. mx = 0 \<longrightarrow> len \<le> off", rotated])
  fix f mx len off ps
  assume IH: "\<And>mx len off ps. f mx len off = Some ps \<Longrightarrow> mx = 0 \<longrightarrow> len \<le> (off :: nat)"
    and "(if off < len then Option.bind (f mx len (off + mx)) (\<lambda>ps. Some ((off, min mx (len - off)) # ps)) else Some []) = Some ps"
  then show "mx = 0 \<longrightarrow> len \<le> off" using IH [of mx len "off + mx"] by (auto simp: bind_eq_Some_conv split: if_splits)
qed

lemma bulk_parts_stuck: "off < len \<Longrightarrow> bulk_parts 0 len off = None"
  using bulk_parts_Some [of 0 len off] by (cases "bulk_parts 0 len off") auto

interpretation comch: bulk_engine "\<lambda>len. bulk_parts (Suc m) len 0" "comch_task_cb Status_Running Task_Memcpy"
proof
  show "0 < len \<Longrightarrow> \<exists>ps. bulk_parts (Suc m) len 0 = Some ps \<and> tiles 0 ps len" for len using bulk_parts_tiles by simp
qed (auto simp: comch_task_cb_def doca_task_cb_def set_op_res_def result_value_def Let_def split: task_result.splits)

interpretation rdma: bulk_engine "\<lambda>len. Some [(0, len)]" "rdma_task_cb Status_Running Task_Memcpy"
  by unfold_locales (auto simp: rdma_task_cb_def doca_task_cb_def set_op_res_def result_value_def Let_def split: task_result.splits)

text \<open>
  C25. A bulk transfer over the Comch endpoint of a registered region is cut into tasks such that, in
  whatever order the engine completes them, exactly the bytes of the transfer arrive on the other
  side; the future is not set before the last completion, and then it is the length of the transfer.
\<close>

theorem comch_bulk_complete:
  assumes "ce_status e = Status_Running" "ce_dma_running e" "0 < ce_max_bulk_task_size e" "registered (ce_r_mmap e) (bc_r_buf ctx)"
    and "oc_len ctx \<le> unat (mr_len (oc_l_buf ctx))" "0 < oc_len ctx" "oc_op_res ctx = None" "oc_tx_size ctx = 0"
  shows "\<exists>ps. comch_post e ctx = Inr (Some (ctx, ps)) \<and> (\<forall>xs ms. mset (map fst xs) = mset ps \<longrightarrow> (\<forall>x \<in> set xs. snd x = Task_success) \<longrightarrow>
      dma_run (comch_task_cb (ce_status e) Task_Memcpy) xs (ctx, ms) =
        Inr (ctx\<lparr>oc_tx_size := oc_len ctx, oc_op_res := Some (int (oc_len ctx))\<rparr>, transferred ctx ms)
      \<and> (\<forall>k < length xs. \<exists>c' ms'. dma_run (comch_task_cb (ce_status e) Task_Memcpy) (take k xs) (ctx, ms) = Inr (c', ms') \<and> oc_op_res c' = None))"
proof -
  from assms(3) obtain m where m: "ce_max_bulk_task_size e = Suc m" by (cases "ce_max_bulk_task_size e") auto
  from comch.parts_tile [OF assms(6), of m] obtain ps where ps: "bulk_parts (ce_max_bulk_task_size e) (oc_len ctx) 0 = Some ps" "tiles 0 ps (oc_len ctx)"
    unfolding m by blast
  have len: "oc_len ctx \<le> 2 ^ 64" using assms(5) unat_less [of "mr_len (oc_l_buf ctx)"] by simp
  show ?thesis
  proof (intro exI [of _ ps] conjI allI impI)
    show "comch_post e ctx = Inr (Some (ctx, ps))" using assms ps by (simp add: comch_post_def)
  next
    fix xs ms
    assume x: "mset (map fst xs) = mset ps" "\<forall>x \<in> set xs. snd x = Task_success"
    have "xs \<noteq> []" using x(1) ps(2) assms(6) by auto
    then have "snd (last xs) = Task_success" using x(2) by simp
    with comch.run_all(1) [OF ps(2) x(1) assms(6) _ assms(7,8), of ms] x dma_copies_tiles [OF ps(2) x(1) len x(2), of ms] assms(1)
    show "dma_run (comch_task_cb (ce_status e) Task_Memcpy) xs (ctx, ms) =
        Inr (ctx\<lparr>oc_tx_size := oc_len ctx, oc_op_res := Some (int (oc_len ctx))\<rparr>, transferred ctx ms)"
      by (simp add: result_value_def)
    show "\<exists>c' ms'. dma_run (comch_task_cb (ce_status e) Task_Memcpy) (take k xs) (ctx, ms) = Inr (c', ms') \<and> oc_op_res c' = None"
      if "k < length xs" for k
      using comch.run_all(2) [OF ps(2) x(1) assms(6) _ assms(7,8) that, of ms] x(2) assms(1) by simp
  qed
qed

theorem comch_bulk_complete_witness:
  "\<exists>ps. comch_post \<lparr>ce_status = Status_Running, ce_consumer_id = 1, ce_con_running = True, ce_pro_running = True, ce_dma_running = True,
        ce_r_mmap = Some \<lparr>mr_base = 64, mr_len = 64\<rparr>, ce_max_bulk_task_size = 3\<rparr>
      (bulk_context Op_Write \<lparr>mr_base = 8, mr_len = 8\<rparr> \<lparr>mr_base = 64, mr_len = 8\<rparr>) =
    Inr (Some (bulk_context Op_Write \<lparr>mr_base = 8, mr_len = 8\<rparr> \<lparr>mr_base = 64, mr_len = 8\<rparr>, ps)) \<and> mset ps = {#(0, 3), (3, 3), (6, 2)#}"
proof -
  let ?e = "\<lparr>ce_status = Status_Running, ce_consumer_id = 1, ce_con_running = True, ce_pro_running = True, ce_dma_running = True,
        ce_r_mmap = Some \<lparr>mr_base = 64, mr_len = 64\<rparr>, ce_max_bulk_task_size = 3\<rparr>"
  let ?c = "bulk_context Op_Write \<lparr>mr_base = 8, mr_len = 8\<rparr> \<lparr>mr_base = 64, mr_len = 8\<rparr>"
  from comch_bulk_complete [of ?e ?c] obtain ps where p: "comch_post ?e ?c = Inr (Some (?c, ps))"
    by (auto simp: bulk_context_def registered_def contain_def mr_empty_def is_contain_def)
  moreover have "bulk_parts 3 8 0 = Some [(0, 3), (3, 3), (6, 2)]"
    by (subst bulk_parts.simps, simp, subst bulk_parts.simps, simp, subst bulk_parts.simps, simp, subst bulk_parts.simps, simp)
  ultimately show ?thesis by (auto simp: comch_post_def bulk_context_def registered_def contain_def mr_empty_def is_contain_def)
qed

text \<open>
  The result of a Comch bulk transfer is decided by the task that completes last: if that one
  succeeds, the future reports the full length although other tasks of the transfer have failed and
  their bytes were not copied.
\<close>

theorem comch_bulk_failure_masked:
  assumes "ce_status e = Status_Running" "ce_dma_running e" "0 < ce_max_bulk_task_size e" "registered (ce_r_mmap e) (bc_r_buf ctx)"
    and "oc_len ctx \<le> unat (mr_len (oc_l_buf ctx))" "0 < oc_len ctx" "oc_op_res ctx = None" "oc_tx_size ctx = 0"
  shows "\<exists>ps. comch_post e ctx = Inr (Some (ctx, ps)) \<and> (\<forall>xs ms. mset (map fst xs) = mset ps \<longrightarrow> (\<forall>x \<in> set xs. snd x \<noteq> Task_bad_state) \<longrightarrow>
      snd (last xs) = Task_success \<longrightarrow> (\<exists>c' ms'. dma_run (comch_task_cb (ce_status e) Task_Memcpy) xs (ctx, ms) = Inr (c', ms')
        \<and> oc_op_res c' = Some (int (oc_len ctx)) \<and> ms' = dma_copies ctx xs ms))"
proof -
  from assms(3) obtain m where m: "ce_max_bulk_task_size e = Suc m" by (cases "ce_max_bulk_task_size e") auto
  from comch.transfer_any_order [OF assms(6-8), of m] obtain ps where ps: "bulk_parts (ce_max_bulk_task_size e) (oc_len ctx) 0 = Some ps"
    and run: "\<And>xs ms. mset (map fst xs) = mset ps \<Longrightarrow> \<forall>x \<in> set xs. snd x \<noteq> Task_bad_state \<Longrightarrow> dma_run (comch_task_cb Status_Running Task_Memcpy) xs (ctx, ms) =
      Inr (ctx\<lparr>oc_tx_size := oc_len ctx, oc_op_res := Some (result_value (snd (last xs)) (oc_len ctx))\<rparr>, dma_copies ctx xs ms)"
    unfolding m by metis
  have "comch_post e ctx = Inr (Some (ctx, ps))" using assms ps by (simp add: comch_post_def)
  with run assms(1) show ?thesis by (intro exI [of _ ps]) (simp add: result_value_def)
qed

theorem comch_bulk_failure_masked_witness:
  "\<exists>c' ms'. dma_run (comch_task_cb Status_Running Task_Memcpy) [((0, 4), Task_failure 3), ((4, 4), Task_success)]
      (bulk_context Op_Write \<lparr>mr_base = 8, mr_len = 8\<rparr> \<lparr>mr_base = 64, mr_len = 8\<rparr>, (\<lambda>_. 1), (\<lambda>_. 0)) = Inr (c', ms')
    \<and> oc_op_res c' = Some 8 \<and> snd ms' 64 = 0"
proof -
  let ?e = "\<lparr>ce_status = Status_Running, ce_consumer_id = 1, ce_con_running = True, ce_pro_running = True, ce_dma_running = True,
        ce_r_mmap = Some \<lparr>mr_base = 64, mr_len = 64\<rparr>, ce_max_bulk_task_size = 4\<rparr>"
  let ?c = "bulk_context Op_Write \<lparr>mr_base = 8, mr_len = 8\<rparr> \<lparr>mr_base = 64, mr_len = 8\<rparr>"
  let ?xs = "[((0 :: nat, 4 :: nat), Task_failure 3), ((4, 4), Task_success)]"
  have "registered (ce_r_mmap ?e) (bc_r_buf ?c)" by (simp add: bulk_context_def registered_def contain_def mr_empty_def is_contain_def)
  moreover have "bulk_parts 4 8 0 = Some (map fst ?xs)"
    by (subst bulk_parts.simps, simp, subst bulk_parts.simps, simp, subst bulk_parts.simps, simp)
  ultimately have p: "comch_post ?e ?c = Inr (Some (?c, map fst ?xs))" by (simp add: comch_post_def bulk_context_def)
  from comch_bulk_failure_masked [of ?e ?c] \<open>registered _ _\<close> obtain ps where q: "comch_post ?e ?c = Inr (Some (?c, ps))"
    and r: "\<forall>xs ms. mset (map fst xs) = mset ps \<longrightarrow> (\<forall>x \<in> set xs. snd x \<noteq> Task_bad_state) \<longrightarrow>
      snd (last xs) = Task_success \<longrightarrow> (\<exists>c' ms'. dma_run (comch_task_cb Status_Running Task_Memcpy) xs (?c, ms) = Inr (c', ms')
        \<and> oc_op_res c' = Some (int (oc_len ?c)) \<and> ms' = dma_copies ?c xs ms)"
    by (auto simp: bulk_context_def)
  have "mset (map fst ?xs) = mset ps" "\<forall>x \<in> set ?xs. snd x \<noteq> Task_bad_state" "snd (last ?xs) = Task_success" using p q by simp_all
  with r obtain c' ms' where "dma_run (comch_task_cb Status_Running Task_Memcpy) ?xs (?c, (\<lambda>_. 1), (\<lambda>_. 0)) = Inr (c', ms')"
    "oc_op_res c' = Some (int (oc_len ?c))" "ms' = dma_copies ?c ?xs ((\<lambda>_. 1), (\<lambda>_. 0))" by blast
  moreover have "snd (dma_copies ?c ?xs ((\<lambda>_. 1), (\<lambda>_. 0))) 64 = 0" by (simp add: bulk_context_def dma_copies_def dma_copy_def wr_def)
  moreover have "int (oc_len ?c) = 8" by (simp add: bulk_context_def)
  ultimately show ?thesis by metis
qed

text \<open>
  An empty transfer submits no task, and its promise is never set; a second task that ends because of a
  bad state throws out of the callback, since the promise is set already.
\<close>

lemma comch_empty_bulk:
  assumes "ce_dma_running e" "registered (ce_r_mmap e) (bc_r_buf ctx)" "oc_len ctx = 0"
  shows "comch_post e ctx = Inr (Some (ctx, []))"
  using assms bulk_parts.simps [of "ce_max_bulk_task_size e" 0 0] by (simp add: comch_post_def)

lemma comch_bad_state_twice:
  assumes "oc_op_res ctx = None"
  shows "bnd (comch_task_cb Status_Running Task_Memcpy Task_bad_state n ctx) (comch_task_cb Status_Running Task_Memcpy Task_bad_state k) = Inl Die"
  using assms by (simp add: comch_task_cb_def doca_task_cb_def set_op_res_def Let_def)

lemma rdma_bulk_complete:
  assumes "re_enable_data_path e" "re_data_path_running e" "registered (re_r_mmap e) (bc_r_buf ctx)"
    and "oc_len ctx \<le> unat (mr_len (oc_l_buf ctx))" "0 < oc_len ctx" "oc_op_res ctx = None" "oc_tx_size ctx = 0"
  shows "rdma_post e ctx = Inr (ctx, [(0, oc_len ctx)]) \<and>
    dma_run (rdma_task_cb Status_Running Task_Memcpy) [((0, oc_len ctx), Task_success)] (ctx, ms) =
      Inr (ctx\<lparr>oc_tx_size := oc_len ctx, oc_op_res := Some (int (oc_len ctx))\<rparr>, transferred ctx ms)"
proof -
  have t: "tiles 0 [(0, oc_len ctx)] (oc_len ctx)" using assms(5) by simp
  have len: "oc_len ctx \<le> 2 ^ 64" using assms(4) unat_less [of "mr_len (oc_l_buf ctx)"] by simp
  show ?thesis
    using assms rdma.run_all(1) [OF t _ assms(5) _ assms(6,7), of "[((0, oc_len ctx), Task_success)]" ms]
      dma_copies_tiles [OF t _ len, of "[((0, oc_len ctx), Task_success)]" ms]
    by (simp add: rdma_post_def result_value_def)
qed

section \<open>Bulk writes over TCP\<close>

lemma tcp_run_idle: "te_ring e = [] \<Longrightarrow> tcp_write_run m ns (e, out) = Inr (e, out)"
  by (induction ns) (simp_all add: kernel_write_def tcp_progress_def)

lemma tcp_post_write_simps:
  "te_ring (tcp_post Op_Write k ctx e) = te_ring e @ [\<lparr>sq_op = Op_Write, sq_ctx = k, sq_sock = te_bulk_sock e,
     sq_addr = mr_base (oc_l_buf ctx) + of_nat (oc_tx_size ctx), sq_len = unat (mr_len (oc_l_buf ctx)) - oc_tx_size ctx\<rparr>]"
  "te_ctxs (tcp_post Op_Write k ctx e) = (te_ctxs e)(k \<mapsto> ctx)" "te_bulk_sock (tcp_post Op_Write k ctx e) = te_bulk_sock e"
  by (simp_all add: tcp_post_def Let_def)

lemma tcp_write_run_from:
  assumes "te_ring e = []" "oc_op ctx = Op_Write" "oc_op_res ctx = None" "oc_tx_size ctx < unat (mr_len (oc_l_buf ctx))"
    and "unat (mr_len (oc_l_buf ctx)) - oc_tx_size ctx \<le> length ns"
  shows "\<exists>e'. tcp_write_run m ns (tcp_post Op_Write k ctx e, out) = Inr (e', out(te_bulk_sock e := out (te_bulk_sock e) @
        rd m (mr_base (oc_l_buf ctx) + of_nat (oc_tx_size ctx)) (unat (mr_len (oc_l_buf ctx)) - oc_tx_size ctx)))
    \<and> te_ring e' = [] \<and> te_ctxs e' k = Some (ctx\<lparr>oc_tx_size := unat (mr_len (oc_l_buf ctx)), oc_op_res := Some (int (unat (mr_len (oc_l_buf ctx))))\<rparr>)"
  using assms
proof (induction ns arbitrary: e ctx out)
  case Nil
  then show ?case by simp
next
  case (Cons n ns)
  let ?size = "unat (mr_len (oc_l_buf ctx))" and ?tx = "oc_tx_size ctx" and ?base = "mr_base (oc_l_buf ctx)" and ?s = "te_bulk_sock e"
  define w where "w = min (Suc n) (?size - ?tx)"
  let ?e1 = "(tcp_post Op_Write k ctx e)\<lparr>te_ring := []\<rparr>" and ?out1 = "out(?s := out ?s @ rd m (?base + of_nat ?tx) w)"
  have w: "0 < w" "w \<le> ?size - ?tx" using Cons.prems(4) by (simp_all add: w_def)
  have kw: "kernel_write m n (tcp_post Op_Write k ctx e, out) = (Some (k, int w), ?e1, ?out1)"
    using Cons.prems(1) by (simp add: kernel_write_def tcp_post_write_simps Let_def w_def)
  let ?ctx = "ctx\<lparr>oc_tx_size := ?tx + w\<rparr>"
  have bytes: "rd m (?base + of_nat ?tx) w @ rd m (?base + of_nat (?tx + w)) (?size - (?tx + w)) = rd m (?base + of_nat ?tx) (?size - ?tx)"
  proof -
    have "w + (?size - (?tx + w)) = ?size - ?tx" using w(2) Cons.prems(4) by linarith
    with rd_add [of m "?base + of_nat ?tx" w "?size - (?tx + w)"] show ?thesis by (simp add: add.assoc)
  qed
  show ?case
  proof (cases "?tx + w < ?size")
    case True
    then have p: "tcp_progress (Some (k, int w)) ?e1 = Inr (True, tcp_post Op_Write k ?ctx ?e1)"
      using Cons.prems w by (simp add: tcp_progress_def tcp_post_write_simps Let_def)
    have s: "te_bulk_sock ?e1 = ?s" by (simp add: tcp_post_write_simps)
    have "\<exists>e'. tcp_write_run m ns (tcp_post Op_Write k ?ctx ?e1, ?out1) = Inr (e', ?out1(te_bulk_sock ?e1 := ?out1 (te_bulk_sock ?e1) @
        rd m (?base + of_nat (?tx + w)) (?size - (?tx + w))))
      \<and> te_ring e' = [] \<and> te_ctxs e' k = Some (ctx\<lparr>oc_tx_size := ?size, oc_op_res := Some (int ?size)\<rparr>)"
      using Cons.IH [of ?e1 ?ctx ?out1] Cons.prems True w by (simp add: tcp_post_write_simps add.assoc del: fun_upd_apply)
    then show ?thesis unfolding tcp_write_run.simps kw prod.case p bnd_Inr s using bytes by (simp add: fun_upd_same del: fun_upd_apply)
  next
    case False
    then have e: "?tx + w = ?size" using w Cons.prems(4) by linarith
    then have "tcp_progress (Some (k, int w)) ?e1 = Inr (True, ?e1\<lparr>te_ctxs := (te_ctxs ?e1)(k \<mapsto> ?ctx\<lparr>oc_op_res := Some (int ?size)\<rparr>)\<rparr>)"
      using Cons.prems w by (simp add: tcp_progress_def tcp_post_write_simps Let_def set_op_res_def)
    then show ?thesis unfolding tcp_write_run.simps kw prod.case using bytes e by (simp add: tcp_run_idle tcp_post_write_simps fun_upd_same del: fun_upd_apply)
  qed
qed

text \<open>
  A bulk write over TCP delivers the whole buffer. However the kernel cuts it into partial writes
  (every one of at least a byte), the endpoint posts the remainder again until all bytes of the buffer
  are on the bulk socket, in order and once; then the future is set to the size of the buffer. It
  takes at most as many completions as the buffer has bytes.
\<close>

theorem tcp_bulk_write_complete:
  assumes "te_ring e = []" "mr_len buf \<noteq> 0" "unat (mr_len buf) \<le> length ns"
  shows "\<exists>e'. tcp_write_run m ns (tcp_post_write k (op_context Op_Write buf) e, out) =
      Inr (e', out(te_bulk_sock e := out (te_bulk_sock e) @ rd m (mr_base buf) (unat (mr_len buf))))
    \<and> te_ring e' = [] \<and> map_option oc_op_res (te_ctxs e' k) = Some (Some (int (unat (mr_len buf))))"
proof -
  have "0 < unat (mr_len buf)" using assms(2) by (simp add: unat_gt_0)
  with tcp_write_run_from [of e "op_context Op_Write buf" ns m k out] assms show ?thesis
    by (auto simp: op_context_def tcp_post_write_def)
qed

theorem tcp_bulk_write_complete_witness:
  "\<exists>e'. tcp_write_run (\<lambda>a. ucast a) [0, 9, 0] (tcp_post_write 7 (op_context Op_Write \<lparr>mr_base = 16, mr_len = 3\<rparr>)
      \<lparr>te_status = Status_Running, te_rpc_sock = 4, te_bulk_sock = 5, te_closed = [], te_ring = [], te_ctxs = Map.empty\<rparr>, \<lambda>_. []) =
    Inr (e', (\<lambda>_. [])(5 := [16, 17, 18])) \<and> te_ring e' = [] \<and> map_option oc_op_res (te_ctxs e' 7) = Some (Some 3)"
proof -
  have "rd (\<lambda>a. ucast a :: u8) 16 3 = [16, 17, 18]" by (simp add: rd_def upt_rec)
  with tcp_bulk_write_complete [of "\<lparr>te_status = Status_Running, te_rpc_sock = 4, te_bulk_sock = 5, te_closed = [], te_ring = [], te_ctxs = Map.empty\<rparr>"
      "\<lparr>mr_base = 16, mr_len = 3\<rparr>" "[0, 9, 0]" "\<lambda>a. ucast a" 7 "\<lambda>_. []"] show ?thesis by simp
qed

text \<open>A partial send, in contrast, is reported as it is and never continued: the message is cut off.\<close>

lemma tcp_send_short:
  assumes "te_ctxs e k = Some (op_context Op_Send buf)" "0 < n" "n < unat (mr_len buf)"
  shows "\<exists>e'. tcp_progress (Some (k, int n)) e = Inr (True, e') \<and> te_ring e' = te_ring e
    \<and> map_option oc_op_res (te_ctxs e' k) = Some (Some (int n))"
  using assms by (simp add: tcp_progress_def op_context_def set_op_res_def Let_def)

end
