(* ===== verification/Connection.thy ===== *)
theory Connection
  imports Endpoint
begin

text \<open>
  How endpoints are connected: the blocking socket helpers (\<^verbatim>\<open>lib/util/socket.cxx\<close>) and the connection
  handles of the back ends (\<^verbatim>\<open>priv/tcp/connection.cxx\<close>, \<^verbatim>\<open>priv/doca/comch/connection.cxx\<close>,
  \<^verbatim>\<open>priv/doca/rdma/connection.cxx\<close>) under \<^verbatim>\<open>ConnectionHolder\<close> (\<^verbatim>\<open>common/connection.hxx\<close>). System calls and
  DOCA are the environment; what they return is an argument.
\<close>

section \<open>Sockets\<close>

text \<open>
  \<^verbatim>\<open>read_string\<close> on a socket whose peer has sent \<open>bs\<close> and closed it. The \<open>i\<close>-th \<^verbatim>\<open>read\<close> of the
  process fails if \<open>\<sigma> i\<close> is \<open>None\<close>, otherwise it returns at most \<open>\<sigma> i + 1\<close> of the bytes there are,
  which are none at the end of the stream. The value \<open>None\<close> is a loop that does not end.
\<close>

partial_function (option) read_string :: "(nat \<Rightarrow> nat option) \<Rightarrow> nat \<Rightarrow> u8 list \<Rightarrow> nat \<Rightarrow> (u8 list \<times> u8 list \<times> nat) result option" where
  "read_string \<sigma> i bs remain =
    (if remain = 0 then Some (Inr ([], bs, i))
     else case \<sigma> i of
       None \<Rightarrow> Some (Inl Die)
     | Some n \<Rightarrow>
         let got = take (min (Suc n) remain) bs in
         Option.bind (read_string \<sigma> (Suc i) (drop (length got) bs) (remain - length got)) (\<lambda>r.
           Some (bnd r (\<lambda>(rest, bs', j). Inr (got @ rest, bs', j)))))"

definition read_string_with_header :: "(nat \<Rightarrow> nat option) \<Rightarrow> nat \<Rightarrow> u8 list \<Rightarrow> (u8 list \<times> u8 list \<times> nat) result option" where
  "read_string_with_header \<sigma> i bs =
    Option.bind (read_string \<sigma> i bs 8) (\<lambda>r.
      case r of Inl e \<Rightarrow> Some (Inl e) | Inr (header, bs, i) \<Rightarrow> read_string \<sigma> i bs (unat (bytes_u64 header)))"

text \<open>\<^verbatim>\<open>write_string\<close>: the number of bytes the one \<^verbatim>\<open>write\<close> took is not looked at.\<close>

definition write_string :: "nat option \<Rightarrow> u8 list \<Rightarrow> u8 list \<Rightarrow> u8 list result" where
  "write_string n out sv = (case n of None \<Rightarrow> Inl Die | Some n \<Rightarrow> Inr (out @ take n sv))"

definition write_string_with_header :: "nat option \<Rightarrow> nat option \<Rightarrow> u8 list \<Rightarrow> u8 list \<Rightarrow> u8 list result" where
  "write_string_with_header n1 n2 out sv =
    bnd (write_string n1 out (u64_bytes (of_nat (length sv)))) (\<lambda>out. write_string n2 out sv)"

text \<open>The attempts of \<^verbatim>\<open>setup_and_bind_and_connect\<close>; \<open>ok k\<close> says whether the \<open>k\<close>-th one succeeds.\<close>

partial_function (option) connect_retry :: "(nat \<Rightarrow> bool) \<Rightarrow> nat \<Rightarrow> nat result option" where
  "connect_retry ok cnt =
    (if ok (cnt + 1) then Some (Inr (cnt + 1))
     else if cnt + 1 = 10 then Some (Inl Die) else connect_retry ok (cnt + 1))"

lemma read_string_correct:
  assumes "\<forall>i. \<sigma> i \<noteq> None" "remain \<le> length bs"
  shows "\<exists>j. read_string \<sigma> i bs remain = Some (Inr (take remain bs, drop remain bs, j))"
  using assms(2)
proof (induction remain arbitrary: i bs rule: less_induct)
  case (less remain)
  show ?case
  proof (cases "remain = 0")
    case True
    then show ?thesis by (subst read_string.simps) simp
  next
    case False
    obtain n where n: "\<sigma> i = Some n" using assms(1) by blast
    define k where "k = min (Suc n) remain"
    have k: "0 < k" "k \<le> remain" using False by (simp_all add: k_def)
    have "remain - k < remain" "remain - k \<le> length (drop k bs)" using k less.prems by auto
    from less.IH [OF this, of "Suc i"] obtain j where
      j: "read_string \<sigma> (Suc i) (drop k bs) (remain - k) = Some (Inr (take (remain - k) (drop k bs), drop (remain - k) (drop k bs), j))" by blast
    have "take k bs @ take (remain - k) (drop k bs) = take remain bs"
      using k take_add [of k "remain - k" bs] by simp
    moreover have "length (take k bs) = k" using k less.prems by simp
    ultimately show ?thesis using False j k(2)
      by (subst read_string.simps) (simp add: n k_def [symmetric] Let_def del: length_take)
  qed
qed

lemma read_string_Some:
  assumes "read_string \<sigma> i bs remain = Some r" "\<forall>i. \<sigma> i \<noteq> None"
  shows "remain \<le> length bs"
proof -
  have "(\<forall>i. \<sigma> i \<noteq> None) \<longrightarrow> remain \<le> length bs"
    using assms(1)
  proof (rule read_string.raw_induct [of "\<lambda>\<sigma> i bs remain r. (\<forall>i. \<sigma> i \<noteq> None) \<longrightarrow> remain \<le> length bs", rotated], intro impI)
    fix f :: "(nat \<Rightarrow> nat option) \<Rightarrow> nat \<Rightarrow> u8 list \<Rightarrow> nat \<Rightarrow> (u8 list \<times> u8 list \<times> nat) result option" and \<sigma> i bs remain r
    assume IH: "\<And>\<sigma> i bs remain r. f \<sigma> i bs remain = Some r \<Longrightarrow> (\<forall>i. \<sigma> i \<noteq> None) \<longrightarrow> remain \<le> length bs"
      and step: "(if remain = 0 then Some (Inr ([], bs, i))
       else case \<sigma> i of None \<Rightarrow> Some (Inl Die)
       | Some n \<Rightarrow> let got = take (min (Suc n) remain) bs in
           Option.bind (f \<sigma> (Suc i) (drop (length got) bs) (remain - length got)) (\<lambda>r.
             Some (bnd r (\<lambda>(rest, bs', j). Inr (got @ rest, bs', j))))) = Some r" and \<sigma>: "\<forall>i. \<sigma> i \<noteq> None"
    show "remain \<le> length bs"
    proof (cases "remain = 0")
      case False
      obtain n where n: "\<sigma> i = Some n" using \<sigma> by blast
      define got where "got = take (min (Suc n) remain) bs"
      from step False n obtain r' where "f \<sigma> (Suc i) (drop (length got) bs) (remain - length got) = Some r'"
        by (auto simp: bind_eq_Some_conv Let_def got_def)
      from IH [OF this] \<sigma> have "remain - length got \<le> length bs - length got" by simp
      moreover have "length got \<le> length bs" by (simp add: got_def)
      ultimately show ?thesis by linarith
    qed simp
  qed
  with assms(2) show ?thesis by blast
qed

text \<open>
  C27. A string written with its length in front is read back unchanged, however the reads are cut into
  pieces, and what follows on the stream stays there.
\<close>

theorem string_with_header_roundtrip:
  assumes "\<forall>i. \<sigma> i \<noteq> None" "length sv < 2 ^ 64" "8 \<le> n1" "length sv \<le> n2"
  shows "\<exists>j. write_string_with_header (Some n1) (Some n2) [] sv = Inr (u64_bytes (of_nat (length sv)) @ sv)
    \<and> read_string_with_header \<sigma> i ((u64_bytes (of_nat (length sv)) @ sv) @ rest) = Some (Inr (sv, rest, j))"
proof -
  let ?h = "u64_bytes (of_nat (length sv))"
  from read_string_correct [OF assms(1), of 8 "(?h @ sv) @ rest" i] obtain k where
    k: "read_string \<sigma> i ((?h @ sv) @ rest) 8 = Some (Inr (?h, sv @ rest, k))" by auto
  from read_string_correct [OF assms(1), of "length sv" "sv @ rest" k] obtain j where
    j: "read_string \<sigma> k (sv @ rest) (length sv) = Some (Inr (sv, rest, j))" by auto
  have "unat (bytes_u64 ?h) = length sv" using assms(2) by (simp add: unat_of_nat_u64)
  with k j assms(3,4) show ?thesis by (simp add: read_string_with_header_def write_string_with_header_def write_string_def)
qed

theorem string_with_header_roundtrip_witness:
  "\<exists>j. write_string_with_header (Some 8) (Some 3) [] [7, 8, 9] = Inr (u64_bytes 3 @ [7, 8, 9])
    \<and> read_string_with_header (\<lambda>_. Some 0) 0 ((u64_bytes 3 @ [7, 8, 9]) @ [1]) = Some (Inr ([7, 8, 9], [1], j))"
  using string_with_header_roundtrip [of "\<lambda>_. Some 0" "[7, 8, 9]" 8 3 0 "[1]"] by simp

text \<open>
  At the end of the stream \<^verbatim>\<open>read_string\<close> never returns: if the peer closes the socket before it has sent
  all bytes that are asked for, the loop keeps reading nothing. The handles use it to wait for the
  peer's goodbye, so a peer that goes away without one leaves them in that loop.
\<close>

theorem read_string_eof_hangs:
  assumes "\<forall>i. \<sigma> i \<noteq> None" "length bs < remain"
  shows "read_string \<sigma> i bs remain = None"
  using read_string_Some [OF _ assms(1), of i bs remain] assms(2) by (cases "read_string \<sigma> i bs remain") auto

theorem read_string_eof_hangs_witness: "read_string (\<lambda>_. Some 5) 0 [] 1 = None"
  using read_string_eof_hangs [of "\<lambda>_. Some 5" "[]" 1 0] by simp

lemma connect_retry_fails: "n \<le> 9 \<Longrightarrow> (\<And>k. n < k \<Longrightarrow> k \<le> 10 \<Longrightarrow> \<not> ok k) \<Longrightarrow> connect_retry ok n = Some (Inl Die)"
proof (induction "9 - n" arbitrary: n)
  case 0
  then show ?case by (subst connect_retry.simps) simp
next
  case (Suc m)
  then show ?case by (subst connect_retry.simps) simp
qed

lemma connect_retry_succeeds: "n < k \<Longrightarrow> k \<le> 10 \<Longrightarrow> ok k \<Longrightarrow> (\<And>j. n < j \<Longrightarrow> j < k \<Longrightarrow> \<not> ok j) \<Longrightarrow> connect_retry ok n = Some (Inr k)"
proof (induction "k - n" arbitrary: n)
  case 0
  then show ?case by simp
next
  case (Suc m)
  show ?case
  proof (cases "k = Suc n")
    case True
    with Suc show ?thesis by (subst connect_retry.simps) simp
  next
    case False
    with Suc have "connect_retry ok (Suc n) = Some (Inr k)" by (intro Suc(1)) auto
    with False Suc show ?thesis by (subst connect_retry.simps) simp
  qed
qed

section \<open>TCP\<close>

primrec each_endpoint :: "('e \<Rightarrow> 'e result) \<Rightarrow> 'e list \<Rightarrow> 'e list result" where
  "each_endpoint f [] = Inr []"
| "each_endpoint f (e # es) = bnd (f e) (\<lambda>e. bnd (each_endpoint f es) (\<lambda>es. Inr (e # es)))"

text \<open>
  The loops of \<^verbatim>\<open>listen_and_accept\<close> and \<^verbatim>\<open>connect\<close>: connection number \<open>n\<close> is the control path of an
  endpoint, the next one its data path. \<open>socks\<close> are the sockets that \<^verbatim>\<open>accept\<close> or the connecting helper
  return, a negative one for a failure.
\<close>

primrec tcp_attach :: "(nat \<Rightarrow> int) \<Rightarrow> nat \<Rightarrow> tcp_Endpoint list \<Rightarrow> tcp_Endpoint list result" where
  "tcp_attach socks n [] = Inr []"
| "tcp_attach socks n (e # es) =
    bnd (check (0 \<le> socks n \<and> 0 \<le> socks (n + 1)) Die) (\<lambda>_.
    bnd (ep_run (te_status e)) (\<lambda>st.
    bnd (tcp_attach socks (n + 2) es) (\<lambda>es.
      Inr (e\<lparr>te_rpc_sock := socks n, te_bulk_sock := socks (n + 1), te_status := st\<rparr> # es))))"

record tcp_ConnectionHandle =
  th_conn_sock :: int
  th_pending_endpoints :: "tcp_Endpoint list"

definition th_associate :: "tcp_ConnectionHandle \<Rightarrow> tcp_Endpoint \<Rightarrow> tcp_ConnectionHandle" where
  "th_associate h e = h\<lparr>th_pending_endpoints := th_pending_endpoints h @ [e]\<rparr>"

definition th_listen_and_accept :: "(nat \<Rightarrow> int) \<Rightarrow> tcp_ConnectionHandle \<Rightarrow> tcp_ConnectionHandle result" where
  "th_listen_and_accept socks h =
    bnd (check (0 \<le> socks 0) Die) (\<lambda>_. bnd (tcp_attach socks 1 (th_pending_endpoints h)) (\<lambda>es.
      Inr (h\<lparr>th_conn_sock := socks 0, th_pending_endpoints := es\<rparr>)))"

definition th_connect :: "(nat \<Rightarrow> int) \<Rightarrow> tcp_ConnectionHandle \<Rightarrow> tcp_ConnectionHandle result" where
  "th_connect socks h =
    bnd (check (0 \<le> socks 0) Die) (\<lambda>_. bnd (tcp_attach socks 1 (th_pending_endpoints h)) (\<lambda>es.
      Inr (h\<lparr>th_conn_sock := socks 0, th_pending_endpoints := es\<rparr>)))"

text \<open>The local ports the connecting side binds: one for the handle, two for every endpoint.\<close>

definition th_conn_port :: "u16 \<Rightarrow> nat \<Rightarrow> u16" where
  "th_conn_port local_port n = (if local_port \<noteq> 0 then local_port + 2 * of_nat n else 0)"

primrec th_ports :: "u16 \<Rightarrow> nat \<Rightarrow> u16 list" where
  "th_ports port 0 = []"
| "th_ports port (Suc n) = (if port = 0 then 0 else port) # (if port = 0 then 0 else port + 1) # th_ports (port + 2) n"

text \<open>Saying goodbye on the connection socket; the values of the socket calls are arguments.\<close>

definition tcp_exit :: "tcp_Endpoint \<Rightarrow> tcp_Endpoint result" where
  "tcp_exit e = bnd (tcp_stop e) (\<lambda>e. bnd (ep_shutdown (te_status e)) (\<lambda>st. Inr (e\<lparr>te_status := st\<rparr>)))"

definition th_wait_for_disconnect :: "nat option \<Rightarrow> (nat \<Rightarrow> nat option) \<Rightarrow> u8 list \<Rightarrow> u8 list \<Rightarrow> tcp_ConnectionHandle \<Rightarrow> (u8 list \<times> tcp_ConnectionHandle) result option" where
  "th_wait_for_disconnect n \<sigma> inp out h =
    Option.bind (read_string \<sigma> 0 inp 1) (\<lambda>r. Some (bnd r (\<lambda>_.
      bnd (each_endpoint tcp_exit (th_pending_endpoints h)) (\<lambda>es.
      bnd (write_string n out [0x78]) (\<lambda>out. Inr (out, h\<lparr>th_pending_endpoints := es\<rparr>))))))"

definition th_disconnect :: "nat option \<Rightarrow> (nat \<Rightarrow> nat option) \<Rightarrow> u8 list \<Rightarrow> u8 list \<Rightarrow> tcp_ConnectionHandle \<Rightarrow> (u8 list \<times> tcp_ConnectionHandle) result option" where
  "th_disconnect n \<sigma> inp out h =
    (case write_string n out [0x78] of
       Inl e \<Rightarrow> Some (Inl e)
     | Inr out \<Rightarrow> Option.bind (read_string \<sigma> 0 inp 1) (\<lambda>r. Some (bnd r (\<lambda>_.
         bnd (each_endpoint tcp_exit (th_pending_endpoints h)) (\<lambda>es. Inr (out, h\<lparr>th_pending_endpoints := es\<rparr>))))))"

lemma each_endpoint_Inr:
  assumes "\<And>e. e \<in> set es \<Longrightarrow> f e = Inr (g e)"
  shows "each_endpoint f es = Inr (map g es)"
  using assms by (induction es) simp_all

lemma tcp_attach_Inr:
  assumes "\<forall>e \<in> set es. te_status e = Status_Ready" "\<forall>i. 0 \<le> socks i"
  shows "\<exists>es'. tcp_attach socks n es = Inr es' \<and> length es' = length es \<and> (\<forall>i < length es. es' ! i =
    (es ! i)\<lparr>te_rpc_sock := socks (n + 2 * i), te_bulk_sock := socks (n + 2 * i + 1), te_status := Status_Running\<rparr>)"
  using assms(1)
proof (induction es arbitrary: n)
  case Nil
  then show ?case by simp
next
  case (Cons e es)
  then obtain es' where es': "tcp_attach socks (n + 2) es = Inr es'" "length es' = length es" "\<forall>i < length es. es' ! i =
    (es ! i)\<lparr>te_rpc_sock := socks (n + 2 + 2 * i), te_bulk_sock := socks (n + 2 + 2 * i + 1), te_status := Status_Running\<rparr>" by force
  with Cons.prems assms(2) show ?case by (auto simp: ep_run_def nth_Cons split: nat.splits)
qed

text \<open>The control and data path of every endpoint end at the same endpoint of the peer.\<close>

lemma tcp_paths_paired:
  assumes "\<forall>e \<in> set ces. te_status e = Status_Ready" "\<forall>e \<in> set ses. te_status e = Status_Ready" "length ces = length ses"
    and "\<forall>i. 0 \<le> csocks i" "\<forall>i. 0 \<le> ssocks i" "\<forall>i. peer (csocks i) = ssocks i"
  shows "\<exists>ces' ses'. tcp_attach csocks n ces = Inr ces' \<and> tcp_attach ssocks n ses = Inr ses'
    \<and> list_all2 (\<lambda>c s. peer (te_rpc_sock c) = te_rpc_sock s \<and> peer (te_bulk_sock c) = te_bulk_sock s) ces' ses'"
  using tcp_attach_Inr [OF assms(1,4), of n] tcp_attach_Inr [OF assms(2,5), of n] assms(3,6) by (auto simp: list_all2_conv_all_nth)

lemma th_ports_eq: "port \<noteq> 0 \<Longrightarrow> unat port + 2 * n < 2 ^ 16 \<Longrightarrow> th_ports port n = map (\<lambda>i. port + of_nat i) [0..<2 * n]"
proof (induction n arbitrary: port)
  case 0
  then show ?case by simp
next
  case (Suc n)
  have u: "unat (port + 2) = unat port + 2" using Suc.prems(2) by (simp add: unat_word_ariths)
  then have "port + 2 \<noteq> 0" by (metis add_is_0 unat_0 zero_neq_numeral)
  moreover have "[0..<2 * Suc n] = 0 # 1 # map (\<lambda>i. i + 2) [0..<2 * n]"
  proof -
    have "map (\<lambda>i. i + 2) [0..<2 * n] = [2..<2 * n + 2]" by (rule map_add_upt)
    moreover have "[0..<2 * Suc n] = 0 # 1 # [2..<2 * n + 2]" by (simp add: upt_conv_Cons numeral_2_eq_2 del: upt_Suc)
    ultimately show ?thesis by simp
  qed
  ultimately show ?case using Suc u by (simp add: comp_def ac_simps)
qed

lemma th_ports_distinct:
  assumes "port \<noteq> 0" "unat port + 2 * n < 2 ^ 16"
  shows "distinct (th_conn_port port n # th_ports port n)"
proof -
  let ?f = "\<lambda>i. port + of_nat i :: u16"
  have "?f (2 * n) = th_conn_port port n" using assms(1) by (simp add: th_conn_port_def)
  moreover have inj: "inj_on ?f {0..2 * n}"
  proof (rule inj_onI)
    fix i j
    assume ij: "i \<in> {0..2 * n}" "j \<in> {0..2 * n}" "?f i = ?f j"
    then have "unat (of_nat i :: u16) = unat (of_nat j :: u16)" by (metis add_left_cancel)
    moreover have "i < 2 ^ 16" "j < 2 ^ 16" using ij(1,2) assms(2) by auto
    ultimately show "i = j" by (simp add: unat_of_nat)
  qed
  moreover have "?f (2 * n) \<notin> ?f ` {0..<2 * n}" 
  proof
    assume "?f (2 * n) \<in> ?f ` {0..<2 * n}"
    then obtain i where "i < 2 * n" "?f (2 * n) = ?f i" by auto
    with inj_onD [OF inj, of "2 * n" i] show False by simp
  qed
  moreover have "inj_on ?f {0..<2 * n}" using inj by (rule inj_on_subset) auto
  ultimately show ?thesis unfolding th_ports_eq [OF assms] by (simp add: distinct_map del: of_nat_mult)
qed

text \<open>Saying goodbye takes every running endpoint to its end and closes both of its sockets.\<close>

definition exited_endpoint :: "tcp_Endpoint \<Rightarrow> tcp_Endpoint" where
  "exited_endpoint e = e\<lparr>te_status := Status_Exited, te_closed := te_closed e @ [te_rpc_sock e, te_bulk_sock e]\<rparr>"

lemma tcp_exit_Inr:
  "te_status e = Status_Running \<Longrightarrow> 0 < te_rpc_sock e \<Longrightarrow> 0 < te_bulk_sock e \<Longrightarrow> tcp_exit e = Inr (exited_endpoint e)"
  by (simp add: tcp_exit_def tcp_stop_def ep_stop_def ep_shutdown_def close_socket_def Let_def exited_endpoint_def)

section \<open>Comch\<close>

text \<open>
  The handle reacts to events of DOCA: a connection comes or goes, a consumer of the peer is announced
  or expires. \<open>ids\<close> are the consumer ids that DOCA gives to the endpoints.
\<close>

record comch_ConnectionHandle =
  ch_passive :: bool
  ch_conn :: "nat option"
  ch_pending_endpoints :: "comch_Endpoint list"

definition ch_associate :: "comch_ConnectionHandle \<Rightarrow> comch_Endpoint \<Rightarrow> comch_ConnectionHandle" where
  "ch_associate h e = h\<lparr>ch_pending_endpoints := ch_pending_endpoints h @ [e]\<rparr>"

definition all_running :: "comch_ConnectionHandle \<Rightarrow> bool" where
  "all_running h = list_all (\<lambda>e. ce_status e = Status_Running) (ch_pending_endpoints h)"

definition all_exited :: "comch_ConnectionHandle \<Rightarrow> bool" where
  "all_exited h = list_all (\<lambda>e. ce_status e = Status_Exited) (ch_pending_endpoints h)"

primrec prepare_endpoints :: "nat \<Rightarrow> u32 list \<Rightarrow> comch_Endpoint list \<Rightarrow> comch_Endpoint list result" where
  "prepare_endpoints mx ids [] = Inr []"
| "prepare_endpoints mx ids (e # es) =
    bnd (comch_prepare (hd ids) mx e) (\<lambda>e. bnd (prepare_endpoints mx (tl ids) es) (\<lambda>es. Inr (e # es)))"

text \<open>\<^verbatim>\<open>listen_and_accept\<close> and \<^verbatim>\<open>connect\<close> up to the wait for \<^verbatim>\<open>all_running\<close>; \<^verbatim>\<open>disconnect\<close> up to that for \<^verbatim>\<open>all_exited\<close>.\<close>

definition ch_listen_and_accept :: "nat \<Rightarrow> u32 list \<Rightarrow> comch_ConnectionHandle \<Rightarrow> comch_ConnectionHandle result" where
  "ch_listen_and_accept mx ids h = bnd (prepare_endpoints mx ids (ch_pending_endpoints h)) (\<lambda>es. Inr (h\<lparr>ch_pending_endpoints := es\<rparr>))"

definition ch_connect :: "nat \<Rightarrow> u32 list \<Rightarrow> comch_ConnectionHandle \<Rightarrow> comch_ConnectionHandle result" where
  "ch_connect mx ids h = bnd (prepare_endpoints mx ids (ch_pending_endpoints h)) (\<lambda>es. Inr (h\<lparr>ch_pending_endpoints := es\<rparr>))"

definition ch_disconnect :: "comch_ConnectionHandle \<Rightarrow> comch_ConnectionHandle result" where
  "ch_disconnect h = bnd (each_endpoint comch_stop (ch_pending_endpoints h)) (\<lambda>es. Inr (h\<lparr>ch_pending_endpoints := es\<rparr>))"

definition connect_event_cb :: "nat \<Rightarrow> comch_ConnectionHandle \<Rightarrow> comch_ConnectionHandle" where
  "connect_event_cb c h = (if ch_conn h = None then h\<lparr>ch_conn := Some c\<rparr> else h)"

definition disconnect_event_cb :: "nat \<Rightarrow> comch_ConnectionHandle \<Rightarrow> comch_ConnectionHandle" where
  "disconnect_event_cb c h = (if ch_conn h = Some c then h\<lparr>ch_conn := None\<rparr> else h)"

definition consumer_event :: "(comch_Endpoint \<Rightarrow> comch_Endpoint result) \<Rightarrow> nat \<Rightarrow> u32 \<Rightarrow> comch_ConnectionHandle \<Rightarrow> comch_ConnectionHandle result" where
  "consumer_event f c remote_consumer_id h =
    (if ch_conn h \<noteq> Some c then Inr h
     else bnd (each_endpoint (\<lambda>e. if ce_consumer_id e = remote_consumer_id then f e else Inr e) (ch_pending_endpoints h)) (\<lambda>es.
       Inr (h\<lparr>ch_pending_endpoints := es\<rparr>)))"

definition server_new_consumer_event_cb :: "nat \<Rightarrow> u32 \<Rightarrow> comch_ConnectionHandle \<Rightarrow> comch_ConnectionHandle result" where
  "server_new_consumer_event_cb c i = consumer_event (comch_run i) c i"
definition server_expired_consumer_event_cb :: "nat \<Rightarrow> u32 \<Rightarrow> comch_ConnectionHandle \<Rightarrow> comch_ConnectionHandle result" where
  "server_expired_consumer_event_cb = consumer_event comch_stop"
definition client_new_consumer_event_cb :: "nat \<Rightarrow> u32 \<Rightarrow> comch_ConnectionHandle \<Rightarrow> comch_ConnectionHandle result" where
  "client_new_consumer_event_cb c i = consumer_event (comch_run i) c i"
definition client_expired_consumer_event_cb :: "nat \<Rightarrow> u32 \<Rightarrow> comch_ConnectionHandle \<Rightarrow> comch_ConnectionHandle result" where
  "client_expired_consumer_event_cb = consumer_event comch_stop"

text \<open>
  Terminating or establishing through \<^verbatim>\<open>ConnectionHolder\<close> chooses by the side of the handle; the passive
  side joins the daemon that runs \<^verbatim>\<open>wait_for_disconnect\<close>.
\<close>

definition terminate_connections :: "bool \<Rightarrow> ('h \<Rightarrow> 'r) \<Rightarrow> ('h \<Rightarrow> 'r) \<Rightarrow> 'h \<Rightarrow> 'r" where
  "terminate_connections passive daemon disconnect h = (if passive then daemon h else disconnect h)"

definition establish_connections :: "bool \<Rightarrow> ('h \<Rightarrow> 'r) \<Rightarrow> ('h \<Rightarrow> 'r) \<Rightarrow> 'h \<Rightarrow> 'r" where
  "establish_connections passive listen_and_accept connect h = (if passive then listen_and_accept h else connect h)"

text \<open>
  The events a handle sees while it is in use: consumers are announced and expire, an endpoint's own
  consumer becomes idle, and the client may disconnect.
\<close>

datatype comch_event = New_consumer u32 | Expired_consumer u32 | Consumer_idle nat | Disconnect

definition comch_step :: "nat \<Rightarrow> comch_event \<Rightarrow> comch_ConnectionHandle \<Rightarrow> comch_ConnectionHandle result" where
  "comch_step c ev h = (case ev of
     New_consumer i \<Rightarrow> if ch_passive h then server_new_consumer_event_cb c i h else client_new_consumer_event_cb c i h
   | Expired_consumer i \<Rightarrow> if ch_passive h then server_expired_consumer_event_cb c i h else client_expired_consumer_event_cb c i h
   | Consumer_idle k \<Rightarrow>
       (if k < length (ch_pending_endpoints h)
        then bnd (consumer_state_change_cb True (ch_pending_endpoints h ! k)) (\<lambda>e. Inr (h\<lparr>ch_pending_endpoints := (ch_pending_endpoints h)[k := e]\<rparr>))
        else Inr h)
   | Disconnect \<Rightarrow> ch_disconnect h)"

primrec comch_run_events :: "nat \<Rightarrow> comch_event list \<Rightarrow> comch_ConnectionHandle \<Rightarrow> comch_ConnectionHandle result" where
  "comch_run_events c [] h = Inr h"
| "comch_run_events c (ev # evs) h = bnd (comch_step c ev h) (comch_run_events c evs)"

lemma each_endpoint_id: "(\<And>e. e \<in> set es \<Longrightarrow> f e = Inr e) \<Longrightarrow> each_endpoint f es = Inr es"
  using each_endpoint_Inr [of es f id] by simp

text \<open>Late events of a peer's consumer do not touch an endpoint that was stopped: its consumer id is 0.\<close>

definition late_event :: "comch_event \<Rightarrow> bool" where
  "late_event ev = (case ev of Expired_consumer i \<Rightarrow> i \<noteq> 0 | Consumer_idle _ \<Rightarrow> True | _ \<Rightarrow> False)"

definition idle_events :: "comch_event list \<Rightarrow> nat list" where
  "idle_events evs = concat (map (\<lambda>ev. case ev of Consumer_idle k \<Rightarrow> [k] | _ \<Rightarrow> []) evs)"

lemma late_events_exit:
  assumes "\<forall>ev \<in> set evs. late_event ev" "distinct (idle_events evs)" "\<forall>k \<in> set (idle_events evs). k < length (ch_pending_endpoints h)"
    and "\<forall>e \<in> set (ch_pending_endpoints h). ce_consumer_id e = 0"
    and "\<forall>k < length (ch_pending_endpoints h). ce_status (ch_pending_endpoints h ! k) = (if k \<in> set (idle_events evs) then Status_Stopping else Status_Exited)"
  shows "\<exists>h'. comch_run_events c evs h = Inr h' \<and> all_exited h' \<and> length (ch_pending_endpoints h') = length (ch_pending_endpoints h)"
  using assms
proof (induction evs arbitrary: h)
  case Nil
  then show ?case by (simp add: all_exited_def list_all_length idle_events_def)
next
  case (Cons ev evs)
  show ?case
  proof (cases ev)
    case (Expired_consumer i)
    with Cons.prems have "comch_step c ev h = Inr h"
      by (simp add: comch_step_def late_event_def server_expired_consumer_event_cb_def client_expired_consumer_event_cb_def consumer_event_def each_endpoint_id)
    moreover have "idle_events (ev # evs) = idle_events evs" using Expired_consumer by (simp add: idle_events_def)
    ultimately show ?thesis using Cons.IH [of h] Cons.prems by simp
  next
    case (Consumer_idle k)
    let ?es = "ch_pending_endpoints h"
    have i: "idle_events (ev # evs) = k # idle_events evs" using Consumer_idle by (simp add: idle_events_def)
    then have k: "k < length ?es" "ce_status (?es ! k) = Status_Stopping" "k \<notin> set (idle_events evs)" using Cons.prems by auto
    let ?h = "h\<lparr>ch_pending_endpoints := ?es[k := (?es ! k)\<lparr>ce_status := Status_Exited\<rparr>]\<rparr>"
    have s: "comch_step c ev h = Inr ?h"
      using Consumer_idle k by (simp add: comch_step_def consumer_state_change_cb_def ep_shutdown_def)
    have "\<forall>e \<in> set (ch_pending_endpoints ?h). ce_consumer_id e = 0"
      using Cons.prems(4) k(1) by (auto dest!: subsetD [OF set_update_subset_insert])
    moreover have "ce_status (ch_pending_endpoints ?h ! j) = (if j \<in> set (idle_events evs) then Status_Stopping else Status_Exited)"
      if "j < length (ch_pending_endpoints ?h)" for j
      using that Cons.prems(5) k i by (cases "j = k") auto
    ultimately have "\<exists>h'. comch_run_events c evs ?h = Inr h' \<and> all_exited h' \<and> length (ch_pending_endpoints h') = length (ch_pending_endpoints ?h)"
      using Cons.prems i by (intro Cons.IH) auto
    with s show ?thesis by simp
  qed (use Cons.prems in \<open>simp_all add: late_event_def\<close>)
qed

text \<open>
  C26. Disconnecting a Comch client is safe. After all its endpoints were stopped, the events that are
  still on their way (consumers of the peer that expire, each of its own consumers becoming idle, in
  any order) violate no assertion and stop no endpoint a second time; in the end every endpoint has
  exited.
\<close>

theorem comch_disconnect_clean:
  assumes "all_running h" "\<forall>ev \<in> set evs. late_event ev" "distinct (idle_events evs)" "set (idle_events evs) = {0..<length (ch_pending_endpoints h)}"
  shows "\<exists>h'. comch_run_events c (Disconnect # evs) h = Inr h' \<and> all_exited h'"
proof -
  let ?es = "ch_pending_endpoints h"
  let ?stop = "\<lambda>e. e\<lparr>ce_status := Status_Stopping, ce_pro_running := False, ce_consumer_id := 0, ce_con_running := False, ce_dma_running := False\<rparr>"
  have "each_endpoint comch_stop ?es = Inr (map ?stop ?es)"
    using assms(1) by (intro each_endpoint_Inr) (simp add: comch_stop_def ep_stop_def all_running_def list_all_iff)
  then have d: "comch_step c Disconnect h = Inr (h\<lparr>ch_pending_endpoints := map ?stop ?es\<rparr>)" by (simp add: comch_step_def ch_disconnect_def)
  have "\<exists>h'. comch_run_events c evs (h\<lparr>ch_pending_endpoints := map ?stop ?es\<rparr>) = Inr h' \<and> all_exited h'
      \<and> length (ch_pending_endpoints h') = length (ch_pending_endpoints (h\<lparr>ch_pending_endpoints := map ?stop ?es\<rparr>))"
    using assms by (intro late_events_exit) auto
  with d show ?thesis by auto
qed

theorem comch_disconnect_clean_witness:
  "\<exists>h'. comch_run_events 0 [Disconnect, Expired_consumer 7, Consumer_idle 0, Expired_consumer 7]
      \<lparr>ch_passive = False, ch_conn = Some 0, ch_pending_endpoints = [\<lparr>ce_status = Status_Running, ce_consumer_id = 7, ce_con_running = True,
        ce_pro_running = True, ce_dma_running = True, ce_r_mmap = None, ce_max_bulk_task_size = 4\<rparr>]\<rparr> = Inr h' \<and> all_exited h'"
  using comch_disconnect_clean [of "\<lparr>ch_passive = False, ch_conn = Some 0, ch_pending_endpoints = [\<lparr>ce_status = Status_Running, ce_consumer_id = 7,
        ce_con_running = True, ce_pro_running = True, ce_dma_running = True, ce_r_mmap = None, ce_max_bulk_task_size = 4\<rparr>]\<rparr>"
      "[Expired_consumer 7, Consumer_idle 0, Expired_consumer 7]" 0]
  by (simp add: all_running_def late_event_def idle_events_def)

section \<open>RDMA\<close>

text \<open>Continuing after a call that may not return.\<close>

definition obnd :: "'a result option \<Rightarrow> ('a \<Rightarrow> 'b result option) \<Rightarrow> 'b result option" where
  "obnd m f = (case m of None \<Rightarrow> None | Some (Inl e) \<Rightarrow> Some (Inl e) | Some (Inr x) \<Rightarrow> f x)"

lemma obnd_simps [simp]: "obnd None f = None" "obnd (Some (Inl e)) f = Some (Inl e)" "obnd (Some (Inr x)) f = f x"
  by (simp_all add: obnd_def)

text \<open>
  The state of the connection socket: the number of reads so far, what the peer still sends, and what
  was written. \<open>exchange_desc\<close> returns the descriptor of the peer, with which the connection is made; the
  passive side reads first.
\<close>

type_synonym sock_io = "nat \<times> u8 list \<times> u8 list"

definition exchange_desc :: "bool \<Rightarrow> (nat \<Rightarrow> nat option) \<Rightarrow> nat option \<Rightarrow> nat option \<Rightarrow> u8 list \<Rightarrow> sock_io \<Rightarrow> (u8 list \<times> sock_io) result option" where
  "exchange_desc passive \<sigma> n1 n2 local_desc io = (case io of (i, inp, out) \<Rightarrow>
    if passive
    then obnd (read_string_with_header \<sigma> i inp) (\<lambda>(remote_desc, inp, i).
         obnd (Some (write_string_with_header n1 n2 out local_desc)) (\<lambda>out. Some (Inr (remote_desc, i, inp, out))))
    else obnd (Some (write_string_with_header n1 n2 out local_desc)) (\<lambda>out.
         obnd (read_string_with_header \<sigma> i inp) (\<lambda>(remote_desc, inp, i). Some (Inr (remote_desc, i, inp, out)))))"

text \<open>\<open>descs\<close> are the descriptors DOCA exports for the control and the data path of an endpoint.\<close>

definition rdma_attach :: "bool \<Rightarrow> (nat \<Rightarrow> nat option) \<Rightarrow> nat option \<Rightarrow> nat option \<Rightarrow> u8 list \<times> u8 list \<Rightarrow> rdma_Endpoint \<Rightarrow> sock_io
    \<Rightarrow> (rdma_Endpoint \<times> sock_io) result option" where
  "rdma_attach passive \<sigma> n1 n2 descs e io =
    obnd (Some (rdma_prepare e)) (\<lambda>e.
    obnd (exchange_desc passive \<sigma> n1 n2 (fst descs) io) (\<lambda>(cp, io).
    let e = e\<lparr>re_cp_conn := Some cp\<rparr> in
    obnd (if re_enable_data_path e
          then obnd (exchange_desc passive \<sigma> n1 n2 (snd descs) io) (\<lambda>(dp, io). Some (Inr (e\<lparr>re_dp_conn := Some dp\<rparr>, io)))
          else Some (Inr (e, io))) (\<lambda>(e, io).
      Some (bnd (ep_run (re_status e)) (\<lambda>st. Inr (e\<lparr>re_status := st\<rparr>, io))))))"

primrec rdma_attach_all :: "bool \<Rightarrow> (nat \<Rightarrow> nat option) \<Rightarrow> nat option \<Rightarrow> nat option \<Rightarrow> ((u8 list \<times> u8 list) \<times> rdma_Endpoint) list \<Rightarrow> sock_io
    \<Rightarrow> (rdma_Endpoint list \<times> sock_io) result option" where
  "rdma_attach_all passive \<sigma> n1 n2 [] io = Some (Inr ([], io))"
| "rdma_attach_all passive \<sigma> n1 n2 (x # xs) io =
    obnd (rdma_attach passive \<sigma> n1 n2 (fst x) (snd x) io) (\<lambda>(e, io).
    obnd (rdma_attach_all passive \<sigma> n1 n2 xs io) (\<lambda>(es, io). Some (Inr (e # es, io))))"

definition rh_listen_and_accept :: "(nat \<Rightarrow> nat option) \<Rightarrow> nat option \<Rightarrow> nat option \<Rightarrow> ((u8 list \<times> u8 list) \<times> rdma_Endpoint) list \<Rightarrow> u8 list
    \<Rightarrow> (rdma_Endpoint list \<times> sock_io) result option" where
  "rh_listen_and_accept \<sigma> n1 n2 es inp = rdma_attach_all True \<sigma> n1 n2 es (0, inp, [])"

definition rh_connect :: "(nat \<Rightarrow> nat option) \<Rightarrow> nat option \<Rightarrow> nat option \<Rightarrow> ((u8 list \<times> u8 list) \<times> rdma_Endpoint) list \<Rightarrow> u8 list
    \<Rightarrow> (rdma_Endpoint list \<times> sock_io) result option" where
  "rh_connect \<sigma> n1 n2 es inp = rdma_attach_all False \<sigma> n1 n2 es (0, inp, [])"

definition rh_wait_for_disconnect :: "(nat \<Rightarrow> nat option) \<Rightarrow> u8 list \<Rightarrow> rdma_Endpoint list \<Rightarrow> rdma_Endpoint list result option" where
  "rh_wait_for_disconnect \<sigma> inp es = obnd (read_string \<sigma> 0 inp 1) (\<lambda>_. Some (each_endpoint rdma_stop es))"

definition rh_disconnect :: "nat option \<Rightarrow> u8 list \<Rightarrow> rdma_Endpoint list \<Rightarrow> (u8 list \<times> rdma_Endpoint list) result" where
  "rh_disconnect n out es = bnd (write_string n out [0x30]) (\<lambda>out. bnd (each_endpoint rdma_stop es) (\<lambda>es. Inr (out, es)))"

text \<open>A descriptor on the wire, and those of an endpoint.\<close>

definition framed :: "u8 list \<Rightarrow> u8 list" where
  "framed d = u64_bytes (of_nat (length d)) @ d"

definition framed_descs :: "(u8 list \<times> u8 list) \<times> rdma_Endpoint \<Rightarrow> u8 list" where
  "framed_descs x = framed (fst (fst x)) @ (if re_enable_data_path (snd x) then framed (snd (fst x)) else [])"

text \<open>The endpoint connected to a peer with the descriptors \<open>d\<close>.\<close>

definition attached :: "rdma_Endpoint \<Rightarrow> u8 list \<times> u8 list \<Rightarrow> rdma_Endpoint" where
  "attached e d = e\<lparr>re_status := Status_Running, re_ctrl_path_running := True, re_data_path_running := re_enable_data_path e,
     re_cp_conn := Some (fst d), re_dp_conn := (if re_enable_data_path e then Some (snd d) else re_dp_conn e)\<rparr>"

definition descs_fit :: "nat \<Rightarrow> u8 list \<times> u8 list \<Rightarrow> bool" where
  "descs_fit n d \<longleftrightarrow> length (fst d) \<le> n \<and> length (snd d) \<le> n \<and> length (fst d) < 2 ^ 64 \<and> length (snd d) < 2 ^ 64"

lemma read_framed:
  assumes "\<forall>i. \<sigma> i \<noteq> None" "length d < 2 ^ 64"
  shows "\<exists>j. read_string_with_header \<sigma> i (framed d @ rest) = Some (Inr (d, rest, j))"
proof -
  from read_string_correct [OF assms(1), of 8 "framed d @ rest" i] obtain k where
    k: "read_string \<sigma> i (framed d @ rest) 8 = Some (Inr (u64_bytes (of_nat (length d)), d @ rest, k))" by (auto simp: framed_def)
  from read_string_correct [OF assms(1), of "length d" "d @ rest" k] k assms(2) show ?thesis
    by (auto simp: read_string_with_header_def unat_of_nat_u64)
qed

lemma exchange_desc_Inr:
  assumes "\<forall>i. \<sigma> i \<noteq> None" "8 \<le> n1" "length a \<le> n2" "length b < 2 ^ 64"
  shows "\<exists>j. exchange_desc passive \<sigma> (Some n1) (Some n2) a (i, framed b @ rest, out) = Some (Inr (b, j, rest, out @ framed a))"
proof -
  have "write_string_with_header (Some n1) (Some n2) out a = Inr (out @ framed a)"
    using assms(2,3) by (simp add: write_string_with_header_def write_string_def framed_def)
  with read_framed [OF assms(1,4), of i rest] show ?thesis by (auto simp: exchange_desc_def)
qed

lemma rdma_attach_Inr:
  assumes "\<forall>i. \<sigma> i \<noteq> None" "8 \<le> n1" "re_status e = Status_Idle" "descs_fit n2 a" "descs_fit n2 b"
  shows "\<exists>j. rdma_attach passive \<sigma> (Some n1) (Some n2) a e (i, framed_descs (b, e) @ rest, out)
    = Some (Inr (attached e b, j, rest, out @ framed_descs (a, e)))"
proof -
  let ?dp = "if re_enable_data_path e then framed (snd b) else []"
  from exchange_desc_Inr [of \<sigma> n1 "fst a" n2 "fst b" "passive" i "?dp @ rest" out] assms obtain j where
    j: "exchange_desc passive \<sigma> (Some n1) (Some n2) (fst a) (i, framed (fst b) @ ?dp @ rest, out) = Some (Inr (fst b, j, ?dp @ rest, out @ framed (fst a)))"
    by (auto simp: descs_fit_def)
  from exchange_desc_Inr [of \<sigma> n1 "snd a" n2 "snd b" "passive" j rest "out @ framed (fst a)"] assms obtain k where
    k: "exchange_desc passive \<sigma> (Some n1) (Some n2) (snd a) (j, framed (snd b) @ rest, out @ framed (fst a)) = Some (Inr (snd b, k, rest, (out @ framed (fst a)) @ framed (snd a)))"
    by (auto simp: descs_fit_def)
  from j k assms(3) show ?thesis
    by (cases "re_enable_data_path e") (simp_all add: rdma_attach_def rdma_prepare_def ep_defs framed_descs_def attached_def)
qed

lemma rdma_attach_all_Inr:
  assumes "\<forall>i. \<sigma> i \<noteq> None" "8 \<le> n1"
    and "\<forall>(a, b, e) \<in> set xs. re_status e = Status_Idle \<and> descs_fit n2 a \<and> descs_fit n2 b"
  shows "\<exists>j. rdma_attach_all passive \<sigma> (Some n1) (Some n2) (map (\<lambda>(a, b, e). (a, e)) xs) (i, concat (map (\<lambda>(a, b, e). framed_descs (b, e)) xs) @ rest, out)
    = Some (Inr (map (\<lambda>(a, b, e). attached e b) xs, j, rest, out @ concat (map (\<lambda>(a, b, e). framed_descs (a, e)) xs)))"
  using assms(3)
proof (induction xs arbitrary: i out)
  case Nil
  then show ?case by simp
next
  case (Cons x xs)
  obtain a b e where x: "x = (a, b, e)" by (cases x)
  let ?in = "concat (map (\<lambda>(a, b, e). framed_descs (b, e)) xs) @ rest"
  from rdma_attach_Inr [OF assms(1,2), of e n2 a b "passive" i ?in out] Cons.prems x obtain k where
    k: "rdma_attach passive \<sigma> (Some n1) (Some n2) a e (i, framed_descs (b, e) @ ?in, out) = Some (Inr (attached e b, k, ?in, out @ framed_descs (a, e)))" by auto
  from Cons.IH [of k "out @ framed_descs (a, e)"] Cons.prems k x show ?case by auto
qed

text \<open>
  When both sides attach the same number of endpoints, with a data path on both sides or on neither,
  each sends what the other reads, every pair of endpoints is connected control path to control path
  and data path to data path, and all run.
\<close>

lemma rdma_connects:
  assumes "\<forall>i. \<sigma> i \<noteq> None" "\<forall>i. \<sigma>' i \<noteq> None" "8 \<le> n1"
    and "\<forall>(a, b, c, s) \<in> set xs. re_status c = Status_Idle \<and> re_status s = Status_Idle \<and> re_enable_data_path c = re_enable_data_path s
      \<and> descs_fit n2 a \<and> descs_fit n2 b"
  shows "\<exists>ca sa i j. rh_connect \<sigma> (Some n1) (Some n2) (map (\<lambda>(a, b, c, s). (a, c)) xs) sa = Some (Inr (map (\<lambda>(a, b, c, s). attached c b) xs, i, [], ca))
    \<and> rh_listen_and_accept \<sigma>' (Some n1) (Some n2) (map (\<lambda>(a, b, c, s). (b, s)) xs) ca = Some (Inr (map (\<lambda>(a, b, c, s). attached s a) xs, j, [], sa))"
proof -
  let ?cs = "map (\<lambda>(a, b, c, s). (a, b, c)) xs" and ?ss = "map (\<lambda>(a, b, c, s). (b, a, s)) xs"
  let ?ca = "concat (map (\<lambda>(a, b, c, s). framed_descs (a, c)) xs)" and ?sa = "concat (map (\<lambda>(a, b, c, s). framed_descs (b, s)) xs)"
  have e: "?sa = concat (map (\<lambda>(a, b, c, s). framed_descs (b, c)) xs)" "?ca = concat (map (\<lambda>(a, b, c, s). framed_descs (a, s)) xs)"
    using assms(4) by (fastforce simp: framed_descs_def intro!: arg_cong [of _ _ concat] map_cong)+
  have "\<exists>i. rh_connect \<sigma> (Some n1) (Some n2) (map (\<lambda>(a, b, c, s). (a, c)) xs) ?sa = Some (Inr (map (\<lambda>(a, b, c, s). attached c b) xs, i, [], ?ca))"
    using rdma_attach_all_Inr [OF assms(1,3), of ?cs n2 False 0 "[]" "[]"] assms(4)
    unfolding e(1) rh_connect_def by (force simp: comp_def case_prod_unfold)
  moreover have "\<exists>j. rh_listen_and_accept \<sigma>' (Some n1) (Some n2) (map (\<lambda>(a, b, c, s). (b, s)) xs) ?ca = Some (Inr (map (\<lambda>(a, b, c, s). attached s a) xs, j, [], ?sa))"
    using rdma_attach_all_Inr [OF assms(2,3), of ?ss n2 True 0 "[]" "[]"] assms(4)
    unfolding e(2) rh_listen_and_accept_def by (force simp: comp_def case_prod_unfold)
  ultimately show ?thesis by blast
qed

end
