(* ===== verification/Native_Partition.thy ===== *)
theory Native_Partition
  imports Object_Walker Partition_Buffer
begin

text \<open>
  \<^verbatim>\<open>app/naive_offload_serde_server/naive_offload_serde_server.cxx\<close>: how the offload server splits a
  buffer of serialized key-value records into 32 partitions, and which task it takes next. The
  records are found by the total length with which every serialized object begins. Reads outside the
  data, which the source does not check, are \<open>Out_of_bounds\<close>.
\<close>

section \<open>The partitioner\<close>

definition java_string_hash :: "u8 list \<Rightarrow> u64" where
  "java_string_hash data = foldl (\<lambda>h v. h * 31 + ucast v) 0 data"

definition get_object :: "u8 list \<Rightarrow> nat \<Rightarrow> (u8 list \<times> nat) result" where
  "get_object data offset =
    (if offset + 8 \<le> length data
     then let len = unat (bytes_u64 (chunk data offset 8)) in
          if offset + len \<le> length data then Inr (chunk data offset len, offset + len) else Inl Out_of_bounds
     else Inl Out_of_bounds)"

definition partition_of :: "u8 list \<Rightarrow> nat" where
  "partition_of key = unat (java_string_hash key mod 32)"

text \<open>One iteration of the loop, and the loop; \<open>None\<close> is a loop that does not end.\<close>

definition partition_record :: "u8 list \<Rightarrow> nat \<Rightarrow> u8 list list \<Rightarrow> (nat \<times> u8 list list) result" where
  "partition_record data offset results =
    bnd (get_object data offset) (\<lambda>(key, offset).
    bnd (get_object data offset) (\<lambda>(value, offset).
    let pid = partition_of key in Inr (offset, results[pid := results ! pid @ key @ value])))"

partial_function (option) partition_loop :: "u8 list \<Rightarrow> nat \<Rightarrow> u8 list list \<Rightarrow> u8 list list result option" where
  "partition_loop data offset results =
    (if offset < length data
     then case partition_record data offset results of
            Inl e \<Rightarrow> Some (Inl e)
          | Inr st \<Rightarrow> partition_loop data (fst st) (snd st)
     else Some (Inr results))"

definition partition_header :: "nat \<Rightarrow> u8 list \<Rightarrow> u8 list" where
  "partition_header i result = patch (patch result 0 (u64_bytes (of_nat i))) 8 (u64_bytes (of_nat (length result)))"

definition native_partition :: "u8 list \<Rightarrow> u8 list list result option" where
  "native_partition data =
    Option.bind (partition_loop data 0 (replicate 32 (replicate sizeof_PartitionDataHeader 0))) (\<lambda>r.
      Some (bnd r (\<lambda>results. Inr (map (\<lambda>i. partition_header i (results ! i)) [0..<32]))))"

section \<open>Partitioning in Java\<close>

text \<open>
  \<^verbatim>\<open>jvm_partition\<close> of \<^verbatim>\<open>app/naive_offload_server\<close>: \<open>doPartition\<close> is the static method of the Java class, \<open>None\<close>
  an exception. The four bytes a Java stream begins with are replaced by the header.
\<close>

definition jvm_partition_output :: "nat \<Rightarrow> u8 list \<Rightarrow> u8 list result" where
  "jvm_partition_output i j_raw =
    bnd (check (4 \<le> length j_raw) Out_of_bounds) (\<lambda>_.
      Inr (u64_bytes (of_nat i) @ u64_bytes (of_nat (length j_raw) + of_nat sizeof_PartitionDataHeader - 4) @ drop 4 j_raw))"

primrec jvm_partition_outputs :: "u8 list list \<Rightarrow> nat list \<Rightarrow> u8 list list result" where
  "jvm_partition_outputs outs [] = Inr []"
| "jvm_partition_outputs outs (i # is) =
    bnd (check (i < length outs) Out_of_bounds) (\<lambda>_.
    bnd (jvm_partition_output i (outs ! i)) (\<lambda>r.
    bnd (jvm_partition_outputs outs is) (\<lambda>rs. Inr (r # rs))))"

definition jvm_partition :: "nat \<Rightarrow> (u8 list \<Rightarrow> nat \<Rightarrow> u8 list list option) \<Rightarrow> u8 list \<Rightarrow> u8 list list result" where
  "jvm_partition np doPartition data =
    (case doPartition data np of None \<Rightarrow> Inl Die | Some outs \<Rightarrow> jvm_partition_outputs outs [0..<np])"

section \<open>The next task of the server\<close>

text \<open>Tasks of this node come before those of the other one. The flag says that the task is from there.\<close>

definition next_task :: "'t list \<times> 't list \<Rightarrow> (('t \<times> bool) \<times> 't list \<times> 't list) option" where
  "next_task qs = (case qs of
     (t # lntq, rntq) \<Rightarrow> Some ((t, False), lntq, rntq)
   | ([], t # rntq) \<Rightarrow> Some ((t, True), [], rntq)
   | ([], []) \<Rightarrow> None)"

section \<open>Records\<close>

text \<open>An object on the wire: its first eight bytes are its length. Serialized values are of this form.\<close>

definition sized :: "u8 list \<Rightarrow> bool" where
  "sized x \<longleftrightarrow> 8 \<le> length x \<and> unat (bytes_u64 (take 8 x)) = length x"

lemma sized_serialized:
  assumes "length (serialized cv t) < 2 ^ 64"
  shows "sized (serialized cv t)"
proof -
  have l: "8 \<le> length (ser cv UNREGISTERED_CLASS_ID t (replicate 8 0))"
    using ser_length_ge [of "replicate 8 0" cv UNREGISTERED_CLASS_ID t] by simp
  then have "length (serialized cv t) = length (ser cv UNREGISTERED_CLASS_ID t (replicate 8 0))"
    by (simp add: serialized_def Let_def)
  with l assms show ?thesis by (simp add: sized_def serialized_def Let_def patch_def unat_of_nat_u64)
qed

lemma get_object_sized:
  assumes "sized x"
  shows "get_object (pre @ x @ rest) (length pre) = Inr (x, length pre + length x)"
proof -
  have "take 8 (x @ rest) = take 8 x" using assms by (simp add: sized_def)
  then show ?thesis using assms by (simp add: get_object_def chunk_def sized_def)
qed

text \<open>The contents of a partition: its records in the order of the data.\<close>

definition records_bytes :: "(u8 list \<times> u8 list) list \<Rightarrow> u8 list" where
  "records_bytes rs = concat (map (\<lambda>(k, v). k @ v) rs)"

definition partition_records :: "nat \<Rightarrow> (u8 list \<times> u8 list) list \<Rightarrow> (u8 list \<times> u8 list) list" where
  "partition_records i rs = filter (\<lambda>(k, v). partition_of k = i) rs"

lemma partition_of_bound: "partition_of key < 32"
  unfolding partition_of_def by (simp add: unat_mod unat_word_ariths(7))

lemma partition_records_length: "length (records_bytes (partition_records i rs)) \<le> length (records_bytes rs)"
  by (induction rs) (auto simp: records_bytes_def partition_records_def)

lemma partition_record_sized:
  assumes "sized k" "sized v"
  shows "partition_record (pre @ k @ v @ rest) (length pre) results =
    Inr (length (pre @ k @ v), results[partition_of k := results ! partition_of k @ k @ v])"
proof -
  have "get_object (pre @ k @ v @ rest) (length pre + length k) = Inr (v, length pre + length k + length v)"
    using get_object_sized [OF assms(2), of "pre @ k" rest] by simp
  with get_object_sized [OF assms(1), of pre "v @ rest"] show ?thesis by (simp add: partition_record_def Let_def)
qed

lemma partition_loop_records:
  assumes "\<forall>(k, v) \<in> set rs. sized k \<and> sized v" "length results = 32"
  shows "partition_loop (pre @ records_bytes rs) (length pre) results
    = Some (Inr (map (\<lambda>i. results ! i @ records_bytes (partition_records i rs)) [0..<32]))"
  using assms
proof (induction rs arbitrary: pre results)
  case Nil
  then show ?case
    by (subst partition_loop.simps) (auto simp: records_bytes_def partition_records_def intro!: nth_equalityI)
next
  case (Cons r rs)
  obtain k v where r: "r = (k, v)" by (cases r)
  with Cons.prems have kv: "sized k" "sized v" by auto
  let ?p = "partition_of k"
  have d: "pre @ records_bytes (r # rs) = (pre @ k @ v) @ records_bytes rs" by (simp add: records_bytes_def r)
  have "0 < length k" using kv unfolding sized_def by linarith
  then have "partition_loop (pre @ records_bytes (r # rs)) (length pre) results
    = partition_loop ((pre @ k @ v) @ records_bytes rs) (length (pre @ k @ v)) (results[?p := results ! ?p @ k @ v])"
    using partition_record_sized [OF kv, of pre "records_bytes rs" results]
    by (subst partition_loop.simps) (simp add: records_bytes_def r)
  also have "\<dots> = Some (Inr (map (\<lambda>i. results[?p := results ! ?p @ k @ v] ! i @ records_bytes (partition_records i rs)) [0..<32]))"
    using Cons.prems by (intro Cons.IH) simp_all
  also have "map (\<lambda>i. results[?p := results ! ?p @ k @ v] ! i @ records_bytes (partition_records i rs)) [0..<32]
    = map (\<lambda>i. results ! i @ records_bytes (partition_records i (r # rs))) [0..<32]"
    using Cons.prems(2) partition_of_bound [of k] by (auto simp: nth_list_update records_bytes_def partition_records_def r)
  finally show ?case .
qed

text \<open>Both partitioners produce partitions that the shuffle workers can read.\<close>

lemma partition_header_attach:
  assumes "16 + length body < 2 ^ 64" "bs = partition_header i (replicate sizeof_PartitionDataHeader 0 @ body)"
  shows "partition_id (pb_attach b bs) = of_nat i \<and> unat (total_size (pb_attach b bs)) = length bs \<and> actual_data (pb_attach b bs) = body"
  using assms unat_of_nat_u64 [of "16 + length body"]
  by (simp add: unat_of_nat_u64 partition_header_def partition_id_def total_size_def actual_data_def pb_attach_def header_partition_id_def
      header_length_def chunk_def patch_def)

lemma jvm_partition_outputs_Inr:
  assumes "\<forall>i \<in> set is. i < length outs \<and> 4 \<le> length (outs ! i)"
  shows "jvm_partition_outputs outs is = Inr (map (\<lambda>i. partition_header i (replicate sizeof_PartitionDataHeader 0 @ drop 4 (outs ! i))) is)"
  using assms
proof (induction "is")
  case (Cons i "is")
  then have "of_nat (length (outs ! i)) + 16 - 4 = (of_nat (16 + (length (outs ! i) - 4)) :: u64)" by (simp add: of_nat_diff)
  with Cons show ?case by (simp add: jvm_partition_output_def partition_header_def patch_def)
qed simp

lemma jvm_partition_Inr:
  assumes "doPartition data np = Some outs" "length outs = np" "\<forall>out \<in> set outs. 4 \<le> length out \<and> 12 + length out < 2 ^ 64"
  shows "\<exists>ps. jvm_partition np doPartition data = Inr ps \<and> length ps = np \<and> (\<forall>i < np.
    partition_id (pb_attach b (ps ! i)) = of_nat i \<and> unat (total_size (pb_attach b (ps ! i))) = length (ps ! i)
    \<and> actual_data (pb_attach b (ps ! i)) = drop 4 (outs ! i))"
proof -
  have "jvm_partition np doPartition data = Inr (map (\<lambda>i. partition_header i (replicate sizeof_PartitionDataHeader 0 @ drop 4 (outs ! i))) [0..<np])"
    using jvm_partition_outputs_Inr [of "[0..<np]" outs] assms by (simp add: jvm_partition_def)
  moreover have "16 + length (drop 4 (outs ! i)) < 2 ^ 64" if "i < np" for i
    using assms(2,3) that nth_mem [of i outs] by fastforce
  ultimately show ?thesis using partition_header_attach by (simp del: sizeof_PartitionDataHeader_def)
qed

text \<open>A record whose length is 0 is never passed.\<close>

lemma native_partition_stuck: "native_partition (replicate 16 0) = None"
proof -
  let ?d = "replicate 16 0 :: u8 list"
  have g: "get_object ?d 0 = Inr ([], 0)" by code_simp
  have "partition_loop ?d offset results = Some r \<Longrightarrow> offset \<noteq> 0" for offset results r
  proof (rule partition_loop.raw_induct [of "\<lambda>d off res r. d = ?d \<longrightarrow> off \<noteq> 0", rotated, THEN mp])
    fix f :: "u8 list \<Rightarrow> nat \<Rightarrow> u8 list list \<Rightarrow> u8 list list result option" and d off res r
    assume IH: "\<And>d off res r. f d off res = Some r \<Longrightarrow> d = ?d \<longrightarrow> off \<noteq> 0"
      and step: "(if off < length d then case partition_record d off res of Inl e \<Rightarrow> Some (Inl e) | Inr st \<Rightarrow> f d (fst st) (snd st) else Some (Inr res)) = Some r"
    show "d = ?d \<longrightarrow> off \<noteq> 0"
    proof (rule impI, rule notI)
      assume d: "d = ?d" "off = 0"
      then have "partition_record d off res = Inr (0, res[partition_of [] := res ! partition_of [] @ [] @ []])"
        by (simp add: partition_record_def g Let_def)
      with step d have "f d 0 (res[partition_of [] := res ! partition_of [] @ [] @ []]) = Some r" by simp
      from IH [OF this] d show False by simp
    qed
  qed simp_all
  then have "partition_loop ?d 0 (replicate 32 (replicate sizeof_PartitionDataHeader 0)) = None" by (metis not_Some_eq)
  then show ?thesis by (simp add: native_partition_def)
qed

text \<open>
  C31. The server partitions what the serializer writes. For a buffer of key-value records, each key and
  value the serialized form of a value, the partitioner ends and returns 32 partitions; partition \<open>i\<close>
  holds exactly the records whose key hashes to \<open>i\<close>, unchanged and in their order, behind a header
  with \<open>i\<close> and the size of the partition, so that every record is in one partition.
\<close>

theorem native_partition_correct:
  assumes "\<forall>(k, v) \<in> set ts. length (serialized cv k) < 2 ^ 64 \<and> length (serialized cv v) < 2 ^ 64"
    and "rs = map (\<lambda>(k, v). (serialized cv k, serialized cv v)) ts" "16 + length (records_bytes rs) < 2 ^ 64"
  shows "\<exists>ps. native_partition (records_bytes rs) = Some (Inr ps) \<and> length ps = 32 \<and> (\<forall>i < 32.
      partition_id (pb_attach b (ps ! i)) = of_nat i \<and> unat (total_size (pb_attach b (ps ! i))) = length (ps ! i)
      \<and> actual_data (pb_attach b (ps ! i)) = records_bytes (partition_records i rs))
    \<and> mset rs = (\<Sum>i < 32. mset (partition_records i rs))"
proof -
  let ?h = "replicate sizeof_PartitionDataHeader 0"
  have s: "\<forall>(k, v) \<in> set rs. sized k \<and> sized v" using assms(1) by (auto simp: assms(2) sized_serialized)
  let ?ps = "map (\<lambda>i. partition_header i (?h @ records_bytes (partition_records i rs))) [0..<32]"
  have "native_partition (records_bytes rs) = Some (Inr ?ps)"
    using partition_loop_records [OF s, of "replicate 32 ?h" "[]"] by (simp add: native_partition_def comp_def del: upt_rec_numeral)
  moreover have "partition_id (pb_attach b (?ps ! i)) = of_nat i \<and> unat (total_size (pb_attach b (?ps ! i))) = length (?ps ! i)
      \<and> actual_data (pb_attach b (?ps ! i)) = records_bytes (partition_records i rs)" if "i < 32" for i
    using that assms(3) partition_records_length [of i rs] partition_header_attach [of "records_bytes (partition_records i rs)" _ i b]
    by (simp del: upt_rec_numeral sizeof_PartitionDataHeader_def)
  moreover have "mset rs = (\<Sum>i < 32. mset (partition_records i rs))"
  proof (induction rs)
    case (Cons r rs)
    have "(\<Sum>i < 32. mset (partition_records i (r # rs)))
      = (\<Sum>i < 32. (if i = partition_of (fst r) then {#r#} else {#}) + mset (partition_records i rs))"
      by (intro sum.cong) (auto simp: partition_records_def)
    also have "\<dots> = {#r#} + (\<Sum>i < 32. mset (partition_records i rs))"
      using partition_of_bound [of "fst r"] by (simp add: sum.distrib sum.delta)
    finally show ?case using Cons by simp
  qed (simp add: partition_records_def)
  ultimately show ?thesis by (intro exI [of _ ?ps]) (simp del: upt_rec_numeral)
qed


text \<open>A record of two byte arrays.\<close>

definition byte_array :: "u8 \<Rightarrow> jtree" where "byte_array x = JPrims info_bytes 1 [x]"

definition one_record :: "(u8 list \<times> u8 list) list" where
  "one_record = map (\<lambda>(k, v). (serialized (\<lambda>ci elems. elems) k, serialized (\<lambda>ci elems. elems) v)) [(byte_array 7, byte_array 9)]"

theorem native_partition_correct_witness:
  "\<exists>ps. native_partition (records_bytes one_record) = Some (Inr ps) \<and> length ps = 32
    \<and> (\<forall>i < 32. actual_data (pb_attach \<lparr>mr_base = 0, mr_len = 50\<rparr> (ps ! i)) = (if i = 14 then records_bytes one_record else []))"
proof -
  have l: "length (serialized (\<lambda>ci elems. elems) (byte_array x)) = 17" for x
    by (simp add: serialized_def byte_array_def Let_def pad8_def upper_align_def)
  have p: "partition_records i one_record = (if i = 14 then one_record else [])" for i
  proof -
    have "map (\<lambda>(k, v). partition_of k) one_record = [14]" by code_simp
    then show ?thesis by (auto simp: partition_records_def one_record_def)
  qed
  have "\<forall>(k, v) \<in> set [(byte_array 7, byte_array 9)]. length (serialized (\<lambda>ci elems. elems) k) < 2 ^ 64 \<and> length (serialized (\<lambda>ci elems. elems) v) < 2 ^ 64"
    by (simp add: l)
  moreover have "16 + length (records_bytes one_record) < 2 ^ 64" by (simp add: one_record_def records_bytes_def l)
  ultimately obtain ps where "native_partition (records_bytes one_record) = Some (Inr ps)" "length ps = 32"
    "\<forall>i < 32. actual_data (pb_attach \<lparr>mr_base = 0, mr_len = 50\<rparr> (ps ! i)) = records_bytes (partition_records i one_record)"
    using native_partition_correct [OF _ one_record_def] by blast
  then show ?thesis unfolding p by (intro exI [of _ ps]) (simp add: records_bytes_def)
qed

end
