(* ===== verification/File_Fragments.thy ===== *)
theory File_Fragments
  imports DPX_Prelude
begin

text \<open>
  \<^verbatim>\<open>lib/spdk_spill/file_frag.hxx\<close>: where the blocks of a file are on the disk, asked from the file
  system in calls of \<^verbatim>\<open>ioctl\<close> that return a limited number of extents each.
\<close>

section \<open>Extents and fragments\<close>

text \<open>The parts of \<^verbatim>\<open>fiemap_extent\<close> the code uses; \<open>fe_last\<close> is the flag \<^verbatim>\<open>FIEMAP_EXTENT_LAST\<close>.\<close>

record fiemap_extent =
  fe_logical :: u64
  fe_physical :: u64
  fe_length :: u64
  fe_last :: bool

record frag_t =
  fr_length :: u64
  fr_logic_offset :: u64
  fr_physical_offset :: u64
  fr_start_lba :: u64
  fr_lba_count :: u64

definition frag_of :: "u64 \<Rightarrow> fiemap_extent \<Rightarrow> frag_t" where
  "frag_of lba_size e = \<lparr>fr_length = fe_length e, fr_logic_offset = fe_logical e, fr_physical_offset = fe_physical e,
     fr_start_lba = fe_physical e div lba_size, fr_lba_count = fe_length e div lba_size\<rparr>"

text \<open>The loop over the extents of one call; a block size of 0 is a division by zero.\<close>

primrec add_extents :: "u64 \<Rightarrow> fiemap_extent list \<Rightarrow> frag_t list \<Rightarrow> frag_t list result" where
  "add_extents lba_size [] frags = Inr frags"
| "add_extents lba_size (e # es) frags =
    bnd (check (lba_size \<noteq> 0) Out_of_bounds) (\<lambda>_.
    bnd (check (fe_length e mod lba_size = 0) Assert_fail) (\<lambda>_.
    bnd (check (fe_physical e mod lba_size = 0) Assert_fail) (\<lambda>_.
      add_extents lba_size es (frags @ [frag_of lba_size e]))))"

text \<open>How many extents fit into the buffer of a call.\<close>

definition extents_per_call :: nat where "extents_per_call = (8 * 1024 - 32) div 56"

text \<open>
  \<open>fiemap start count\<close> is the call, \<open>None\<close> its failure; a loop that does not end is \<open>None\<close> again.
\<close>

partial_function (option) fragments_loop :: "(u64 \<Rightarrow> nat \<Rightarrow> fiemap_extent list option) \<Rightarrow> u64 \<Rightarrow> u64 \<Rightarrow> frag_t list \<Rightarrow> frag_t list result option" where
  "fragments_loop fiemap lba_size start frags =
    (case fiemap start extents_per_call of
       None \<Rightarrow> Some (Inl Die)
     | Some exts \<Rightarrow>
         if exts = [] then Some (Inr frags)
         else case add_extents lba_size exts frags of
                Inl e \<Rightarrow> Some (Inl e)
              | Inr frags \<Rightarrow>
                  if list_ex fe_last exts then Some (Inr frags)
                  else fragments_loop fiemap lba_size (fe_logical (last exts) + fe_length (last exts)) frags)"

definition get_file_fragments :: "(u64 \<Rightarrow> nat \<Rightarrow> fiemap_extent list option) \<Rightarrow> u64 \<Rightarrow> frag_t list result option" where
  "get_file_fragments fiemap lba_size = fragments_loop fiemap lba_size 0 []"

section \<open>All extents of a file\<close>

definition extent_end :: "fiemap_extent \<Rightarrow> nat" where
  "extent_end e = unat (fe_logical e) + unat (fe_length e)"

text \<open>The extents of a file, in order and without overlap; at most the last one has the flag.\<close>

definition extents_ok :: "fiemap_extent list \<Rightarrow> bool" where
  "extents_ok es \<longleftrightarrow> sorted_wrt (\<lambda>a b. extent_end a \<le> unat (fe_logical b)) es
    \<and> (\<forall>e \<in> set es. fe_length e \<noteq> 0 \<and> extent_end e < 2 ^ 64) \<and> (\<forall>e \<in> set (butlast es). \<not> fe_last e)"

text \<open>The documented behaviour of the call: the first extents that end behind \<open>start\<close>.\<close>

definition fiemap_of :: "fiemap_extent list \<Rightarrow> u64 \<Rightarrow> nat \<Rightarrow> fiemap_extent list option" where
  "fiemap_of es start cnt = Some (take cnt (dropWhile (\<lambda>e. extent_end e \<le> unat start) es))"

definition aligned_extents :: "u64 \<Rightarrow> fiemap_extent list \<Rightarrow> bool" where
  "aligned_extents lba_size es \<longleftrightarrow> lba_size \<noteq> 0 \<and> (\<forall>e \<in> set es. fe_length e mod lba_size = 0 \<and> fe_physical e mod lba_size = 0)"

lemma add_extents_Inr: "aligned_extents lba_size es \<Longrightarrow> add_extents lba_size es frags = Inr (frags @ map (frag_of lba_size) es)"
  by (induction es arbitrary: frags) (simp_all add: aligned_extents_def)

lemma sorted_wrt_last: "sorted_wrt R zs \<Longrightarrow> z \<in> set zs \<Longrightarrow> R z (last zs) \<or> z = last zs"
  by (induction zs) auto

lemma fiemap_of_at:
  assumes "extents_ok (xs @ ys)" "\<forall>e \<in> set xs. extent_end e \<le> unat start" "\<forall>e \<in> set ys. unat start \<le> unat (fe_logical e)"
  shows "fiemap_of (xs @ ys) start cnt = Some (take cnt ys)"
proof -
  have "dropWhile (\<lambda>e. extent_end e \<le> unat start) ys = ys"
  proof (cases ys)
    case (Cons y ys')
    then have "0 < unat (fe_length y)" "unat start \<le> unat (fe_logical y)"
      using assms(1,3) by (simp_all add: extents_ok_def unat_gt_0)
    then have "\<not> extent_end y \<le> unat start" by (simp add: extent_end_def)
    with Cons show ?thesis by simp
  qed simp
  with assms(2) show ?thesis by (simp add: fiemap_of_def)
qed

lemma fragments_loop_correct:
  assumes "extents_ok (xs @ ys)" "aligned_extents lba_size ys"
    and "\<forall>e \<in> set xs. extent_end e \<le> unat start" "\<forall>e \<in> set ys. unat start \<le> unat (fe_logical e)"
  shows "fragments_loop (fiemap_of (xs @ ys)) lba_size start frags = Some (Inr (frags @ map (frag_of lba_size) ys))"
  using assms
proof (induction "length ys" arbitrary: xs ys start frags rule: less_induct)
  case less
  let ?n = extents_per_call
  let ?es = "take ?n ys" and ?rest = "drop ?n ys"
  have n: "0 < ?n" by (simp add: extents_per_call_def)
  have f: "fiemap_of (xs @ ys) start ?n = Some ?es" using less.prems by (intro fiemap_of_at)
  show ?case
  proof (cases "ys = []")
    case True
    with f show ?thesis by (subst fragments_loop.simps) simp
  next
    case False
    then have ne: "?es \<noteq> []" using n by simp
    have "aligned_extents lba_size ?es" "aligned_extents lba_size ?rest"
      using less.prems(2) by (auto simp: aligned_extents_def dest: in_set_takeD in_set_dropD)
    then have a: "add_extents lba_size ?es frags = Inr (frags @ map (frag_of lba_size) ?es)" by (simp add: add_extents_Inr)
    show ?thesis
    proof (cases "list_ex fe_last ?es")
      case True
      then obtain e where e: "e \<in> set ?es" "fe_last e" by (auto simp: list_ex_iff)
      have "?rest = []"
      proof (rule ccontr)
        assume r: "?rest \<noteq> []"
        then have "butlast (xs @ ys) = xs @ ?es @ butlast ?rest" by (metis append_take_drop_id butlast_append False)
        then have "e \<in> set (butlast (xs @ ys))" using e(1) by simp
        with e(2) less.prems(1) show False by (simp add: extents_ok_def)
      qed
      with True f a ne show ?thesis by (subst fragments_loop.simps) simp
    next
      case last: False
      let ?l = "last ?es"
      let ?start = "fe_logical ?l + fe_length ?l"
      have lm: "?l \<in> set ?es" using ne by simp
      then have lys: "?l \<in> set ys" by (rule in_set_takeD)
      then have "extent_end ?l < 2 ^ 64" using less.prems(1) by (simp add: extents_ok_def)
      then have s: "unat ?start = extent_end ?l" by (simp add: extent_end_def unat_word_ariths)
      have sw: "sorted_wrt (\<lambda>a b. extent_end a \<le> unat (fe_logical b)) (xs @ ?es @ ?rest)"
        using less.prems(1) by (simp add: extents_ok_def)
      then have b: "extent_end e \<le> unat (fe_logical e')" if "e \<in> set ?es" "e' \<in> set ?rest" for e e'
        using that unfolding sorted_wrt_append by blast
      have "sorted_wrt (\<lambda>a b. extent_end a \<le> unat (fe_logical b)) (xs @ ?es)"
        using sw unfolding append_assoc [symmetric] sorted_wrt_append [of _ "xs @ ?es"] by blast
      then have "extent_end e \<le> unat (fe_logical ?l) \<or> e = ?l" if "e \<in> set (xs @ ?es)" for e
        using sorted_wrt_last [OF _ that] ne by simp
      then have "extent_end e \<le> extent_end ?l" if "e \<in> set (xs @ ?es)" for e
        using that by (fastforce simp: extent_end_def)
      moreover have "\<forall>e \<in> set ?rest. unat ?start \<le> unat (fe_logical e)" using b [OF lm] s by simp
      moreover have "length ?rest < length ys" using False n by simp
      ultimately have "fragments_loop (fiemap_of ((xs @ ?es) @ ?rest)) lba_size ?start (frags @ map (frag_of lba_size) ?es)
          = Some (Inr ((frags @ map (frag_of lba_size) ?es) @ map (frag_of lba_size) ?rest))"
        using less.prems(1) \<open>aligned_extents lba_size ?rest\<close> s by (intro less.hyps) simp_all
      moreover have "map (frag_of lba_size) ?es @ map (frag_of lba_size) ?rest = map (frag_of lba_size) ys"
        by (simp flip: map_append)
      ultimately show ?thesis using last f a ne by (subst fragments_loop.simps) simp
    qed
  qed
qed

text \<open>
  C32. For a file of any number of extents, aligned to the block size, the loop ends and returns one
  fragment for every extent, in order; the blocks of a fragment are exactly those of its extent.
\<close>

theorem file_fragments_complete:
  assumes "extents_ok es" "aligned_extents lba_size es"
  shows "\<exists>frags. get_file_fragments (fiemap_of es) lba_size = Some (Inr frags) \<and> length frags = length es \<and> (\<forall>i < length es.
    fr_logic_offset (frags ! i) = fe_logical (es ! i) \<and> fr_length (frags ! i) = fe_length (es ! i)
    \<and> fr_start_lba (frags ! i) * lba_size = fe_physical (es ! i) \<and> fr_lba_count (frags ! i) * lba_size = fe_length (es ! i))"
proof -
  have "get_file_fragments (fiemap_of es) lba_size = Some (Inr (map (frag_of lba_size) es))"
    using fragments_loop_correct [of "[]" es lba_size 0 "[]"] assms by (simp add: get_file_fragments_def)
  moreover have "(w div lba_size) * lba_size = w" if "w mod lba_size = 0" for w
    using that div_mult_mod_eq [of w lba_size] by simp
  ultimately show ?thesis using assms(2) by (simp add: frag_of_def aligned_extents_def)
qed

theorem file_fragments_complete_witness:
  "\<exists>frags. get_file_fragments (fiemap_of [\<lparr>fe_logical = 0, fe_physical = 4096, fe_length = 512, fe_last = False\<rparr>,
      \<lparr>fe_logical = 512, fe_physical = 1024, fe_length = 1024, fe_last = True\<rparr>]) 512 = Some (Inr frags)
    \<and> length frags = 2"
  using file_fragments_complete [of "[\<lparr>fe_logical = 0, fe_physical = 4096, fe_length = 512, fe_last = False\<rparr>,
      \<lparr>fe_logical = 512, fe_physical = 1024, fe_length = 1024, fe_last = True\<rparr>]" 512]
  by (auto simp: extents_ok_def extent_end_def aligned_extents_def)

end
