(* ===== verification/File_Server.thy ===== *)
theory File_Server
  imports File_Fragments Endpoint
begin

text \<open>
  Spilling to a disk the DPU writes itself (\<^verbatim>\<open>app/spdk_spill_impl\<close>, \<^verbatim>\<open>lib/spdk_spill/spdk_nvme\<close>): the host creates and
  allocates files and tells where they are on the disk, the DPU writes there through an NVMe queue.
\<close>

section \<open>The file server of the host\<close>

definition NOT_OPEN :: int where "NOT_OPEN = 10086"
definition INVALID_TARGET_SIZE :: int where "INVALID_TARGET_SIZE = 10087"
definition default_lba_size :: u64 where "default_lba_size = 512"

text \<open>The table of the opened files with their sizes; \<^verbatim>\<open>emplace\<close> keeps an entry that exists.\<close>

type_synonym opened_files = "int \<Rightarrow> u64 option"

definition emplace :: "int \<Rightarrow> u64 \<Rightarrow> opened_files \<Rightarrow> opened_files" where
  "emplace fd sz t = (if t fd = None then t(fd \<mapsto> sz) else t)"

text \<open>
  The handlers. A system call gives a value, -1 for a failure, and then \<open>errno\<close>. The assertion of the second one is an
  assignment, so that it holds in no build that has it: \<open>ndebug\<close> is a build without assertions.
\<close>

definition create_handler :: "int \<times> int \<Rightarrow> opened_files \<Rightarrow> int \<times> opened_files" where
  "create_handler creat t = (let (fd, errno) = creat in if fd \<noteq> - 1 then (fd, emplace fd 0 t) else (- errno, t))"

definition open_handler :: "bool \<Rightarrow> int \<times> int \<Rightarrow> u64 \<Rightarrow> opened_files \<Rightarrow> (int \<times> opened_files) result" where
  "open_handler ndebug open st_size t =
    (let (fd, errno) = open in
     if fd \<noteq> - 1 then bnd (check ndebug Assert_fail) (\<lambda>_. Inr (fd, emplace fd st_size t)) else Inr (- errno, t))"

definition allocate_handler :: "(int \<Rightarrow> u64 \<Rightarrow> u64 \<Rightarrow> int \<times> int) \<Rightarrow> int \<Rightarrow> u64 \<Rightarrow> opened_files \<Rightarrow> int \<times> opened_files" where
  "allocate_handler fallocate fd sz t =
    (case t fd of
       None \<Rightarrow> (- NOT_OPEN, t)
     | Some len \<Rightarrow>
         if sz mod default_lba_size \<noteq> 0 then (- INVALID_TARGET_SIZE, t)
         else let (rc, errno) = fallocate fd len sz in
           if rc \<noteq> - 1 then (0, t(fd \<mapsto> len + sz)) else (- errno, t))"

definition close_handler :: "int \<times> int \<Rightarrow> int \<Rightarrow> opened_files \<Rightarrow> int \<times> opened_files" where
  "close_handler close fd t =
    (if t fd = None then (- NOT_OPEN, t)
     else let (rc, errno) = close in if rc \<noteq> - 1 then (0, t(fd := None)) else (- errno, t))"

definition filefrag_handler :: "(u64 \<Rightarrow> nat \<Rightarrow> fiemap_extent list option) \<Rightarrow> int \<Rightarrow> opened_files \<Rightarrow> frag_t list result option" where
  "filefrag_handler fiemap fd t = (if t fd = None then Some (Inr []) else get_file_fragments fiemap default_lba_size)"

section \<open>The NVMe queue\<close>

record IOContext =
  ic_op :: Op
  ic_op_res :: "int option"
  ic_buffer :: "u8 list"
  ic_start_lba :: u64
  ic_lba_count :: u64

definition ic_set_res :: "int \<Rightarrow> IOContext \<Rightarrow> IOContext result" where
  "ic_set_res v c = (case ic_op_res c of None \<Rightarrow> Inr (c\<lparr>ic_op_res := Some v\<rparr>) | Some _ \<Rightarrow> Inl Die)"

text \<open>\<open>rc\<close> is what the call that starts the command returns; the flag says that the command is on its way.\<close>

definition nvme_submit :: "int \<Rightarrow> IOContext \<Rightarrow> (IOContext \<times> bool) result" where
  "nvme_submit rc ctx =
    (if ic_lba_count ctx = 0 \<or> ic_buffer ctx = [] then bnd (ic_set_res 0 ctx) (\<lambda>ctx. Inr (ctx, False))
     else if ic_op ctx = Op_Read \<or> ic_op ctx = Op_Write
     then if rc < 0 then bnd (ic_set_res rc ctx) (\<lambda>ctx. Inr (ctx, False)) else Inr (ctx, True)
     else Inl Unreachable)"

definition nvme_cb :: "bool \<Rightarrow> IOContext \<Rightarrow> IOContext result" where
  "nvme_cb is_error ctx = ic_set_res (if is_error then - 1 else int (length (ic_buffer ctx))) ctx"

text \<open>The DPU writes a buffer to the beginning of a file it has created and allocated.\<close>

definition dpu_write_context :: "int \<Rightarrow> int \<Rightarrow> frag_t list \<Rightarrow> u64 \<Rightarrow> u8 list \<Rightarrow> IOContext result" where
  "dpu_write_context fd res frags lba_size w_buf =
    bnd (check (0 < fd) Die) (\<lambda>_.
    bnd (check (res = 0) Die) (\<lambda>_.
    bnd (check (frags \<noteq> []) Out_of_bounds) (\<lambda>_.
    bnd (check (lba_size \<noteq> 0) Out_of_bounds) (\<lambda>_.
      Inr \<lparr>ic_op = Op_Write, ic_op_res = None, ic_buffer = w_buf, ic_start_lba = fr_start_lba (frags ! 0),
           ic_lba_count = of_nat (length w_buf) div lba_size\<rparr>))))"

section \<open>The operating system and the disk\<close>

text \<open>
  What the server asks of the operating system, with the outcome. \<open>os\<close> are the open descriptors and the sizes of
  their files. A descriptor that is returned is not in use, an allocation makes the file at least as long
  as its end, and closing releases the descriptor.
\<close>

datatype file_request = Create int | Open int u64 | Allocate int u64 | Close int

fun os_allows :: "opened_files \<Rightarrow> file_request \<Rightarrow> int \<times> int \<Rightarrow> bool" where
  "os_allows os (Create fd) r \<longleftrightarrow> fst r = - 1 \<or> fst r = fd \<and> 0 \<le> fd \<and> os fd = None"
| "os_allows os (Open fd sz) r \<longleftrightarrow> fst r = - 1 \<or> fst r = fd \<and> 0 \<le> fd \<and> os fd = None"
| "os_allows os (Allocate fd sz) r \<longleftrightarrow> fst r = - 1 \<or> fst r = 0 \<and> (\<exists>len. os fd = Some len \<and> sz \<noteq> 0 \<and> unat len + unat sz < 2 ^ 63)"
| "os_allows os (Close fd) r \<longleftrightarrow> fst r = - 1 \<or> fst r = 0 \<and> os fd \<noteq> None"

definition os_fallocate :: "int \<Rightarrow> u64 \<Rightarrow> u64 \<Rightarrow> opened_files \<Rightarrow> opened_files" where
  "os_fallocate fd offset sz os = (case os fd of None \<Rightarrow> os | Some len \<Rightarrow> os(fd \<mapsto> max len (offset + sz)))"

text \<open>A request is served; the file server and the operating system change.\<close>

fun serve_file :: "file_request \<Rightarrow> int \<times> int \<Rightarrow> opened_files \<times> opened_files \<Rightarrow> (int \<times> opened_files \<times> opened_files) result" where
  "serve_file (Create fd) r (t, os) =
    (let (rc, t) = create_handler r t in Inr (rc, t, if fst r = - 1 then os else os(fd \<mapsto> 0)))"
| "serve_file (Open fd sz) r (t, os) =
    bnd (open_handler True r sz t) (\<lambda>(rc, t). Inr (rc, t, if fst r = - 1 then os else os(fd \<mapsto> sz)))"
| "serve_file (Allocate fd sz) r (t, os) =
    (let (rc, t') = allocate_handler (\<lambda>_ _ _. r) fd sz t in
     Inr (rc, t', case t fd of Some len \<Rightarrow> if sz mod default_lba_size = 0 \<and> fst r \<noteq> - 1 then os_fallocate fd len sz os else os | None \<Rightarrow> os))"
| "serve_file (Close fd) r (t, os) =
    (let (rc, t') = close_handler r fd t in Inr (rc, t', if t fd \<noteq> None \<and> fst r \<noteq> - 1 then os(fd := None) else os))"

fun serve_files :: "(file_request \<times> int \<times> int) list \<Rightarrow> opened_files \<times> opened_files \<Rightarrow> (opened_files \<times> opened_files) result" where
  "serve_files [] st = Inr st"
| "serve_files ((q, r) # qs) st = bnd (serve_file q r st) (\<lambda>(rc, st). serve_files qs st)"

fun os_allows_all :: "(file_request \<times> int \<times> int) list \<Rightarrow> opened_files \<times> opened_files \<Rightarrow> bool" where
  "os_allows_all [] st \<longleftrightarrow> True"
| "os_allows_all ((q, r) # qs) st \<longleftrightarrow> os_allows (snd st) q r
    \<and> (case serve_file q r st of Inl e \<Rightarrow> True | Inr (rc, st) \<Rightarrow> os_allows_all qs st)"

definition whole_blocks :: "opened_files \<Rightarrow> bool" where
  "whole_blocks t \<longleftrightarrow> (\<forall>fd len. t fd = Some len \<longrightarrow> len mod default_lba_size = 0)"

lemma mod_lba_iff: "x mod default_lba_size = 0 \<longleftrightarrow> unat x mod 512 = 0"
  by (simp add: default_lba_size_def flip: unat_eq_0) (simp add: unat_mod_distrib)

lemma serve_file_tracks:
  assumes "os_allows t q r"
  shows "\<exists>rc t'. serve_file q r (t, t) = Inr (rc, t', t') \<and> (whole_blocks t \<and> (\<forall>fd sz. q = Open fd sz \<longrightarrow> sz mod default_lba_size = 0) \<longrightarrow> whole_blocks t')"
proof (cases q)
  case (Create fd)
  with assms show ?thesis by (auto simp: create_handler_def emplace_def whole_blocks_def split_def)
next
  case (Open fd sz)
  with assms show ?thesis by (auto simp: open_handler_def emplace_def whole_blocks_def split_def)
next
  case (Close fd)
  with assms show ?thesis by (auto simp: close_handler_def whole_blocks_def split_def)
next
  case (Allocate fd sz)
  show ?thesis
  proof (cases "t fd \<noteq> None \<and> sz mod default_lba_size = 0 \<and> fst r \<noteq> - 1")
    case True
    then obtain len where len: "t fd = Some len" "unat len + unat sz < 2 ^ 63" using assms Allocate by auto
    then have u: "unat (len + sz) = unat len + unat sz" by (simp add: unat_word_ariths)
    then have "max len (len + sz) = len + sz" by (simp add: max_def word_le_nat_alt)
    moreover have "(len + sz) mod default_lba_size = 0" if "len mod default_lba_size = 0"
      using that True unfolding mod_lba_iff u by (metis dvd_add dvd_eq_mod_eq_0)
    ultimately show ?thesis using True len(1) Allocate
      by (auto simp: allocate_handler_def os_fallocate_def whole_blocks_def split_def)
  next
    case False
    with Allocate show ?thesis by (auto simp: allocate_handler_def split_def split: option.splits)
  qed
qed



section \<open>What the DPU writes is in the file\<close>

text \<open>A write command on a disk of bytes; a buffer that is too short would be read behind its end.\<close>

definition nvme_write :: "u64 \<Rightarrow> IOContext \<Rightarrow> (nat \<Rightarrow> u8) \<Rightarrow> (nat \<Rightarrow> u8) result" where
  "nvme_write sector c disk =
    (let start = unat (ic_start_lba c) * unat sector; n = unat (ic_lba_count c) * unat sector in
     bnd (check (n \<le> length (ic_buffer c)) Out_of_bounds) (\<lambda>_.
       Inr (\<lambda>a. if start \<le> a \<and> a < start + n then ic_buffer c ! (a - start) else disk a)))"

text \<open>The bytes of a file are those of its extents.\<close>

definition file_byte :: "fiemap_extent list \<Rightarrow> (nat \<Rightarrow> u8) \<Rightarrow> nat \<Rightarrow> u8" where
  "file_byte es disk k =
    (case find (\<lambda>e. unat (fe_logical e) \<le> k \<and> k < extent_end e) es of
       None \<Rightarrow> 0
     | Some e \<Rightarrow> disk (unat (fe_physical e) + (k - unat (fe_logical e))))"

lemma blocks_unat:
  assumes "x mod default_lba_size = 0"
  shows "unat (x div default_lba_size) * 512 = unat x"
  using assms unfolding mod_lba_iff by (simp add: default_lba_size_def unat_div_distrib) (simp add: dvd_eq_mod_eq_0)

text \<open>
  On a disk whose sectors have the size the file server counts in, the DPU writes a buffer of whole blocks that
  fits into the first extent of a file exactly to the beginning of the file and nowhere else, and the
  completed command reports its length.
\<close>

theorem spill_write_in_file:
  assumes "extents_ok (e # es)" "aligned_extents default_lba_size (e # es)" "fe_logical e = 0"
    and w: "w_buf \<noteq> []" "length w_buf mod 512 = 0" "length w_buf \<le> unat (fe_length e)" and "0 < fd" "t fd \<noteq> None"
  shows "\<exists>frags c disk'. filefrag_handler (fiemap_of (e # es)) fd t = Some (Inr frags)
    \<and> dpu_write_context fd 0 frags default_lba_size w_buf = Inr c \<and> nvme_submit 0 c = Inr (c, True)
    \<and> nvme_write default_lba_size c disk = Inr disk' \<and> map (file_byte (e # es) disk') [0..<length w_buf] = w_buf
    \<and> (\<forall>a. a < unat (fe_physical e) \<or> unat (fe_physical e) + length w_buf \<le> a \<longrightarrow> disk' a = disk a)
    \<and> nvme_cb False c = Inr (c\<lparr>ic_op_res := Some (int (length w_buf))\<rparr>)"
proof -
  let ?frags = "map (frag_of default_lba_size) (e # es)" and ?n = "of_nat (length w_buf) :: u64"
  let ?c = "\<lparr>ic_op = Op_Write, ic_op_res = None, ic_buffer = w_buf, ic_start_lba = fe_physical e div default_lba_size,
    ic_lba_count = ?n div default_lba_size\<rparr>"
  have f: "filefrag_handler (fiemap_of (e # es)) fd t = Some (Inr ?frags)"
    using fragments_loop_correct [of "[]" "e # es" default_lba_size 0 "[]"] assms
    by (simp add: filefrag_handler_def get_file_fragments_def)
  have n: "unat ?n = length w_buf" using w(3) unat_less [of "fe_length e"] by (intro unat_of_nat_u64) simp
  then have "?n mod default_lba_size = 0" using w(2) by (simp add: mod_lba_iff)
  note c1 = blocks_unat [OF this] and c2 = blocks_unat [of "fe_physical e"]
  have start: "unat (fe_physical e div default_lba_size) * 512 = unat (fe_physical e)" using assms(2) c2 by (simp add: aligned_extents_def)
  have c: "dpu_write_context fd 0 ?frags default_lba_size w_buf = Inr ?c"
    using assms(7) by (simp add: dpu_write_context_def frag_of_def default_lba_size_def)
  have "?n div default_lba_size \<noteq> 0" using c1 n w(1) by auto
  then have sub: "nvme_submit 0 ?c = Inr (?c, True)" using w(1) by (simp add: nvme_submit_def)
  let ?d = "\<lambda>a. if unat (fe_physical e) \<le> a \<and> a < unat (fe_physical e) + length w_buf then w_buf ! (a - unat (fe_physical e)) else disk a"
  have wr: "nvme_write default_lba_size ?c disk = Inr ?d"
    using c1 n start by (simp add: nvme_write_def Let_def default_lba_size_def cong: if_cong)
  have "file_byte (e # es) ?d k = w_buf ! k" if "k < length w_buf" for k
    using that w(3) assms(3) by (simp add: file_byte_def extent_end_def)
  then have "map (file_byte (e # es) ?d) [0..<length w_buf] = w_buf" by (intro nth_equalityI) simp_all
  with f c sub wr show ?thesis by (intro exI conjI) (assumption | simp add: nvme_cb_def ic_set_res_def)+
qed

theorem spill_write_in_file_witness:
  "\<exists>frags c disk'. filefrag_handler (fiemap_of [\<lparr>fe_logical = 0, fe_physical = 8192, fe_length = 1024, fe_last = True\<rparr>]) 3 (Map.empty(3 \<mapsto> 1024)) = Some (Inr frags)
    \<and> dpu_write_context 3 0 frags default_lba_size (replicate 512 7) = Inr c \<and> nvme_write default_lba_size c (\<lambda>_. 0) = Inr disk'
    \<and> map (file_byte [\<lparr>fe_logical = 0, fe_physical = 8192, fe_length = 1024, fe_last = True\<rparr>] disk') [0..<512] = replicate 512 7"
proof -
  let ?e = "\<lparr>fe_logical = 0, fe_physical = 8192, fe_length = 1024, fe_last = True\<rparr>"
  have "extents_ok [?e]" "aligned_extents default_lba_size [?e]"
    by (simp_all add: extents_ok_def extent_end_def aligned_extents_def default_lba_size_def)
  from spill_write_in_file [OF this, of "replicate 512 7" 3 "Map.empty(3 \<mapsto> 1024)" "\<lambda>_. 0"] show ?thesis by simp blast
qed

text \<open>
  The block numbers are in units of 512 bytes and the disk counts in its sectors: with sectors of 4096 bytes the data goes
  to another place.
\<close>

lemma sector_size_mismatch:
  assumes "dpu_write_context fd res [frag_of default_lba_size e] 4096 w_buf = Inr c" "nvme_write 4096 c disk = Inr disk'"
    and "a < unat (fe_physical e div default_lba_size) * 4096"
  shows "disk' a = disk a"
  using assms by (auto simp: dpu_write_context_def nvme_write_def Let_def frag_of_def check_def split: if_splits)

text \<open>A buffer that is not a whole number of sectors is reported as written completely, although its end is not.\<close>

lemma short_write_reported:
  assumes "nvme_write sector c disk = Inr disk'" "ic_op_res c = None" "a \<ge> unat (ic_start_lba c) * unat sector + unat (ic_lba_count c) * unat sector"
  shows "disk' a = disk a \<and> (\<exists>c'. nvme_cb False c = Inr c' \<and> ic_op_res c' = Some (int (length (ic_buffer c))))"
  using assms by (auto simp: nvme_write_def Let_def nvme_cb_def ic_set_res_def check_def split: if_splits)

text \<open>With assertions no existing file can be opened.\<close>

lemma open_handler_asserts: "fd \<noteq> - 1 \<Longrightarrow> open_handler False (fd, errno) st_size t = Inl Assert_fail"
  by (simp add: open_handler_def)

end
