(* ===== verification/Dpa_Context.thy ===== *)
theory Dpa_Context
  imports Kernel_Sim
begin

text \<open>
  \<^verbatim>\<open>lib/doca/dpa_thread.cxx\<close> and the DPA side of \<^verbatim>\<open>lib/sd/native/sd.cxx\<close>: a group of threads of the data
  path accelerator to which the host sends serialization tasks, and the context that serializes an
  object with one task and an array of objects with one task for every element.

  The kernel's side is \<^verbatim>\<open>Kernel_SD\<close>; here a task is the function \<open>task\<close> from the object's address to
  the bytes it leaves in the thread's output buffer on the host. That the kernel computes the
  serialized form of the object is shown in \<^verbatim>\<open>Kernel_Sim\<close>.
\<close>

section \<open>The thread group\<close>

record TaskContext =
  tc_done :: bool
  tc_input :: payload_t
  tc_output :: payload_t

definition set_input_id :: "u64 \<Rightarrow> TaskContext \<Rightarrow> TaskContext" where
  "set_input_id i c = c\<lparr>tc_input := (tc_input c)\<lparr>pl_id := i\<rparr>\<rparr>"
definition get_input_id :: "TaskContext \<Rightarrow> u64" where "get_input_id c = pl_id (tc_input c)"

definition set_input :: "se_input_t \<Rightarrow> TaskContext \<Rightarrow> TaskContext" where
  "set_input i c = c\<lparr>tc_input := (tc_input c)\<lparr>pl_payload := patch (pl_payload (tc_input c)) 0 (u64_bytes (se_h_object i))\<rparr>\<rparr>"

definition get_output :: "TaskContext \<Rightarrow> se_output_t" where
  "get_output c = \<lparr>so_length = bytes_u64 (chunk (pl_payload (tc_output c)) 0 8), so_h_output = bytes_u64 (chunk (pl_payload (tc_output c)) 8 8)\<rparr>"

text \<open>\<open>tg_threads\<close> is the number of threads that were added. Contexts are designated by numbers.\<close>

record DPAThreadGroup =
  tg_threads :: nat
  active_flags :: "bool list"
  outstanding_tasks :: "u32 \<rightharpoonup> nat"

definition tg_new :: "nat \<Rightarrow> DPAThreadGroup" where
  "tg_new n_thread = \<lparr>tg_threads = 0, active_flags = replicate n_thread False, outstanding_tasks = Map.empty\<rparr>"

definition tg_add :: "DPAThreadGroup \<Rightarrow> DPAThreadGroup" where
  "tg_add g = g\<lparr>tg_threads := tg_threads g + 1\<rparr>"

text \<open>The search yields, here \<open>Inr None\<close>, while all threads are active.\<close>

primrec find_inactive :: "bool list \<Rightarrow> nat list \<Rightarrow> nat option result" where
  "find_inactive flags [] = Inr None"
| "find_inactive flags (i # is) =
    bnd (check (i < length flags) Out_of_bounds) (\<lambda>_. if flags ! i then find_inactive flags is else Inr (Some i))"

definition get_one_inactive_thread :: "DPAThreadGroup \<Rightarrow> (nat \<times> DPAThreadGroup) option result" where
  "get_one_inactive_thread g =
    bnd (find_inactive (active_flags g) [0..<tg_threads g]) (\<lambda>r. case r of
      None \<Rightarrow> Inr None
    | Some i \<Rightarrow> Inr (Some (i, g\<lparr>active_flags := (active_flags g)[i := True]\<rparr>)))"

text \<open>
  A task of context \<open>k\<close>: the thread it is sent to, the message (the context's input), and what became of
  the context and the group. \<^verbatim>\<open>emplace\<close> leaves an entry that exists.
\<close>

definition trigger :: "nat \<Rightarrow> TaskContext \<Rightarrow> DPAThreadGroup \<Rightarrow> (nat \<times> TaskContext \<times> DPAThreadGroup) option result" where
  "trigger k ctx g =
    bnd (get_one_inactive_thread g) (\<lambda>r. case r of
      None \<Rightarrow> Inr None
    | Some (i, g) \<Rightarrow>
        let ctx = set_input_id (of_nat i) ctx; key = ucast (get_input_id ctx);
            g = (if outstanding_tasks g key = None then g\<lparr>outstanding_tasks := (outstanding_tasks g)(key \<mapsto> k)\<rparr> else g)
        in Inr (Some (i, ctx, g)))"

text \<open>The completion of a receive: a reply to a task that is not outstanding is dropped.\<close>

definition recv_task_cb :: "payload_t \<Rightarrow> (nat \<Rightarrow> TaskContext) \<times> DPAThreadGroup \<Rightarrow> ((nat \<Rightarrow> TaskContext) \<times> DPAThreadGroup) result" where
  "recv_task_cb p st = (case st of (ctxs, g) \<Rightarrow>
    (case outstanding_tasks g (ucast (pl_id p)) of
       None \<Rightarrow> Inr (ctxs, g)
     | Some k \<Rightarrow>
         bnd (check (unat (pl_id p) < length (active_flags g)) Out_of_bounds) (\<lambda>_.
         bnd (check (\<not> tc_done (ctxs k)) Die) (\<lambda>_.
           Inr (ctxs(k := (ctxs k)\<lparr>tc_output := p, tc_done := True\<rparr>),
                g\<lparr>outstanding_tasks := (outstanding_tasks g)(ucast (pl_id p) := None), active_flags := (active_flags g)[unat (pl_id p) := False]\<rparr>)))))"

section \<open>The device\<close>

text \<open>
  What the host sees of the device: the message that waits for a thread, the reply on its way, and
  the contents of the output buffers by their address. \<open>h_out i\<close> is the address of thread \<open>i\<close>'s buffer.
  A thread takes its message, runs the task and replies; replies arrive in any order.
\<close>

record dpa_sys =
  ds_ctxs :: "nat \<Rightarrow> TaskContext"
  ds_g :: DPAThreadGroup
  ds_in :: "nat \<rightharpoonup> payload_t"
  ds_reply :: "nat \<rightharpoonup> payload_t"
  ds_out :: "u64 \<Rightarrow> u8 list"

datatype dpa_event = Thread_runs nat | Reply_arrives nat

definition thread_runs :: "(u64 \<Rightarrow> u8 list) \<Rightarrow> (nat \<Rightarrow> u64) \<Rightarrow> nat \<Rightarrow> dpa_sys \<Rightarrow> dpa_sys" where
  "thread_runs task h_out i s = (case ds_in s i of
     None \<Rightarrow> s
   | Some p \<Rightarrow>
       let bytes = task (se_h_object (input_of (pl_payload p)));
           out = \<lparr>so_length = of_nat (length bytes), so_h_output = h_out i\<rparr>
       in s\<lparr>ds_in := (ds_in s)(i := None), ds_out := (ds_out s)(h_out i := bytes),
            ds_reply := (ds_reply s)(i \<mapsto> \<lparr>pl_id = pl_id p, pl_payload = output_payload (pl_payload p) out\<rparr>)\<rparr>)"

definition dpa_event_step :: "(u64 \<Rightarrow> u8 list) \<Rightarrow> (nat \<Rightarrow> u64) \<Rightarrow> dpa_event \<Rightarrow> dpa_sys \<Rightarrow> dpa_sys result" where
  "dpa_event_step task h_out ev s = (case ev of
     Thread_runs i \<Rightarrow> Inr (thread_runs task h_out i s)
   | Reply_arrives i \<Rightarrow> (case ds_reply s i of
       None \<Rightarrow> Inr s
     | Some p \<Rightarrow> bnd (recv_task_cb p (ds_ctxs s, ds_g s)) (\<lambda>(ctxs, g). Inr (s\<lparr>ds_ctxs := ctxs, ds_g := g, ds_reply := (ds_reply s)(i := None)\<rparr>))))"

primrec dpa_events :: "(u64 \<Rightarrow> u8 list) \<Rightarrow> (nat \<Rightarrow> u64) \<Rightarrow> dpa_event list \<Rightarrow> dpa_sys \<Rightarrow> dpa_sys result" where
  "dpa_events task h_out [] s = Inr s"
| "dpa_events task h_out (ev # evs) s = bnd (dpa_event_step task h_out ev s) (dpa_events task h_out evs)"

section \<open>The DPA context\<close>

text \<open>A fresh context; the bytes of its input are not initialised (\<open>junk\<close>).\<close>

definition task_context :: "u8 list \<Rightarrow> TaskContext" where
  "task_context junk = \<lparr>tc_done = False, tc_input = \<lparr>pl_id = 0, pl_payload = junk\<rparr>, tc_output = \<lparr>pl_id = 0, pl_payload = junk\<rparr>\<rparr>"

text \<open>Triggering context \<open>k\<close> for an object, on a system; \<open>Inr None\<close> where no thread is free.\<close>

definition trigger_task :: "u8 list \<Rightarrow> nat \<Rightarrow> u64 \<Rightarrow> dpa_sys \<Rightarrow> dpa_sys option result" where
  "trigger_task junk k obj s =
    bnd (trigger k (set_input \<lparr>se_h_object = obj\<rparr> (task_context junk)) (ds_g s)) (\<lambda>r. case r of
      None \<Rightarrow> Inr None
    | Some (i, ctx, g) \<Rightarrow> Inr (Some (s\<lparr>ds_ctxs := (ds_ctxs s)(k := ctx), ds_g := g, ds_in := (ds_in s)(i \<mapsto> tc_input ctx)\<rparr>)))"

text \<open>
  \<^verbatim>\<open>do_obj_serialize\<close>: \<open>evs\<close> is what happens on the device until the future is looked at; \<open>Inr None\<close> is a
  call that still waits.
\<close>

definition do_obj_serialize :: "(u64 \<Rightarrow> u8 list) \<Rightarrow> (nat \<Rightarrow> u64) \<Rightarrow> u8 list \<Rightarrow> dpa_event list \<Rightarrow> u64 \<Rightarrow> dpa_sys \<Rightarrow> (u8 list \<times> dpa_sys) option result" where
  "do_obj_serialize task h_out junk evs obj s =
    bnd (trigger_task junk 0 obj s) (\<lambda>r. case r of
      None \<Rightarrow> Inr None
    | Some s \<Rightarrow> bnd (dpa_events task h_out evs s) (\<lambda>s.
        if tc_done (ds_ctxs s 0)
        then let out = get_output (ds_ctxs s 0) in Inr (Some (take (unat (so_length out)) (ds_out s (so_h_output out)), s))
        else Inr None))"

text \<open>The two inner loops of \<^verbatim>\<open>do_array_obj_serialize\<close>.\<close>

primrec trigger_batch :: "u8 list \<Rightarrow> (nat \<Rightarrow> u64 result) \<Rightarrow> nat list \<Rightarrow> dpa_sys \<Rightarrow> dpa_sys option result" where
  "trigger_batch junk elem [] s = Inr (Some s)"
| "trigger_batch junk elem (j # js) s =
    bnd (elem j) (\<lambda>obj. bnd (trigger_task junk j obj s) (\<lambda>r. case r of None \<Rightarrow> Inr None | Some s \<Rightarrow> trigger_batch junk elem js s))"

primrec collect_batch :: "(u64 \<Rightarrow> u8 list) \<Rightarrow> (nat \<Rightarrow> u64) \<Rightarrow> (nat \<Rightarrow> dpa_event list) \<Rightarrow> nat list \<Rightarrow> dpa_sys \<times> RWBuffer \<Rightarrow> (dpa_sys \<times> RWBuffer) option result" where
  "collect_batch task h_out evs [] st = Inr (Some st)"
| "collect_batch task h_out evs (j # js) st =
    bnd (dpa_events task h_out (evs j) (fst st)) (\<lambda>s.
    if tc_done (ds_ctxs s j)
    then let out = get_output (ds_ctxs s j); out_length = unat (so_length out - of_nat OBJECT_DATA_OFFSET) in
         bnd (fill_next_align_8 (snd st)) (\<lambda>b.
         bnd (put b (chunk (ds_out s (so_h_output out)) OBJECT_DATA_OFFSET out_length)) (\<lambda>b.
           collect_batch task h_out evs js (s, b)))
    else Inr None)"

primrec do_batches :: "(u64 \<Rightarrow> u8 list) \<Rightarrow> (nat \<Rightarrow> u64) \<Rightarrow> u8 list \<Rightarrow> (nat \<Rightarrow> nat \<Rightarrow> dpa_event list) \<Rightarrow> (nat \<Rightarrow> u64 result) \<Rightarrow> nat \<Rightarrow> nat \<Rightarrow> nat list
    \<Rightarrow> dpa_sys \<times> RWBuffer \<Rightarrow> (dpa_sys \<times> RWBuffer) option result" where
  "do_batches task h_out junk evs elem len batch_size [] st = Inr (Some st)"
| "do_batches task h_out junk evs elem len batch_size (i # is) st =
    (let n_task = min batch_size (len - i * batch_size) in
     bnd (trigger_batch junk (\<lambda>j. elem (i * batch_size + j)) [0..<n_task] (fst st)) (\<lambda>r. case r of
       None \<Rightarrow> Inr None
     | Some s \<Rightarrow> bnd (collect_batch task h_out (evs i) [0..<n_task] (s, snd st)) (\<lambda>r. case r of
         None \<Rightarrow> Inr None
       | Some st \<Rightarrow> do_batches task h_out junk evs elem len batch_size is st)))"

definition do_array_obj_serialize :: "(u64 \<Rightarrow> u8 list) \<Rightarrow> (nat \<Rightarrow> u64) \<Rightarrow> u8 list \<Rightarrow> (nat \<Rightarrow> nat \<Rightarrow> dpa_event list) \<Rightarrow> wenv \<Rightarrow> nat \<Rightarrow> u8 list
    \<Rightarrow> u64 \<Rightarrow> class_info_t \<Rightarrow> dpa_sys \<Rightarrow> (u8 list \<times> dpa_sys) option result" where
  "do_array_obj_serialize task h_out junk evs E batch_size out obj info s =
    (let len = array_length (w_heap E) obj (array_header_size info);
         b = skip (rw_new out) OBJECT_DATA_OFFSET in
     bnd (check (rw_off b mod 8 = 0) Assert_fail) (\<lambda>_.
     bnd (put b (u16_bytes (ci_id info))) (\<lambda>b.
     bnd (put b (u16_bytes ARRAY_FLAG)) (\<lambda>b.
     bnd (put b (u32_bytes len)) (\<lambda>b.
     bnd (fill_next_align_8 b) (\<lambda>b.
     let n_batch = (unat len + batch_size - 1) div batch_size in
     bnd (do_batches task h_out junk evs (\<lambda>i. array_elem_ref (w_args E) (w_heap E) obj (array_header_size info) (of_nat i))
            (unat len) batch_size [0..<n_batch] (s, b)) (\<lambda>r. case r of
       None \<Rightarrow> Inr None
     | Some (s, b) \<Rightarrow>
         let total_length = rw_off b in
         bnd (put_at b (u64_bytes (of_nat total_length)) 0) (\<lambda>b. Inr (Some (take total_length (rw_b b), s))))))))))"

text \<open>
  \<^verbatim>\<open>do_serialize\<close>: arrays of references are split when there is more than one thread. An object
  whose class is not registered gives \<^verbatim>\<open>nullptr\<close>.
\<close>

definition DPAContext_serialize :: "(u64 \<Rightarrow> u8 list) \<Rightarrow> (nat \<Rightarrow> u64) \<Rightarrow> u8 list \<Rightarrow> (nat \<Rightarrow> nat \<Rightarrow> dpa_event list) \<Rightarrow> wenv \<Rightarrow> nat \<Rightarrow> u8 list
    \<Rightarrow> u64 \<Rightarrow> dpa_sys \<Rightarrow> (u8 list option \<times> dpa_sys) option result" where
  "DPAContext_serialize task h_out junk evs E max_device_threads out obj s =
    bnd (klass_pointer (w_args E) (w_heap E) obj) (\<lambda>klass.
      case info_by_klass_addr (w_resolver E) klass of
        None \<Rightarrow> Inr (Some (None, s))
      | Some info \<Rightarrow>
          bnd (if is_array info \<and> 1 < max_device_threads
               then bnd (get_field info 0) (\<lambda>f. Inr (is_reference_type (fi_type f))) else Inr False) (\<lambda>split.
          bnd (if split then do_array_obj_serialize task h_out junk evs E max_device_threads out obj info s
               else do_obj_serialize task h_out junk (evs 0 0) obj s) (\<lambda>r.
            Inr (map_option (\<lambda>(bytes, s). (Some bytes, s)) r))))"

section \<open>Exporting the class descriptions\<close>

text \<open>
  \<^verbatim>\<open>ClassResolver::export_class_infos\<close>: the device buffer is cleared, the offsets of the descriptions in
  the order of both indices are put into two host buffers (the pairs \<open>by_id\<close> and \<open>by_klass\<close>: memory
  handle and address), and the device is asked to register them. As in \<^verbatim>\<open>Kernel_SD\<close>, one memory holds
  what the device reaches; \<open>ext\<close> maps a handle and a host address to it.
\<close>

definition offset_bytes :: "u64 \<Rightarrow> u64 list \<Rightarrow> u8 list" where
  "offset_bytes base ps = concat (map (\<lambda>p. u64_bytes (p - base)) ps)"

definition export_class_infos :: "(u32 \<Rightarrow> u64 \<Rightarrow> u64) \<Rightarrow> MemoryRegion \<Rightarrow> u32 \<Rightarrow> u32 \<times> u64 \<Rightarrow> u32 \<times> u64 \<Rightarrow> ClassResolver \<Rightarrow> kglobals \<times> mem
    \<Rightarrow> (kglobals \<times> mem) result" where
  "export_class_infos ext dev infos_h by_id by_klass r s =
    (let (G, m) = s; base = sa_base (r_alloc r);
         m = wr m (mr_base dev) (replicate (unat (mr_len dev)) 0);
         m = wr m (ext (fst by_id) (snd by_id)) (offset_bytes base (info_by_id r));
         m = wr m (ext (fst by_klass) (snd by_klass)) (offset_bytes base (info_by_klass r)) in
     bnd (allocated (r_alloc r)) (\<lambda>len.
       Inr (register_class_infos ext (mr_base dev) infos_h base len (of_nat (length (info_by_id r)))
              (fst by_id) (snd by_id) (fst by_klass) (snd by_klass) (G, m))))"

lemma length_offset_bytes [simp]: "length (offset_bytes base ps) = 8 * length ps"
  by (induction ps) (simp_all add: offset_bytes_def)

lemma chunk_offset_bytes: "j < length ps \<Longrightarrow> chunk (offset_bytes base ps) (8 * j) 8 = u64_bytes (ps ! j - base)"
proof (induction ps arbitrary: j)
  case (Cons p ps)
  then show ?case by (cases j) (simp_all add: offset_bytes_def chunk_def)
qed simp

lemma ld64_offset_bytes:
  assumes "region_ok A (8 * length ps)" "rd m A (8 * length ps) = offset_bytes base ps" "j < length ps"
  shows "ld64 m (A + 8 * of_nat j) = ps ! j - base"
  using rd_chunk [of "8 * j" 8 "8 * length ps" m A] assms by (simp add: ld64_def chunk_offset_bytes)



section \<open>A batch of tasks\<close>

text \<open>
  The states of a task that runs on thread \<open>i\<close> for context \<open>i\<close>: its message waits, its reply is on the
  way, its context is done. From the second on the thread's output buffer holds the result.
\<close>

definition task_waits :: "(nat \<Rightarrow> u64) \<Rightarrow> dpa_sys \<Rightarrow> nat \<Rightarrow> bool" where
  "task_waits objs s i \<longleftrightarrow> (\<exists>p. ds_in s i = Some p \<and> pl_id p = of_nat i \<and> se_h_object (input_of (pl_payload p)) = objs i \<and> 16 \<le> length (pl_payload p))
     \<and> ds_reply s i = None \<and> outstanding_tasks (ds_g s) (of_nat i) = Some i \<and> \<not> tc_done (ds_ctxs s i)"

definition task_replies :: "(nat \<Rightarrow> u8 list) \<Rightarrow> (nat \<Rightarrow> u64) \<Rightarrow> dpa_sys \<Rightarrow> nat \<Rightarrow> bool" where
  "task_replies res h_out s i \<longleftrightarrow> ds_in s i = None
     \<and> (\<exists>p. ds_reply s i = Some p \<and> pl_id p = of_nat i
          \<and> bytes_u64 (chunk (pl_payload p) 0 8) = of_nat (length (res i)) \<and> bytes_u64 (chunk (pl_payload p) 8 8) = h_out i)
     \<and> ds_out s (h_out i) = res i \<and> outstanding_tasks (ds_g s) (of_nat i) = Some i \<and> \<not> tc_done (ds_ctxs s i)"

definition task_done :: "(nat \<Rightarrow> u8 list) \<Rightarrow> (nat \<Rightarrow> u64) \<Rightarrow> dpa_sys \<Rightarrow> nat \<Rightarrow> bool" where
  "task_done res h_out s i \<longleftrightarrow> ds_in s i = None \<and> ds_reply s i = None \<and> tc_done (ds_ctxs s i)
     \<and> get_output (ds_ctxs s i) = \<lparr>so_length = of_nat (length (res i)), so_h_output = h_out i\<rparr>
     \<and> ds_out s (h_out i) = res i \<and> outstanding_tasks (ds_g s) (of_nat i) = None \<and> \<not> active_flags (ds_g s) ! i"

definition phase :: "(nat \<Rightarrow> u8 list) \<Rightarrow> (nat \<Rightarrow> u64) \<Rightarrow> (nat \<Rightarrow> u64) \<Rightarrow> dpa_sys \<Rightarrow> nat \<Rightarrow> bool" where
  "phase res h_out objs s i \<longleftrightarrow> task_waits objs s i \<or> task_replies res h_out s i \<or> task_done res h_out s i"

text \<open>\<open>m\<close> tasks on a group of \<open>n\<close> threads, the first \<open>m\<close> of which are used.\<close>

definition batch_ok :: "(nat \<Rightarrow> u8 list) \<Rightarrow> (nat \<Rightarrow> u64) \<Rightarrow> (nat \<Rightarrow> u64) \<Rightarrow> nat \<Rightarrow> nat \<Rightarrow> dpa_sys \<Rightarrow> bool" where
  "batch_ok res h_out objs n m s \<longleftrightarrow> tg_threads (ds_g s) = n \<and> length (active_flags (ds_g s)) = n \<and> m \<le> n
     \<and> (\<forall>i < m. phase res h_out objs s i) \<and> (\<forall>i \<ge> m. ds_in s i = None \<and> ds_reply s i = None)
     \<and> (\<forall>k. m \<le> unat k \<longrightarrow> outstanding_tasks (ds_g s) k = None) \<and> (\<forall>i. m \<le> i \<longrightarrow> i < n \<longrightarrow> \<not> active_flags (ds_g s) ! i)"

definition group_idle :: "nat \<Rightarrow> dpa_sys \<Rightarrow> bool" where
  "group_idle n s \<longleftrightarrow> tg_threads (ds_g s) = n \<and> active_flags (ds_g s) = replicate n False \<and> outstanding_tasks (ds_g s) = Map.empty
     \<and> ds_in s = Map.empty \<and> ds_reply s = Map.empty"

text \<open>The device runs the task on the thread, and later its reply arrives.\<close>

definition serves :: "dpa_event list \<Rightarrow> nat \<Rightarrow> bool" where
  "serves evs i \<longleftrightarrow> (\<exists>xs ys. evs = xs @ Reply_arrives i # ys \<and> Thread_runs i \<in> set xs)"

definition served :: "nat \<Rightarrow> dpa_event list \<Rightarrow> dpa_sys \<Rightarrow> bool" where
  "served m evs s \<longleftrightarrow> (\<forall>i < m. (Thread_runs i \<in> set evs \<longrightarrow> ds_in s i = None) \<and> (serves evs i \<longrightarrow> tc_done (ds_ctxs s i)))"

lemma serves_snoc: "serves (evs @ [ev]) i \<longleftrightarrow> serves evs i \<or> ev = Reply_arrives i \<and> Thread_runs i \<in> set evs"
proof
  assume "serves (evs @ [ev]) i"
  then obtain xs ys where x: "evs @ [ev] = xs @ Reply_arrives i # ys" "Thread_runs i \<in> set xs" by (auto simp: serves_def)
  then show "serves evs i \<or> ev = Reply_arrives i \<and> Thread_runs i \<in> set evs"
    by (cases ys rule: rev_cases) (auto simp: serves_def)
next
  assume "serves evs i \<or> ev = Reply_arrives i \<and> Thread_runs i \<in> set evs"
  then show "serves (evs @ [ev]) i" by (force simp: serves_def)
qed

lemma unat_of_nat_u32: "i < 2 ^ 32 \<Longrightarrow> unat (of_nat i :: u32) = i"
  by (simp add: unat_of_nat)

lemma of_nat_u32_eq: "i < n \<Longrightarrow> j < n \<Longrightarrow> n < 2 ^ 32 \<Longrightarrow> (of_nat i :: u32) = of_nat j \<longleftrightarrow> i = j"
  by (metis unat_of_nat_u32 order.strict_trans)

lemma phase_frame:
  assumes "phase res h_out objs s i" "ds_in s' i = ds_in s i" "ds_reply s' i = ds_reply s i" "ds_ctxs s' i = ds_ctxs s i"
    "ds_out s' (h_out i) = ds_out s (h_out i)" "outstanding_tasks (ds_g s') (of_nat i) = outstanding_tasks (ds_g s) (of_nat i)"
    "active_flags (ds_g s') ! i = active_flags (ds_g s) ! i"
  shows "phase res h_out objs s' i"
  using assms by (simp add: phase_def task_waits_def task_replies_def task_done_def)

lemma ucast_thread [simp]: "i < 2 ^ 32 \<Longrightarrow> (ucast (of_nat i :: u64) :: u32) = of_nat i"
  by (simp add: word_unat_eq_iff unsigned_ucast_eq unat_of_nat_u64 unat_of_nat take_bit_nat_eq_self)

lemma unat_thread [simp]: "i < 2 ^ 32 \<Longrightarrow> unat (of_nat i :: u64) = i"
  by (rule unat_of_nat_u64) simp

text \<open>A thread that runs moves its own task only.\<close>

lemma thread_runs_phase:
  assumes "phase res h_out objs s i" "res i = task (objs i)"
  shows "phase res h_out objs (thread_runs task h_out i s) i \<and> ds_in (thread_runs task h_out i s) i = None"
proof (cases "ds_in s i")
  case None
  with assms(1) show ?thesis by (simp add: thread_runs_def)
next
  case (Some p)
  with assms(1) have w: "task_waits objs s i" by (auto simp: phase_def task_replies_def task_done_def)
  let ?out = "\<lparr>so_length = of_nat (length (res i)), so_h_output = h_out i\<rparr>"
  have "bytes_u64 (chunk (output_payload (pl_payload p) ?out) 0 8) = of_nat (length (res i))"
    "bytes_u64 (chunk (output_payload (pl_payload p) ?out) 8 8) = h_out i"
    using w Some by (auto simp: output_payload_def task_waits_def chunk_def patch_def)
  then have "task_replies res h_out (thread_runs task h_out i s) i"
    using w Some assms(2) by (auto simp: thread_runs_def task_waits_def task_replies_def Let_def)
  then show ?thesis by (simp add: phase_def task_replies_def)
qed

lemma thread_runs_other:
  assumes "phase res h_out objs s j" "i \<noteq> j" "h_out i \<noteq> h_out j"
  shows "phase res h_out objs (thread_runs task h_out i s) j"
  using assms(2,3) by (intro phase_frame [OF assms(1)]) (auto simp: thread_runs_def Let_def split: option.splits)

lemma thread_runs_keeps [simp]:
  "ds_g (thread_runs task h_out i s) = ds_g s" "ds_ctxs (thread_runs task h_out i s) = ds_ctxs s"
  "i \<noteq> j \<Longrightarrow> ds_in (thread_runs task h_out i s) j = ds_in s j" "i \<noteq> j \<Longrightarrow> ds_reply (thread_runs task h_out i s) j = ds_reply s j"
  by (auto simp: thread_runs_def Let_def split: option.splits)

lemma batch_ok_run:
  assumes "batch_ok res h_out objs n m s" "inj_on h_out {..<n}" "\<forall>i < m. res i = task (objs i)"
  shows "batch_ok res h_out objs n m (thread_runs task h_out i s)"
proof (cases "i < m")
  case True
  have m: "m \<le> n" using assms(1) by (simp add: batch_ok_def)
  have "phase res h_out objs (thread_runs task h_out i s) j" if "j < m" for j
  proof (cases "j = i")
    case True
    with thread_runs_phase [of res h_out objs s i task] assms(1,3) that show ?thesis by (simp add: batch_ok_def)
  next
    case False
    then have "h_out i \<noteq> h_out j" using inj_onD [OF assms(2), of i j] m that \<open>i < m\<close> by auto
    with False that assms(1) show ?thesis by (intro thread_runs_other) (simp_all add: batch_ok_def)
  qed
  with True assms(1) show ?thesis by (simp add: batch_ok_def)
next
  case False
  then have "thread_runs task h_out i s = s" using assms(1) by (simp add: thread_runs_def batch_ok_def)
  with assms(1) show ?thesis by simp
qed

text \<open>A reply completes the task of its thread only, frees the thread, and is never dropped or refused.\<close>

lemma reply_arrives_step:
  assumes "batch_ok res h_out objs n m s" "n < 2 ^ 32"
  shows "\<exists>s'. dpa_event_step task h_out (Reply_arrives i) s = Inr s' \<and> batch_ok res h_out objs n m s'
    \<and> ds_in s' = ds_in s \<and> (\<forall>j. tc_done (ds_ctxs s j) \<longrightarrow> tc_done (ds_ctxs s' j)) \<and> (i < m \<longrightarrow> ds_in s i = None \<longrightarrow> tc_done (ds_ctxs s' i))"
proof (cases "ds_reply s i")
  case None
  then have "i < m \<Longrightarrow> ds_in s i = None \<Longrightarrow> task_done res h_out s i"
    using assms(1) by (auto simp: batch_ok_def phase_def task_waits_def task_replies_def)
  then show ?thesis using None assms(1) by (auto simp: dpa_event_step_def task_done_def)
next
  case (Some p)
  then have im: "i < m" using assms(1) unfolding batch_ok_def by (metis not_less option.simps(3))
  with assms have i: "i < n" "i < 2 ^ 32" by (auto simp: batch_ok_def)
  have r: "task_replies res h_out s i" using im Some assms(1) by (auto simp: batch_ok_def phase_def task_waits_def task_done_def)
  then have p: "pl_id p = of_nat i" "bytes_u64 (chunk (pl_payload p) 0 8) = of_nat (length (res i))" "bytes_u64 (chunk (pl_payload p) 8 8) = h_out i"
    "outstanding_tasks (ds_g s) (of_nat i) = Some i" "\<not> tc_done (ds_ctxs s i)" "ds_out s (h_out i) = res i" "ds_in s i = None"
    using Some by (auto simp: task_replies_def)
  let ?c = "(ds_ctxs s)(i := (ds_ctxs s i)\<lparr>tc_output := p, tc_done := True\<rparr>)"
  let ?g = "(ds_g s)\<lparr>outstanding_tasks := (outstanding_tasks (ds_g s))(of_nat i := None), active_flags := (active_flags (ds_g s))[i := False]\<rparr>"
  let ?s = "s\<lparr>ds_ctxs := ?c, ds_g := ?g, ds_reply := (ds_reply s)(i := None)\<rparr>"
  have l: "length (active_flags (ds_g s)) = n" using assms(1) by (simp add: batch_ok_def)
  have e: "dpa_event_step task h_out (Reply_arrives i) s = Inr ?s"
    using Some p i l by (simp add: dpa_event_step_def recv_task_cb_def)
  have "phase res h_out objs ?s j" if "j < m" for j
  proof (cases "j = i")
    case True
    with p i l have "task_done res h_out ?s i" by (simp add: task_done_def get_output_def)
    with True show ?thesis by (simp add: phase_def)
  next
    case False
    have "j < n" using that assms(1) by (simp add: batch_ok_def)
    then have ji: "(of_nat j :: u32) \<noteq> of_nat i" using False of_nat_u32_eq [OF _ i(1) assms(2), of j] by simp
    have "phase res h_out objs s j" using that assms(1) by (simp add: batch_ok_def)
    from phase_frame [OF this, of ?s] False ji show ?thesis by simp
  qed
  moreover have "\<not> (active_flags (ds_g s))[i := False] ! j" if "m \<le> j" "j < n" for j
    using that assms(1) im by (simp add: batch_ok_def)
  ultimately have "batch_ok res h_out objs n m ?s" using assms(1) by (simp add: batch_ok_def)
  with e show ?thesis by (intro exI [of _ ?s]) simp
qed

lemma dpa_event_step_ok:
  assumes "batch_ok res h_out objs n m s" "inj_on h_out {..<n}" "\<forall>i < m. res i = task (objs i)" "n < 2 ^ 32" "served m past s"
  shows "\<exists>s'. dpa_event_step task h_out ev s = Inr s' \<and> batch_ok res h_out objs n m s' \<and> served m (past @ [ev]) s'
    \<and> (\<forall>j. tc_done (ds_ctxs s j) \<longrightarrow> tc_done (ds_ctxs s' j))"
proof (cases ev)
  case (Thread_runs i)
  let ?s = "thread_runs task h_out i s"
  have "ds_in ?s j = None" if "j < m" "Thread_runs j \<in> set (past @ [ev])" for j
  proof (cases "j = i")
    case True
    have "phase res h_out objs s i" "res i = task (objs i)" using True that assms(1,3) by (simp_all add: batch_ok_def)
    from thread_runs_phase [of res h_out objs s i task, OF this] True show ?thesis by simp
  next
    case False
    with that assms(5) Thread_runs show ?thesis by (simp add: served_def)
  qed
  then have "served m (past @ [ev]) ?s" using assms(5) Thread_runs by (simp add: served_def serves_snoc)
  moreover have "dpa_event_step task h_out ev s = Inr ?s" using Thread_runs by (simp add: dpa_event_step_def)
  ultimately show ?thesis using batch_ok_run [OF assms(1-3)] by simp
next
  case (Reply_arrives i)
  from reply_arrives_step [OF assms(1,4), of task i] obtain s' where s': "dpa_event_step task h_out (Reply_arrives i) s = Inr s'"
    "batch_ok res h_out objs n m s'" "ds_in s' = ds_in s" "\<forall>j. tc_done (ds_ctxs s j) \<longrightarrow> tc_done (ds_ctxs s' j)"
    "i < m \<longrightarrow> ds_in s i = None \<longrightarrow> tc_done (ds_ctxs s' i)" by (elim exE conjE)
  have "served m (past @ [ev]) s'"
    using assms(5) s'(3-5) Reply_arrives by (auto simp: served_def serves_snoc)
  with s' Reply_arrives show ?thesis by blast
qed

lemma dpa_events_ok:
  assumes "batch_ok res h_out objs n m s" "inj_on h_out {..<n}" "\<forall>i < m. res i = task (objs i)" "n < 2 ^ 32" "served m past s"
  shows "\<exists>s'. dpa_events task h_out evs s = Inr s' \<and> batch_ok res h_out objs n m s' \<and> served m (past @ evs) s'
    \<and> (\<forall>j. tc_done (ds_ctxs s j) \<longrightarrow> tc_done (ds_ctxs s' j))"
  using assms(1,5)
proof (induction evs arbitrary: s past)
  case Nil
  then show ?case by simp
next
  case (Cons ev evs)
  from dpa_event_step_ok [OF Cons.prems(1) assms(2-4) Cons.prems(2), of ev] obtain s1 where
    s1: "dpa_event_step task h_out ev s = Inr s1" "batch_ok res h_out objs n m s1" "served m (past @ [ev]) s1"
    "\<forall>j. tc_done (ds_ctxs s j) \<longrightarrow> tc_done (ds_ctxs s1 j)" by blast
  from Cons.IH [OF s1(2,3)] s1 show ?case by auto
qed

subsection \<open>Starting a batch\<close>

lemma find_inactive_prefix:
  "list_all (\<lambda>i. i < length flags \<and> flags ! i) xs \<Longrightarrow> y < length flags \<Longrightarrow> \<not> flags ! y \<Longrightarrow> find_inactive flags (xs @ y # ys) = Inr (Some y)"
  by (induction xs) simp_all

text \<open>The first \<open>m\<close> threads are busy with their tasks, which have not run yet.\<close>

definition started :: "(nat \<Rightarrow> u64) \<Rightarrow> nat \<Rightarrow> nat \<Rightarrow> dpa_sys \<Rightarrow> bool" where
  "started objs n m s \<longleftrightarrow> tg_threads (ds_g s) = n \<and> length (active_flags (ds_g s)) = n \<and> m \<le> n
     \<and> (\<forall>i < m. task_waits objs s i \<and> active_flags (ds_g s) ! i) \<and> (\<forall>i \<ge> m. ds_in s i = None \<and> ds_reply s i = None)
     \<and> (\<forall>k. m \<le> unat k \<longrightarrow> outstanding_tasks (ds_g s) k = None) \<and> (\<forall>i. m \<le> i \<longrightarrow> i < n \<longrightarrow> \<not> active_flags (ds_g s) ! i)"

lemma started_batch_ok: "started objs n m s \<Longrightarrow> batch_ok res h_out objs n m s"
  by (simp add: started_def batch_ok_def phase_def)

lemma group_idle_started: "group_idle n s \<Longrightarrow> started objs n 0 s"
  by (simp add: group_idle_def started_def)

lemma trigger_task_ok:
  assumes "started objs n m s" "m < n" "n < 2 ^ 32" "16 \<le> length junk"
  shows "\<exists>s'. trigger_task junk m (objs m) s = Inr (Some s') \<and> started objs n (Suc m) s'"
proof -
  let ?g = "ds_g s"
  have l: "length (active_flags ?g) = n" "tg_threads ?g = n" using assms(1) by (simp_all add: started_def)
  have "[0..<n] = [0..<m] @ m # [Suc m..<n]" using assms(2) by (metis le0 less_imp_le upt_add_eq_append upt_conv_Cons le_add_diff_inverse add_0)
  moreover have "list_all (\<lambda>i. i < length (active_flags ?g) \<and> active_flags ?g ! i) [0..<m]"
    using assms(1,2) l by (simp add: started_def list_all_iff)
  moreover have "\<not> active_flags ?g ! m" using assms(1,2) by (simp add: started_def)
  ultimately have f: "find_inactive (active_flags ?g) [0..<tg_threads ?g] = Inr (Some m)"
    using find_inactive_prefix [of "active_flags ?g" "[0..<m]" m "[Suc m..<n]"] l assms(2) by simp
  have o: "outstanding_tasks ?g (of_nat m) = None"
    using assms(1-3) unat_of_nat_u32 [of m] by (simp add: started_def)
  let ?ctx = "set_input_id (of_nat m) (set_input \<lparr>se_h_object = objs m\<rparr> (task_context junk))"
  let ?g' = "?g\<lparr>active_flags := (active_flags ?g)[m := True], outstanding_tasks := (outstanding_tasks ?g)(of_nat m \<mapsto> m)\<rparr>"
  let ?s = "s\<lparr>ds_ctxs := (ds_ctxs s)(m := ?ctx), ds_g := ?g', ds_in := (ds_in s)(m \<mapsto> tc_input ?ctx)\<rparr>"
  have "get_input_id ?ctx = of_nat m" by (simp add: get_input_id_def set_input_id_def)
  then have t: "trigger_task junk m (objs m) s = Inr (Some ?s)"
    using f o assms(2,3) by (simp add: trigger_task_def trigger_def get_one_inactive_thread_def Let_def)
  have new: "task_waits objs ?s m"
    using assms(1,4) by (simp add: task_waits_def started_def set_input_id_def set_input_def task_context_def input_of_def patch_def)
  have old: "task_waits objs ?s i" if "i < m" for i
  proof -
    have "task_waits objs s i" using that assms(1) by (simp add: started_def)
    moreover have "(of_nat i :: u32) \<noteq> of_nat m" using that of_nat_u32_eq [of i n m] assms(2,3) by simp
    ultimately show ?thesis using that by (simp add: task_waits_def)
  qed
  have ou: "outstanding_tasks ?g' k = None" if "Suc m \<le> unat k" for k
  proof -
    have "k \<noteq> of_nat m" using that unat_of_nat_u32 [of m] assms(2,3) by auto
    with that assms(1) show ?thesis by (simp add: started_def)
  qed
  have "started objs n (Suc m) ?s"
    unfolding started_def using new old ou l assms(1,2) by (auto simp: started_def less_Suc_eq)
  with t show ?thesis by blast
qed

lemma trigger_batch_ok:
  assumes "started objs n j s" "m \<le> n" "n < 2 ^ 32" "16 \<le> length junk" "\<forall>i < m. elem i = Inr (objs i)" "j \<le> m"
  shows "\<exists>s'. trigger_batch junk elem [j..<m] s = Inr (Some s') \<and> started objs n m s'"
  using assms(1,6)
proof (induction "m - j" arbitrary: j s)
  case 0
  then show ?case by simp
next
  case (Suc d)
  then have jm: "j < m" by simp
  from trigger_task_ok [OF Suc.prems(1) _ assms(3,4)] jm assms(2) obtain s1 where
    s1: "trigger_task junk j (objs j) s = Inr (Some s1)" "started objs n (Suc j) s1" by auto
  from Suc.hyps(1) [OF _ s1(2)] Suc.hyps(2) jm s1(1) assms(5) show ?case by (auto simp: upt_conv_Cons [OF jm])
qed

subsection \<open>Collecting a batch\<close>

text \<open>The results of tasks, without their header, aligned behind what has been written.\<close>

definition append_results :: "u8 list list \<Rightarrow> u8 list \<Rightarrow> u8 list" where
  "append_results = fold (\<lambda>x u. pad8 u @ drop OBJECT_DATA_OFFSET x)"

lemma append_results_simps [simp]:
  "append_results [] u = u" "append_results (x # xs) u = append_results xs (pad8 u @ drop OBJECT_DATA_OFFSET x)"
  "append_results (xs @ ys) u = append_results ys (append_results xs u)"
  by (simp_all add: append_results_def)

lemma append_results_length: "length u \<le> length (append_results xs u)"
proof (induction xs arbitrary: u)
  case (Cons x xs)
  have "length u \<le> length (pad8 u)" by (rule pad8_ge)
  then show ?case using Cons [of "pad8 u @ drop OBJECT_DATA_OFFSET x"] by simp
qed simp

definition results_ok :: "(nat \<Rightarrow> u8 list) \<Rightarrow> nat \<Rightarrow> bool" where
  "results_ok res m \<longleftrightarrow> (\<forall>i < m. 8 \<le> length (res i) \<and> length (res i) < 2 ^ 64)"

lemma batch_done_idle:
  assumes "batch_ok res h_out objs n m s" "\<forall>i < m. tc_done (ds_ctxs s i)" "n < 2 ^ 32"
  shows "group_idle n s"
proof -
  have d: "task_done res h_out s i" if "i < m" for i
    using assms(1,2) that by (auto simp: batch_ok_def phase_def task_waits_def task_replies_def)
  have "outstanding_tasks (ds_g s) k = None" for k
  proof (cases "unat k < m")
    case True
    with d [of "unat k"] show ?thesis by (simp add: task_done_def)
  next
    case False
    with assms(1) show ?thesis by (simp add: batch_ok_def)
  qed
  moreover have "ds_in s i = None" "ds_reply s i = None" for i
    using d [of i] assms(1) by (cases "i < m"; simp add: task_done_def batch_ok_def)+
  moreover have "\<not> active_flags (ds_g s) ! i" if "i < n" for i
    using that d [of i] assms(1) by (cases "i < m") (simp_all add: task_done_def batch_ok_def)
  then have "active_flags (ds_g s) = replicate n False" using assms(1) by (intro nth_equalityI) (simp_all add: batch_ok_def)
  ultimately show ?thesis using assms(1) by (simp add: group_idle_def batch_ok_def fun_eq_iff)
qed

lemma collect_batch_ok:
  assumes "batch_ok res h_out objs n m s" "inj_on h_out {..<n}" "\<forall>i < m. res i = task (objs i)" "n < 2 ^ 32" "results_ok res m"
    and "served m (concat (map evs [0..<j])) s" "\<forall>i < j. tc_done (ds_ctxs s i)" "j \<le> m"
    and "holds b N u" "length (append_results (map res [j..<m]) u) \<le> N"
  shows "\<exists>r. collect_batch task h_out evs [j..<m] (s, b) = Inr r
    \<and> (\<forall>s' b'. r = Some (s', b') \<longrightarrow> group_idle n s' \<and> holds b' N (append_results (map res [j..<m]) u))
    \<and> ((\<forall>i < m. serves (concat (map evs [0..<Suc i])) i) \<longrightarrow> r \<noteq> None)"
  using assms(1,6-10)
proof (induction "m - j" arbitrary: j s b u)
  case 0
  with batch_done_idle [OF 0(2) _ assms(4)] show ?case by simp
next
  case (Suc d)
  then have jm: "j < m" by simp
  note js = upt_conv_Cons [OF jm]
  from dpa_events_ok [OF Suc.prems(1) assms(2-4) Suc.prems(2), of "evs j"] obtain s1 where
    s1: "dpa_events task h_out (evs j) s = Inr s1" "batch_ok res h_out objs n m s1" "served m (concat (map evs [0..<j]) @ evs j) s1"
    "\<forall>i. tc_done (ds_ctxs s i) \<longrightarrow> tc_done (ds_ctxs s1 i)" by (elim exE conjE)
  have sv: "served m (concat (map evs [0..<Suc j])) s1" using s1(3) by simp
  show ?case
  proof (cases "tc_done (ds_ctxs s1 j)")
    case True
    then have d: "task_done res h_out s1 j"
      using s1(2) jm by (auto simp: batch_ok_def phase_def task_waits_def task_replies_def)
    let ?v = "pad8 u @ drop OBJECT_DATA_OFFSET (res j)"
    have le: "length ?v \<le> N"
      using append_results_length [of ?v "map res [Suc j..<m]"] Suc.prems(6) by (simp add: js)
    from holds_fill [OF Suc.prems(5)] le obtain b1 where b1: "fill_next_align_8 b = Inr b1" "holds b1 N (pad8 u)" by auto
    from holds_put [OF b1(2), of "drop OBJECT_DATA_OFFSET (res j)"] le obtain b2 where
      b2: "put b1 (drop OBJECT_DATA_OFFSET (res j)) = Inr b2" "holds b2 N ?v" by auto
    have rj: "8 \<le> length (res j)" "length (res j) < 2 ^ 64" using assms(5) jm by (auto simp: results_ok_def)
    then have "unat (of_nat (length (res j)) - 8 :: u64) = length (res j) - 8"
      by (simp add: unat_sub_if' unat_of_nat_u64)
    then have "chunk (res j) OBJECT_DATA_OFFSET (unat (of_nat (length (res j)) - of_nat OBJECT_DATA_OFFSET :: u64)) = drop OBJECT_DATA_OFFSET (res j)"
      by (simp add: chunk_def OBJECT_DATA_OFFSET_def)
    with s1(1) True d b1(1) b2(1) have step: "collect_batch task h_out evs [j..<m] (s, b) = collect_batch task h_out evs [Suc j..<m] (s1, b2)"
      by (simp add: js task_done_def Let_def)
    have "\<forall>i < Suc j. tc_done (ds_ctxs s1 i)" using True Suc.prems(3) s1(4) by (simp add: less_Suc_eq)
    moreover have "d = m - Suc j" using Suc.hyps(2) by simp
    moreover have "length (append_results (map res [Suc j..<m]) ?v) \<le> N" using Suc.prems(6) by (simp add: js)
    ultimately have "\<exists>r. collect_batch task h_out evs [Suc j..<m] (s1, b2) = Inr r
      \<and> (\<forall>s' b'. r = Some (s', b') \<longrightarrow> group_idle n s' \<and> holds b' N (append_results (map res [Suc j..<m]) ?v))
      \<and> ((\<forall>i < m. serves (concat (map evs [0..<Suc i])) i) \<longrightarrow> r \<noteq> None)"
      using Suc.hyps(1) [of "Suc j" s1 b2 ?v] s1(2) sv jm b2(2) by (simp del: upt_Suc)
    with step show ?thesis by (simp add: js del: upt_Suc)
  next
    case False
    then have "\<not> serves (concat (map evs [0..<Suc j])) j" using sv jm by (auto simp: served_def)
    with False s1(1) jm show ?thesis by (auto simp: js)
  qed
qed

section \<open>Arrays of objects\<close>

lemma append_results_member: "x \<in> set xs \<Longrightarrow> length (drop OBJECT_DATA_OFFSET x) \<le> length (append_results xs u)"
proof (induction xs arbitrary: u)
  case (Cons y xs)
  then show ?case using append_results_length [of "pad8 u @ drop OBJECT_DATA_OFFSET y" xs] by auto
qed simp

definition fair :: "(nat \<Rightarrow> nat \<Rightarrow> dpa_event list) \<Rightarrow> bool" where
  "fair evs \<longleftrightarrow> (\<forall>i j. serves (concat (map (evs i) [0..<Suc j])) j)"

lemma do_batches_ok:
  assumes "group_idle n s" "inj_on h_out {..<n}" "0 < n" "n < 2 ^ 32" "16 \<le> length junk"
    and "\<forall>i < length os. elem i = Inr (os ! i)" "\<forall>x \<in> set os. 8 \<le> length (task x) \<and> length (task x) < 2 ^ 64"
    and "holds b N u" "length (append_results (map task (drop (i * n) os)) u) \<le> N" "i \<le> k" "length os \<le> k * n"
  shows "\<exists>r. do_batches task h_out junk evs elem (length os) n [i..<k] (s, b) = Inr r
    \<and> (\<forall>s' b'. r = Some (s', b') \<longrightarrow> group_idle n s' \<and> holds b' N (append_results (map task (drop (i * n) os)) u))
    \<and> (fair evs \<longrightarrow> r \<noteq> None)"
  using assms(1,8-10)
proof (induction "k - i" arbitrary: i s b u)
  case 0
  with assms(11) show ?case by simp
next
  case (Suc d)
  then have ik: "i < k" by simp
  let ?m = "min n (length os - i * n)" and ?objs = "\<lambda>j. os ! (i * n + j)"
  let ?res = "\<lambda>j. task (?objs j)"
  let ?rest = "map task (drop (Suc i * n) os)"
  have el: "\<forall>j < ?m. elem (i * n + j) = Inr (?objs j)" using assms(6) by (simp add: less_diff_conv add.commute)
  have ro: "results_ok ?res ?m" using assms(7) by (simp add: results_ok_def less_diff_conv add.commute)
  have "map ?objs [0..<?m] = take n (drop (i * n) os)"
    by (rule nth_equalityI) (simp_all add: less_diff_conv add.commute)
  from arg_cong [OF this, of "map task"] have "map ?res [0..<?m] @ ?rest = map task (take n (drop (i * n) os) @ drop (Suc i * n) os)"
    by (simp add: comp_def)
  moreover have "take n (drop (i * n) os) @ drop (Suc i * n) os = drop (i * n) os"
    by (metis append_take_drop_id drop_drop mult_Suc)
  ultimately have split: "map task (drop (i * n) os) = map ?res [0..<?m] @ ?rest" by (simp only:)
  from trigger_batch_ok [OF group_idle_started [OF Suc.prems(1), of ?objs] _ assms(4,5) el] obtain s1 where
    s1: "trigger_batch junk (\<lambda>j. elem (i * n + j)) [0..<?m] s = Inr (Some s1)" "started ?objs n ?m s1" by auto
  let ?u = "append_results (map ?res [0..<?m]) u"
  have le: "length ?u \<le> N" "length (append_results ?rest ?u) \<le> N"
    using Suc.prems(3) append_results_length [of ?u ?rest] unfolding split by simp_all
  have sv: "served ?m (concat (map (evs i) [0..<0])) s1" by (simp add: served_def serves_def)
  have "\<exists>r. collect_batch task h_out (evs i) [0..<?m] (s1, b) = Inr r
    \<and> (\<forall>s' b'. r = Some (s', b') \<longrightarrow> group_idle n s' \<and> holds b' N ?u)
    \<and> ((\<forall>j < ?m. serves (concat (map (evs i) [0..<Suc j])) j) \<longrightarrow> r \<noteq> None)"
    by (rule collect_batch_ok [OF started_batch_ok [OF s1(2), of ?res h_out] assms(2) _ assms(4) ro sv _ _ Suc.prems(2) le(1)]) simp_all
  then obtain r where r: "collect_batch task h_out (evs i) [0..<?m] (s1, b) = Inr r"
      "\<forall>s' b'. r = Some (s', b') \<longrightarrow> group_idle n s' \<and> holds b' N ?u"
      "(\<forall>j < ?m. serves (concat (map (evs i) [0..<Suc j])) j) \<longrightarrow> r \<noteq> None"
    by (elim exE conjE)
  show ?case
  proof (cases r)
    case None
    then have "\<not> fair evs" using r(3) unfolding fair_def by blast
    with None r(1) s1(1) show ?thesis by (simp add: upt_conv_Cons [OF ik] Let_def)
  next
    case (Some st)
    obtain s2 b2 where st: "st = (s2, b2)" by (cases st)
    with Some r(2) have "group_idle n s2" "holds b2 N ?u" by auto
    moreover have "d = k - Suc i" "Suc i \<le> k" using Suc.hyps(2) ik by auto
    ultimately have "\<exists>r. do_batches task h_out junk evs elem (length os) n [Suc i..<k] (s2, b2) = Inr r
      \<and> (\<forall>s' b'. r = Some (s', b') \<longrightarrow> group_idle n s' \<and> holds b' N (append_results ?rest ?u)) \<and> (fair evs \<longrightarrow> r \<noteq> None)"
      using le(2) by (intro Suc.hyps(1))
    moreover have "do_batches task h_out junk evs elem (length os) n [i..<k] (s, b) = do_batches task h_out junk evs elem (length os) n [Suc i..<k] (s2, b2)"
      using Some st r(1) s1(1) by (simp add: upt_conv_Cons [OF ik] Let_def)
    ultimately show ?thesis unfolding split by simp
  qed
qed

text \<open>
  Values whose serialized form does not depend on where it is written: no object in them has a
  reference field, whose member offset would be stored. A missing element is not among them, since
  its class id is that of the context.
\<close>

fun movable :: "jtree \<Rightarrow> bool" where
  "movable JNull \<longleftrightarrow> True"
| "movable (JEnum ci n) \<longleftrightarrow> True"
| "movable (JObj ci body ts) \<longleftrightarrow> ref_fields ci = []"
| "movable (JPrims ci n elems) \<longleftrightarrow> True"
| "movable (JRefs ci ts) \<longleftrightarrow> (\<forall>t \<in> set ts. movable t)"

lemma pad8_shift: "length p mod 8 = 0 \<Longrightarrow> pad8 (p @ u) = p @ pad8 u"
proof -
  assume "length p mod 8 = 0"
  then have "upper_align (length p + length u) 8 = length p + upper_align (length u) 8"
    by (simp add: upper_align_def) presburger
  then show ?thesis by (simp add: pad8_def)
qed

lemma ser_shift:
  "length p mod 8 = 0 \<Longrightarrow> movable t \<Longrightarrow> ser cv eid t (p @ u) = p @ ser cv eid t u"
  "length p mod 8 = 0 \<Longrightarrow> ser_fields cv base [] ts (p @ u) = p @ ser_fields cv base [] ts u"
  "length p mod 8 = 0 \<Longrightarrow> \<forall>t \<in> set ts. movable t \<Longrightarrow> ser_elems cv eid ts (p @ u) = p @ ser_elems cv eid ts u"
  by (induction cv eid t u and cv base "[] :: field_info_t list" ts u and cv eid ts u rule: ser_ser_fields_ser_elems.induct) (simp_all add: pad8_shift)

lemma ser_pad8:
  assumes "movable t"
  shows "ser cv eid t u = pad8 u @ ser cv eid t []"
proof -
  have a: "length (pad8 u) mod 8 = 0" by (simp add: upper_align_def)
  then have "pad8 (pad8 u) = pad8 u" by (rule pad8_aligned)
  then have "ser cv eid t u = ser cv eid t (pad8 u)" by (cases t) simp_all
  with ser_shift(1) [OF a assms, of cv eid "[]"] show ?thesis by simp
qed

lemma ser_eid: "t \<noteq> JNull \<Longrightarrow> ser cv eid t u = ser cv eid' t u"
  by (cases t) simp_all

lemma drop_serialized:
  assumes "movable t" "t \<noteq> JNull"
  shows "drop OBJECT_DATA_OFFSET (serialized cv t) = ser cv eid t []"
proof -
  have "ser cv UNREGISTERED_CLASS_ID t (replicate 8 0) = replicate 8 0 @ ser cv UNREGISTERED_CLASS_ID t []"
    using ser_shift(1) [of "replicate 8 0" t cv UNREGISTERED_CLASS_ID "[]"] assms(1) by simp
  then have "drop 8 (serialized cv t) = ser cv UNREGISTERED_CLASS_ID t []"
    by (simp add: serialized_def Let_def patch_def)
  with ser_eid [OF assms(2)] show ?thesis by (metis OBJECT_DATA_OFFSET_def)
qed

lemma append_results_ser:
  "\<forall>t \<in> set ts. movable t \<and> t \<noteq> JNull \<Longrightarrow> append_results (map (serialized cv) ts) u = ser_elems cv eid ts u"
proof (induction ts arbitrary: u)
  case (Cons t ts)
  have "pad8 u @ drop OBJECT_DATA_OFFSET (serialized cv t) = ser cv eid t u"
    using Cons.prems ser_pad8 [of t cv eid u] drop_serialized [of t cv eid] by simp
  with Cons show ?case by simp
qed simp

lemma length_serialized_ge: "8 \<le> length (serialized cv t)"
  using ser_length_ge [of "replicate 8 0" cv UNREGISTERED_CLASS_ID t] by (simp add: serialized_def Let_def)

lemma repr_elems_refs:
  "repr_elems a m r obj hs eid i ts \<Longrightarrow> \<exists>ps. length ps = length ts \<and> (\<forall>j < length ts. array_elem_ref a m obj hs (of_nat (i + j)) = Inr (ps ! j))"
proof (induction ts arbitrary: i)
  case (Cons t ts)
  from Cons.prems have "repr_elems a m r obj hs eid (Suc i) ts" by simp
  from Cons.IH [OF this] obtain ps where
    ps: "length ps = length ts" "\<forall>j < length ts. array_elem_ref a m obj hs (of_nat (Suc i + j)) = Inr (ps ! j)" by (elim exE conjE)
  from Cons.prems obtain p where "array_elem_ref a m obj hs (of_nat i) = Inr p" by (auto split: sum.splits)
  with ps have "array_elem_ref a m obj hs (of_nat (i + j)) = Inr ((p # ps) ! j)" if "j < Suc (length ts)" for j
    using that by (cases j) simp_all
  with ps(1) show ?case by (intro exI [of _ "p # ps"]) simp
qed simp

lemma ceil_div: "0 < n \<Longrightarrow> (l :: nat) \<le> (l + n - 1) div n * n"
  using div_mult_mod_eq [of "l + n - 1" n] mod_less_divisor [of n "l + n - 1"] by linarith

lemma do_array_obj_serialize_ok:
  assumes "group_idle n s" "inj_on h_out {..<n}" "0 < n" "n < 2 ^ 32" "16 \<le> length junk"
    and "unat (array_length (w_heap E) obj (array_header_size info)) = length os"
    and "\<forall>i < length os. array_elem_ref (w_args E) (w_heap E) obj (array_header_size info) (of_nat i) = Inr (os ! i)"
    and "\<forall>x \<in> set os. 8 \<le> length (task x) \<and> length (task x) < 2 ^ 64"
    and full: "full = append_results (map task os)
      (take 8 out @ u16_bytes (ci_id info) @ u16_bytes ARRAY_FLAG @ u32_bytes (array_length (w_heap E) obj (array_header_size info)))"
    and "length full \<le> length out" "8 \<le> length out"
  shows "\<exists>r. do_array_obj_serialize task h_out junk evs E n out obj info s = Inr r
    \<and> (\<forall>bytes s'. r = Some (bytes, s') \<longrightarrow> bytes = patch full 0 (u64_bytes (of_nat (length full))) \<and> group_idle n s')
    \<and> (fair evs \<longrightarrow> r \<noteq> None)"
proof -
  let ?N = "length out" and ?len = "array_length (w_heap E) obj (array_header_size info)"
  let ?u = "take 8 out @ u16_bytes (ci_id info) @ u16_bytes ARRAY_FLAG @ u32_bytes ?len"
  have l: "16 \<le> ?N" "length ?u = 16" using append_results_length [of ?u "map task os"] assms(9-11) by simp_all
  have h0: "holds (skip (rw_new out) OBJECT_DATA_OFFSET) ?N (take 8 out)"
    using l by (simp add: holds_def skip_def rw_new_def limit_def OBJECT_DATA_OFFSET_def)
  from holds_put [OF h0, of "u16_bytes (ci_id info)"] l obtain b1 where
    b1: "put (skip (rw_new out) OBJECT_DATA_OFFSET) (u16_bytes (ci_id info)) = Inr b1" "holds b1 ?N (take 8 out @ u16_bytes (ci_id info))" by auto
  from holds_put [OF b1(2), of "u16_bytes ARRAY_FLAG"] l obtain b2 where
    b2: "put b1 (u16_bytes ARRAY_FLAG) = Inr b2" "holds b2 ?N ((take 8 out @ u16_bytes (ci_id info)) @ u16_bytes ARRAY_FLAG)" by auto
  from holds_put [OF b2(2), of "u32_bytes ?len"] l obtain b3 where
    b3: "put b2 (u32_bytes ?len) = Inr b3" "holds b3 ?N ?u" by auto
  have pu: "pad8 ?u = ?u" using l(2) by (intro pad8_aligned) simp
  from holds_fill [OF b3(2)] l obtain b4 where b4: "fill_next_align_8 b3 = Inr b4" "holds b4 ?N ?u" unfolding pu by auto
  let ?k = "(length os + n - 1) div n"
  have "\<exists>r. do_batches task h_out junk evs (\<lambda>i. array_elem_ref (w_args E) (w_heap E) obj (array_header_size info) (of_nat i)) (length os) n [0..<?k] (s, b4) = Inr r
    \<and> (\<forall>s' b'. r = Some (s', b') \<longrightarrow> group_idle n s' \<and> holds b' ?N full) \<and> (fair evs \<longrightarrow> r \<noteq> None)"
    using do_batches_ok [OF assms(1-5,7,8) b4(2), of 0 ?k evs] assms(10) ceil_div [OF assms(3), of "length os"] by (simp add: full)
  then obtain r where r: "do_batches task h_out junk evs (\<lambda>i. array_elem_ref (w_args E) (w_heap E) obj (array_header_size info) (of_nat i)) (length os) n [0..<?k] (s, b4) = Inr r"
    "\<forall>s' b'. r = Some (s', b') \<longrightarrow> group_idle n s' \<and> holds b' ?N full" "fair evs \<longrightarrow> r \<noteq> None" by (elim exE conjE)
  have c: "check (rw_off (skip (rw_new out) OBJECT_DATA_OFFSET) mod 8 = 0) Assert_fail = Inr ()"
    using holds_off [OF h0] l by (simp add: check_def)
  note start = do_array_obj_serialize_def Let_def c bnd_Inr b1(1) b2(1) b3(1) b4(1) assms(6) r(1)
  show ?thesis
  proof (cases r)
    case None
    with r(3) show ?thesis unfolding start by simp
  next
    case (Some st)
    obtain s' b' where st: "st = (s', b')" by (cases st)
    with Some r(2) have h: "group_idle n s'" "holds b' ?N full" by auto
    have "8 \<le> length full" using append_results_length [of ?u "map task os"] l(2) full by simp
    with holds_put_at [OF h(2), of 0 "u64_bytes (of_nat (length full))"] obtain b'' where
      b'': "put_at b' (u64_bytes (of_nat (length full))) 0 = Inr b''" "holds b'' ?N (patch full 0 (u64_bytes (of_nat (length full))))" by auto
    then have "take (length full) (rw_b b'') = patch full 0 (u64_bytes (of_nat (length full)))"
      using \<open>8 \<le> length full\<close> by (simp add: holds_def)
    then show ?thesis unfolding start using Some st b''(1) h holds_off [OF h(2)] by simp
  qed
qed

text \<open>What the batches write is the serialized array.\<close>

lemma batched_bytes:
  assumes "\<forall>t \<in> set ts. movable t \<and> t \<noteq> JNull" "length u = 8"
    and full: "full = append_results (map (serialized cv) ts) (u @ u16_bytes (ci_id ci) @ u16_bytes ARRAY_FLAG @ u32_bytes (of_nat (length ts)))"
  shows "patch full 0 (u64_bytes (of_nat (length full))) = serialized cv (JRefs ci ts)" "length full = length (serialized cv (JRefs ci ts))"
proof -
  let ?s = "ser cv UNREGISTERED_CLASS_ID (JRefs ci ts)"
  have "full = ?s u"
    using append_results_ser [OF assms(1), of cv _ "fi_id (ci_fields ci ! 0)"] assms(2) by (simp add: full pad8_aligned)
  moreover have "agree 8 u (replicate 8 0)" using assms(2) by (simp add: agree_def)
  from ser_agree(1) [OF this, of cv UNREGISTERED_CLASS_ID "JRefs ci ts"]
  have "length (?s u) = length (?s (replicate 8 0))" "drop 8 (?s u) = drop 8 (?s (replicate 8 0))" by (simp_all add: agree_def)
  ultimately show "patch full 0 (u64_bytes (of_nat (length full))) = serialized cv (JRefs ci ts)"
    "length full = length (serialized cv (JRefs ci ts))"
    using ser_length_ge [of "replicate 8 0" cv UNREGISTERED_CLASS_ID "JRefs ci ts"] by (simp_all add: serialized_def Let_def patch_def)
qed



text \<open>An array of two byte arrays on two threads; the second reply comes first.\<close>

definition info_refs :: class_info_t where
  "info_refs = \<lparr>ci_klass = 0x1000, ci_id = 20, ci_enum_ref_arr_off = 0, ci_klass_cptr = 0x200, ci_obj_size = 16,
     ci_header_size = 16, ci_n_non_static_field = 1, ci_n_static_field = 0, ci_dim = 2, ci_sig_off = 48,
     ci_fields = [\<lparr>fi_id = 21, fi_offset = 0, fi_type = T_ARRAY, fi_flag = 0, fi_j_field_id = 0\<rparr>], ci_enums = [], ci_sig = ''[[B''\<rparr>"

definition env_refs :: wenv where
  "env_refs = env_AB\<lparr>w_heap := heap_AB(0x10c := 2, 0x110 := 0x40, 0x114 := 0x60, 0x309 := 0x04, 0x30c := 1, 0x310 := 9),
     w_resolver := resolver_AB\<lparr>r_store := [0x4000 \<mapsto> info_refs, 0x4100 \<mapsto> info_bytes]\<rparr>\<rparr>"

definition elem_trees :: "jtree list" where
  "elem_trees = [JPrims info_bytes 3 [1, 2, 3], JPrims info_bytes 1 [9]]"

definition elem_task :: "u64 \<Rightarrow> u8 list" where
  "elem_task p = serialized (prims_encoding env_refs) (elem_trees ! (if p = 0x200 then 0 else 1))"

definition idle_sys :: dpa_sys where
  "idle_sys = \<lparr>ds_ctxs = \<lambda>_. task_context [], ds_g = tg_add (tg_add (tg_new 2)), ds_in = Map.empty, ds_reply = Map.empty, ds_out = \<lambda>_. []\<rparr>"

definition second_first :: "nat \<Rightarrow> nat \<Rightarrow> dpa_event list" where
  "second_first i j = (if j = 0 then [Thread_runs 1, Reply_arrives 1] else []) @ [Thread_runs j, Reply_arrives j]"

lemma fair_second_first: "fair second_first"
  unfolding fair_def
proof (intro allI)
  fix i j
  let ?e = "concat (map (second_first i) [0..<j]) @ (if j = 0 then [Thread_runs 1, Reply_arrives 1] else []) @ [Thread_runs j]"
  have "concat (map (second_first i) [0..<Suc j]) = ?e @ [Reply_arrives j]" by (simp add: second_first_def)
  then show "serves (concat (map (second_first i) [0..<Suc j])) j" unfolding serves_def by (intro exI [of _ ?e] exI [of _ "[]"]) simp
qed

lemma class_refs:
  "class_at (w_args env_refs) (w_heap env_refs) (w_resolver env_refs) 0x100 = Some info_refs"
  "class_at (w_args env_refs) (w_heap env_refs) (w_resolver env_refs) 0x200 = Some info_bytes"
  "class_at (w_args env_refs) (w_heap env_refs) (w_resolver env_refs) 0x300 = Some info_bytes"
  by (simp_all add: class_at_def klass_pointer_def parse_metaspace_cptr_def parse_cptr_def parse_u32_at_def raw_def rd_4 heap_AB_def bytes_u32_def
      env_refs_def env_AB_def example_jvm_def info_by_klass_addr_def get_class_info_def lower_bound_def klass_of_def resolver_AB_def info_refs_def info_bytes_def Let_def)

lemma elems_refs:
  "array_elem_ref (w_args env_refs) (w_heap env_refs) 0x100 (array_header_size info_refs) 0 = Inr 0x200"
  "array_elem_ref (w_args env_refs) (w_heap env_refs) 0x100 (array_header_size info_refs) 1 = Inr 0x300"
  "array_length (w_heap env_refs) 0x100 (array_header_size info_refs) = 2"
  by (simp_all add: array_elem_ref_def reference_at_def array_length_def parse_heap_cptr_def parse_cptr_def parse_u32_at_def raw_def rd_4 heap_AB_def bytes_u32_def
      env_refs_def env_AB_def example_jvm_def info_refs_def array_header_size_def)

lemma represents_refs: "represents env_refs 0x100 UNREGISTERED_CLASS_ID (JRefs info_refs elem_trees)"
proof -
  have b: "array_body_size info_bytes n = Inr n" for n
    by (simp add: array_body_size_def get_field_def info_bytes_def type_size_def Let_def)
  have i: "\<not> is_enum info_bytes" "is_array info_bytes" "ci_fields info_bytes \<noteq> []" "is_primitive_type (fi_type (ci_fields info_bytes ! 0))" "ci_dim info_bytes = 1"
    "array_header_size info_bytes = 16"
    by (simp_all add: is_enum_def is_array_def info_bytes_def is_primitive_type_def array_header_size_def)
  have r: "rd (w_heap env_refs) 0x210 3 = [1, 2, 3]" "rd (w_heap env_refs) 0x310 1 = [9]"
    by (simp_all add: rd_def upt_rec heap_AB_def env_refs_def env_AB_def)
  have l: "array_length (w_heap env_refs) 0x200 16 = 3" "array_length (w_heap env_refs) 0x300 16 = 1"
    by (simp_all add: array_length_def parse_u32_at_def raw_def rd_4 heap_AB_def bytes_u32_def env_refs_def env_AB_def)
  have "represents env_refs 0x200 21 (JPrims info_bytes 3 [1, 2, 3])" "represents env_refs 0x300 21 (JPrims info_bytes 1 [9])"
    using class_refs b i r l by (simp_all add: raw_def)
  moreover have "\<not> is_enum info_refs" "is_array info_refs" "ci_fields info_refs \<noteq> []" "is_reference_type (fi_type (ci_fields info_refs ! 0))" "fi_id (ci_fields info_refs ! 0) = 21"
    by (simp_all add: is_enum_def is_array_def info_refs_def is_reference_type_def)
  ultimately show ?thesis using class_refs(1) elems_refs by (simp add: elem_trees_def del: repr.simps(4))
qed



text \<open>
  With reference fields the bytes differ: the member offsets of an element are those of its own task,
  not of its place in the array.
\<close>

lemma batched_offsets_differ:
  "append_results (map (serialized (\<lambda>ci elems. elems)) [tree_AB, tree_AB]) (replicate 16 0) \<noteq> ser_elems (\<lambda>ci elems. elems) 20 [tree_AB, tree_AB] (replicate 16 0)"
  by code_simp

end
