(* ===== verification/Sd_Native.thy ===== *)
theory Sd_Native
  imports Dpa_Context
begin

text \<open>
  \<^verbatim>\<open>lib/sd/native/options.hxx\<close> and the entry points of the serializer in \<^verbatim>\<open>lib/native/sd_native.cxx\<close>:
  reading the options from the Java object, preparing host and device, and choosing the serializer.
\<close>

section \<open>Options\<close>

record Options =
  use_dpa :: bool
  enable_utf16_to_utf8 :: bool
  max_class_info_size :: u64
  max_task_ctx_buffer_size :: u64
  max_task_out_buffer_size :: u64
  max_device_threads :: u64
  max_heap_size :: u64
  min_heap_size :: u64
  heap_base_min_address :: u64
  metaspace_base_min_address :: u64
  metaspace_size :: u64
  max_metaspace_size :: u64
  compressed_class_space_size :: u64
  use_compressed_oops :: bool
  use_compressed_class_pointers :: bool
  compressed_oops_mode :: string
  oop_shift_amount :: u64
  narrow_klass_base :: u64
  narrow_klass_shift :: u64
  compressed_class_space_base :: u64

text \<open>The fields of the Java object by their names; \<open>mmap_h\<close> below is the field of \<^verbatim>\<open>args\<close> that is not initialised.\<close>

record j_options =
  jo_bool :: "string \<Rightarrow> bool"
  jo_long :: "string \<Rightarrow> u64"
  jo_string :: "string \<Rightarrow> string"

definition from_java :: "u32 \<Rightarrow> j_options \<Rightarrow> (Options \<times> jvm_args_t) result" where
  "from_java mmap_h j =
    (let get_bool = jo_bool j; get_long = jo_long j;
         opt = \<lparr>use_dpa = get_bool ''useDpa'', enable_utf16_to_utf8 = get_bool ''enableUtf16ToUtf8'',
           max_class_info_size = get_long ''maxClassInfoSize'', max_task_ctx_buffer_size = get_long ''maxTaskCtxBufferSize'',
           max_task_out_buffer_size = get_long ''maxTaskOutBufferSize'', max_device_threads = get_long ''maxDeviceThreads'',
           max_heap_size = get_long ''maxHeapSize'', min_heap_size = get_long ''minHeapSize'',
           heap_base_min_address = get_long ''heapBaseMinAddress'', metaspace_base_min_address = get_long ''metaspaceBaseMinAddress'',
           metaspace_size = get_long ''metaspaceSize'', max_metaspace_size = get_long ''maxMetaspaceSize'',
           compressed_class_space_size = get_long ''compressedClassSpaceSize'', use_compressed_oops = get_bool ''useCompressedOops'',
           use_compressed_class_pointers = get_bool ''useCompressedClassPointers'', compressed_oops_mode = jo_string j ''compressedOopsMode'',
           oop_shift_amount = get_long ''oopShiftAmount'', narrow_klass_base = get_long ''narrowKlassBase'',
           narrow_klass_shift = get_long ''narrowKlassShift'', compressed_class_space_base = get_long ''compressedClassSpaceBase''\<rparr>;
         args = \<lparr>h_heap_base = heap_base_min_address opt, h_heap_size = max_heap_size opt,
           h_compressed_class_space_base = compressed_class_space_base opt, h_compressed_class_space_size = compressed_class_space_size opt,
           heap_mmap_h = mmap_h, heap_compress_ptr_mode = MODE_ZERO_BASED, metaspace_compress_ptr_mode = MODE_ZERO_BASED,
           heap_compress_ptr_shift = ucast (oop_shift_amount opt), metaspace_compress_ptr_shift = ucast (narrow_klass_shift opt)\<rparr> in
     bnd (check (compressed_oops_mode opt = ''Zero based'') Die) (\<lambda>_.
       Inr (if use_dpa opt \<and> enable_utf16_to_utf8 opt then opt\<lparr>enable_utf16_to_utf8 := False\<rparr> else opt, args)))"

section \<open>Entry points\<close>

text \<open>\<^verbatim>\<open>Initialize\<close>: with the DPA the device learns the heap under the handle \<open>heap_h\<close>; \<open>G\<close> is its global state.\<close>

definition SD_Initialize :: "u32 \<Rightarrow> u32 \<Rightarrow> j_options \<Rightarrow> kglobals \<Rightarrow> (Options \<times> jvm_args_t \<times> kglobals) result" where
  "SD_Initialize mmap_h heap_h j G =
    bnd (from_java mmap_h j) (\<lambda>(opt, args).
      Inr (opt, args,
        if use_dpa opt
        then register_jvm_heap (h_heap_base args) (h_heap_size args) (h_compressed_class_space_base args) (h_compressed_class_space_size args) heap_h
               (heap_compress_ptr_mode args) (metaspace_compress_ptr_mode args) (heap_compress_ptr_shift args) (metaspace_compress_ptr_shift args) G
        else G))"

text \<open>\<^verbatim>\<open>Start\<close> exports the class descriptions, \<^verbatim>\<open>Serialize\<close> chooses the context.\<close>

definition SD_Start :: "Options \<Rightarrow> (u32 \<Rightarrow> u64 \<Rightarrow> u64) \<Rightarrow> MemoryRegion \<Rightarrow> u32 \<Rightarrow> u32 \<times> u64 \<Rightarrow> u32 \<times> u64 \<Rightarrow> ClassResolver \<Rightarrow> kglobals \<times> mem \<Rightarrow> (kglobals \<times> mem) result" where
  "SD_Start opt ext dev infos_h by_id by_klass r s = (if use_dpa opt then export_class_infos ext dev infos_h by_id by_klass r s else Inr s)"

definition SD_Serialize :: "Options \<Rightarrow> (u64 \<Rightarrow> u8 list) \<Rightarrow> (nat \<Rightarrow> u64) \<Rightarrow> u8 list \<Rightarrow> (nat \<Rightarrow> nat \<Rightarrow> dpa_event list) \<Rightarrow> nat \<Rightarrow> wenv \<Rightarrow> u8 list \<Rightarrow> u64 \<Rightarrow> dpa_sys
    \<Rightarrow> (u8 list option \<times> dpa_sys) option result" where
  "SD_Serialize opt task h_out junk evs k E out obj s =
    (if use_dpa opt then DPAContext_serialize task h_out junk evs E (unat (max_device_threads opt)) out obj s
     else bnd (Context_serialize k E obj out) (\<lambda>bytes. Inr (Some (Some bytes, s))))"

text \<open>
  C30. Initialization accepts a JVM with zero-based compressed references only, and then host and device
  agree: both decode every heap and metaspace reference in the same way, with a mode that
  decompression and compression support, and with the DPA the conversion of strings, which the
  kernel does not have, is off.
\<close>

theorem SD_Initialize_agrees:
  assumes "SD_Initialize mmap_h heap_h j G = Inr (opt, args, G')"
  shows "jo_string j ''compressedOopsMode'' = ''Zero based'' \<and> heap_compress_ptr_mode args = MODE_ZERO_BASED \<and> metaspace_compress_ptr_mode args = MODE_ZERO_BASED
    \<and> use_dpa opt = jo_bool j ''useDpa'' \<and> h_heap_base args = heap_base_min_address opt \<and> h_heap_size args = max_heap_size opt
    \<and> (use_dpa opt \<longrightarrow> \<not> enable_utf16_to_utf8 opt \<and> g_jvm_args G' = args\<lparr>heap_mmap_h := heap_h\<rparr>
        \<and> (\<forall>c. k_parse_heap_cptr G' c = parse_heap_cptr args c \<and> k_parse_metaspace_cptr G' c = parse_metaspace_cptr args c))"
  using assms by (auto simp: SD_Initialize_def from_java_def register_jvm_heap_def kernel_helpers Let_def check_def parse_heap_cptr_def parse_metaspace_cptr_def split: if_splits)

definition dpa_options :: j_options where
  "dpa_options = \<lparr>jo_bool = \<lambda>_. True, jo_long = \<lambda>f. if f = ''oopShiftAmount'' then 3 else 0x1000, jo_string = \<lambda>_. ''Zero based''\<rparr>"

theorem SD_Initialize_agrees_witness:
  "\<exists>opt args G'. SD_Initialize 0 7 dpa_options globals_AB = Inr (opt, args, G') \<and> \<not> enable_utf16_to_utf8 opt \<and> heap_mmap_h (g_jvm_args G') = 7"
proof -
  obtain opt args G' where i: "SD_Initialize 0 7 dpa_options globals_AB = Inr (opt, args, G')"
    by (simp add: SD_Initialize_def from_java_def dpa_options_def Let_def check_def)
  from SD_Initialize_agrees [OF i] have "use_dpa opt" "use_dpa opt \<longrightarrow> \<not> enable_utf16_to_utf8 opt \<and> g_jvm_args G' = args\<lparr>heap_mmap_h := 7\<rparr>"
    by (simp_all add: dpa_options_def)
  with i show ?thesis by simp
qed

section \<open>Device buffers and the DPA context\<close>

text \<open>
  \<^verbatim>\<open>DPABuffer\<close> of \<^verbatim>\<open>lib/doca/dpa_buffer.hxx\<close>: \<open>alloc\<close> allocates on the device, where the size has only 32 bits.
\<close>

definition DPABuffer_new :: "(u32 \<Rightarrow> u64) \<Rightarrow> u64 \<Rightarrow> MemoryRegion" where
  "DPABuffer_new alloc sz = \<lparr>mr_base = alloc (ucast sz), mr_len = sz\<rparr>"

definition device_memset :: "MemoryRegion \<Rightarrow> u8 \<Rightarrow> mem \<Rightarrow> mem" where
  "device_memset b c m = wr m (mr_base b) (replicate (unat (mr_len b)) c)"

definition copy_to_device :: "MemoryRegion \<Rightarrow> u8 list \<Rightarrow> u64 \<Rightarrow> mem \<Rightarrow> mem result" where
  "copy_to_device b src offset m =
    bnd (check (offset + of_nat (length src) \<le> mr_len b) Assert_fail) (\<lambda>_. Inr (wr m (mr_base b + offset) src))"

definition copy_from_device :: "MemoryRegion \<Rightarrow> u64 \<Rightarrow> u64 \<Rightarrow> mem \<Rightarrow> u8 list result" where
  "copy_from_device b len offset m =
    bnd (check (offset + len \<le> mr_len b) Assert_fail) (\<lambda>_. Inr (rd m (mr_base b + offset) (unat len)))"

text \<open>
  \<^verbatim>\<open>ThreadContext\<close> and the constructor of \<^verbatim>\<open>DPAContext\<close>. \<open>hs i\<close> are the addresses of thread \<open>i\<close>'s context buffer and
  output buffers on the device and the host, and the handle of the last.
\<close>

definition ThreadContext_new :: "Options \<Rightarrow> u64 \<times> u64 \<times> u64 \<times> u32 \<Rightarrow> sd_thread_args_t result" where
  "ThreadContext_new opt h =
    bnd (check (max_device_threads opt \<noteq> 0) Out_of_bounds) (\<lambda>_.
      case h of (d_ctx, d_out, h_out, h_out_h) \<Rightarrow>
        Inr \<lparr>ta_d_ctx = d_ctx, ta_d_ctx_len = max_task_ctx_buffer_size opt, ta_d_output = d_out,
             ta_d_output_len = max_task_out_buffer_size opt div max_device_threads opt, ta_h_output = h_out, ta_h_output_h = h_out_h\<rparr>)"

primrec add_threads :: "(nat \<Rightarrow> u64 \<times> u64 \<times> u64 \<times> u32) \<Rightarrow> Options \<Rightarrow> nat list \<Rightarrow> sd_thread_args_t list \<times> DPAThreadGroup
    \<Rightarrow> (sd_thread_args_t list \<times> DPAThreadGroup) result" where
  "add_threads hs opt [] st = Inr st"
| "add_threads hs opt (i # is) st =
    bnd (ThreadContext_new opt (hs i)) (\<lambda>t. add_threads hs opt is (fst st @ [t], tg_add (snd st)))"

definition DPAContext_new :: "(nat \<Rightarrow> u64 \<times> u64 \<times> u64 \<times> u32) \<Rightarrow> Options \<Rightarrow> (sd_thread_args_t list \<times> DPAThreadGroup) result" where
  "DPAContext_new hs opt =
    add_threads hs opt [0..<unat (max_device_threads opt)] ([], tg_new (unat (ucast (max_device_threads opt) :: u32)))"

lemma add_threads_Inr:
  assumes "max_device_threads opt \<noteq> 0"
  shows "\<exists>ts'. add_threads hs opt is (ts, g) = Inr (ts @ ts', g\<lparr>tg_threads := tg_threads g + length is\<rparr>) \<and> length ts' = length is
    \<and> (\<forall>t \<in> set ts'. ta_d_output_len t = max_task_out_buffer_size opt div max_device_threads opt)"
proof (induction "is" arbitrary: ts g)
  case (Cons i "is")
  obtain t where t: "ThreadContext_new opt (hs i) = Inr t" "ta_d_output_len t = max_task_out_buffer_size opt div max_device_threads opt"
    using assms by (cases "hs i") (simp add: ThreadContext_new_def)
  from Cons [of "ts @ [t]" "tg_add g"] obtain ts' where
    "add_threads hs opt is (ts @ [t], tg_add g) = Inr ((ts @ [t]) @ ts', (tg_add g)\<lparr>tg_threads := tg_threads (tg_add g) + length is\<rparr>)"
    "length ts' = length is" "\<forall>t \<in> set ts'. ta_d_output_len t = max_task_out_buffer_size opt div max_device_threads opt" by blast
  with t show ?case by (intro exI [of _ "t # ts'"]) (simp add: tg_add_def)
qed simp

text \<open>The context starts with as many idle threads as the options ask for, which share the output size evenly.\<close>

lemma DPAContext_new_idle:
  assumes "max_device_threads opt \<noteq> 0" "unat (max_device_threads opt) < 2 ^ 32"
  shows "\<exists>ts g. DPAContext_new hs opt = Inr (ts, g) \<and> length ts = unat (max_device_threads opt)
    \<and> group_idle (unat (max_device_threads opt)) \<lparr>ds_ctxs = ctxs, ds_g = g, ds_in = Map.empty, ds_reply = Map.empty, ds_out = out\<rparr>
    \<and> (\<forall>t \<in> set ts. unat (ta_d_output_len t) * length ts \<le> unat (max_task_out_buffer_size opt))"
proof -
  have n: "unat (ucast (max_device_threads opt) :: u32) = unat (max_device_threads opt)"
    using assms(2) by (simp add: unsigned_ucast_eq take_bit_nat_eq_self)
  from add_threads_Inr [OF assms(1), of hs "[0..<unat (max_device_threads opt)]" "[]" "tg_new (unat (max_device_threads opt))"]
  obtain ts where ts: "DPAContext_new hs opt = Inr (ts, (tg_new (unat (max_device_threads opt)))\<lparr>tg_threads := unat (max_device_threads opt)\<rparr>)"
    "length ts = unat (max_device_threads opt)" "\<forall>t \<in> set ts. ta_d_output_len t = max_task_out_buffer_size opt div max_device_threads opt"
    by (auto simp: DPAContext_new_def n tg_new_def)
  then show ?thesis by (auto simp: group_idle_def tg_new_def unat_div_distrib)
qed

text \<open>Without a device thread every serialization waits for ever: no thread is ever free.\<close>

lemma no_device_threads:
  assumes "max_device_threads opt = 0"
  shows "\<exists>g. DPAContext_new hs opt = Inr ([], g) \<and> (\<forall>k ctx. trigger k ctx g = Inr None)"
  using assms by (simp add: DPAContext_new_def tg_new_def trigger_def get_one_inactive_thread_def)

section \<open>Serializer handles\<close>

text \<open>
  \<^verbatim>\<open>lib/native/serde_native.cxx\<close>: contexts that Java threads create and close. \<open>sn_live\<close> are the contexts that are
  allocated; \<open>sn_ctx\<close> is the set \<^verbatim>\<open>g_ctx\<close>. Using or deleting a context that is not allocated is an error.
\<close>

record serde =
  sn_options :: Options
  sn_r :: bool
  sn_ctx :: "u64 set"
  sn_live :: "u64 set"

definition Serde_Initialize :: "u32 \<Rightarrow> j_options \<Rightarrow> serde \<Rightarrow> (jvm_args_t \<times> serde) result" where
  "Serde_Initialize mmap_h j s =
    bnd (from_java mmap_h j) (\<lambda>(opt, args). Inr (args, s\<lparr>sn_options := opt\<lparr>enable_utf16_to_utf8 := True\<rparr>, sn_r := True\<rparr>))"

definition Serde_create :: "u64 \<Rightarrow> serde \<Rightarrow> u64 \<times> serde" where
  "Serde_create ctx s =
    (if \<not> sn_r s then (0, s) else (ctx, s\<lparr>sn_ctx := insert ctx (sn_ctx s), sn_live := insert ctx (sn_live s)\<rparr>))"

definition Serde_close :: "u64 \<Rightarrow> serde \<Rightarrow> serde result" where
  "Serde_close h s =
    (if h \<noteq> 0
     then bnd (check (h \<in> sn_live s) Out_of_bounds) (\<lambda>_. Inr (s\<lparr>sn_ctx := sn_ctx s - {h}, sn_live := sn_live s - {h}\<rparr>))
     else Inr s)"

definition Serde_Serialize :: "nat \<Rightarrow> wenv \<Rightarrow> u8 list \<Rightarrow> u64 \<Rightarrow> u64 \<Rightarrow> serde \<Rightarrow> u8 list result" where
  "Serde_Serialize k E out_buffer obj h s = bnd (check (h \<in> sn_live s) Out_of_bounds) (\<lambda>_. Context_serialize k E obj out_buffer)"

definition Serde_Destroy :: "serde \<Rightarrow> serde result" where
  "Serde_Destroy s = bnd (check (sn_ctx s \<subseteq> sn_live s) Out_of_bounds) (\<lambda>_. Inr (s\<lparr>sn_live := sn_live s - sn_ctx s\<rparr>))"

text \<open>What Java does with the handles it was given and has not closed.\<close>

datatype serde_use = Use_create u64 | Use_close u64 | Use_serialize nat wenv "u8 list" u64 u64

definition serde_use :: "serde_use \<Rightarrow> u64 set \<times> serde \<Rightarrow> (u64 set \<times> serde) result" where
  "serde_use x st = (case st of (hs, s) \<Rightarrow> (case x of
     Use_create ctx \<Rightarrow> let (h, s) = Serde_create ctx s in Inr (if h = 0 then hs else insert h hs, s)
   | Use_close h \<Rightarrow> if h \<in> hs then bnd (Serde_close h s) (\<lambda>s. Inr (hs - {h}, s)) else Inr (hs, s)
   | Use_serialize k E out obj h \<Rightarrow>
       if h \<in> hs
       then (case Serde_Serialize k E out obj h s of Inl e \<Rightarrow> if Context_serialize k E obj out = Inl e then Inr (hs, s) else Inl e | Inr bs \<Rightarrow> Inr (hs, s))
       else Inr (hs, s)))"

fun serde_uses :: "serde_use list \<Rightarrow> u64 set \<times> serde \<Rightarrow> (u64 set \<times> serde) result" where
  "serde_uses [] st = Inr st"
| "serde_uses (x # xs) st = bnd (serde_use x st) (serde_uses xs)"

text \<open>
  Handles are safe: whatever Java does with its handles, no context that was deleted is used or deleted again, the set is
  at every time the set of the open handles, and \<^verbatim>\<open>Destroy\<close> deletes each of them once and leaves none.
  It does not forget them, so that closing one of them afterwards deletes it again.
\<close>

lemma serde_handles_safe:
  assumes "sn_ctx s = hs" "sn_live s = hs" "0 \<notin> hs" "\<forall>ctx. Use_create ctx \<in> set xs \<longrightarrow> ctx \<noteq> 0"
  shows "\<exists>hs' s'. serde_uses xs (hs, s) = Inr (hs', s') \<and> sn_ctx s' = hs' \<and> sn_live s' = hs'
    \<and> (\<exists>s''. Serde_Destroy s' = Inr s'' \<and> sn_live s'' = {} \<and> (\<forall>h \<in> hs'. Serde_close h s'' = Inl Out_of_bounds))"
  using assms
proof (induction xs arbitrary: hs s)
  case Nil
  then show ?case by (auto simp: Serde_Destroy_def Serde_close_def check_def)
next
  case (Cons x xs)
  have "\<exists>hs1 s1. serde_use x (hs, s) = Inr (hs1, s1) \<and> sn_ctx s1 = hs1 \<and> sn_live s1 = hs1 \<and> 0 \<notin> hs1"
    using Cons.prems by (cases x) (auto simp: serde_use_def Serde_create_def Serde_close_def Serde_Serialize_def Let_def split: sum.splits)
  with Cons show ?case by (auto simp: bnd_def)
qed

end
