(* ===== verification/Spin_Lock.thy ===== *)
theory Spin_Lock
  imports Memory_Pool
begin

text \<open>
  \<^verbatim>\<open>lib/util/spin_lock.cxx\<close> and the operations of \<^verbatim>\<open>BufferPool\<close> as threads run them: one access to
  shared memory at a time. With \<^verbatim>\<open>enable_mt\<close> the lock makes them atomic, so that the model of the
  pool in which an operation is one step is the right one.
\<close>

section \<open>The lock\<close>

text \<open>Where a thread is in \<^verbatim>\<open>lock\<close>; \<open>lock_step\<close> gives \<open>None\<close> when it returns.\<close>

datatype lock_pc = Exchange | Load

fun lock_step :: "lock_pc \<Rightarrow> bool \<Rightarrow> lock_pc option \<times> bool" where
  "lock_step Exchange b = (if b then Some Load else None, True)"
| "lock_step Load b = (Some (if b then Load else Exchange), b)"

text \<open>The same for \<^verbatim>\<open>try_lock\<close>, which returns a truth value.\<close>

datatype try_pc = Try_load | Try_exchange

fun try_lock_step :: "try_pc \<Rightarrow> bool \<Rightarrow> (try_pc + bool) \<times> bool" where
  "try_lock_step Try_load b = (if b then Inr False else Inl Try_exchange, b)"
| "try_lock_step Try_exchange b = (Inr (\<not> b), True)"

definition unlock :: "bool \<Rightarrow> bool" where "unlock b = False"

section \<open>The operations of the pool, one access at a time\<close>

datatype pool_event = Acquired "MemoryRegion option" | Released MemoryRegion

datatype body = Is_empty | Front | Pop_front MemoryRegion
  | Check_piece MemoryRegion | Reset MemoryRegion | Emplace_back MemoryRegion

fun body_step :: "body \<Rightarrow> BufferPool \<Rightarrow> ((body + pool_event) \<times> BufferPool) result" where
  "body_step Is_empty p = Inr (if bp_q p = [] then Inr (Acquired None) else Inl Front, p)"
| "body_step Front p = (case bp_q p of [] \<Rightarrow> Inl Out_of_bounds | b # q \<Rightarrow> Inr (Inl (Pop_front b), p))"
| "body_step (Pop_front b) p = (case bp_q p of [] \<Rightarrow> Inl Out_of_bounds | b' # q \<Rightarrow> Inr (Inr (Acquired (Some b)), p\<lparr>bp_q := q\<rparr>))"
| "body_step (Check_piece b) p = bnd (check (bp_owns (bp_bs p) (bp_piece_size p) b) Assert_fail) (\<lambda>_. Inr (Inl (Reset b), p))"
| "body_step (Reset b) p = Inr (Inl (Emplace_back b), p\<lparr>bp_mem := buf_reset (bp_mem p) b\<rparr>)"
| "body_step (Emplace_back b) p = Inr (Inr (Released b), p\<lparr>bp_q := bp_q p @ [b]\<rparr>)"

text \<open>
  A thread is outside of the pool, waiting for the lock, between the accesses of an operation, or about
  to unlock. \<open>held\<close> are the buffers each thread has.
\<close>

datatype thread = Idle | Locking lock_pc body | Inside body | Unlocking pool_event

record mt_pool =
  lk :: bool
  pool :: BufferPool
  threads :: "thread list"
  held :: "MemoryRegion list list"

definition enter :: "bool \<Rightarrow> body \<Rightarrow> thread" where
  "enter mt x = (if mt then Locking Exchange x else Inside x)"

definition finish :: "nat \<Rightarrow> pool_event \<Rightarrow> mt_pool \<Rightarrow> mt_pool" where
  "finish i ev s = s\<lparr>threads := (threads s)[i := Idle],
     held := (case ev of Acquired (Some b) \<Rightarrow> (held s)[i := held s ! i @ [b]] | _ \<Rightarrow> held s)\<rparr>"

inductive mt_step :: "mt_pool \<Rightarrow> pool_event list \<Rightarrow> mt_pool result \<Rightarrow> bool" where
  Call_acquire: "i < length (threads s) \<Longrightarrow> threads s ! i = Idle \<Longrightarrow>
    mt_step s [] (Inr (s\<lparr>threads := (threads s)[i := enter (bp_mt (pool s)) Is_empty]\<rparr>))"
| Call_release: "i < length (threads s) \<Longrightarrow> threads s ! i = Idle \<Longrightarrow> k < length (held s ! i) \<Longrightarrow>
    mt_step s [] (Inr (s\<lparr>threads := (threads s)[i := enter (bp_mt (pool s)) (Check_piece (held s ! i ! k))],
      held := (held s)[i := take k (held s ! i) @ drop (Suc k) (held s ! i)]\<rparr>))"
| Lock: "i < length (threads s) \<Longrightarrow> threads s ! i = Locking pc x \<Longrightarrow> lock_step pc (lk s) = (r, l) \<Longrightarrow>
    mt_step s [] (Inr (s\<lparr>lk := l, threads := (threads s)[i := case r of None \<Rightarrow> Inside x | Some pc' \<Rightarrow> Locking pc' x]\<rparr>))"
| Body: "i < length (threads s) \<Longrightarrow> threads s ! i = Inside x \<Longrightarrow> body_step x (pool s) = Inr (Inl x', p) \<Longrightarrow>
    mt_step s [] (Inr (s\<lparr>pool := p, threads := (threads s)[i := Inside x']\<rparr>))"
| Body_fails: "i < length (threads s) \<Longrightarrow> threads s ! i = Inside x \<Longrightarrow> body_step x (pool s) = Inl e \<Longrightarrow>
    mt_step s [] (Inl e)"
| Body_ends: "i < length (threads s) \<Longrightarrow> threads s ! i = Inside x \<Longrightarrow> body_step x (pool s) = Inr (Inr ev, p) \<Longrightarrow> bp_mt p \<Longrightarrow>
    mt_step s [] (Inr (s\<lparr>pool := p, threads := (threads s)[i := Unlocking ev]\<rparr>))"
| Body_returns: "i < length (threads s) \<Longrightarrow> threads s ! i = Inside x \<Longrightarrow> body_step x (pool s) = Inr (Inr ev, p) \<Longrightarrow> \<not> bp_mt p \<Longrightarrow>
    mt_step s [ev] (Inr (finish i ev (s\<lparr>pool := p\<rparr>)))"
| Unlock: "i < length (threads s) \<Longrightarrow> threads s ! i = Unlocking ev \<Longrightarrow>
    mt_step s [ev] (Inr (finish i ev (s\<lparr>lk := unlock (lk s)\<rparr>)))"

text \<open>A run with the operations in the order in which they end.\<close>

inductive mt_run :: "mt_pool \<Rightarrow> pool_event list \<Rightarrow> mt_pool \<Rightarrow> bool" where
  Start: "mt_run s [] s"
| Step: "mt_run s log t \<Longrightarrow> mt_step t evs (Inr u) \<Longrightarrow> mt_run s (log @ evs) u"

section \<open>Operations as single steps\<close>

definition replay_step :: "pool_event \<Rightarrow> BufferPool \<Rightarrow> BufferPool option" where
  "replay_step ev p =
    (case ev of
       Acquired r \<Rightarrow> (case acquire_one p of (r', p') \<Rightarrow> if r' = r then Some p' else None)
     | Released b \<Rightarrow> (case release_one p b of Inl e \<Rightarrow> None | Inr p' \<Rightarrow> Some p'))"

primrec replay :: "pool_event list \<Rightarrow> BufferPool \<Rightarrow> BufferPool option" where
  "replay [] p = Some p"
| "replay (ev # evs) p = Option.bind (replay_step ev p) (replay evs)"

lemma replay_append: "replay (xs @ ys) p = Option.bind (replay xs p) (replay ys)"
proof (induction xs arbitrary: p)
  case (Cons ev xs)
  then show ?case by (cases "replay_step ev p") simp_all
qed simp

fun inside :: "thread \<Rightarrow> bool" where
  "inside (Inside x) = True"
| "inside (Unlocking ev) = True"
| "inside t = False"

text \<open>
  \<open>p\<close> is the pool after the operations that have ended; a thread inside has changed it as far as
  \<open>at\<close> says.
\<close>

fun at :: "BufferPool \<Rightarrow> thread \<Rightarrow> BufferPool \<Rightarrow> bool" where
  "at p (Inside Is_empty) q \<longleftrightarrow> q = p"
| "at p (Inside Front) q \<longleftrightarrow> q = p \<and> bp_q p \<noteq> []"
| "at p (Inside (Pop_front b)) q \<longleftrightarrow> q = p \<and> bp_q p \<noteq> [] \<and> hd (bp_q p) = b"
| "at p (Inside (Check_piece b)) q \<longleftrightarrow> q = p"
| "at p (Inside (Reset b)) q \<longleftrightarrow> q = p \<and> bp_owns (bp_bs p) (bp_piece_size p) b"
| "at p (Inside (Emplace_back b)) q \<longleftrightarrow> q = p\<lparr>bp_mem := buf_reset (bp_mem p) b\<rparr> \<and> bp_owns (bp_bs p) (bp_piece_size p) b"
| "at p (Unlocking ev) q \<longleftrightarrow> replay_step ev p = Some q"
| "at p (Locking pc x) q \<longleftrightarrow> x = Is_empty \<or> (\<exists>b. x = Check_piece b)"
| "at p Idle q \<longleftrightarrow> True"

text \<open>The buffer a thread brings back.\<close>

fun brings :: "thread \<Rightarrow> MemoryRegion list" where
  "brings (Locking pc (Check_piece b)) = [b]"
| "brings (Inside (Check_piece b)) = [b]"
| "brings (Inside (Reset b)) = [b]"
| "brings (Inside (Emplace_back b)) = [b]"
| "brings (Unlocking (Released b)) = [b]"
| "brings t = []"

definition all_buffers :: "BufferPool \<Rightarrow> mt_pool \<Rightarrow> MemoryRegion multiset" where
  "all_buffers p s = mset (bp_q p) + mset (concat (map brings (threads s))) + mset (concat (held s))"

definition lock_inv :: "MemoryRegion multiset \<Rightarrow> BufferPool \<Rightarrow> mt_pool \<Rightarrow> bool" where
  "lock_inv bufs p s \<longleftrightarrow> bp_mt p \<and> length (held s) = length (threads s)
    \<and> (\<forall>i < length (threads s). at p (threads s ! i) (pool s))
    \<and> (if lk s then \<exists>i < length (threads s). inside (threads s ! i) \<and> (\<forall>j < length (threads s). inside (threads s ! j) \<longrightarrow> j = i)
       else pool s = p \<and> (\<forall>i < length (threads s). \<not> inside (threads s ! i)))
    \<and> all_buffers p s = bufs \<and> (\<forall>b \<in># bufs. bp_owns (bp_bs p) (bp_piece_size p) b)"

section \<open>The lock keeps threads apart\<close>

lemma brings_update:
  assumes "i < length ts"
  shows "mset (concat (map brings (ts[i := t]))) + mset (brings (ts ! i)) = mset (concat (map brings ts)) + mset (brings t)"
  using mset_concat_update [of i "map brings ts" "brings t"] assms by (simp add: map_update)

lemma lock_inv_lk: "lock_inv bufs p s \<Longrightarrow> i < length (threads s) \<Longrightarrow> inside (threads s ! i) \<Longrightarrow> lk s"
  by (auto simp: lock_inv_def split: if_splits)

lemma lock_inv_unique:
  assumes "lock_inv bufs p s" "i < length (threads s)" "j < length (threads s)" "inside (threads s ! i)" "inside (threads s ! j)"
  shows "i = j"
  using assms lock_inv_lk [OF assms(1,2,4)] unfolding lock_inv_def by auto

lemma lock_inv_at: "lock_inv bufs p s \<Longrightarrow> i < length (threads s) \<Longrightarrow> at p (threads s ! i) (pool s)"
  by (simp add: lock_inv_def)

lemma lock_inv_free: "lock_inv bufs p s \<Longrightarrow> \<not> lk s \<Longrightarrow> pool s = p"
  by (simp add: lock_inv_def)

lemma lock_inv_fields:
  assumes "lock_inv bufs p s"
  shows "bp_mt p" "length (held s) = length (threads s)" "all_buffers p s = bufs" "b \<in># bufs \<Longrightarrow> bp_owns (bp_bs p) (bp_piece_size p) b"
  using assms by (simp_all add: lock_inv_def)

lemma at_mt: "at p t q \<Longrightarrow> bp_mt p \<Longrightarrow> inside t \<Longrightarrow> bp_mt q"
  by (induction p t q rule: at.induct)
    (auto simp: replay_step_def acquire_one_def release_one_def check_def split: pool_event.splits list.splits if_splits)

lemma at_outside: "\<not> inside t \<Longrightarrow> at p t q \<longleftrightarrow> at p' t q'"
  by (cases t) auto

text \<open>A thread outside the critical section changes its state, and at most the buffers it holds.\<close>

lemma lock_inv_outside:
  assumes inv: "lock_inv bufs p s" and i: "i < length (threads s)" "\<not> inside (threads s ! i)" "\<not> inside t" "\<And>q. at p t q"
    and h: "length h = length (threads s)" "mset (brings t) + mset (concat h) = mset (brings (threads s ! i)) + mset (concat (held s))"
  shows "lock_inv bufs p (s\<lparr>threads := (threads s)[i := t], held := h\<rparr>)"
proof -
  have "all_buffers p (s\<lparr>threads := (threads s)[i := t], held := h\<rparr>) = all_buffers p s"
  proof -
    let ?A = "mset (concat (map brings (threads s)))" and ?A' = "mset (concat (map brings ((threads s)[i := t])))"
    have "?A' + mset (concat h) + (mset (brings (threads s ! i)) + mset (brings t))
        = (?A' + mset (brings (threads s ! i))) + (mset (brings t) + mset (concat h))" by (simp only: ac_simps)
    also have "\<dots> = ?A + mset (concat (held s)) + (mset (brings (threads s ! i)) + mset (brings t))"
      unfolding brings_update [OF i(1)] h(2) by (simp only: ac_simps)
    finally have "?A' + mset (concat h) = ?A + mset (concat (held s))" by (rule add_right_imp_eq)
    then show ?thesis by (simp add: all_buffers_def add.assoc)
  qed
  moreover have "inside ((threads s)[i := t] ! j) \<longleftrightarrow> inside (threads s ! j)" if "j < length (threads s)" for j
    using that i by (cases "j = i") simp_all
  moreover have "at p ((threads s)[i := t] ! j) (pool s)" if "j < length (threads s)" for j
    using that i(4) lock_inv_at [OF inv that] i(1) by (cases "j = i") simp_all
  ultimately show ?thesis using inv h(1) unfolding lock_inv_def by (simp cong: conj_cong)
qed

text \<open>The thread inside goes on.\<close>

lemma lock_inv_inside:
  assumes inv: "lock_inv bufs p s" and i: "i < length (threads s)" "inside (threads s ! i)" "inside t"
    and "at p t q" "brings t = brings (threads s ! i)"
  shows "lock_inv bufs p (s\<lparr>pool := q, threads := (threads s)[i := t]\<rparr>)"
proof -
  have "all_buffers p (s\<lparr>pool := q, threads := (threads s)[i := t]\<rparr>) = all_buffers p s"
    using brings_update [OF i(1), of t] assms(6) unfolding all_buffers_def by simp
  moreover have only: "lk s" "\<And>j. j < length (threads s) \<Longrightarrow> inside (threads s ! j) \<Longrightarrow> j = i"
    using lock_inv_lk [OF inv i(1,2)] lock_inv_unique [OF inv _ i(1) _ i(2)] by blast+
  then have "at p ((threads s)[i := t] ! j) q" if "j < length (threads s)" for j
  proof (cases "j = i")
    case False
    then have "at p (threads s ! j) q" using only(2) [OF that] at_outside lock_inv_at [OF inv that] by blast
    then show ?thesis using False by simp
  qed (simp add: assms(5) i(1))
  moreover have "inside ((threads s)[i := t] ! j) \<longleftrightarrow> j = i" if "j < length (threads s)" for j
    using that i(1,3) only by (cases "j = i") auto
  ultimately show ?thesis using lock_inv_fields [OF inv] i(1,3) only(1) unfolding lock_inv_def by simp
qed

lemma lock_inv_enter:
  assumes inv: "lock_inv bufs p s" and i: "i < length (threads s)" "threads s ! i = Locking pc x" and "\<not> lk s"
  shows "lock_inv bufs p (s\<lparr>lk := True, threads := (threads s)[i := Inside x]\<rparr>)"
proof -
  have out: "\<not> inside (threads s ! j)" if "j < length (threads s)" for j
    using lock_inv_lk [OF inv that] assms(4) by blast
  have x: "x = Is_empty \<or> (\<exists>b. x = Check_piece b)" using lock_inv_at [OF inv i(1)] i(2) by simp
  then have "brings (Inside x) = brings (threads s ! i)" using i(2) by auto
  then have "all_buffers p (s\<lparr>lk := True, threads := (threads s)[i := Inside x]\<rparr>) = all_buffers p s"
    using brings_update [OF i(1), of "Inside x"] unfolding all_buffers_def by simp
  moreover have "at p ((threads s)[i := Inside x] ! j) (pool s)" if "j < length (threads s)" for j
    using that lock_inv_at [OF inv that] lock_inv_free [OF inv assms(4)] x i(1) by (cases "j = i") auto
  moreover have "inside ((threads s)[i := Inside x] ! j) \<longleftrightarrow> j = i" if "j < length (threads s)" for j
    using that out i(1) by (cases "j = i") auto
  ultimately show ?thesis using lock_inv_fields [OF inv] i(1) unfolding lock_inv_def by simp
qed

text \<open>Unlocking makes the operation of the thread the next one of the log.\<close>

lemma replay_step_buffers:
  assumes "replay_step ev p = Some q"
  shows "bp_mt q = bp_mt p" "bp_bs q = bp_bs p" "bp_piece_size q = bp_piece_size p"
    "mset (bp_q q) + (case ev of Acquired (Some b) \<Rightarrow> {#b#} | _ \<Rightarrow> {#}) = mset (bp_q p) + mset (brings (Unlocking ev))"
  using assms by (auto simp: replay_step_def acquire_one_def release_one_def check_def split: pool_event.splits list.splits if_splits)

lemma held_snoc:
  assumes "i < length h"
  shows "mset (concat (h[i := h ! i @ [b]])) = add_mset b (mset (concat h))"
proof -
  have "mset (concat (h[i := h ! i @ [b]])) + mset (h ! i) = add_mset b (mset (concat h)) + mset (h ! i)"
    using mset_concat_update [OF assms, of "h ! i @ [b]"] by simp
  then show ?thesis by (rule add_right_imp_eq)
qed

lemma lock_inv_leave:
  assumes inv: "lock_inv bufs p s" and i: "i < length (threads s)" "threads s ! i = Unlocking ev"
  shows "replay_step ev p = Some (pool s)" "lock_inv bufs (pool s) (finish i ev (s\<lparr>lk := False\<rparr>))"
proof -
  show r: "replay_step ev p = Some (pool s)" using lock_inv_at [OF inv i(1)] i(2) by simp
  let ?s = "finish i ev (s\<lparr>lk := False\<rparr>)" and ?x = "case ev of Acquired (Some b) \<Rightarrow> {#b#} | _ \<Rightarrow> {#}"
  have out: "\<not> inside (threads s ! j)" if "j < length (threads s)" "j \<noteq> i" for j
    using lock_inv_unique [OF inv i(1) that(1)] i(2) that(2) by auto
  have "at (pool s) (threads ?s ! j) (pool s) \<and> \<not> inside (threads ?s ! j)" if "j < length (threads s)" for j
    using out [OF that] that i(1) lock_inv_at [OF inv that] at_outside [of "threads s ! j" p "pool s" "pool s" "pool s"]
    by (cases "j = i") (auto simp: finish_def)
  moreover have "mset (concat (held ?s)) = mset (concat (held s)) + ?x"
    using held_snoc [of i "held s"] i(1) lock_inv_fields(2) [OF inv]
    by (auto simp: finish_def split: pool_event.splits option.splits)
  then have "all_buffers (pool s) ?s = all_buffers p s"
  proof -
    assume h: "mset (concat (held ?s)) = mset (concat (held s)) + ?x"
    have "mset (concat (map brings (threads s))) = mset (concat (map brings (threads ?s))) + mset (brings (Unlocking ev))"
      using brings_update [OF i(1), of Idle] i(2) by (simp add: finish_def)
    then have "all_buffers p s = mset (bp_q p) + mset (brings (Unlocking ev)) + mset (concat (map brings (threads ?s))) + mset (concat (held s))"
      unfolding all_buffers_def by (simp only: ac_simps)
    also have "\<dots> = all_buffers (pool s) ?s"
      unfolding all_buffers_def h replay_step_buffers(4) [OF r, symmetric] by (simp only: ac_simps)
    finally show ?thesis by simp
  qed
  ultimately show "lock_inv bufs (pool s) ?s"
    using lock_inv_fields [OF inv] replay_step_buffers(1-3) [OF r] unfolding lock_inv_def
    by (simp add: finish_def split: pool_event.splits option.splits)
qed

lemma body_step_at:
  assumes "at p (Inside x) q" "bp_mt p" "\<And>b. b \<in> set (brings (Inside x)) \<Longrightarrow> bp_owns (bp_bs p) (bp_piece_size p) b"
  shows "\<exists>y q'. body_step x q = Inr (y, q') \<and> bp_mt q' \<and>
    (case y of Inl x' \<Rightarrow> at p (Inside x') q' \<and> brings (Inside x') = brings (Inside x)
             | Inr ev \<Rightarrow> at p (Unlocking ev) q' \<and> brings (Unlocking ev) = brings (Inside x))"
  using assms by (cases x) (auto simp: replay_step_def acquire_one_def release_one_def neq_Nil_conv)

lemma brings_owned:
  assumes "lock_inv bufs p s" "i < length (threads s)" "b \<in> set (brings (threads s ! i))"
  shows "bp_owns (bp_bs p) (bp_piece_size p) b"
proof -
  have "b \<in> set (concat (map brings (threads s)))" using assms(2,3) nth_mem by auto
  then have "b \<in># all_buffers p s" unfolding all_buffers_def by simp
  then show ?thesis using lock_inv_fields(3,4) [OF assms(1)] by blast
qed

lemma lock_inv_mt:
  assumes "lock_inv bufs p s"
  shows "bp_mt (pool s)"
proof (cases "lk s")
  case True
  then obtain i where "i < length (threads s)" "inside (threads s ! i)" using assms by (auto simp: lock_inv_def)
  then show ?thesis using at_mt lock_inv_at [OF assms] lock_inv_fields(1) [OF assms] by blast
next
  case False
  then show ?thesis using lock_inv_free lock_inv_fields(1) assms by metis
qed

lemma mt_step_inv:
  assumes "mt_step s evs r" "lock_inv bufs p s"
  shows "\<exists>u p'. r = Inr u \<and> replay evs p = Some p' \<and> lock_inv bufs p' u"
  using assms
proof (induction rule: mt_step.induct)
  case (Call_acquire i s)
  then show ?case using lock_inv_outside [of bufs p s i "Locking Exchange Is_empty" "held s"]
    by (simp add: enter_def lock_inv_mt lock_inv_fields)
next
  case (Call_release i s k)
  let ?r = "take k (held s ! i) @ drop (Suc k) (held s ! i)"
  have "mset (concat ((held s)[i := ?r])) + mset (held s ! i) = mset (concat (held s)) + mset ?r"
    using mset_concat_update [of i "held s"] Call_release lock_inv_fields(2) by metis
  then have "add_mset (held s ! i ! k) (mset (concat ((held s)[i := ?r]))) + mset (held s ! i)
      = mset (concat (held s)) + add_mset (held s ! i ! k) (mset ?r)"
    by (simp only: union_mset_add_mset_left union_mset_add_mset_right)
  then have "add_mset (held s ! i ! k) (mset (concat ((held s)[i := ?r]))) = mset (concat (held s))"
    unfolding mset_remove_nth [OF Call_release(3)] by (rule add_right_imp_eq)
  then show ?case
    using Call_release lock_inv_outside [of bufs p s i "Locking Exchange (Check_piece (held s ! i ! k))" "(held s)[i := take k (held s ! i) @ drop (Suc k) (held s ! i)]"]
    by (simp add: enter_def lock_inv_mt lock_inv_fields)
next
  case (Lock i s pc x r l)
  note inv = Lock.prems
  have x: "x = Is_empty \<or> (\<exists>b. x = Check_piece b)" using lock_inv_at [OF inv Lock(1)] Lock(2) by simp
  show ?case
  proof (cases r)
    case None
    then have "\<not> lk s" "l" using Lock(3) by (cases pc; simp split: if_splits)+
    then show ?thesis using lock_inv_enter [OF inv Lock(1,2)] None by simp
  next
    case (Some pc')
    then have "l = lk s" using Lock(3) by (cases pc; auto split: if_splits)
    moreover have "brings (Locking pc' x) = brings (threads s ! i)" using x Lock(2) by auto
    ultimately show ?thesis
      using lock_inv_outside [OF inv Lock(1), of "Locking pc' x" "held s"] Lock(2) Some x lock_inv_fields(2) [OF inv] by simp
  qed
next
  case (Body i s x x' q)
  then show ?case using body_step_at [of p x "pool s"] lock_inv_inside [of bufs p s i "Inside x'" q] lock_inv_at [of bufs p s i]
      lock_inv_fields(1) [of bufs p s] brings_owned [of bufs p s i] by simp
next
  case (Body_fails i s x e)
  then show ?case using body_step_at [of p x "pool s"] lock_inv_at [of bufs p s i]
      lock_inv_fields(1) [of bufs p s] brings_owned [of bufs p s i] by simp
next
  case (Body_ends i s x ev q)
  then show ?case using body_step_at [of p x "pool s"] lock_inv_inside [of bufs p s i "Unlocking ev" q] lock_inv_at [of bufs p s i]
      lock_inv_fields(1) [of bufs p s] brings_owned [of bufs p s i] by simp
next
  case (Body_returns i s x ev q)
  then show ?case using body_step_at [of p x "pool s"] lock_inv_at [of bufs p s i]
      lock_inv_fields(1) [of bufs p s] brings_owned [of bufs p s i] by simp
next
  case (Unlock i s ev)
  then show ?case using lock_inv_leave [of bufs p s i ev] by (simp add: unlock_def)
qed

lemma mt_run_inv:
  assumes "mt_run s log t" "lock_inv bufs p s"
  shows "\<exists>p'. replay log p = Some p' \<and> lock_inv bufs p' t"
  using assms
proof (induction rule: mt_run.induct)
  case (Step s log t evs u)
  then obtain p' where p': "replay log p = Some p'" "lock_inv bufs p' t" by blast
  with mt_step_inv [OF Step(2) p'(2)] show ?case by (auto simp: replay_append)
qed auto

text \<open>A pool with threads that have not used it yet.\<close>

definition mt_new :: "nat \<Rightarrow> BufferPool \<Rightarrow> mt_pool" where
  "mt_new n p = \<lparr>lk = False, pool = p, threads = replicate n Idle, held = replicate n []\<rparr>"

lemma concat_replicate_Nil: "concat (replicate n []) = []"
  by (induction n) simp_all

lemma mt_new_inv:
  assumes "bp_mt p" "\<forall>b \<in> set (bp_q p). bp_owns (bp_bs p) (bp_piece_size p) b"
  shows "lock_inv (mset (bp_q p)) p (mt_new n p)"
  using assms by (simp add: lock_inv_def mt_new_def all_buffers_def concat_replicate_Nil)

text \<open>
  C33. The spin lock makes the operations of a pool with \<^verbatim>\<open>enable_mt\<close> atomic. However the memory accesses of
  any number of threads interleave, at most one thread is between \<^verbatim>\<open>lock\<close> and \<^verbatim>\<open>unlock\<close>, no
  access fails, every operation that has ended had the result it has when the operations are run one
  after the other in the order of their ends, and when no thread is inside, the pool is as that run leaves it.
  No buffer is held twice or held while it is free.
\<close>

theorem spin_lock_atomic:
  assumes "mt_run (mt_new n (enable_mt (bp_new bs piece handles m))) log s"
    and "distinct handles" "\<forall>b \<in> set handles. bp_owns bs piece b"
  shows "(\<forall>i < n. \<forall>j < n. inside (threads s ! i) \<and> inside (threads s ! j) \<longrightarrow> i = j)
    \<and> (\<forall>evs e. \<not> mt_step s evs (Inl e))
    \<and> (\<exists>p. replay log (enable_mt (bp_new bs piece handles m)) = Some p \<and> ((\<forall>i < n. \<not> inside (threads s ! i)) \<longrightarrow> pool s = p)
        \<and> distinct (bp_q p @ concat (held s)) \<and> set (bp_q p @ concat (held s)) \<subseteq> set handles)"
proof -
  let ?p = "enable_mt (bp_new bs piece handles m)"
  have "lock_inv (mset handles) ?p (mt_new n ?p)"
    using mt_new_inv [of ?p n] assms(3) by (simp add: enable_mt_def bp_new_def)
  from mt_run_inv [OF assms(1) this] obtain p where p: "replay log ?p = Some p" "lock_inv (mset handles) p s" by blast
  have n: "length (threads s) = n" using assms(1)
  proof (induction "mt_new n ?p" log s rule: mt_run.induct)
    case (Step log t evs u)
    from Step(3,2) show ?case by (cases rule: mt_step.cases) (auto simp: finish_def)
  qed (simp add: mt_new_def)
  have "pool s = p" if "\<forall>i < n. \<not> inside (threads s ! i)"
    using p(2) that n unfolding lock_inv_def by (auto split: if_splits)
  moreover have all: "mset ((bp_q p @ concat (held s)) @ concat (map brings (threads s))) = mset handles"
    using lock_inv_fields(3) [OF p(2)] by (simp add: all_buffers_def ac_simps)
  then have "set (bp_q p @ concat (held s)) \<subseteq> set handles" using mset_eq_setD [OF all] by auto
  moreover have "distinct (bp_q p @ concat (held s))"
    using mset_eq_imp_distinct_iff [OF all] assms(2) unfolding distinct_append [of "bp_q p @ _"] by blast
  ultimately show ?thesis
    using p(1) lock_inv_unique [OF p(2)] n mt_step_inv [OF _ p(2)] by (intro conjI allI impI exI [of _ p]) (blast | simp)+
qed

section \<open>Every operation can end\<close>

fun steps_left :: "thread \<Rightarrow> nat" where
  "steps_left Idle = 0"
| "steps_left (Unlocking ev) = 1"
| "steps_left (Inside (Pop_front b)) = 2"
| "steps_left (Inside (Emplace_back b)) = 2"
| "steps_left (Inside Front) = 3"
| "steps_left (Inside (Reset b)) = 3"
| "steps_left (Inside Is_empty) = 4"
| "steps_left (Inside (Check_piece b)) = 4"
| "steps_left (Locking Exchange x) = 5"
| "steps_left (Locking Load x) = 6"

definition work_left :: "mt_pool \<Rightarrow> nat" where
  "work_left s = sum_list (map steps_left (threads s))"

lemma work_left_less:
  assumes "i < length (threads s)" "steps_left t < steps_left (threads s ! i)" "threads u = (threads s)[i := t]"
  shows "work_left u < work_left s"
proof -
  have "sum_list (map steps_left ((threads s)[i := t])) + steps_left (threads s ! i) = sum_list (map steps_left (threads s)) + steps_left t"
    using assms(1) elem_le_sum_list [of i "map steps_left (threads s)"] by (simp add: map_update sum_list_update)
  then show ?thesis using assms(2,3) by (simp add: work_left_def)
qed

lemma progressI:
  assumes "mt_step s evs (Inr u)" "i < length (threads s)" "threads u = (threads s)[i := t]" "steps_left t < steps_left (threads s ! i)"
  shows "\<exists>evs u. mt_step s evs (Inr u) \<and> work_left u < work_left s"
  using assms(1) work_left_less [OF assms(2,4,3)] by blast

lemma body_step_less:
  assumes "at p (Inside x) q" "body_step x q = Inr (y, q')"
  shows "steps_left (case y of Inl x' \<Rightarrow> Inside x' | Inr ev \<Rightarrow> Unlocking ev) < steps_left (Inside x)"
  using assms by (cases x) (auto split: list.splits if_splits)

text \<open>While a thread has something to do, some thread can take a step that brings the end nearer.\<close>

lemma mt_progress:
  assumes inv: "lock_inv bufs p s" and "\<exists>t \<in> set (threads s). t \<noteq> Idle"
  shows "\<exists>evs u. mt_step s evs (Inr u) \<and> work_left u < work_left s"
proof (cases "lk s")
  case True
  then obtain i where i: "i < length (threads s)" "inside (threads s ! i)" using inv by (auto simp: lock_inv_def)
  show ?thesis
  proof (cases "threads s ! i")
    case (Inside x)
    from body_step_at [of p x "pool s"] lock_inv_at [OF inv i(1)] lock_inv_fields(1) [OF inv] brings_owned [OF inv i(1)] Inside
    obtain y q where y: "body_step x (pool s) = Inr (y, q)" "bp_mt q" by auto
    have less: "steps_left (case y of Inl x' \<Rightarrow> Inside x' | Inr ev \<Rightarrow> Unlocking ev) < steps_left (threads s ! i)"
      using body_step_less [OF _ y(1), of p] lock_inv_at [OF inv i(1)] Inside by simp
    show ?thesis
    proof (cases y)
      case (Inl x')
      with y(1) have "body_step x (pool s) = Inr (Inl x', q)" by simp
      from progressI [OF Body [OF i(1) Inside this] i(1)] less Inl show ?thesis by simp
    next
      case (Inr ev)
      with y(1) have "body_step x (pool s) = Inr (Inr ev, q)" by simp
      from progressI [OF Body_ends [OF i(1) Inside this y(2)] i(1)] less Inr show ?thesis by simp
    qed
  next
    case (Unlocking ev)
    from progressI [OF mt_step.Unlock [OF i(1) this] i(1), of Idle] Unlocking show ?thesis by (simp add: finish_def)
  qed (use i in simp_all)
next
  case False
  obtain i where i: "i < length (threads s)" "threads s ! i \<noteq> Idle" using assms(2) by (auto simp: in_set_conv_nth)
  with lock_inv_lk [OF inv i(1)] False obtain pc x where l: "threads s ! i = Locking pc x" by (cases "threads s ! i") auto
  have x: "x = Is_empty \<or> (\<exists>b. x = Check_piece b)" using lock_inv_at [OF inv i(1)] l by simp
  obtain r b where r: "lock_step pc (lk s) = (r, b)" by fastforce
  then have "steps_left (case r of None \<Rightarrow> Inside x | Some pc' \<Rightarrow> Locking pc' x) < steps_left (threads s ! i)"
    using l x False by (cases pc) auto
  with progressI [OF mt_step.Lock [OF i(1) l r] i(1)] show ?thesis by simp
qed

lemma mt_run_trans: "mt_run s log t \<Longrightarrow> mt_run u log' s \<Longrightarrow> mt_run u (log' @ log) t"
proof (induction rule: mt_run.induct)
  case (Step s log t evs v)
  from mt_run.Step [OF Step(3) [OF Step(4)] Step(2)] show ?case by simp
qed simp

lemma mt_can_end:
  assumes "lock_inv bufs p s"
  shows "\<exists>log t. mt_run s log t \<and> (\<forall>x \<in> set (threads t). x = Idle)"
  using assms
proof (induction "work_left s" arbitrary: p s rule: less_induct)
  case less
  show ?case
  proof (cases "\<exists>t \<in> set (threads s). t \<noteq> Idle")
    case True
    from mt_progress [OF less(2) this] obtain evs u where u: "mt_step s evs (Inr u)" "work_left u < work_left s" by blast
    from mt_step_inv [OF u(1) less(2)] obtain p' where "lock_inv bufs p' u" by auto
    from less(1) [OF u(2) this] obtain log t where "mt_run u log t" "\<forall>x \<in> set (threads t). x = Idle" by blast
    with mt_run_trans [OF this(1) mt_run.Step [OF mt_run.Start u(1)]] show ?thesis by blast
  qed (blast intro: mt_run.Start)
qed

text \<open>
  C34. The lock never leads to a deadlock: from every state that threads on a pool with \<^verbatim>\<open>enable_mt\<close>
  can reach, they can go on so that every operation ends, and then every buffer is free or held.
\<close>

theorem spin_lock_no_deadlock:
  assumes "mt_run (mt_new n (enable_mt (bp_new bs piece handles m))) log s" "\<forall>b \<in> set handles. bp_owns bs piece b"
  shows "\<exists>log' t. mt_run s log' t \<and> (\<forall>x \<in> set (threads t). x = Idle) \<and> mset (bp_q (pool t) @ concat (held t)) = mset handles"
proof -
  let ?p = "enable_mt (bp_new bs piece handles m)"
  have "lock_inv (mset handles) ?p (mt_new n ?p)"
    using mt_new_inv [of ?p n] assms(2) by (simp add: enable_mt_def bp_new_def)
  from mt_run_inv [OF assms(1) this] obtain p where p: "lock_inv (mset handles) p s" by blast
  from mt_can_end [OF this] obtain log' t where t: "mt_run s log' t" "\<forall>x \<in> set (threads t). x = Idle" by blast
  from mt_run_inv [OF t(1) p] obtain q where q: "lock_inv (mset handles) q t" by blast
  have "\<not> inside (threads t ! i)" if "i < length (threads t)" for i using t(2) nth_mem [OF that] by auto
  then have "pool t = q" using q unfolding lock_inv_def by (auto split: if_splits)
  moreover have "mset (concat (map brings (threads t))) = {#}" using t(2) by auto
  ultimately have "mset (bp_q (pool t) @ concat (held t)) = mset handles"
    using lock_inv_fields(3) [OF q] by (simp only: all_buffers_def mset_append add_0_right)
  with t show ?thesis by blast
qed

section \<open>Concrete runs\<close>

definition one_piece :: MemoryRegion where "one_piece = \<lparr>mr_base = 64, mr_len = 16\<rparr>"

definition one_piece_pool :: BufferPool where "one_piece_pool = bp_new one_piece 16 [one_piece] (\<lambda>_. 7)"

lemma one_piece_pool_simps [simp]:
  "bp_q one_piece_pool = [one_piece]" "\<not> bp_mt one_piece_pool" "bp_q (enable_mt p) = bp_q p" "bp_mt (enable_mt p)" "bp_owns one_piece 16 one_piece"
  by (simp_all add: one_piece_pool_def bp_new_def enable_mt_def bp_owns_def one_piece_def)

text \<open>The second thread waits while the first is inside.\<close>

lemma two_threads_run:
  "mt_run (mt_new 2 (enable_mt one_piece_pool)) []
    \<lparr>lk = True, pool = enable_mt one_piece_pool, threads = [Inside Front, Locking Load Is_empty], held = [[], []]\<rparr>"
proof -
  let ?s = "\<lambda>l ts. \<lparr>lk = l, pool = enable_mt one_piece_pool, threads = ts, held = [[], []]\<rparr>"
  have 0: "mt_new 2 (enable_mt one_piece_pool) = ?s False [Idle, Idle]" by (simp add: mt_new_def numeral_2_eq_2)
  have "mt_run (?s False [Idle, Idle]) [] (?s False [Locking Exchange Is_empty, Idle])"
    using mt_run.Step [OF mt_run.Start Call_acquire [of 0 "?s False [Idle, Idle]"]] by (simp add: enter_def)
  from mt_run.Step [OF this Call_acquire [of 1]]
  have "mt_run (?s False [Idle, Idle]) [] (?s False [Locking Exchange Is_empty, Locking Exchange Is_empty])" by (simp add: enter_def)
  from mt_run.Step [OF this mt_step.Lock [of 0]]
  have "mt_run (?s False [Idle, Idle]) [] (?s True [Inside Is_empty, Locking Exchange Is_empty])" by simp
  from mt_run.Step [OF this mt_step.Lock [of 1]]
  have "mt_run (?s False [Idle, Idle]) [] (?s True [Inside Is_empty, Locking Load Is_empty])" by simp
  from mt_run.Step [OF this Body [of 0]] show ?thesis by (simp add: 0)
qed

theorem spin_lock_atomic_witness:
  "\<exists>s. mt_run (mt_new 2 (enable_mt one_piece_pool)) [] s \<and> inside (threads s ! 0) \<and> \<not> inside (threads s ! 1)
    \<and> (\<forall>evs e. \<not> mt_step s evs (Inl e))"
  using two_threads_run spin_lock_atomic [OF two_threads_run [unfolded one_piece_pool_def]]
  by (intro exI conjI) (assumption | force simp: one_piece_pool_def)+

theorem spin_lock_no_deadlock_witness:
  "\<exists>s log t. mt_run (mt_new 2 (enable_mt one_piece_pool)) [] s \<and> inside (threads s ! 0) \<and> mt_run s log t
    \<and> (\<forall>x \<in> set (threads t). x = Idle) \<and> mset (bp_q (pool t) @ concat (held t)) = {#one_piece#}"
  using two_threads_run spin_lock_no_deadlock [OF two_threads_run [unfolded one_piece_pool_def]]
  by (fastforce simp: one_piece_pool_def)

text \<open>Without \<^verbatim>\<open>enable_mt\<close> two threads can get the same buffer.\<close>

lemma no_lock_race:
  assumes "\<not> bp_mt p" "bp_q p = [x, y]"
  shows "\<exists>s. mt_run (mt_new 2 p) [Acquired (Some x), Acquired (Some x)] s \<and> held s = [[x], [x]] \<and> bp_q (pool s) = []"
proof -
  let ?s = "\<lambda>ts. \<lparr>lk = False, pool = p, threads = ts, held = [[], []]\<rparr>"
  have 0: "mt_new 2 p = ?s [Idle, Idle]" by (simp add: mt_new_def numeral_2_eq_2)
  have "mt_run (?s [Idle, Idle]) [] (?s [Inside Is_empty, Idle])"
    using mt_run.Step [OF mt_run.Start Call_acquire [of 0 "?s [Idle, Idle]"]] assms by (simp add: enter_def)
  from mt_run.Step [OF this Call_acquire [of 1]]
  have "mt_run (?s [Idle, Idle]) [] (?s [Inside Is_empty, Inside Is_empty])" using assms by (simp add: enter_def)
  from mt_run.Step [OF this Body [of 0]] have "mt_run (?s [Idle, Idle]) [] (?s [Inside Front, Inside Is_empty])" using assms by simp
  from mt_run.Step [OF this Body [of 0]] have "mt_run (?s [Idle, Idle]) [] (?s [Inside (Pop_front x), Inside Is_empty])" using assms by simp
  from mt_run.Step [OF this Body [of 1]] have "mt_run (?s [Idle, Idle]) [] (?s [Inside (Pop_front x), Inside Front])" using assms by simp
  from mt_run.Step [OF this Body [of 1]] have "mt_run (?s [Idle, Idle]) [] (?s [Inside (Pop_front x), Inside (Pop_front x)])" using assms by simp
  from mt_run.Step [OF this Body_returns [where i = 0 and ev = "Acquired (Some x)" and p = "p\<lparr>bp_q := [y]\<rparr>"]]
  have "mt_run (?s [Idle, Idle]) [Acquired (Some x)] \<lparr>lk = False, pool = p\<lparr>bp_q := [y]\<rparr>, threads = [Idle, Inside (Pop_front x)], held = [[x], []]\<rparr>"
    using assms by (simp add: finish_def)
  from mt_run.Step [OF this Body_returns [where i = 1 and ev = "Acquired (Some x)" and p = "p\<lparr>bp_q := []\<rparr>"]] show ?thesis using assms by (auto simp: finish_def 0)
qed

end
